(* ===== verification/Prelude.thy ===== *)
theory Prelude
  imports Main "HOL-Library.Word"
begin

text \<open>
  Shared vocabulary of the development: the machine types of the firmware, the faults a C
  statement can run into, checked access to fixed C arrays, the byte layout of 16 and 32 bit
  integers, and the interfaces (locales) of the byte oriented receivers and of the checksums.
\<close>

unbundle bit_operations_syntax

section \<open>Machine types and faults\<close>

type_synonym u8 = "8 word"
type_synonym u16 = "16 word"
type_synonym u32 = "32 word"
type_synonym u64 = "64 word"

text \<open>
  What C leaves undefined is a value of the model: a null pointer that is followed, an index
  outside its array, a call through a null function pointer, a floating point value cast to an integer
  type that cannot hold it, a signed integer that overflows, and a division by zero. So is a failed
  assertion of the firmware, which loops for ever.
\<close>

datatype c_fault = NullDeref | OutOfBounds | NullCall | BadCast | Overflow | DivByZero | Stuck

type_synonym 'a cres = "c_fault + 'a"

fun cbind :: "'a cres \<Rightarrow> ('a \<Rightarrow> 'b cres) \<Rightarrow> 'b cres" where
  "cbind (Inl e) f = Inl e"
| "cbind (Inr x) f = f x"

definition no_fault :: "'a cres \<Rightarrow> bool" where
  "no_fault r = (case r of Inl _ \<Rightarrow> False | Inr _ \<Rightarrow> True)"

lemma no_fault_simps [simp]: "no_fault (Inr x)" "\<not> no_fault (Inl e)"
  by (simp_all add: no_fault_def)

lemma no_fault_iff: "no_fault r \<longleftrightarrow> (\<exists>x. r = Inr x)"
  by (cases r) auto

lemma cbind_eq_Inr [simp]: "cbind r f = Inr y \<longleftrightarrow> (\<exists>x. r = Inr x \<and> f x = Inr y)"
  by (cases r) auto

lemma cbind_assoc [simp]: "cbind (cbind r f) g = cbind r (\<lambda>x. cbind (f x) g)"
  by (cases r) auto

text \<open>Every value a computation returns satisfies \<open>Q\<close>; a fault says nothing.\<close>

definition ensured :: "'a cres \<Rightarrow> ('a \<Rightarrow> bool) \<Rightarrow> bool" where
  "ensured r Q = (case r of Inl _ \<Rightarrow> True | Inr x \<Rightarrow> Q x)"

lemma ensured_simps [simp]:
  "ensured (Inl e) Q" "ensured (Inr x) Q \<longleftrightarrow> Q x"
  "ensured (if b then r else r') Q \<longleftrightarrow> (if b then ensured r Q else ensured r' Q)"
  by (simp_all add: ensured_def)

lemma ensured_cbind [simp]: "ensured (cbind r f) Q \<longleftrightarrow> ensured r (\<lambda>x. ensured (f x) Q)"
  by (cases r) simp_all

lemma ensuredD: "ensured r Q \<Longrightarrow> r = Inr x \<Longrightarrow> Q x"
  by simp

lemma ensuredI: "(\<And>x. r = Inr x \<Longrightarrow> Q x) \<Longrightarrow> ensured r Q"
  by (cases r) auto

lemma ensured_mono: "ensured r P \<Longrightarrow> (\<And>x. P x \<Longrightarrow> Q x) \<Longrightarrow> ensured r Q"
  by (cases r) auto

text \<open>The result of an \<^verbatim>\<open>int\<close> operation.\<close>

definition chk32 :: "int \<Rightarrow> int cres" where
  "chk32 n = (if - (2 ^ 31) \<le> n \<and> n < 2 ^ 31 then Inr n else Inl Overflow)"

lemma chk32_ok [simp]: "- (2 ^ 31) \<le> n \<Longrightarrow> n < 2 ^ 31 \<Longrightarrow> chk32 n = Inr n"
  by (simp add: chk32_def)

section \<open>Checked arrays\<close>

definition rd :: "'a list \<Rightarrow> nat \<Rightarrow> 'a cres" where
  "rd xs i = (if i < length xs then Inr (xs ! i) else Inl OutOfBounds)"

definition wr :: "'a list \<Rightarrow> nat \<Rightarrow> 'a \<Rightarrow> 'a list cres" where
  "wr xs i v = (if i < length xs then Inr (xs[i := v]) else Inl OutOfBounds)"

text \<open>The first \<open>n\<close> elements of an array, as a loop or a copy of \<open>n\<close> elements reads them.\<close>

definition rd_n :: "'a list \<Rightarrow> nat \<Rightarrow> 'a list cres" where
  "rd_n xs n = (if n \<le> length xs then Inr (take n xs) else Inl OutOfBounds)"

text \<open>\<open>memcpy(dst + at, src, length src)\<close>.\<close>

definition cpy :: "'a list \<Rightarrow> nat \<Rightarrow> 'a list \<Rightarrow> 'a list cres" where
  "cpy dst at src =
     (if at + length src \<le> length dst
      then Inr (take at dst @ src @ drop (at + length src) dst) else Inl OutOfBounds)"

lemma rd_ok [simp]: "i < length xs \<Longrightarrow> rd xs i = Inr (xs ! i)"
  by (simp add: rd_def)

lemma wr_ok [simp]: "i < length xs \<Longrightarrow> wr xs i v = Inr (xs[i := v])"
  by (simp add: wr_def)

lemma rd_n_ok [simp]: "n \<le> length xs \<Longrightarrow> rd_n xs n = Inr (take n xs)"
  by (simp add: rd_n_def)

lemma cpy_ok [simp]:
  "at + length src \<le> length dst \<Longrightarrow>
     cpy dst at src = Inr (take at dst @ src @ drop (at + length src) dst)"
  by (simp add: cpy_def)

lemma wr_length: "wr xs i v = Inr ys \<Longrightarrow> length ys = length xs"
  by (auto simp: wr_def split: if_splits)

lemma take_Suc_update [simp]: "i < length xs \<Longrightarrow> take (Suc i) (xs[i := v]) = take i xs @ [v]"
  by (simp add: take_Suc_conv_app_nth)

lemma list_update_numeral [simp]:
  "(x # xs)[numeral v := y] = x # xs[pred_numeral v := y]"
  by (simp add: numeral_eq_Suc)

lemma replicate_numeral_eq: "replicate (numeral v) x = x # replicate (pred_numeral v) x"
  by (simp add: numeral_eq_Suc)

lemma full_update: "length xs = Suc p \<Longrightarrow> xs[p := v] = take p xs @ [v]"
  by (simp add: upd_conv_take_nth_drop)

lemma unat_u8_of_nat [simp]: "n < 256 \<Longrightarrow> unat (of_nat n :: u8) = n"
  by (simp add: unsigned_of_nat take_bit_nat_eq_self)

lemma unat_u32_of_nat [simp]: "n < 2 ^ 32 \<Longrightarrow> unat (of_nat n :: u32) = n"
  by (simp add: unsigned_of_nat take_bit_nat_eq_self)

lemma unat_u32_inc: "unat x < 2 ^ 32 - 1 \<Longrightarrow> unat (x + 1) = unat x + 1" for x :: u32
proof -
  assume "unat x < 2 ^ 32 - 1"
  then have "unat (of_nat (unat x + 1) :: u32) = unat x + 1" by (intro unat_u32_of_nat) simp
  then show ?thesis by (simp add: add.commute)
qed

lemma unat_u8_inc: "unat x < 255 \<Longrightarrow> unat (x + 1) = unat x + 1" for x :: u8
proof -
  assume "unat x < 255"
  then have "unat (of_nat (unat x + 1) :: u8) = unat x + 1" by (intro unat_u8_of_nat) simp
  then show ?thesis by (simp add: add.commute)
qed

lemma unat_lt2p_u8 [simp]: "unat (w :: u8) < 256"
  by (rule order_less_le_trans [OF unsigned_less]) simp

section \<open>Bytes of wider integers\<close>

definition hi8 :: "u16 \<Rightarrow> u8" where "hi8 w = ucast (drop_bit 8 w)"
definition lo8 :: "u16 \<Rightarrow> u8" where "lo8 w = ucast w"

definition mk16 :: "u8 \<Rightarrow> u8 \<Rightarrow> u16" where
  "mk16 h l = push_bit 8 (ucast h) OR ucast l"

text \<open>Byte number \<open>k\<close> (0 is the least significant) of a 32 bit value.\<close>

definition byte32 :: "nat \<Rightarrow> u32 \<Rightarrow> u8" where "byte32 k w = ucast (drop_bit (8 * k) w)"

definition mk32 :: "u8 \<Rightarrow> u8 \<Rightarrow> u8 \<Rightarrow> u8 \<Rightarrow> u32" where
  "mk32 b3 b2 b1 b0 =
     push_bit 24 (ucast b3) OR push_bit 16 (ucast b2) OR push_bit 8 (ucast b1) OR ucast b0"

named_theorems bytes_simps

lemma bit_u8_high [simp]: "\<not> bit (b :: u8) n" if "8 \<le> n" for n
  using that by (auto dest!: bit_imp_le_length)

lemma hi8_mk16 [simp, bytes_simps]: "hi8 (mk16 h l) = h"
  by (rule bit_word_eqI) (auto simp: hi8_def mk16_def bit_simps)

lemma lo8_mk16 [simp, bytes_simps]: "lo8 (mk16 h l) = l"
  by (rule bit_word_eqI) (auto simp: lo8_def mk16_def bit_simps)

lemma mk16_hi_lo [simp, bytes_simps]: "mk16 (hi8 w) (lo8 w) = w"
proof (rule bit_word_eqI)
  fix n assume "n < LENGTH(16)"
  then show "bit (mk16 (hi8 w) (lo8 w)) n \<longleftrightarrow> bit w n"
    by (cases "n < 8") (auto simp: hi8_def lo8_def mk16_def bit_simps)
qed

lemma mk16_inject [simp]: "mk16 h l = mk16 h' l' \<longleftrightarrow> h = h' \<and> l = l'"
  by (metis hi8_mk16 lo8_mk16)

lemma mk32_bytes [simp, bytes_simps]:
  "byte32 0 (mk32 b3 b2 b1 b0) = b0" "byte32 1 (mk32 b3 b2 b1 b0) = b1"
  "byte32 2 (mk32 b3 b2 b1 b0) = b2" "byte32 3 (mk32 b3 b2 b1 b0) = b3"
  by (rule bit_word_eqI, auto simp: byte32_def mk32_def bit_simps)+

lemma mk32_of_bytes [simp, bytes_simps]:
  "mk32 (byte32 3 w) (byte32 2 w) (byte32 1 w) (byte32 0 w) = w"
proof (rule bit_word_eqI)
  fix n assume "n < LENGTH(32)"
  then consider "n < 8" | "8 \<le> n \<and> n < 16" | "16 \<le> n \<and> n < 24" | "24 \<le> n \<and> n < 32"
    by fastforce
  then show "bit (mk32 (byte32 3 w) (byte32 2 w) (byte32 1 w) (byte32 0 w)) n \<longleftrightarrow> bit w n"
    by cases (auto simp: byte32_def mk32_def bit_simps)
qed

lemmas mk32_Suc [simp, bytes_simps] = mk32_bytes(2) [unfolded One_nat_def] mk32_of_bytes [unfolded One_nat_def]

section \<open>Runs of a receiver\<close>

text \<open>
  A receiver is a step function from its static variables and one received byte to the new
  variables and the value it returns; \<open>run\<close> feeds it a list of bytes and collects what it returned.
\<close>

fun run :: "('s \<Rightarrow> 'b \<Rightarrow> 's \<times> 'r) \<Rightarrow> 's \<Rightarrow> 'b list \<Rightarrow> 's \<times> 'r list" where
  "run f s [] = (s, [])"
| "run f s (b # bs) =
     (let (s1, r) = f s b; (s2, rs) = run f s1 bs in (s2, r # rs))"

lemma run_append:
  "run f s (xs @ ys) =
     (let (s1, r1) = run f s xs; (s2, r2) = run f s1 ys in (s2, r1 @ r2))"
  by (induction xs arbitrary: s) (auto simp: Let_def split: prod.splits)

lemma run_single [simp]: "run f s [b] = (fst (f s b), [snd (f s b)])"
  by (simp add: Let_def split: prod.splits)

lemma length_run [simp]: "length (snd (run f s bs)) = length bs"
proof (induction bs arbitrary: s)
  case (Cons b bs)
  show ?case by (simp add: Let_def case_prod_beta Cons.IH)
qed simp

lemma run_snoc_fst: "fst (run f s (xs @ [b])) = fst (f (fst (run f s xs)) b)"
  by (simp add: run_append Let_def split: prod.splits)

lemma run_snoc: "snd (run f s (xs @ [b])) = snd (run f s xs) @ [snd (f (fst (run f s xs)) b)]"
  by (simp add: run_append Let_def split: prod.splits)

text \<open>\<open>feed\<close> is \<open>run\<close> for a receiver whose step can run into a fault.\<close>

fun feed :: "('s \<Rightarrow> 'b \<Rightarrow> ('s \<times> 'r) cres) \<Rightarrow> 's \<Rightarrow> 'b list \<Rightarrow> ('s \<times> 'r list) cres" where
  "feed f s [] = Inr (s, [])"
| "feed f s (b # bs) =
     cbind (f s b) (\<lambda>(s1, r). cbind (feed f s1 bs) (\<lambda>(s2, rs). Inr (s2, r # rs)))"

lemma feed_append:
  "feed f s (xs @ ys) =
     cbind (feed f s xs) (\<lambda>(s1, r1). cbind (feed f s1 ys) (\<lambda>(s2, r2). Inr (s2, r1 @ r2)))"
proof (induction xs arbitrary: s)
  case Nil
  show ?case by (cases "feed f s ys") auto
next
  case (Cons x xs)
  then show ?case by (cases "f s x") (simp_all add: case_prod_beta)
qed

section \<open>Serial lines\<close>

text \<open>
  A serial line seen by a reading loop: one event per attempt to read. The device delivers a byte,
  or has none, and then the wait for its semaphore succeeds or times out.
\<close>

datatype rx_event = Got u8 | Empty bool

text \<open>The bytes of a list of events, and a line on which no wait times out.\<close>

fun bytes :: "rx_event list \<Rightarrow> u8 list" where
  "bytes [] = []"
| "bytes (Got b # es) = b # bytes es"
| "bytes (Empty w # es) = bytes es"

definition plain :: "rx_event list \<Rightarrow> bool" where "plain es = (Empty False \<notin> set es)"

lemma bytes_map [simp]: "bytes (map Got xs) = xs"
  by (induction xs) simp_all

lemma plain_map [simp]: "plain (map Got xs)"
  by (auto simp: plain_def)

lemma bytes_append [simp]: "bytes (xs @ ys) = bytes xs @ bytes ys"
  by (induction xs rule: bytes.induct) simp_all

lemma plain_simps [simp]: "plain []" "plain (Got b # es) \<longleftrightarrow> plain es" "plain (Empty w # es) \<longleftrightarrow> w \<and> plain es"
  by (auto simp: plain_def)

end
