(* ===== verification/CrcTable.thy ===== *)
theory CrcTable
  imports Prelude
begin

text \<open>
  The table driven checksums of \<^verbatim>\<open>CRC_Table.c\<close>: the three constant tables, the three loops over them,
  and bit-serial reference definitions. The lemmas show that every table entry is the one the
  generator polynomial gives, that the loops compute the bit-serial checksums, and, through the
  interface \<open>crc_engine\<close>, that corrupting one byte of a message always changes its checksum.
\<close>

section \<open>The interface of a byte-wise checksum\<close>

text \<open>
  A checksum consumes a message byte by byte. What its users need is that the update loses no
  information: it is injective in the register and in the byte.
\<close>

locale crc_engine =
  fixes upd :: "'c \<Rightarrow> u8 \<Rightarrow> 'c"
  assumes upd_inj_reg: "upd c b = upd c' b \<Longrightarrow> c = c'"
    and upd_inj_byte: "upd c b = upd c b' \<Longrightarrow> b = b'"
begin

definition crc :: "'c \<Rightarrow> u8 list \<Rightarrow> 'c" where
  "crc c bs = foldl upd c bs"

lemma crc_simps [simp]: "crc c [] = c" "crc c (b # bs) = crc (upd c b) bs"
  by (simp_all add: crc_def)

lemma crc_append: "crc c (xs @ ys) = crc (crc c xs) ys"
  by (simp add: crc_def)

lemma crc_inj_reg: "crc c bs = crc c' bs \<Longrightarrow> c = c'"
  by (induction bs arbitrary: c c') (auto dest: upd_inj_reg)

lemma single_byte_error:
  assumes "b \<noteq> b'"
  shows "crc c (xs @ b # ys) \<noteq> crc c (xs @ b' # ys)"
  using assms by (auto simp: crc_append dest!: crc_inj_reg upd_inj_byte)

end

section \<open>The tables\<close>

definition CRC8Table :: "u8 list" where
  "CRC8Table =[
     0, 94, 188, 226, 97, 63, 221, 131, 194, 156, 126, 32, 163, 253, 31, 65,
     157, 195, 33, 127, 252, 162, 64, 30, 95, 1, 227, 189, 62, 96, 130, 220,
     35, 125, 159, 193, 66, 28, 254, 160, 225, 191, 93, 3, 128, 222, 60, 98,
     190, 224, 2, 92, 223, 129, 99, 61, 124, 34, 192, 158, 29, 67, 161, 255,
     70, 24, 250, 164, 39, 121, 155, 197, 132, 218, 56, 102, 229, 187, 89, 7,
     219, 133, 103, 57, 186, 228, 6, 88, 25, 71, 165, 251, 120, 38, 196, 154,
     101, 59, 217, 135, 4, 90, 184, 230, 167, 249, 27, 69, 198, 152, 122, 36,
     248, 166, 68, 26, 153, 199, 37, 123, 58, 100, 134, 216, 91, 5, 231, 185,
     140, 210, 48, 110, 237, 179, 81, 15, 78, 16, 242, 172, 47, 113, 147, 205,
     17, 79, 173, 243, 112, 46, 204, 146, 211, 141, 111, 49, 178, 236, 14, 80,
     175, 241, 19, 77, 206, 144, 114, 44, 109, 51, 209, 143, 12, 82, 176, 238,
     50, 108, 142, 208, 83, 13, 239, 177, 240, 174, 76, 18, 145, 207, 45, 115,
     202, 148, 118, 40, 171, 245, 23, 73, 8, 86, 180, 234, 105, 55, 213, 139,
     87, 9, 235, 181, 54, 104, 138, 212, 149, 203, 41, 119, 244, 170, 72, 22,
     233, 183, 85, 11, 136, 214, 52, 106, 43, 117, 151, 201, 74, 20, 246, 168,
     116, 42, 200, 150, 21, 75, 169, 247, 182, 232, 10, 84, 215, 137, 107, 53]"

definition CRC16Table :: "u16 list" where
  "CRC16Table =[
     0x0000, 0x1021, 0x2042, 0x3063, 0x4084, 0x50A5, 0x60C6, 0x70E7,
     0x8108, 0x9129, 0xA14A, 0xB16B, 0xC18C, 0xD1AD, 0xE1CE, 0xF1EF,
     0x1231, 0x0210, 0x3273, 0x2252, 0x52B5, 0x4294, 0x72F7, 0x62D6,
     0x9339, 0x8318, 0xB37B, 0xA35A, 0xD3BD, 0xC39C, 0xF3FF, 0xE3DE,
     0x2462, 0x3443, 0x0420, 0x1401, 0x64E6, 0x74C7, 0x44A4, 0x5485,
     0xA56A, 0xB54B, 0x8528, 0x9509, 0xE5EE, 0xF5CF, 0xC5AC, 0xD58D,
     0x3653, 0x2672, 0x1611, 0x0630, 0x76D7, 0x66F6, 0x5695, 0x46B4,
     0xB75B, 0xA77A, 0x9719, 0x8738, 0xF7DF, 0xE7FE, 0xD79D, 0xC7BC,
     0x48C4, 0x58E5, 0x6886, 0x78A7, 0x0840, 0x1861, 0x2802, 0x3823,
     0xC9CC, 0xD9ED, 0xE98E, 0xF9AF, 0x8948, 0x9969, 0xA90A, 0xB92B,
     0x5AF5, 0x4AD4, 0x7AB7, 0x6A96, 0x1A71, 0x0A50, 0x3A33, 0x2A12,
     0xDBFD, 0xCBDC, 0xFBBF, 0xEB9E, 0x9B79, 0x8B58, 0xBB3B, 0xAB1A,
     0x6CA6, 0x7C87, 0x4CE4, 0x5CC5, 0x2C22, 0x3C03, 0x0C60, 0x1C41,
     0xEDAE, 0xFD8F, 0xCDEC, 0xDDCD, 0xAD2A, 0xBD0B, 0x8D68, 0x9D49,
     0x7E97, 0x6EB6, 0x5ED5, 0x4EF4, 0x3E13, 0x2E32, 0x1E51, 0x0E70,
     0xFF9F, 0xEFBE, 0xDFDD, 0xCFFC, 0xBF1B, 0xAF3A, 0x9F59, 0x8F78,
     0x9188, 0x81A9, 0xB1CA, 0xA1EB, 0xD10C, 0xC12D, 0xF14E, 0xE16F,
     0x1080, 0x00A1, 0x30C2, 0x20E3, 0x5004, 0x4025, 0x7046, 0x6067,
     0x83B9, 0x9398, 0xA3FB, 0xB3DA, 0xC33D, 0xD31C, 0xE37F, 0xF35E,
     0x02B1, 0x1290, 0x22F3, 0x32D2, 0x4235, 0x5214, 0x6277, 0x7256,
     0xB5EA, 0xA5CB, 0x95A8, 0x8589, 0xF56E, 0xE54F, 0xD52C, 0xC50D,
     0x34E2, 0x24C3, 0x14A0, 0x0481, 0x7466, 0x6447, 0x5424, 0x4405,
     0xA7DB, 0xB7FA, 0x8799, 0x97B8, 0xE75F, 0xF77E, 0xC71D, 0xD73C,
     0x26D3, 0x36F2, 0x0691, 0x16B0, 0x6657, 0x7676, 0x4615, 0x5634,
     0xD94C, 0xC96D, 0xF90E, 0xE92F, 0x99C8, 0x89E9, 0xB98A, 0xA9AB,
     0x5844, 0x4865, 0x7806, 0x6827, 0x18C0, 0x08E1, 0x3882, 0x28A3,
     0xCB7D, 0xDB5C, 0xEB3F, 0xFB1E, 0x8BF9, 0x9BD8, 0xABBB, 0xBB9A,
     0x4A75, 0x5A54, 0x6A37, 0x7A16, 0x0AF1, 0x1AD0, 0x2AB3, 0x3A92,
     0xFD2E, 0xED0F, 0xDD6C, 0xCD4D, 0xBDAA, 0xAD8B, 0x9DE8, 0x8DC9,
     0x7C26, 0x6C07, 0x5C64, 0x4C45, 0x3CA2, 0x2C83, 0x1CE0, 0x0CC1,
     0xEF1F, 0xFF3E, 0xCF5D, 0xDF7C, 0xAF9B, 0xBFBA, 0x8FD9, 0x9FF8,
     0x6E17, 0x7E36, 0x4E55, 0x5E74, 0x2E93, 0x3EB2, 0x0ED1, 0x1EF0]"

definition CRC32Table :: "u32 list" where
  "CRC32Table =[
     0x00000000, 0x77073096, 0xEE0E612C, 0x990951BA, 0x076DC419, 0x706AF48F, 0xE963A535, 0x9E6495A3,
     0x0EDB8832, 0x79DCB8A4, 0xE0D5E91E, 0x97D2D988, 0x09B64C2B, 0x7EB17CBD, 0xE7B82D07, 0x90BF1D91,
     0x1DB71064, 0x6AB020F2, 0xF3B97148, 0x84BE41DE, 0x1ADAD47D, 0x6DDDE4EB, 0xF4D4B551, 0x83D385C7,
     0x136C9856, 0x646BA8C0, 0xFD62F97A, 0x8A65C9EC, 0x14015C4F, 0x63066CD9, 0xFA0F3D63, 0x8D080DF5,
     0x3B6E20C8, 0x4C69105E, 0xD56041E4, 0xA2677172, 0x3C03E4D1, 0x4B04D447, 0xD20D85FD, 0xA50AB56B,
     0x35B5A8FA, 0x42B2986C, 0xDBBBC9D6, 0xACBCF940, 0x32D86CE3, 0x45DF5C75, 0xDCD60DCF, 0xABD13D59,
     0x26D930AC, 0x51DE003A, 0xC8D75180, 0xBFD06116, 0x21B4F4B5, 0x56B3C423, 0xCFBA9599, 0xB8BDA50F,
     0x2802B89E, 0x5F058808, 0xC60CD9B2, 0xB10BE924, 0x2F6F7C87, 0x58684C11, 0xC1611DAB, 0xB6662D3D,
     0x76DC4190, 0x01DB7106, 0x98D220BC, 0xEFD5102A, 0x71B18589, 0x06B6B51F, 0x9FBFE4A5, 0xE8B8D433,
     0x7807C9A2, 0x0F00F934, 0x9609A88E, 0xE10E9818, 0x7F6A0DBB, 0x086D3D2D, 0x91646C97, 0xE6635C01,
     0x6B6B51F4, 0x1C6C6162, 0x856530D8, 0xF262004E, 0x6C0695ED, 0x1B01A57B, 0x8208F4C1, 0xF50FC457,
     0x65B0D9C6, 0x12B7E950, 0x8BBEB8EA, 0xFCB9887C, 0x62DD1DDF, 0x15DA2D49, 0x8CD37CF3, 0xFBD44C65,
     0x4DB26158, 0x3AB551CE, 0xA3BC0074, 0xD4BB30E2, 0x4ADFA541, 0x3DD895D7, 0xA4D1C46D, 0xD3D6F4FB,
     0x4369E96A, 0x346ED9FC, 0xAD678846, 0xDA60B8D0, 0x44042D73, 0x33031DE5, 0xAA0A4C5F, 0xDD0D7CC9,
     0x5005713C, 0x270241AA, 0xBE0B1010, 0xC90C2086, 0x5768B525, 0x206F85B3, 0xB966D409, 0xCE61E49F,
     0x5EDEF90E, 0x29D9C998, 0xB0D09822, 0xC7D7A8B4, 0x59B33D17, 0x2EB40D81, 0xB7BD5C3B, 0xC0BA6CAD,
     0xEDB88320, 0x9ABFB3B6, 0x03B6E20C, 0x74B1D29A, 0xEAD54739, 0x9DD277AF, 0x04DB2615, 0x73DC1683,
     0xE3630B12, 0x94643B84, 0x0D6D6A3E, 0x7A6A5AA8, 0xE40ECF0B, 0x9309FF9D, 0x0A00AE27, 0x7D079EB1,
     0xF00F9344, 0x8708A3D2, 0x1E01F268, 0x6906C2FE, 0xF762575D, 0x806567CB, 0x196C3671, 0x6E6B06E7,
     0xFED41B76, 0x89D32BE0, 0x10DA7A5A, 0x67DD4ACC, 0xF9B9DF6F, 0x8EBEEFF9, 0x17B7BE43, 0x60B08ED5,
     0xD6D6A3E8, 0xA1D1937E, 0x38D8C2C4, 0x4FDFF252, 0xD1BB67F1, 0xA6BC5767, 0x3FB506DD, 0x48B2364B,
     0xD80D2BDA, 0xAF0A1B4C, 0x36034AF6, 0x41047A60, 0xDF60EFC3, 0xA867DF55, 0x316E8EEF, 0x4669BE79,
     0xCB61B38C, 0xBC66831A, 0x256FD2A0, 0x5268E236, 0xCC0C7795, 0xBB0B4703, 0x220216B9, 0x5505262F,
     0xC5BA3BBE, 0xB2BD0B28, 0x2BB45A92, 0x5CB36A04, 0xC2D7FFA7, 0xB5D0CF31, 0x2CD99E8B, 0x5BDEAE1D,
     0x9B64C2B0, 0xEC63F226, 0x756AA39C, 0x026D930A, 0x9C0906A9, 0xEB0E363F, 0x72076785, 0x05005713,
     0x95BF4A82, 0xE2B87A14, 0x7BB12BAE, 0x0CB61B38, 0x92D28E9B, 0xE5D5BE0D, 0x7CDCEFB7, 0x0BDBDF21,
     0x86D3D2D4, 0xF1D4E242, 0x68DDB3F8, 0x1FDA836E, 0x81BE16CD, 0xF6B9265B, 0x6FB077E1, 0x18B74777,
     0x88085AE6, 0xFF0F6A70, 0x66063BCA, 0x11010B5C, 0x8F659EFF, 0xF862AE69, 0x616BFFD3, 0x166CCF45,
     0xA00AE278, 0xD70DD2EE, 0x4E048354, 0x3903B3C2, 0xA7672661, 0xD06016F7, 0x4969474D, 0x3E6E77DB,
     0xAED16A4A, 0xD9D65ADC, 0x40DF0B66, 0x37D83BF0, 0xA9BCAE53, 0xDEBB9EC5, 0x47B2CF7F, 0x30B5FFE9,
     0xBDBDF21C, 0xCABAC28A, 0x53B39330, 0x24B4A3A6, 0xBAD03605, 0xCDD70693, 0x54DE5729, 0x23D967BF,
     0xB3667A2E, 0xC4614AB8, 0x5D681B02, 0x2A6F2B94, 0xB40BBE37, 0xC30C8EA1, 0x5A05DF1B, 0x2D02EF8D]"

section \<open>The loops\<close>

text \<open>One iteration of each loop. The index is a byte, so it never leaves the table.\<close>

definition crc8_upd :: "u8 \<Rightarrow> u8 \<Rightarrow> u8" where
  "crc8_upd crc8 value = CRC8Table ! unat (crc8 XOR value)"

definition crc16_upd :: "u16 \<Rightarrow> u8 \<Rightarrow> u16" where
  "crc16_upd crc16 value =
     CRC16Table ! unat ((drop_bit 8 crc16 XOR ucast value) AND 0xff) XOR push_bit 8 crc16"

definition crc32_upd :: "u32 \<Rightarrow> u8 \<Rightarrow> u32" where
  "crc32_upd d value =
     (drop_bit 8 d AND 0xFFFFFF) XOR CRC32Table ! unat ((d XOR ucast value) AND 0xFF)"

text \<open>
  The functions read \<open>counter\<close> bytes from \<open>p\<close>; reading past the array is a fault. The counter of
  the first two is an 8 bit parameter, so callers' lengths are taken modulo 256.
\<close>

definition CRC8_Table :: "u8 list \<Rightarrow> u8 \<Rightarrow> u8 cres" where
  "CRC8_Table p counter = cbind (rd_n p (unat counter)) (\<lambda>bs. Inr (foldl crc8_upd 0 bs))"

definition CRC16_Table :: "u8 list \<Rightarrow> u8 \<Rightarrow> u16 cres" where
  "CRC16_Table p counter = cbind (rd_n p (unat counter)) (\<lambda>bs. Inr (foldl crc16_upd 0 bs))"

definition CRC32_Table :: "u8 list \<Rightarrow> nat \<Rightarrow> u32 cres" where
  "CRC32_Table buf len =
     cbind (rd_n buf len) (\<lambda>bs. Inr (NOT (foldl crc32_upd 0xFFFFFFFF bs)))"

section \<open>Bit-serial references\<close>

text \<open>
  One shift of the feedback register: the reflected form (least significant bit first) of CRC-8 and
  CRC-32, and the forward form of CRC-16.
\<close>

definition shr_step :: "'a::len word \<Rightarrow> 'a word \<Rightarrow> 'a word" where
  "shr_step poly c = (if bit c 0 then drop_bit 1 c XOR poly else drop_bit 1 c)"

definition shl_step :: "'a::len word \<Rightarrow> 'a word \<Rightarrow> 'a word" where
  "shl_step poly c = (if bit c (LENGTH('a) - 1) then push_bit 1 c XOR poly else push_bit 1 c)"

definition eight :: "('a \<Rightarrow> 'a) \<Rightarrow> 'a \<Rightarrow> 'a" where
  "eight f x = f (f (f (f (f (f (f (f x)))))))"

definition crc8_bits :: "u8 \<Rightarrow> u8 \<Rightarrow> u8" where
  "crc8_bits c b = eight (shr_step 0x8C) (c XOR b)"

definition crc16_bits :: "u16 \<Rightarrow> u8 \<Rightarrow> u16" where
  "crc16_bits c b = eight (shl_step 0x1021) (c XOR push_bit 8 (ucast b))"

definition crc32_bits :: "u32 \<Rightarrow> u8 \<Rightarrow> u32" where
  "crc32_bits c b = eight (shr_step 0xEDB88320) (c XOR ucast b)"

section \<open>The tables are the ones of the polynomials\<close>

definition xor_linear :: "('a::len word \<Rightarrow> 'b::len word) \<Rightarrow> bool" where
  "xor_linear f \<longleftrightarrow> (\<forall>a b. f (a XOR b) = f a XOR f b)"

lemma xor_linearD: "xor_linear f \<Longrightarrow> f (a XOR b) = f a XOR f b"
  by (simp add: xor_linear_def)

lemma xor_linear_shr [intro]: "xor_linear (shr_step p)"
  by (auto simp: xor_linear_def shr_step_def drop_bit_xor bit_xor_iff ac_simps)

lemma xor_linear_shl [intro]: "xor_linear (shl_step p)"
  by (auto simp: xor_linear_def shl_step_def push_bit_xor bit_xor_iff ac_simps)

lemma xor_linear_eight [intro]: "xor_linear f \<Longrightarrow> xor_linear (eight f)"
  by (simp add: xor_linear_def eight_def)

lemma xor_linear_push [intro]: "xor_linear (\<lambda>x. f (push_bit n x))" if "xor_linear f"
  using that by (simp add: xor_linear_def push_bit_xor)

lemma of_nat_pow2_xor:
  assumes "i < 2 ^ k"
  shows "(of_nat (2 ^ k + i) :: 'a::len word) = 2 ^ k XOR of_nat i"
proof -
  have i: "\<not> bit i k"
    using assms by (simp add: bit_iff_odd)
  have "2 ^ k AND i = 0"
    by (rule bit_eqI) (use i in \<open>auto simp: bit_and_iff bit_exp_iff\<close>)
  then have "2 ^ k + i = 2 ^ k XOR i"
    by (rule disjunctive_add_eq_xor)
  then show ?thesis by (metis of_nat_xor_eq of_nat_power of_nat_numeral)
qed

text \<open>
  A table of a linear function is built by doubling: the upper half is the lower half with the
  image of one power of two added to every entry.
\<close>

definition lin_tab :: "('a::len word \<Rightarrow> 'b::len word) \<Rightarrow> nat \<Rightarrow> 'b word list" where
  "lin_tab f n = map (\<lambda>i. f (of_nat i)) [0..<n]"

lemma lin_tab_double:
  assumes "xor_linear f"
  shows "lin_tab f (2 ^ k + 2 ^ k) =
    lin_tab f (2 ^ k) @ map ((XOR) (f (2 ^ k))) (lin_tab f (2 ^ k))"
proof -
  have upt: "[0..<n + n] = [0..<n] @ map (\<lambda>i. i + n) [0..<n]" for n :: nat
    using upt_add_eq_append [of 0 n n] map_add_upt [of n n] by simp
  note split = upt [of "2 ^ k"]
  have "f (of_nat (i + 2 ^ k)) = f (2 ^ k) XOR f (of_nat i)" if "i < 2 ^ k" for i :: nat
    unfolding add.commute [of i] of_nat_pow2_xor [OF that] by (rule xor_linearD [OF assms])
  then have "map (\<lambda>i. f (of_nat (i + 2 ^ k))) [0..<2 ^ k] =
      map (\<lambda>i. f (2 ^ k) XOR f (of_nat i)) [0..<2 ^ k]"
    by (intro map_cong refl) auto
  then show ?thesis
    unfolding lin_tab_def split map_append map_map comp_def by simp
qed

definition dbl :: "('a::len word \<Rightarrow> 'b::len word) \<Rightarrow> 'a word \<Rightarrow> 'b word list \<Rightarrow> 'b word list" where
  "dbl f c t = t @ map ((XOR) (f c)) t"

lemma lin_tab_256:
  assumes "xor_linear f"
  shows "lin_tab f 256 =
    dbl f 128 (dbl f 64 (dbl f 32 (dbl f 16 (dbl f 8 (dbl f 4 (dbl f 2 (dbl f 1 [f 0])))))))"
proof -
  have d: "lin_tab f (2 ^ k + 2 ^ k) = dbl f (2 ^ k) (lin_tab f (2 ^ k))" for k
    using lin_tab_double [OF assms] by (simp add: dbl_def)
  have "lin_tab f 1 = [f 0]" by (simp add: lin_tab_def)
  then have "lin_tab f 2 = dbl f 1 [f 0]" using d [of 0] unfolding power_0 one_add_one by simp
  moreover have "lin_tab f 4 = dbl f 2 (lin_tab f 2)" using d [of 1] by simp
  moreover have "lin_tab f 8 = dbl f 4 (lin_tab f 4)" using d [of 2] by simp
  moreover have "lin_tab f 16 = dbl f 8 (lin_tab f 8)" using d [of 3] by simp
  moreover have "lin_tab f 32 = dbl f 16 (lin_tab f 16)" using d [of 4] by simp
  moreover have "lin_tab f 64 = dbl f 32 (lin_tab f 32)" using d [of 5] by simp
  moreover have "lin_tab f 128 = dbl f 64 (lin_tab f 64)" using d [of 6] by simp
  moreover have "lin_tab f 256 = dbl f 128 (lin_tab f 128)" using d [of 7] by simp
  ultimately show ?thesis by simp
qed

lemma CRC8Table_lin: "CRC8Table = lin_tab (eight (shr_step 0x8C)) 256"
  unfolding lin_tab_256 [OF xor_linear_eight [OF xor_linear_shr]]
  by (simp add: CRC8Table_def eight_def shr_step_def dbl_def)

lemma CRC16Table_lin: "CRC16Table = lin_tab (\<lambda>x. eight (shl_step 0x1021) (push_bit 8 x)) 256"
  unfolding lin_tab_256 [OF xor_linear_push [OF xor_linear_eight [OF xor_linear_shl]]]
  by (simp add: CRC16Table_def eight_def shl_step_def dbl_def)

lemma CRC32Table_lin: "CRC32Table = lin_tab (eight (shr_step 0xEDB88320)) 256"
  unfolding lin_tab_256 [OF xor_linear_eight [OF xor_linear_shr]]
  by (simp add: CRC32Table_def eight_def shr_step_def dbl_def)

lemma lin_tab_nth: "i < n \<Longrightarrow> lin_tab f n ! i = f (of_nat i)"
  by (simp add: lin_tab_def)

lemma CRC8Table_nth: "CRC8Table ! unat (x :: u8) = eight (shr_step 0x8C) x"
proof -
  have "unat x < 256" by (rule order_less_le_trans [OF unsigned_less]) simp
  then show ?thesis by (simp add: CRC8Table_lin lin_tab_nth)
qed

lemma byte_index: "unat (x AND 0xff :: 'a::len word) < 256"
  if "8 \<le> LENGTH('a)"
proof -
  have "x AND 0xff \<le> (0xff :: 'a word)"
    by (rule word_and_le1)
  moreover have "unat (0xff :: 'a word) = 255"
  proof -
    have "(2::nat) ^ 8 \<le> 2 ^ LENGTH('a)"
      using that by (rule power_increasing) simp
    then show ?thesis by (simp add: unat_numeral take_bit_nat_eq_self)
  qed
  ultimately show ?thesis by (simp add: word_le_nat_alt)
qed

lemma CRC16Table_nth:
  "CRC16Table ! unat (x AND 0xff) = eight (shl_step 0x1021) (push_bit 8 (x AND 0xff))"
  using byte_index [of x] by (simp add: CRC16Table_lin lin_tab_nth)

lemma CRC32Table_nth:
  "CRC32Table ! unat (x AND 0xff) = eight (shr_step 0xEDB88320) (x AND 0xff)"
  using byte_index [of x] by (simp add: CRC32Table_lin lin_tab_nth)

section \<open>The loops compute the bit-serial checksums\<close>

lemma crc8_upd_bits: "crc8_upd c b = crc8_bits c b"
  by (simp add: crc8_upd_def crc8_bits_def CRC8Table_nth)

text \<open>
  A register whose top byte is clear is only shifted by eight steps, and likewise the reflected
  register whose low byte is clear.
\<close>

lemma byte_mask: "(255 :: 'a::len word) = mask 8"
  by (simp add: mask_eq_exp_minus_1)

lemma eight_shl_low:
  "eight (shl_step p) (z AND 0xff) = push_bit 8 (z AND 0xff)" for p z :: u16
proof -
  have s: "shl_step p (push_bit k (z AND 0xff)) = push_bit (Suc k) (z AND 0xff)" if "k \<le> 7" for k
  proof -
    have "\<not> bit (255 :: u16) (15 - k)"
      using that unfolding byte_mask by (auto simp: bit_mask_iff)
    then have "\<not> bit (push_bit k (z AND 0xff)) 15"
      using that by (simp add: bit_push_bit_iff bit_and_iff)
    then show ?thesis
      unfolding shl_step_def by (simp add: push_bit_push_bit)
  qed
  show ?thesis
    using s [of 0] s [of 1] s [of 2] s [of 3] s [of 4] s [of 5] s [of 6] s [of 7]
    unfolding eight_def by (simp add: eval_nat_numeral)
qed

lemma eight_shr_high:
  "eight (shr_step p) (z AND NOT 0xff) = drop_bit 8 z" for p z :: u32
proof -
  have low: "bit (255 :: u32) k" if "k \<le> 7" for k
    using that unfolding byte_mask by (simp add: bit_mask_iff)
  have s: "shr_step p (drop_bit k (z AND NOT 0xff)) = drop_bit (Suc k) (z AND NOT 0xff)" if "k \<le> 7" for k
    unfolding shr_step_def using low [OF that] by (simp add: bit_simps drop_bit_drop_bit)
  have "eight (shr_step p) (z AND NOT 0xff) = drop_bit 8 (z AND NOT 0xff)"
    using s [of 0] s [of 1] s [of 2] s [of 3] s [of 4] s [of 5] s [of 6] s [of 7]
    unfolding eight_def by (simp add: eval_nat_numeral)
  also have "\<dots> = drop_bit 8 z"
    unfolding byte_mask by (rule bit_word_eqI) (auto simp: bit_simps dest: bit_imp_le_length)
  finally show ?thesis .
qed

lemma crc16_upd_bits: "crc16_upd c b = crc16_bits c b"
proof -
  let ?z = "drop_bit 8 c XOR ucast b"
  let ?f = "eight (shl_step 0x1021)"
  have split: "c XOR push_bit 8 (ucast b) = push_bit 8 (?z AND 0xff) XOR (c AND 0xff)"
    unfolding byte_mask by (rule bit_word_eqI) (auto simp: bit_simps)
  have "push_bit 8 c = push_bit 8 (c AND 0xff)"
    unfolding byte_mask by (rule bit_word_eqI) (auto simp: bit_simps)
  then show ?thesis
    unfolding crc16_upd_def CRC16Table_nth crc16_bits_def split
    by (simp only: xor_linearD [OF xor_linear_eight [OF xor_linear_shl]] eight_shl_low)
qed

lemma crc32_upd_bits: "crc32_upd c b = crc32_bits c b"
proof -
  let ?z = "c XOR ucast b"
  let ?f = "eight (shr_step 0xEDB88320)"
  have split: "?z = (c AND NOT 0xff) XOR (?z AND 0xff)"
    unfolding byte_mask by (rule bit_word_eqI) (auto simp: bit_simps dest: bit_imp_le_length)
  have m: "(0xFFFFFF :: u32) = mask 24" by (simp add: mask_eq_exp_minus_1)
  have "drop_bit 8 c AND 0xFFFFFF = drop_bit 8 c"
    unfolding m by (rule bit_word_eqI) (auto simp: bit_simps dest: bit_imp_le_length)
  moreover have "?f ?z = ?f (c AND NOT 0xff) XOR ?f (?z AND 0xff)"
    by (subst split) (rule xor_linearD [OF xor_linear_eight [OF xor_linear_shr]])
  ultimately show ?thesis
    unfolding crc32_upd_def CRC32Table_nth crc32_bits_def by (simp only: eight_shr_high)
qed

section \<open>The updates lose no information\<close>

lemma xor_linear_inj:
  assumes "xor_linear f" "\<And>x. f x = 0 \<Longrightarrow> x = 0" "f a = f b"
  shows "a = b"
proof -
  have "f (a XOR b) = 0" using assms(1,3) by (simp add: xor_linearD)
  then have "a XOR b = 0" by (rule assms(2))
  then have "a XOR (b XOR b) = b" by (simp only: xor.assoc [symmetric] xor.left_neutral)
  then show ?thesis by simp
qed

lemma shr_step_zero:
  fixes p :: "'a::len word"
  assumes "bit p (LENGTH('a) - 1)" "shr_step p c = 0"
  shows "c = 0"
proof -
  have "\<not> bit (drop_bit 1 c) (LENGTH('a) - 1)" by (simp add: bit_drop_bit_eq)
  then have "bit (drop_bit 1 c XOR p) (LENGTH('a) - 1)"
    using assms(1) by (simp add: bit_xor_iff)
  then have c0: "\<not> bit c 0" using assms(2) by (auto simp: shr_step_def)
  then have "drop_bit 1 c = 0" using assms(2) by (simp add: shr_step_def)
  then have "bit c (Suc n) \<longleftrightarrow> bit (0 :: 'a word) n" for n
    by (metis bit_drop_bit_eq plus_1_eq_Suc comp_apply)
  then have "bit c n \<longleftrightarrow> bit (0 :: 'a word) n" for n using c0 by (cases n) auto
  then show ?thesis by (intro bit_word_eqI) auto
qed

lemma shl_step_zero:
  fixes p :: "'a::len word"
  assumes "bit p 0" "shl_step p c = 0"
  shows "c = 0"
proof -
  have top: "\<not> bit c (LENGTH('a) - 1)"
  proof
    assume "bit c (LENGTH('a) - 1)"
    then have "bit (push_bit 1 c XOR p) 0 \<longleftrightarrow> bit (0 :: 'a word) 0"
      using assms(2) by (simp add: shl_step_def)
    then show False using assms(1) unfolding bit_xor_iff bit_push_bit_iff by simp
  qed
  then have z: "push_bit 1 c = 0" using assms(2) by (simp add: shl_step_def)
  show ?thesis
  proof (rule bit_word_eqI)
    fix n assume n: "n < LENGTH('a)"
    have "\<not> bit (push_bit 1 c) (Suc n)" unfolding z by simp
    then show "bit c n \<longleftrightarrow> bit (0 :: 'a word) n"
      using top n unfolding bit_push_bit_iff by (cases "n = LENGTH('a) - 1") auto
  qed
qed

lemma eight_zero: "(\<And>x. f x = 0 \<Longrightarrow> x = 0) \<Longrightarrow> eight f x = 0 \<Longrightarrow> x = (0 :: 'a::len word)"
  unfolding eight_def by blast

lemma eight_shr_inj:
  fixes p :: "'a::len word"
  assumes "bit p (LENGTH('a) - 1)" "eight (shr_step p) a = eight (shr_step p) b"
  shows "a = b"
  by (rule xor_linear_inj [OF xor_linear_eight [OF xor_linear_shr] _ assms(2)])
    (rule eight_zero [OF shr_step_zero [OF assms(1)]])

lemma eight_shl_inj:
  fixes p :: "'a::len word"
  assumes "bit p 0" "eight (shl_step p) a = eight (shl_step p) b"
  shows "a = b"
  by (rule xor_linear_inj [OF xor_linear_eight [OF xor_linear_shl] _ assms(2)])
    (rule eight_zero [OF shl_step_zero [OF assms(1)]])

lemma eight_step_0 [simp]: "eight (shr_step p) 0 = 0" "eight (shl_step p) 0 = 0"
  by (simp_all add: eight_def shr_step_def shl_step_def)

lemma xor_cancel [simp]: "x XOR a = x XOR b \<longleftrightarrow> a = b" "a XOR x = b XOR x \<longleftrightarrow> a = b"
  for a b x :: "'a::len word"
  by (metis xor.assoc xor.commute xor_self_eq xor.left_neutral)+

lemma ucast_u8_inj [simp]:
  "(ucast (a :: u8) :: u16) = ucast b \<longleftrightarrow> a = b" "(ucast (a :: u8) :: u32) = ucast b \<longleftrightarrow> a = b"
proof -
  have "ucast (ucast x :: u16) = x" "ucast (ucast x :: u32) = x" for x :: u8
    by (rule bit_word_eqI, simp add: bit_simps)+
  then show "(ucast a :: u16) = ucast b \<longleftrightarrow> a = b" "(ucast a :: u32) = ucast b \<longleftrightarrow> a = b"
    by metis+
qed

lemma push_u8_inj [simp]: "push_bit 8 (ucast (a :: u8) :: u16) = push_bit 8 (ucast b) \<longleftrightarrow> a = b"
proof -
  have "hi8 (push_bit 8 (ucast x)) = x" for x
    by (rule bit_word_eqI) (auto simp: hi8_def bit_simps)
  then show ?thesis by metis
qed

lemmas eight_shr_inj8 = eight_shr_inj [of "0x8C :: u8", simplified]
  and eight_shl_inj16 = eight_shl_inj [of "0x1021 :: u16", simplified]
  and eight_shr_inj32 = eight_shr_inj [of "0xEDB88320 :: u32", simplified]

interpretation c8: crc_engine crc8_upd
  by unfold_locales (auto simp: crc8_upd_bits crc8_bits_def dest: eight_shr_inj8)

interpretation c16: crc_engine crc16_upd
  by unfold_locales (auto simp: crc16_upd_bits crc16_bits_def simp del: push_bit_eq_mult dest: eight_shl_inj16)

interpretation c32: crc_engine crc32_upd
  by unfold_locales (auto simp: crc32_upd_bits crc32_bits_def dest: eight_shr_inj32)

section \<open>What the checksums promise\<close>

lemma foldl_upd_bits:
  "foldl crc8_upd = foldl crc8_bits" "foldl crc16_upd = foldl crc16_bits"
  "foldl crc32_upd = foldl crc32_bits"
  by (simp_all add: crc8_upd_bits [abs_def] crc16_upd_bits [abs_def] crc32_upd_bits [abs_def])

text \<open>The empty continuation: a register xored with itself.\<close>

lemma crc8_upd_self: "crc8_upd c c = 0"
  by (simp add: crc8_upd_bits crc8_bits_def)

lemma crc16_upd_self: "crc16_upd (crc16_upd c (hi8 c)) (lo8 c) = 0"
proof -
  let ?f = "eight (shl_step 0x1021)"
  have "c XOR push_bit 8 (ucast (hi8 c)) = c AND 0xff"
    unfolding byte_mask hi8_def by (rule bit_word_eqI) (auto simp: bit_simps)
  moreover have "push_bit 8 (c AND 0xff) XOR push_bit 8 (ucast (lo8 c)) = 0"
    unfolding byte_mask lo8_def by (rule bit_word_eqI) (auto simp: bit_simps)
  ultimately show ?thesis
    unfolding crc16_upd_bits crc16_bits_def by (simp only: eight_shl_low eight_step_0)
qed

text \<open>
  C1: each table driven loop returns, for every message inside its buffer, the checksum that the
  bit-serial feedback register of its polynomial gives (CRC-8 reflected 0x8C, CRC-16 forward
  0x1021, CRC-32 reflected 0xEDB88320 with initial value and final complement).
\<close>

theorem crc_loops_are_bit_serial:
  assumes "unat counter \<le> length p" "len \<le> length p"
  shows "CRC8_Table p counter = Inr (foldl crc8_bits 0 (take (unat counter) p)) \<and>
    CRC16_Table p counter = Inr (foldl crc16_bits 0 (take (unat counter) p)) \<and>
    CRC32_Table p len = Inr (NOT (foldl crc32_bits 0xFFFFFFFF (take len p)))"
  using assms by (simp add: CRC8_Table_def CRC16_Table_def CRC32_Table_def foldl_upd_bits)

text \<open>The published check values of the three checksums, on the ASCII digits 1 to 9.\<close>

theorem crc_loops_are_bit_serial_witness:
  "CRC8_Table [49, 50, 51, 52, 53, 54, 55, 56, 57] 9 = Inr 0xA1 \<and>
   CRC16_Table [49, 50, 51, 52, 53, 54, 55, 56, 57] 9 = Inr 0x31C3 \<and>
   CRC32_Table [49, 50, 51, 52, 53, 54, 55, 56, 57] 9 = Inr 0xCBF43926"
  using crc_loops_are_bit_serial [of 9 "[49, 50, 51, 52, 53, 54, 55, 56, 57]" 9]
  by (simp add: crc8_bits_def crc16_bits_def crc32_bits_def eight_def shr_step_def shl_step_def)

text \<open>
  A message followed by its CRC-8, and a message followed by its CRC-16 high byte first, check
  to zero: the receivers' test "the checksum over everything is 0" accepts every intact message.
\<close>

theorem crc_of_message_with_crc_is_zero:
  assumes "length msg + 2 < 256"
    and "CRC8_Table msg (of_nat (length msg)) = Inr c8"
    and "CRC16_Table msg (of_nat (length msg)) = Inr c16"
  shows "CRC8_Table (msg @ [c8]) (of_nat (length msg + 1)) = Inr 0 \<and>
    CRC16_Table (msg @ [hi8 c16, lo8 c16]) (of_nat (length msg + 2)) = Inr 0"
proof -
  have "unat (of_nat (length msg + 1) :: u8) = length msg + 1"
    "unat (of_nat (length msg + 2) :: u8) = length msg + 2"
    using assms(1) by (intro unat_u8_of_nat; simp)+
  then show ?thesis
    using assms by (auto simp: CRC8_Table_def CRC16_Table_def crc8_upd_self crc16_upd_self)
qed

theorem crc_of_message_with_crc_is_zero_witness:
  "CRC8_Table [49, 50, 0xEB] 3 = Inr 0 \<and> CRC16_Table [49, 50, 0x20, 0xB5] 4 = Inr 0"
  using crc_of_message_with_crc_is_zero [of "[49, 50]" "0xEB" "0x20B5"]
  by (simp add: CRC8_Table_def CRC16_Table_def crc8_upd_def crc16_upd_def CRC8Table_def CRC16Table_def hi8_def lo8_def)

text \<open>
  A message in which exactly one byte was changed has a different CRC-8, a different CRC-16 and
  a different CRC-32, wherever the byte is and whatever it was changed to.
\<close>

theorem crc_detects_changed_byte:
  assumes "b \<noteq> b'" "n = length xs + 1 + length ys" "n < 256"
  shows "CRC8_Table (xs @ b # ys) (of_nat n) \<noteq> CRC8_Table (xs @ b' # ys) (of_nat n) \<and>
    CRC16_Table (xs @ b # ys) (of_nat n) \<noteq> CRC16_Table (xs @ b' # ys) (of_nat n) \<and>
    CRC32_Table (xs @ b # ys) n \<noteq> CRC32_Table (xs @ b' # ys) n"
  using assms(2) unat_u8_of_nat [OF assms(3)] c8.single_byte_error [OF assms(1), of 0 xs ys]
    c16.single_byte_error [OF assms(1), of 0 xs ys]
    c32.single_byte_error [OF assms(1), of "0xFFFFFFFF" xs ys]
  by (simp add: CRC8_Table_def CRC16_Table_def CRC32_Table_def c8.crc_def c16.crc_def c32.crc_def
      del: of_nat_add of_nat_Suc)

theorem crc_detects_changed_byte_witness:
  "CRC8_Table [1, 7, 3] 3 \<noteq> CRC8_Table [1, 2, 3] 3"
  using crc_detects_changed_byte [of 7 2 3 "[1]" "[3]"] by simp

end
