(* ===== verification/FlowCheck.thy ===== *)
theory FlowCheck
  imports CrcTable
begin

text \<open>
  The checksums of the optical flow receivers, \<^verbatim>\<open>flow/check.c\<close>: the reflected CRC-16 of MAVLink computed
  by a forward table and two bit reversals, the CRC-8 of MSP and the exclusive-or of the sensor's own
  protocol. The lemmas show that the MAVLink routine is the reflected bit-serial CRC (polynomial
  0x8408), and that all three are instances of the interface \<open>crc_engine\<close>.
\<close>

section \<open>MAVLink\<close>

definition crc_extra_array :: "u8 list" where
  "crc_extra_array =[
     50, 124, 137, 0, 237, 217, 104, 119, 0, 0, 0, 89, 0, 0, 0, 0,
     0, 0, 0, 0, 214, 159, 220, 168, 24, 23, 170, 144, 67, 115, 39, 246,
     185, 104, 237, 244, 222, 212, 9, 254, 230, 28, 28, 132, 221, 232, 11, 153,
     41, 39, 78, 0, 0, 0, 15, 3, 0, 0, 0, 0, 0, 153, 183, 51,
     59, 118, 148, 21, 0, 243, 124, 0, 0, 38, 20, 158, 152, 143, 0, 0,
     0, 106, 49, 22, 143, 140, 5, 150, 0, 231, 183, 63, 54, 0, 0, 0,
     0, 0, 0, 0, 175, 102, 158, 208, 56, 93, 138, 108, 32, 185, 84, 34,
     174, 124, 237, 4, 76, 128, 56, 116, 134, 237, 203, 250, 87, 203, 220, 25,
     226, 46, 29, 223, 85, 6, 229, 203, 1, 195, 109, 168, 181, 148, 72, 0,
     0, 0, 103, 154, 178, 200, 0, 0, 0, 0, 0, 0, 0, 0, 0, 0,
     0, 0, 0, 0, 0, 0, 0, 0, 0, 0, 0, 0, 0, 0, 0, 0,
     0, 0, 0, 0, 0, 0, 0, 0, 0, 0, 0, 0, 0, 0, 0, 0,
     0, 0, 0, 0, 0, 0, 0, 0, 0, 0, 0, 0, 0, 0, 0, 0,
     0, 0, 0, 0, 0, 0, 0, 0, 0, 0, 0, 0, 0, 0, 0, 0,
     0, 0, 0, 0, 0, 0, 0, 0, 0, 0, 0, 0, 0, 0, 0, 0,
     0, 90, 104, 85, 95, 83, 0, 0, 8, 204, 49, 170, 44, 83, 46, 0]"

record hexin_crc16 =
  is_initial :: u32
  is_gradual :: u32
  width :: u16
  poly :: u16
  init :: u16
  refin :: u32
  refout :: u32
  xorout :: u16
  result :: u16
  table :: "u16 list"

definition hexin_reverse8 :: "u8 \<Rightarrow> u8" where
  "hexin_reverse8 data =
     foldl (\<lambda>t i. t OR push_bit (7 - i) (drop_bit i data AND 0x01)) 0 [0..<8]"

definition hexin_reverse16 :: "u16 \<Rightarrow> u16" where
  "hexin_reverse16 data =
     foldl (\<lambda>t i. t OR push_bit (15 - i) (drop_bit i data AND 0x0001)) 0 [0..<16]"

text \<open>The inner loop of \<open>hexin_crc16_compute_init_table\<close> on its pair of variables \<open>(crc, c)\<close>.\<close>

definition init_table_step :: "u16 \<Rightarrow> u16 \<times> u16 \<Rightarrow> u16 \<times> u16" where
  "init_table_step p cc =
     (let (crc, c) = cc in
      (if (crc XOR c) AND 0x8000 \<noteq> 0 then push_bit 1 crc XOR p else push_bit 1 crc,
       push_bit 1 c))"

definition hexin_crc16_compute_init_table :: "hexin_crc16 \<Rightarrow> u32 \<times> hexin_crc16" where
  "hexin_crc16_compute_init_table param =
     (1, param\<lparr>table :=
        map (\<lambda>i. fst ((init_table_step (poly param) ^^ 8) (0, push_bit 8 (of_nat i)))) [0..<256]\<rparr>)"

definition hexin_crc16_compute_char :: "u16 \<Rightarrow> u8 \<Rightarrow> hexin_crc16 \<Rightarrow> u16" where
  "hexin_crc16_compute_char crc16 c param =
     push_bit 8 crc16 XOR
       table param ! unat ((drop_bit 8 crc16 XOR (0x00FF AND ucast c)) AND 0xFF)"

definition param_st :: hexin_crc16 where
  "param_st = \<lparr>is_initial = 0, is_gradual = 0, width = 16, poly = 0x1021, init = 0xFFFF,
     refin = 1, refout = 1, xorout = 0, result = 0, table = replicate 256 0\<rparr>"

text \<open>
  The routine first overwrites the last byte of its buffer with the extra byte of the message, so it
  returns the buffer as well as the checksum.
\<close>

definition hexin_crc16_compute :: "u8 list \<Rightarrow> int \<Rightarrow> u32 \<Rightarrow> u16 \<Rightarrow> (u8 list \<times> u16) cres" where
  "hexin_crc16_compute pSrc message_id len init0 =
     cbind (if message_id < 0 then Inl OutOfBounds else rd crc_extra_array (nat message_id)) (\<lambda>extra.
     cbind (wr pSrc (unat (len - 1)) extra) (\<lambda>pSrc.
     let param =
       (if is_initial param_st = 0
        then (let (ok, ps) = hexin_crc16_compute_init_table param_st in ps\<lparr>is_initial := ok\<rparr>)
        else param_st);
       crc = (if refout param = 1 \<and> is_gradual param = 2 then hexin_reverse16 init0 else init0) in
     cbind (rd_n pSrc (unat len)) (\<lambda>bs.
     let crc =
       (if refin param = 1
        then foldl (\<lambda>crc b. hexin_crc16_compute_char crc (hexin_reverse8 b) param) crc bs
        else foldl (\<lambda>crc b. hexin_crc16_compute_char crc b param) crc bs);
       crc = (if refout param = 1 then hexin_reverse16 crc else crc) in
     Inr (pSrc, crc XOR xorout param))))"

section \<open>MSP and UPIXELS\<close>

definition crc8_dvb_s2 :: "u8 \<Rightarrow> u8 \<Rightarrow> u8" where
  "crc8_dvb_s2 crc a =
     ((\<lambda>crc. if crc AND 0x80 \<noteq> 0 then push_bit 1 crc XOR 0xD5 else push_bit 1 crc) ^^ 8) (crc XOR a)"

definition crc8 :: "u8 list \<Rightarrow> nat \<Rightarrow> u8 cres" where
  "crc8 buf len = cbind (rd_n buf len) (\<lambda>bs. Inr (foldl crc8_dvb_s2 0 bs))"

definition upxor :: "u8 list \<Rightarrow> nat \<Rightarrow> u8 cres" where
  "upxor buf len = cbind (rd_n buf len) (\<lambda>bs. Inr (foldl (XOR) 0 bs))"

section \<open>Reversal turns the forward register into the reflected one\<close>

lemma bit_reverse_loop:
  fixes data :: "'a::len word"
  assumes "k \<le> Suc m" "m < LENGTH('a)"
  shows "bit (foldl (\<lambda>t i. t OR push_bit (m - i) (drop_bit i data AND 1)) 0 [0..<k]) n \<longleftrightarrow>
    m < n + k \<and> n \<le> m \<and> bit data (m - n)"
  using assms(1)
proof (induction k)
  case (Suc k)
  have "bit (push_bit (m - k) (drop_bit k data AND 1)) n \<longleftrightarrow> n = m - k \<and> bit data k"
    using assms(2) Suc.prems
    unfolding bit_push_bit_iff bit_and_iff bit_drop_bit_eq comp_apply bit_1_iff by auto
  moreover have "k \<le> Suc m" using Suc.prems by simp
  ultimately show ?case
    unfolding upt_Suc_append [OF le0] foldl_append foldl.simps bit_or_iff
    by (subst Suc.IH, use Suc.prems in simp, cases "n = m - k") (use Suc.prems in auto)
qed simp

lemma bit_reverse8: "bit (hexin_reverse8 b) n \<longleftrightarrow> n \<le> 7 \<and> bit b (7 - n)"
  unfolding hexin_reverse8_def by (subst bit_reverse_loop) auto

lemma bit_reverse16: "bit (hexin_reverse16 w) n \<longleftrightarrow> n \<le> 15 \<and> bit w (15 - n)"
  unfolding hexin_reverse16_def by (subst bit_reverse_loop) auto

lemma reverse16_reverse16 [simp]: "hexin_reverse16 (hexin_reverse16 w) = w"
  by (rule bit_word_eqI) (auto simp: bit_reverse16)

lemma reverse16_xor: "hexin_reverse16 (a XOR b) = hexin_reverse16 a XOR hexin_reverse16 b"
  by (rule bit_word_eqI) (auto simp: bit_reverse16 bit_xor_iff)

lemma reverse16_push: "hexin_reverse16 (push_bit 1 c) = drop_bit 1 (hexin_reverse16 c)"
  by (rule bit_word_eqI, unfold bit_reverse16 bit_drop_bit_eq comp_apply bit_push_bit_iff) auto

lemma reverse16_shl: "hexin_reverse16 (shl_step p c) = shr_step (hexin_reverse16 p) (hexin_reverse16 c)"
  by (simp add: shl_step_def shr_step_def reverse16_xor reverse16_push bit_reverse16 del: One_nat_def)

lemma reverse16_eight:
  "hexin_reverse16 (eight (shl_step p) c) = eight (shr_step (hexin_reverse16 p)) (hexin_reverse16 c)"
  by (simp add: eight_def reverse16_shl)

lemma reverse16_byte: "hexin_reverse16 (push_bit 8 (ucast (hexin_reverse8 b))) = ucast b"
proof (rule bit_word_eqI)
  fix n assume "n < LENGTH(16)"
  then show "bit (hexin_reverse16 (push_bit 8 (ucast (hexin_reverse8 b)))) n \<longleftrightarrow> bit (ucast b :: u16) n"
    unfolding bit_reverse16 bit_push_bit_iff bit_ucast_iff bit_reverse8
    by (cases "n < 8") auto
qed

section \<open>The table of the forward register\<close>

lemma and_top_bit: "w AND 0x8000 \<noteq> 0 \<longleftrightarrow> bit w 15" for w :: u16
  by (simp add: bit_iff_and_push_bit_not_eq_0)

lemma init_table_step_xor:
  "fst (init_table_step p cc) XOR snd (init_table_step p cc) = shl_step p (fst cc XOR snd cc)"
  "snd (init_table_step p cc) = push_bit 1 (snd cc)"
  unfolding init_table_step_def shl_step_def and_top_bit case_prod_beta Let_def push_bit_xor
  by (simp_all add: bit_xor_iff xor.assoc xor.left_commute [of p] xor.commute [of p] del: push_bit_eq_mult)

lemma init_table_steps:
  "fst ((init_table_step p ^^ n) cc) XOR snd ((init_table_step p ^^ n) cc) =
    (shl_step p ^^ n) (fst cc XOR snd cc)"
  by (induction n) (simp_all only: funpow.simps comp_apply init_table_step_xor(1) id_apply)

lemma init_table_steps_snd: "snd ((init_table_step p ^^ n) cc) = (push_bit 1 ^^ n) (snd cc)"
  by (induction n) (simp_all only: funpow.simps comp_apply init_table_step_xor(2) id_apply)

lemma funpow_eight: "(f ^^ 8) x = eight f x"
  by (simp add: eight_def eval_nat_numeral)

lemma table_entry:
  "fst ((init_table_step p ^^ 8) (0, push_bit 8 (x AND 0xff))) = eight (shl_step p) (push_bit 8 (x AND 0xff))"
proof -
  have "(push_bit 1 ^^ n) w = push_bit n w" for n and w :: u16
    by (induction n) (simp_all only: funpow.simps comp_apply id_apply push_bit_push_bit push_bit_0_id plus_1_eq_Suc)
  then have "(push_bit 1 ^^ 8) (push_bit 8 (x AND 0xff)) = push_bit 16 (x AND 0xff)"
    by (simp only: push_bit_push_bit) simp
  moreover have "push_bit 16 (x AND 0xff) = 0"
    by (rule bit_word_eqI) (simp only: bit_push_bit_iff, simp)
  ultimately show ?thesis
    using init_table_steps [of 8 p "(0, push_bit 8 (x AND 0xff))"]
      init_table_steps_snd [of 8 p "(0, push_bit 8 (x AND 0xff))"]
    unfolding funpow_eight by (simp only: fst_conv snd_conv xor.right_neutral xor.left_neutral)
qed

section \<open>The MAVLink routine is the reflected bit-serial CRC\<close>

definition x25_bits :: "u16 \<Rightarrow> u8 \<Rightarrow> u16" where
  "x25_bits c b = eight (shr_step 0x8408) (c XOR ucast b)"

lemma compute_char_bits:
  assumes "table ps ! unat ((drop_bit 8 c XOR (0x00FF AND ucast b)) AND 0xff) =
    eight (shl_step 0x1021) (push_bit 8 ((drop_bit 8 c XOR (0x00FF AND ucast b)) AND 0xff))"
  shows "hexin_crc16_compute_char c b ps = crc16_bits c b"
proof -
  have "0x00FF AND ucast b = (ucast b :: u16)"
    unfolding byte_mask by (rule bit_word_eqI) (auto simp: bit_simps dest: bit_imp_le_length)
  then show ?thesis
    using assms unfolding hexin_crc16_compute_char_def
    by (simp add: crc16_upd_bits [symmetric] crc16_upd_def CRC16Table_nth xor.commute)
qed

definition ready :: "hexin_crc16" where
  "ready = (let (ok, ps) = hexin_crc16_compute_init_table param_st in ps\<lparr>is_initial := ok\<rparr>)"

lemma ready_char: "hexin_crc16_compute_char c b ready = crc16_bits c b"
proof (rule compute_char_bits)
  let ?x = "(drop_bit 8 c XOR (0x00FF AND ucast b)) AND 0xff"
  have "table ready ! unat ?x = fst ((init_table_step 0x1021 ^^ 8) (0, push_bit 8 (of_nat (unat ?x))))"
    using byte_index [where x = "drop_bit 8 c XOR (0x00FF AND ucast b)"]
    by (simp add: ready_def hexin_crc16_compute_init_table_def param_st_def del: funpow.simps)
  moreover have "of_nat (unat ?x) = ?x" by simp
  ultimately show "table ready ! unat ?x = eight (shl_step 0x1021) (push_bit 8 ?x)"
    by (simp only: table_entry)
qed

lemma ready_simps [simp]: "is_gradual ready = 0" "refin ready = 1" "refout ready = 1" "xorout ready = 0"
  by (simp_all add: ready_def hexin_crc16_compute_init_table_def param_st_def)

lemma reverse16_crc16_bits:
  "hexin_reverse16 (crc16_bits c (hexin_reverse8 b)) = x25_bits (hexin_reverse16 c) b"
proof -
  have "hexin_reverse16 0x1021 = 0x8408"
    by (simp add: hexin_reverse16_def upt_rec [of _ 16])
  then show ?thesis
    by (simp only: crc16_bits_def x25_bits_def reverse16_eight reverse16_xor reverse16_byte)
qed

lemma reverse16_foldl:
  "hexin_reverse16 (foldl (\<lambda>crc b. hexin_crc16_compute_char crc (hexin_reverse8 b) ready) c bs) =
    foldl x25_bits (hexin_reverse16 c) bs"
  by (induction bs arbitrary: c) (simp_all add: ready_char reverse16_crc16_bits)

lemma length_crc_extra [simp]: "length crc_extra_array = 256"
  by (simp add: crc_extra_array_def)

lemma take_upd_last: "0 < n \<Longrightarrow> n \<le> length xs \<Longrightarrow> take n (xs[n - 1 := v]) = take (n - 1) xs @ [v]"
  by (cases n) auto

lemma unat_pred: "0 < len \<Longrightarrow> unat (len - 1) = unat len - 1" for len :: "'a::len word"
  using word_gt_0 by (intro unat_minus_one) auto

lemma hexin_crc16_compute_eq:
  assumes "0 \<le> mid" "mid < 256" "0 < len" "unat len \<le> length buf"
  shows "hexin_crc16_compute buf mid len init0 =
    Inr (buf[unat len - 1 := crc_extra_array ! nat mid],
      foldl x25_bits (hexin_reverse16 init0) (take (unat len - 1) buf @ [crc_extra_array ! nat mid]))"
proof -
  have pos: "0 < unat len" using assms(3) by (simp add: word_gt_0 unat_gt_0)
  have i: "is_initial param_st = 0" by (simp add: param_st_def)
  have "hexin_crc16_compute buf mid len init0 =
    Inr (buf[unat len - 1 := crc_extra_array ! nat mid],
      hexin_reverse16 (foldl (\<lambda>crc b. hexin_crc16_compute_char crc (hexin_reverse8 b) ready) init0
        (take (unat len) (buf[unat len - 1 := crc_extra_array ! nat mid]))))"
    unfolding hexin_crc16_compute_def ready_def [symmetric] if_P [OF i]
    using assms pos by (simp add: unat_pred)
  then show ?thesis
    by (simp only: reverse16_foldl take_upd_last [OF pos assms(4)])
qed

text \<open>
  With an identifier of the extra table and a buffer of at least \<open>len > 0\<close> bytes the MAVLink routine
  succeeds, replaces the byte at \<open>len - 1\<close> by the extra byte and returns the reflected bit-serial
  CRC (polynomial 0x8408) of the buffer so changed.
\<close>

theorem hexin_crc16_is_reflected_bit_serial:
  assumes "0 \<le> mid" "mid < 256" "0 < len" "unat len \<le> length buf"
  shows "hexin_crc16_compute buf mid len init0 =
    Inr (buf[unat len - 1 := crc_extra_array ! nat mid],
      foldl x25_bits (hexin_reverse16 init0) (take (unat len - 1) buf @ [crc_extra_array ! nat mid]))"
  using assms by (rule hexin_crc16_compute_eq)

text \<open>The check value of the reflected CRC on the ASCII digits 1 to 9; message 0 has the extra byte 50.\<close>

theorem hexin_crc16_is_reflected_bit_serial_witness:
  "hexin_crc16_compute [49, 50, 51, 52, 53, 54, 55, 56, 57, 0] 0 10 0xFFFF =
     Inr ([49, 50, 51, 52, 53, 54, 55, 56, 57, 50], x25_bits 0x6F91 50)"
proof -
  have "hexin_reverse16 0xFFFF = 0xFFFF" by (simp add: hexin_reverse16_def upt_rec [of _ 16])
  then show ?thesis
    using hexin_crc16_is_reflected_bit_serial [of 0 10 "[49, 50, 51, 52, 53, 54, 55, 56, 57, 0]" "0xFFFF"]
    by (simp add: crc_extra_array_def x25_bits_def eight_def shr_step_def)
qed

section \<open>Instances of the checksum interface\<close>

lemma crc8_dvb_s2_bits: "crc8_dvb_s2 c b = eight (shl_step 0xD5) (c XOR b)"
proof -
  have "w AND 0x80 \<noteq> 0 \<longleftrightarrow> bit w 7" for w :: u8
    by (simp add: bit_iff_and_push_bit_not_eq_0)
  then show ?thesis
    by (simp add: crc8_dvb_s2_def funpow_eight shl_step_def [abs_def] del: funpow.simps)
qed

lemmas eight_shr_inj_x25 = eight_shr_inj [of "0x8408 :: u16", simplified]
  and eight_shl_inj_d5 = eight_shl_inj [of "0xD5 :: u8", simplified]

interpretation x25: crc_engine x25_bits
  by unfold_locales (auto simp: x25_bits_def dest: eight_shr_inj_x25)

interpretation dvb: crc_engine crc8_dvb_s2
  by unfold_locales (auto simp: crc8_dvb_s2_bits dest: eight_shl_inj_d5)

interpretation upx: crc_engine "(XOR) :: u8 \<Rightarrow> u8 \<Rightarrow> u8"
  by unfold_locales simp_all

end
