(* ===== verification/Framing.thy ===== *)
theory Framing
  imports Prelude
begin

text \<open>
  Frames of fixed length and their recognisers. The contract of a receiver that is fed one byte at a
  time is the matcher \<open>match\<close>: it keeps the bytes of the frame it may be inside of, drops them at the
  first byte that does not fit and reports the byte that completes a frame. The interface
  \<open>byte_parser\<close> is what a receiver shows about one of its steps; the lemmas proved in it are what
  its users rely on for whole byte streams.
\<close>

section \<open>Frames\<close>

text \<open>One test per position: may this byte follow the bytes before it?\<close>

type_synonym checks = "(u8 list \<Rightarrow> u8 \<Rightarrow> bool) list"

definition lit :: "u8 \<Rightarrow> u8 list \<Rightarrow> u8 \<Rightarrow> bool" where "lit c m b = (b = c)"
definition any :: "u8 list \<Rightarrow> u8 \<Rightarrow> bool" where "any m b = True"

lemma lit_any [simp]: "lit c m b \<longleftrightarrow> b = c" "any m b"
  by (simp_all add: lit_def any_def)

definition frame :: "checks \<Rightarrow> u8 list \<Rightarrow> bool" where
  "frame cs m = (length m = length cs \<and> (\<forall>i<length cs. (cs ! i) (take i m) (m ! i)))"

definition match :: "checks \<Rightarrow> u8 list \<Rightarrow> u8 \<Rightarrow> u8 list \<times> bool" where
  "match cs m b =
     (if (cs ! length m) m b
      then if Suc (length m) = length cs then ([], True) else (m @ [b], False)
      else ([], False))"

text \<open>The bytes kept so far are the beginning of a frame.\<close>

definition viable :: "checks \<Rightarrow> u8 list \<Rightarrow> bool" where
  "viable cs m = (length m < length cs \<and> (\<forall>i<length m. (cs ! i) (take i m) (m ! i)))"

lemma viable_Nil [simp]: "viable cs [] \<longleftrightarrow> cs \<noteq> []"
  by (simp add: viable_def)

lemma match_viable: "viable cs m \<Longrightarrow> viable cs (fst (match cs m b))"
  by (auto simp: viable_def match_def nth_append less_Suc_eq)

lemma match_frame: "viable cs m \<Longrightarrow> snd (match cs m b) \<Longrightarrow> frame cs (m @ [b])"
  by (auto simp: viable_def match_def frame_def nth_append less_Suc_eq split: if_splits
      dest!: sym [of "Suc (length m)"])

lemma match_suffix:
  "\<exists>pre. h = pre @ m \<Longrightarrow> \<exists>pre. h @ [b] = pre @ fst (match cs m b)"
  by (auto simp: match_def)

lemma run_match_viable:
  "viable cs m \<Longrightarrow> viable cs (fst (run (match cs) m bs))"
  by (induction bs arbitrary: m) (auto simp: Let_def case_prod_beta match_viable)

lemma run_match_suffix: "\<exists>pre. bs = pre @ fst (run (match cs) [] bs)"
proof (induction bs rule: rev_induct)
  case (snoc b bs)
  then show ?case unfolding run_snoc_fst by (rule match_suffix)
qed simp

lemma run_match_prefix:
  assumes "frame cs fr" "n < length cs"
  shows "run (match cs) [] (take n fr) = (take n fr, replicate n False)"
  using assms(2)
proof (induction n)
  case (Suc n)
  then have n: "n < length fr" "(cs ! n) (take n fr) (fr ! n)"
    using assms(1) by (auto simp: frame_def)
  have "run (match cs) [] (take (Suc n) fr) =
      (fst (match cs (take n fr) (fr ! n)), replicate n False @ [snd (match cs (take n fr) (fr ! n))])"
    using Suc unfolding take_Suc_conv_app_nth [OF n(1)] by (simp add: run_append case_prod_beta)
  moreover have "match cs (take n fr) (fr ! n) = (take n fr @ [fr ! n], False)"
    using Suc.prems n by (simp add: match_def)
  ultimately show ?case
    by (simp add: take_Suc_conv_app_nth [OF n(1)] replicate_append_same)
qed simp

lemma run_match_complete:
  assumes "frame cs fr" "cs \<noteq> []"
  shows "run (match cs) [] fr = ([], replicate (length cs - 1) False @ [True])"
proof -
  let ?n = "length cs - 1"
  have n: "?n < length cs" "length fr = length cs" "Suc ?n = length cs"
    using assms by (auto simp: frame_def)
  have split: "fr = take ?n fr @ [fr ! ?n]"
    using n take_Suc_conv_app_nth [of ?n fr] by simp
  have "match cs (take ?n fr) (fr ! ?n) = ([], True)"
    using assms(1) n by (auto simp: frame_def match_def)
  then show ?thesis
    by (subst split) (simp add: run_append case_prod_beta run_match_prefix [OF assms(1) n(1)] del: One_nat_def)
qed

section \<open>The interface of a receiver\<close>

text \<open>
  \<open>R s m\<close> relates the variables of a receiver to the bytes of the frame it is inside of, \<open>out s fr\<close>
  says what it has stored when the frame \<open>fr\<close> is complete, and \<open>miss\<close> is what it returns otherwise.
\<close>

definition code :: "int \<Rightarrow> bool \<Rightarrow> int" where
  "code miss a = (if a then 0 else miss)"

locale byte_parser =
  fixes step :: "'s \<Rightarrow> u8 \<Rightarrow> ('s \<times> int) cres"
    and checks :: checks
    and R :: "'s \<Rightarrow> u8 list \<Rightarrow> bool"
    and out :: "'s \<Rightarrow> u8 list \<Rightarrow> bool"
    and miss :: int
  assumes miss: "miss \<noteq> 0"
    and nonempty: "checks \<noteq> []"
    and sim: "R s m \<Longrightarrow> viable checks m \<Longrightarrow> \<exists>s'. step s b = Inr (s', code miss (snd (match checks m b))) \<and>
      R s' (fst (match checks m b)) \<and> (snd (match checks m b) \<longrightarrow> out s' (m @ [b]))"
begin

lemma feed_refines:
  assumes "R s m" "viable checks m"
  shows "\<exists>s'. feed step s bs = Inr (s', map (code miss) (snd (run (match checks) m bs))) \<and>
    R s' (fst (run (match checks) m bs))"
  using assms
proof (induction bs arbitrary: s m)
  case (Cons b bs)
  obtain s1 where s1: "step s b = Inr (s1, code miss (snd (match checks m b)))"
    "R s1 (fst (match checks m b))"
    using sim [OF Cons.prems, of b] by blast
  from Cons.IH [OF s1(2) match_viable [OF Cons.prems(2)]] s1(1)
  show ?case by (auto simp: Let_def case_prod_beta)
qed simp

lemma feed_total:
  assumes "R s []"
  shows "\<exists>s' rs. feed step s bs = Inr (s', rs) \<and> length rs = length bs \<and> set rs \<subseteq> {0, miss}"
  using feed_refines [OF assms, of bs] nonempty by (fastforce simp: code_def)

lemma accepts:
  assumes "R s []" "frame checks fr"
  shows "\<exists>s'. feed step s fr = Inr (s', replicate (length checks - 1) miss @ [0]) \<and> R s' [] \<and> out s' fr"
proof -
  let ?n = "length checks - 1"
  have v: "viable checks []" using nonempty by simp
  have n: "?n < length checks" "length fr = length checks" "Suc ?n = length checks"
    using assms nonempty by (auto simp: frame_def)
  have split: "fr = take ?n fr @ [fr ! ?n]"
    using n take_Suc_conv_app_nth [of ?n fr] by simp
  have m: "match checks (take ?n fr) (fr ! ?n) = ([], True)"
    using assms(2) n by (auto simp: frame_def match_def)
  obtain s1 where s1: "feed step s (take ?n fr) = Inr (s1, replicate ?n miss)" "R s1 (take ?n fr)"
    using feed_refines [OF assms(1) v, of "take ?n fr"]
    unfolding run_match_prefix [OF assms(2) n(1)] by (auto simp: code_def)
  have "viable checks (take ?n fr)"
    using run_match_viable [OF v, of "take ?n fr"]
    unfolding run_match_prefix [OF assms(2) n(1)] by simp
  from sim [OF s1(2) this, of "fr ! ?n"] obtain s2
    where "step s1 (fr ! ?n) = Inr (s2, 0)" "R s2 []" "out s2 fr"
    unfolding m using split by (auto simp: code_def)
  then show ?thesis
    by (subst split) (simp add: feed_append s1(1) del: One_nat_def)
qed

end

section \<open>The interface of a receiver of frames of any length\<close>

text \<open>
  \<open>T s m\<close> says that the variables \<open>s\<close> are those of a receiver that has the bytes \<open>m\<close> of a frame; after
  a byte it may have dropped some of the first ones. A result that is a \<open>hit\<close> must come with a
  \<open>good\<close> frame.
\<close>

locale tracker =
  fixes step :: "'s \<Rightarrow> u8 \<Rightarrow> ('s \<times> 'r) cres"
    and T :: "'s \<Rightarrow> u8 list \<Rightarrow> bool"
    and hit :: "'r \<Rightarrow> bool"
    and good :: "u8 list \<Rightarrow> 's \<Rightarrow> bool"
  assumes track: "T s m \<Longrightarrow> \<exists>s' r pre m'. step s b = Inr (s', r) \<and> m @ [b] = pre @ m' \<and> T s' m' \<and>
    (hit r \<longrightarrow> good (m @ [b]) s')"
begin

lemma feed_tracks:
  assumes "T s []"
  shows "\<exists>s' rs pre m. feed step s bs = Inr (s', rs) \<and> length rs = length bs \<and> bs = pre @ m \<and> T s' m"
proof (induction bs rule: rev_induct)
  case (snoc b bs)
  then obtain s1 rs pre m where s1: "feed step s bs = Inr (s1, rs)" "length rs = length bs"
    "bs = pre @ m" "T s1 m" by blast
  obtain s2 r pre2 m2 where s2: "step s1 b = Inr (s2, r)" "m @ [b] = pre2 @ m2" "T s2 m2"
    using track [OF s1(4), of b] by blast
  have "feed step s (bs @ [b]) = Inr (s2, rs @ [r])" using s1(1) s2(1) by (simp add: feed_append)
  moreover have "bs @ [b] = (pre @ pre2) @ m2" using s1(3) s2(2) by simp
  ultimately show ?case using s1(2) s2(3) by (metis length_append_singleton)
qed (use assms in auto)

lemma never_faults: "T s [] \<Longrightarrow> \<exists>s' rs. feed step s bs = Inr (s', rs) \<and> length rs = length bs"
  using feed_tracks by blast

lemma reported_frame:
  assumes "T s []" "feed step s (xs @ [b]) = Inr (s', rs)" "hit (last rs)"
  shows "\<exists>pre fr. xs @ [b] = pre @ fr \<and> good fr s'"
proof -
  obtain s1 r1 pre m where s1: "feed step s xs = Inr (s1, r1)" "xs = pre @ m" "T s1 m"
    using feed_tracks [OF assms(1)] by blast
  obtain s2 r where s2: "step s1 b = Inr (s2, r)" "hit r \<longrightarrow> good (m @ [b]) s2"
    using track [OF s1(3), of b] by blast
  have "s' = s2" "last rs = r" using assms(2) s1(1) s2(1) by (auto simp: feed_append)
  then show ?thesis using s1(2) s2(2) assms(3) by (metis append.assoc)
qed

end

text \<open>A receiver that keeps all bytes or none.\<close>

lemma trackerI:
  assumes "\<And>s m b. T s m \<Longrightarrow> \<exists>s' r. step s b = Inr (s', r) \<and> (T s' (m @ [b]) \<or> T s' []) \<and>
    (hit r \<longrightarrow> good (m @ [b]) s')"
  shows "tracker step T hit good"
proof
  fix s m b assume "T s m"
  from assms [OF this, of b] obtain s' r where "step s b = Inr (s', r)" "T s' (m @ [b]) \<or> T s' []"
    "hit r \<longrightarrow> good (m @ [b]) s'" by blast
  moreover have "m @ [b] = [] @ (m @ [b])" "m @ [b] = (m @ [b]) @ []" by simp_all
  ultimately show "\<exists>s' r pre m'. step s b = Inr (s', r) \<and> m @ [b] = pre @ m' \<and> T s' m' \<and>
      (hit r \<longrightarrow> good (m @ [b]) s')" by blast
qed

text \<open>A receiver that refines a matcher is one of these.\<close>

sublocale byte_parser \<subseteq> tracker step "\<lambda>s m. R s m \<and> viable checks m" "\<lambda>r. r = 0"
  "\<lambda>fr s. frame checks fr \<and> out s fr"
proof (rule trackerI)
  fix s m b assume "R s m \<and> viable checks m"
  then have v: "R s m" "viable checks m" by simp_all
  from sim [OF this, of b] obtain s' where s': "step s b = Inr (s', code miss (snd (match checks m b)))"
    "R s' (fst (match checks m b))" "snd (match checks m b) \<longrightarrow> out s' (m @ [b])" by blast
  have "fst (match checks m b) = m @ [b] \<or> fst (match checks m b) = []" by (simp add: match_def)
  then show "\<exists>s' r. step s b = Inr (s', r) \<and>
      (R s' (m @ [b]) \<and> viable checks (m @ [b]) \<or> R s' [] \<and> viable checks []) \<and>
      (r = 0 \<longrightarrow> frame checks (m @ [b]) \<and> out s' (m @ [b]))"
    using s' match_viable [OF v(2), of b] match_frame [OF v(2), of b] miss
    by (auto simp: code_def)
qed

end
