(* ===== verification/FlowDecode.thy ===== *)
theory FlowDecode
  imports FlowCheck Framing
begin

text \<open>
  The receivers of the optical flow sensors, \<^verbatim>\<open>flow/flow_decode.c\<close>: seven state machines, one per
  protocol, fed one byte at a time, and the dispatcher of \<^verbatim>\<open>flow/main_flow.c\<close>. The static variables of a
  function are a record, with the global structure it fills as a list of bytes. Every receiver is
  shown to refine the matcher of its frame (an interpretation of \<open>byte_parser\<close>), which gives that
  no input makes it write outside its buffers, that it accepts every frame and nothing else, and
  what its structure holds then.
\<close>

section \<open>The sensor's own protocol\<close>

record up_statics =
  up_s :: nat
  up_p :: nat
  Xor_r :: u8
  Xor_c :: u8
  up_buf :: "u8 list"

text \<open>\<open>up_buf\<close> is \<open>up_data\<close> of the first function and \<open>up_flow_data\<close> of the second.\<close>

definition up_parse_char :: "up_statics \<Rightarrow> u8 \<Rightarrow> (up_statics \<times> int) cres" where
  "up_parse_char st ch =
  (if up_s st = 0 then Inr (if ch = 0xFE then st\<lparr>up_s := 1\<rparr> else st, -1)
   else if up_s st = 1 then
     Inr (if ch = 0x0A then st\<lparr>up_s := 2, up_p := 0, Xor_c := 0x00\<rparr> else st\<lparr>up_s := 0\<rparr>, -1)
   else if up_s st = 2 then
     cbind (wr (up_buf st) (up_p st) ch) (\<lambda>d.
     let st = st\<lparr>up_buf := d, up_p := up_p st + 1, Xor_c := Xor_c st XOR ch\<rparr> in
     Inr (if up_p st = 10 then st\<lparr>up_s := 3, up_p := 0\<rparr> else st, -1))
   else if up_s st = 3 then Inr (st\<lparr>up_s := 4, Xor_r := ch\<rparr>, -1)
   else if up_s st = 4 then
     Inr (st\<lparr>up_s := 0\<rparr>, if ch = 0x55 then (if Xor_r st = Xor_c st then 0 else -1) else -1)
   else Inr (st, -1))"

definition upnotof_parse_char :: "up_statics \<Rightarrow> u8 \<Rightarrow> (up_statics \<times> int) cres" where
  "upnotof_parse_char st ch =
  (if up_s st = 0 then Inr (if ch = 0xFE then st\<lparr>up_s := 1\<rparr> else st, -1)
   else if up_s st = 1 then
     Inr (if ch = 0x0A then st\<lparr>up_s := 2, up_p := 0, Xor_c := 0x00\<rparr> else st\<lparr>up_s := 0\<rparr>, -1)
   else if up_s st = 2 then
     cbind (wr (up_buf st) (up_p st) ch) (\<lambda>d.
     let st = st\<lparr>up_buf := d, up_p := up_p st + 1, Xor_c := Xor_c st XOR ch\<rparr> in
     Inr (if up_p st = 10 then st\<lparr>up_s := 3, up_p := 0\<rparr> else st, -1))
   else if up_s st = 3 then Inr (st\<lparr>up_s := 4, Xor_r := ch\<rparr>, -1)
   else if up_s st = 4 then
     Inr (st\<lparr>up_s := 0\<rparr>, if ch = 0x55 then (if Xor_r st = Xor_c st then 0 else -1) else -1)
   else Inr (st, -1))"

definition up_init :: up_statics where
  "up_init = \<lparr>up_s = 0, up_p = 0, Xor_r = 0, Xor_c = 0, up_buf = replicate 10 0\<rparr>"

section \<open>MSP\<close>

record msp_statics =
  msp_s :: nat
  msp_p :: nat
  msp_crc1 :: "u8 list"
  msp_crc2 :: "u8 list"
  msp_dis :: "u8 list"
  msp_flow :: "u8 list"

definition msp_parse_char :: "msp_statics \<Rightarrow> u8 \<Rightarrow> (msp_statics \<times> int) cres" where
  "msp_parse_char st ch =
  (if msp_s st = 0 then
     Inr (if ch = 0x24 then st\<lparr>msp_s := 1\<rparr> else st\<lparr>msp_s := 0\<rparr>, -1)
   else if msp_s st = 1 then
     Inr (if ch = 0x58 then st\<lparr>msp_s := 2\<rparr> else st\<lparr>msp_s := 0\<rparr>, -1)
   else if msp_s st = 2 then
     Inr (if ch = 0x3C then st\<lparr>msp_s := 3\<rparr> else st\<lparr>msp_s := 0\<rparr>, -1)
   else if msp_s st = 3 then
     Inr (if ch = 0x00 then st\<lparr>msp_s := 4\<rparr> else st\<lparr>msp_s := 0\<rparr>, -1)
   else if msp_s st = 4 then
     Inr (if ch = 0x01 then st\<lparr>msp_s := 5\<rparr> else st\<lparr>msp_s := 0\<rparr>, -1)
   else if msp_s st = 5 then
     Inr (if ch = 0x1F then st\<lparr>msp_s := 6\<rparr> else st\<lparr>msp_s := 0\<rparr>, -1)
   else if msp_s st = 6 then
     Inr (if ch = 0x05 then st\<lparr>msp_s := 7\<rparr> else st\<lparr>msp_s := 0\<rparr>, -1)
   else if msp_s st = 7 then
     Inr (if ch = 0x00 then st\<lparr>msp_s := 8, msp_p := 0\<rparr> else st\<lparr>msp_s := 0\<rparr>, -1)
   else if msp_s st = 8 then
     cbind (wr (msp_dis st) (msp_p st) ch) (\<lambda>d.
     let st = st\<lparr>msp_dis := d, msp_p := msp_p st + 1\<rparr> in
     Inr (if msp_p st = 5 then st\<lparr>msp_s := 9, msp_p := 0\<rparr> else st, -1))
   else if msp_s st = 9 then
     cbind (rd_n (msp_dis st) 5) (\<lambda>d.
     cbind (cpy (msp_crc1 st) 5 d) (\<lambda>crc1.
     cbind (crc8 crc1 10) (\<lambda>ck.
     Inr (st\<lparr>msp_crc1 := crc1, msp_s := (if ck = ch then 10 else 0)\<rparr>, -1))))
   else if msp_s st = 10 then
     Inr (if ch = 0x24 then st\<lparr>msp_s := 11\<rparr> else st\<lparr>msp_s := 0\<rparr>, -1)
   else if msp_s st = 11 then
     Inr (if ch = 0x58 then st\<lparr>msp_s := 12\<rparr> else st\<lparr>msp_s := 0\<rparr>, -1)
   else if msp_s st = 12 then
     Inr (if ch = 0x3C then st\<lparr>msp_s := 13\<rparr> else st\<lparr>msp_s := 0\<rparr>, -1)
   else if msp_s st = 13 then
     Inr (if ch = 0x00 then st\<lparr>msp_s := 14\<rparr> else st\<lparr>msp_s := 0\<rparr>, -1)
   else if msp_s st = 14 then
     Inr (if ch = 0x02 then st\<lparr>msp_s := 15\<rparr> else st\<lparr>msp_s := 0\<rparr>, -1)
   else if msp_s st = 15 then
     Inr (if ch = 0x1F then st\<lparr>msp_s := 16\<rparr> else st\<lparr>msp_s := 0\<rparr>, -1)
   else if msp_s st = 16 then
     Inr (if ch = 0x09 then st\<lparr>msp_s := 17\<rparr> else st\<lparr>msp_s := 0\<rparr>, -1)
   else if msp_s st = 17 then
     Inr (if ch = 0x00 then st\<lparr>msp_s := 18, msp_p := 0\<rparr> else st\<lparr>msp_s := 0\<rparr>, -1)
   else if msp_s st = 18 then
     cbind (wr (msp_flow st) (msp_p st) ch) (\<lambda>d.
     let st = st\<lparr>msp_flow := d, msp_p := msp_p st + 1\<rparr> in
     Inr (if msp_p st = 9 then st\<lparr>msp_s := 19, msp_p := 0\<rparr> else st, -1))
   else if msp_s st = 19 then
     cbind (rd_n (msp_flow st) 9) (\<lambda>d.
     cbind (cpy (msp_crc2 st) 5 d) (\<lambda>crc2.
     cbind (crc8 crc2 14) (\<lambda>ck.
     Inr (st\<lparr>msp_crc2 := crc2, msp_s := 0\<rparr>, if ck = ch then 0 else -1))))
   else Inr (st, -1))"

definition msp_init :: msp_statics where
  "msp_init = \<lparr>msp_s = 0, msp_p = 0,
     msp_crc1 = [0x00, 0x01, 0x1F, 0x05, 0x00, 0, 0, 0, 0, 0],
     msp_crc2 = [0x00, 0x02, 0x1F, 0x09, 0x00, 0, 0, 0, 0, 0, 0, 0, 0, 0],
     msp_dis = replicate 5 0, msp_flow = replicate 9 0\<rparr>"

text \<open>The receiver without a distance sensor returns 1, not -1, while no frame is complete.\<close>

record mspn_statics =
  mspn_s :: nat
  mspn_p :: nat
  mspn_crc2 :: "u8 list"
  mspn_flow :: "u8 list"

definition mspnotof_parse_char :: "mspn_statics \<Rightarrow> u8 \<Rightarrow> (mspn_statics \<times> int) cres" where
  "mspnotof_parse_char st ch =
  (if mspn_s st = 0 then
     Inr (if ch = 0x24 then st\<lparr>mspn_s := 1\<rparr> else st\<lparr>mspn_s := 0\<rparr>, 1)
   else if mspn_s st = 1 then
     Inr (if ch = 0x58 then st\<lparr>mspn_s := 2\<rparr> else st\<lparr>mspn_s := 0\<rparr>, 1)
   else if mspn_s st = 2 then
     Inr (if ch = 0x3C then st\<lparr>mspn_s := 3\<rparr> else st\<lparr>mspn_s := 0\<rparr>, 1)
   else if mspn_s st = 3 then
     Inr (if ch = 0x00 then st\<lparr>mspn_s := 4\<rparr> else st\<lparr>mspn_s := 0\<rparr>, 1)
   else if mspn_s st = 4 then
     Inr (if ch = 0x02 then st\<lparr>mspn_s := 5\<rparr> else st\<lparr>mspn_s := 0\<rparr>, 1)
   else if mspn_s st = 5 then
     Inr (if ch = 0x1F then st\<lparr>mspn_s := 6\<rparr> else st\<lparr>mspn_s := 0\<rparr>, 1)
   else if mspn_s st = 6 then
     Inr (if ch = 0x09 then st\<lparr>mspn_s := 7\<rparr> else st\<lparr>mspn_s := 0\<rparr>, 1)
   else if mspn_s st = 7 then
     Inr (if ch = 0x00 then st\<lparr>mspn_s := 8, mspn_p := 0\<rparr> else st\<lparr>mspn_s := 0\<rparr>, 1)
   else if mspn_s st = 8 then
     cbind (wr (mspn_flow st) (mspn_p st) ch) (\<lambda>d.
     let st = st\<lparr>mspn_flow := d, mspn_p := mspn_p st + 1\<rparr> in
     Inr (if mspn_p st = 9 then st\<lparr>mspn_s := 9, mspn_p := 0\<rparr> else st, 1))
   else if mspn_s st = 9 then
     cbind (rd_n (mspn_flow st) 9) (\<lambda>d.
     cbind (cpy (mspn_crc2 st) 5 d) (\<lambda>crc2.
     cbind (crc8 crc2 14) (\<lambda>ck.
     Inr (st\<lparr>mspn_crc2 := crc2, mspn_s := 0\<rparr>, if ck = ch then 0 else 1))))
   else Inr (st, 1))"

definition mspn_init :: mspn_statics where
  "mspn_init = \<lparr>mspn_s = 0, mspn_p = 0,
     mspn_crc2 = [0x00, 0x02, 0x1F, 0x09, 0x00, 0, 0, 0, 0, 0, 0, 0, 0, 0],
     mspn_flow = replicate 9 0\<rparr>"

section \<open>MAVLink\<close>

record mav_statics =
  mav_s :: nat
  mav_p :: nat
  mav_v1 :: u16
  mav_v2 :: u16
  mav_crc1 :: "u8 list"
  mav_crc2 :: "u8 list"
  mav_flow :: "u8 list"
  mav_dis :: "u8 list"

definition apm_parse_char :: "mav_statics \<Rightarrow> u8 \<Rightarrow> (mav_statics \<times> int) cres" where
  "apm_parse_char st ch =
  (if mav_s st = 0 then
     Inr (if ch = 0xFE then st\<lparr>mav_s := 1\<rparr> else st\<lparr>mav_s := 0\<rparr>, -1)
   else if mav_s st = 1 then
     Inr (if ch = 0x1A then st\<lparr>mav_s := 2\<rparr> else st\<lparr>mav_s := 0\<rparr>, -1)
   else if mav_s st = 2 then
     cbind (wr (mav_crc1 st) 1 ch) (\<lambda>crc. Inr (st\<lparr>mav_s := 3, mav_crc1 := crc\<rparr>, -1))
   else if mav_s st = 3 then
     Inr (if ch = 0x00 then st\<lparr>mav_s := 4\<rparr> else st\<lparr>mav_s := 0\<rparr>, -1)
   else if mav_s st = 4 then
     Inr (if ch = 0x9E then st\<lparr>mav_s := 5\<rparr> else st\<lparr>mav_s := 0\<rparr>, -1)
   else if mav_s st = 5 then
     Inr (if ch = 0x64 then st\<lparr>mav_s := 6, mav_p := 0\<rparr> else st\<lparr>mav_s := 0\<rparr>, -1)
   else if mav_s st = 6 then
     cbind (wr (mav_flow st) (mav_p st) ch) (\<lambda>d.
     let st = st\<lparr>mav_flow := d, mav_p := mav_p st + 1\<rparr> in
     Inr (if mav_p st = 26 then st\<lparr>mav_s := 7, mav_p := 0\<rparr> else st, -1))
   else if mav_s st = 7 then
     cbind (rd_n (mav_flow st) 26) (\<lambda>d.
     cbind (cpy (mav_crc1 st) 5 d) (\<lambda>crc.
     cbind (hexin_crc16_compute crc 0x64 32 0xFFFF) (\<lambda>(crc, v).
     Inr (st\<lparr>mav_crc1 := crc, mav_v1 := v, mav_s := (if ch = lo8 v then 8 else 0)\<rparr>, -1))))
   else if mav_s st = 8 then
     Inr (st\<lparr>mav_s := (if ch = hi8 (mav_v1 st) then 9 else 0)\<rparr>, -1)
   else if mav_s st = 9 then
     Inr (if ch = 0xFE then st\<lparr>mav_s := 10\<rparr> else st\<lparr>mav_s := 0\<rparr>, -1)
   else if mav_s st = 10 then
     Inr (if ch = 0x0E then st\<lparr>mav_s := 11\<rparr> else st\<lparr>mav_s := 0\<rparr>, -1)
   else if mav_s st = 11 then
     cbind (wr (mav_crc2 st) 1 ch) (\<lambda>crc. Inr (st\<lparr>mav_s := 12, mav_crc2 := crc\<rparr>, -1))
   else if mav_s st = 12 then
     Inr (if ch = 0x00 then st\<lparr>mav_s := 13\<rparr> else st\<lparr>mav_s := 0\<rparr>, -1)
   else if mav_s st = 13 then
     Inr (if ch = 0x9E then st\<lparr>mav_s := 14\<rparr> else st\<lparr>mav_s := 0\<rparr>, -1)
   else if mav_s st = 14 then
     Inr (if ch = 0x84 then st\<lparr>mav_s := 15, mav_p := 0\<rparr> else st\<lparr>mav_s := 0\<rparr>, -1)
   else if mav_s st = 15 then
     cbind (wr (mav_dis st) (mav_p st) ch) (\<lambda>d.
     let st = st\<lparr>mav_dis := d, mav_p := mav_p st + 1\<rparr> in
     Inr (if mav_p st = 14 then st\<lparr>mav_s := 16, mav_p := 0\<rparr> else st, -1))
   else if mav_s st = 16 then
     cbind (rd_n (mav_dis st) 14) (\<lambda>d.
     cbind (cpy (mav_crc2 st) 5 d) (\<lambda>crc.
     cbind (hexin_crc16_compute crc 0x84 20 0xFFFF) (\<lambda>(crc, v).
     Inr (st\<lparr>mav_crc2 := crc, mav_v2 := v, mav_s := (if ch = lo8 v then 17 else 0)\<rparr>, -1))))
   else if mav_s st = 17 then
     Inr (st\<lparr>mav_s := 0\<rparr>, if ch = hi8 (mav_v2 st) then 0 else -1)
   else Inr (st, -1))"

definition px4_parse_char :: "mav_statics \<Rightarrow> u8 \<Rightarrow> (mav_statics \<times> int) cres" where
  "px4_parse_char st ch =
  (if mav_s st = 0 then
     Inr (if ch = 0xFE then st\<lparr>mav_s := 1\<rparr> else st\<lparr>mav_s := 0\<rparr>, -1)
   else if mav_s st = 1 then
     Inr (if ch = 0x2C then st\<lparr>mav_s := 2\<rparr> else st\<lparr>mav_s := 0\<rparr>, -1)
   else if mav_s st = 2 then
     cbind (wr (mav_crc1 st) 1 ch) (\<lambda>crc. Inr (st\<lparr>mav_s := 3, mav_crc1 := crc\<rparr>, -1))
   else if mav_s st = 3 then
     Inr (if ch = 0x00 then st\<lparr>mav_s := 4\<rparr> else st\<lparr>mav_s := 0\<rparr>, -1)
   else if mav_s st = 4 then
     Inr (if ch = 0x9E then st\<lparr>mav_s := 5\<rparr> else st\<lparr>mav_s := 0\<rparr>, -1)
   else if mav_s st = 5 then
     Inr (if ch = 0x6A then st\<lparr>mav_s := 6, mav_p := 0\<rparr> else st\<lparr>mav_s := 0\<rparr>, -1)
   else if mav_s st = 6 then
     cbind (wr (mav_flow st) (mav_p st) ch) (\<lambda>d.
     let st = st\<lparr>mav_flow := d, mav_p := mav_p st + 1\<rparr> in
     Inr (if mav_p st = 44 then st\<lparr>mav_s := 7, mav_p := 0\<rparr> else st, -1))
   else if mav_s st = 7 then
     cbind (rd_n (mav_flow st) 44) (\<lambda>d.
     cbind (cpy (mav_crc1 st) 5 d) (\<lambda>crc.
     cbind (hexin_crc16_compute crc 0x6A 50 0xFFFF) (\<lambda>(crc, v).
     Inr (st\<lparr>mav_crc1 := crc, mav_v1 := v, mav_s := (if ch = lo8 v then 8 else 0)\<rparr>, -1))))
   else if mav_s st = 8 then
     Inr (st\<lparr>mav_s := (if ch = hi8 (mav_v1 st) then 9 else 0)\<rparr>, -1)
   else if mav_s st = 9 then
     Inr (if ch = 0xFE then st\<lparr>mav_s := 10\<rparr> else st\<lparr>mav_s := 0\<rparr>, -1)
   else if mav_s st = 10 then
     Inr (if ch = 0x0E then st\<lparr>mav_s := 11\<rparr> else st\<lparr>mav_s := 0\<rparr>, -1)
   else if mav_s st = 11 then
     cbind (wr (mav_crc2 st) 1 ch) (\<lambda>crc. Inr (st\<lparr>mav_s := 12, mav_crc2 := crc\<rparr>, -1))
   else if mav_s st = 12 then
     Inr (if ch = 0x00 then st\<lparr>mav_s := 13\<rparr> else st\<lparr>mav_s := 0\<rparr>, -1)
   else if mav_s st = 13 then
     Inr (if ch = 0x9E then st\<lparr>mav_s := 14\<rparr> else st\<lparr>mav_s := 0\<rparr>, -1)
   else if mav_s st = 14 then
     Inr (if ch = 0x84 then st\<lparr>mav_s := 15, mav_p := 0\<rparr> else st\<lparr>mav_s := 0\<rparr>, -1)
   else if mav_s st = 15 then
     cbind (wr (mav_dis st) (mav_p st) ch) (\<lambda>d.
     let st = st\<lparr>mav_dis := d, mav_p := mav_p st + 1\<rparr> in
     Inr (if mav_p st = 14 then st\<lparr>mav_s := 16, mav_p := 0\<rparr> else st, -1))
   else if mav_s st = 16 then
     cbind (rd_n (mav_dis st) 14) (\<lambda>d.
     cbind (cpy (mav_crc2 st) 5 d) (\<lambda>crc.
     cbind (hexin_crc16_compute crc 0x84 20 0xFFFF) (\<lambda>(crc, v).
     Inr (st\<lparr>mav_crc2 := crc, mav_v2 := v, mav_s := (if ch = lo8 v then 17 else 0)\<rparr>, -1))))
   else if mav_s st = 17 then
     Inr (st\<lparr>mav_s := 0\<rparr>, if ch = hi8 (mav_v2 st) then 0 else -1)
   else Inr (st, -1))"

definition px4notof_parse_char :: "mav_statics \<Rightarrow> u8 \<Rightarrow> (mav_statics \<times> int) cres" where
  "px4notof_parse_char st ch =
  (if mav_s st = 0 then
     Inr (if ch = 0xFE then st\<lparr>mav_s := 1\<rparr> else st\<lparr>mav_s := 0\<rparr>, -1)
   else if mav_s st = 1 then
     Inr (if ch = 0x2C then st\<lparr>mav_s := 2\<rparr> else st\<lparr>mav_s := 0\<rparr>, -1)
   else if mav_s st = 2 then
     cbind (wr (mav_crc1 st) 1 ch) (\<lambda>crc. Inr (st\<lparr>mav_s := 3, mav_crc1 := crc\<rparr>, -1))
   else if mav_s st = 3 then
     Inr (if ch = 0x00 then st\<lparr>mav_s := 4\<rparr> else st\<lparr>mav_s := 0\<rparr>, -1)
   else if mav_s st = 4 then
     Inr (if ch = 0x9E then st\<lparr>mav_s := 5\<rparr> else st\<lparr>mav_s := 0\<rparr>, -1)
   else if mav_s st = 5 then
     Inr (if ch = 0x6A then st\<lparr>mav_s := 6, mav_p := 0\<rparr> else st\<lparr>mav_s := 0\<rparr>, -1)
   else if mav_s st = 6 then
     cbind (wr (mav_flow st) (mav_p st) ch) (\<lambda>d.
     let st = st\<lparr>mav_flow := d, mav_p := mav_p st + 1\<rparr> in
     Inr (if mav_p st = 44 then st\<lparr>mav_s := 7, mav_p := 0\<rparr> else st, -1))
   else if mav_s st = 7 then
     cbind (rd_n (mav_flow st) 44) (\<lambda>d.
     cbind (cpy (mav_crc1 st) 5 d) (\<lambda>crc.
     cbind (hexin_crc16_compute crc 0x6A 50 0xFFFF) (\<lambda>(crc, v).
     Inr (st\<lparr>mav_crc1 := crc, mav_v1 := v, mav_s := (if ch = lo8 v then 8 else 0)\<rparr>, -1))))
   else if mav_s st = 8 then
     Inr (st\<lparr>mav_s := 0\<rparr>, if ch = hi8 (mav_v1 st) then 0 else -1)
   else Inr (st, -1))"

definition mav_init :: "u8 \<Rightarrow> u8 \<Rightarrow> nat \<Rightarrow> mav_statics" where
  "mav_init len1 id1 n1 = \<lparr>mav_s = 0, mav_p = 0, mav_v1 = 0, mav_v2 = 0,
     mav_crc1 = [len1, 0, 0x00, 0x9E, id1] @ replicate (n1 + 1) 0,
     mav_crc2 = [0x0E, 0, 0x00, 0x9E, 0x84] @ replicate 15 0,
     mav_flow = replicate n1 0, mav_dis = replicate 14 0\<rparr>"

definition apm_init :: mav_statics where "apm_init = mav_init 0x1A 0x64 26"
definition px4_init :: mav_statics where "px4_init = mav_init 0x2C 0x6A 44"

section \<open>The receivers refine their matchers\<close>

lemma ex_Inr: "r = Inr (s, v) \<Longrightarrow> P s \<Longrightarrow> v = w \<Longrightarrow> \<exists>s'. r = Inr (s', w) \<and> P s'"
  by blast

text \<open>How a state that waits for one literal byte behaves.\<close>

lemma match_lit:
  assumes "cs ! length m = lit c" "Suc (length m) < length cs"
  shows "match cs m b = (if b = c then (m @ [b], False) else ([], False))"
  using assms by (simp add: match_def)

lemma match_any:
  assumes "cs ! length m = any" "Suc (length m) < length cs"
  shows "match cs m b = (m @ [b], False)"
  using assms by (simp add: match_def)

lemma match_last:
  assumes "Suc (length m) = length cs"
  shows "match cs m b = ([], (cs ! length m) m b)"
  using assms by (simp add: match_def)

subsection \<open>The sensor's own protocol\<close>

definition up_check :: "u8 list \<Rightarrow> u8 \<Rightarrow> bool" where
  "up_check m b = (b = 0x55 \<and> m ! 12 = foldl (XOR) 0 (take 10 (drop 2 m)))"

definition up_checks :: checks where
  "up_checks = [lit 0xFE, lit 0x0A] @ replicate 10 any @ [any, up_check]"

definition up_R :: "up_statics \<Rightarrow> u8 list \<Rightarrow> bool" where
  "up_R st m = (length (up_buf st) = 10 \<and>
    (up_s st = 0 \<and> m = [] \<or>
     up_s st = 1 \<and> length m = 1 \<or>
     up_s st = 2 \<and> up_p st < 10 \<and> length m = 2 + up_p st \<and> take (up_p st) (up_buf st) = drop 2 m \<and>
       Xor_c st = foldl (XOR) 0 (drop 2 m) \<or>
     up_s st = 3 \<and> length m = 12 \<and> up_buf st = drop 2 m \<and> Xor_c st = foldl (XOR) 0 (drop 2 m) \<or>
     up_s st = 4 \<and> length m = 13 \<and> up_buf st = take 10 (drop 2 m) \<and> Xor_r st = m ! 12 \<and>
       Xor_c st = foldl (XOR) 0 (take 10 (drop 2 m))))"

definition up_out :: "up_statics \<Rightarrow> u8 list \<Rightarrow> bool" where
  "up_out st fr = (up_buf st = take 10 (drop 2 fr))"

lemma up_checks_nth:
  "length up_checks = 14" "up_checks ! 0 = lit 0xFE" "up_checks ! 1 = lit 0x0A"
  "2 \<le> n \<Longrightarrow> n < 12 \<Longrightarrow> up_checks ! n = any" "up_checks ! 12 = any" "up_checks ! 13 = up_check"
  by (simp_all add: up_checks_def nth_append nth_Cons')

lemma up_sim:
  assumes "up_R st m"
  shows "\<exists>st'. up_parse_char st b = Inr (st', code (-1) (snd (match up_checks m b))) \<and>
    up_R st' (fst (match up_checks m b)) \<and> (snd (match up_checks m b) \<longrightarrow> up_out st' (m @ [b]))"
proof -
  note m = match_lit match_any match_last up_checks_nth up_check_def
  from assms consider
      (s0) "up_s st = 0" "m = []" "length (up_buf st) = 10"
    | (s1) "up_s st = 1" "length m = 1" "length (up_buf st) = 10"
    | (s2) "up_s st = 2" "up_p st < 10" "length m = 2 + up_p st" "length (up_buf st) = 10"
        "take (up_p st) (up_buf st) = drop 2 m" "Xor_c st = foldl (XOR) 0 (drop 2 m)"
    | (s3) "up_s st = 3" "length m = 12" "up_buf st = drop 2 m" "Xor_c st = foldl (XOR) 0 (drop 2 m)"
    | (s4) "up_s st = 4" "length m = 13" "up_buf st = take 10 (drop 2 m)" "Xor_r st = m ! 12"
        "Xor_c st = foldl (XOR) 0 (take 10 (drop 2 m))"
    by (auto simp: up_R_def)
  then show ?thesis
  proof cases
    case s0
    then show ?thesis by (auto simp: up_parse_char_def up_R_def code_def m)
  next
    case s1
    then show ?thesis using m by (auto simp: up_parse_char_def up_R_def code_def m)
  next
    case s2
    have "match up_checks m b = (m @ [b], False)"
      using s2 by (intro match_any) (simp_all add: up_checks_nth)
    then show ?thesis
      using s2 by (auto simp: up_parse_char_def up_R_def code_def Let_def full_update)
  next
    case s3
    then show ?thesis by (auto simp: up_parse_char_def up_R_def code_def m nth_append)
  next
    case s4
    then show ?thesis by (auto simp: up_parse_char_def up_R_def code_def m up_out_def)
  qed
qed

lemma upnotof_is_up: "upnotof_parse_char = up_parse_char"
  by (simp add: fun_eq_iff up_parse_char_def upnotof_parse_char_def)

interpretation up: byte_parser up_parse_char up_checks up_R up_out "-1"
  by unfold_locales (use up_sim in \<open>auto simp: up_checks_def\<close>)

interpretation upn: byte_parser upnotof_parse_char up_checks up_R up_out "-1"
  unfolding upnotof_is_up by (rule up.byte_parser_axioms)

subsection \<open>MSP\<close>

definition dvb_check :: "u8 list \<Rightarrow> nat \<Rightarrow> nat \<Rightarrow> u8 list \<Rightarrow> u8 \<Rightarrow> bool" where
  "dvb_check hdr at n m b = (foldl crc8_dvb_s2 0 (hdr @ take n (drop at m)) = b)"

definition msp_hdr1 :: "u8 list" where "msp_hdr1 = [0x00, 0x01, 0x1F, 0x05, 0x00]"
definition msp_hdr2 :: "u8 list" where "msp_hdr2 = [0x00, 0x02, 0x1F, 0x09, 0x00]"

definition msp_checks2 :: "nat \<Rightarrow> checks" where
  "msp_checks2 at = map lit ([0x24, 0x58, 0x3C] @ msp_hdr2) @ replicate 9 any @ [dvb_check msp_hdr2 at 9]"

definition msp_checks :: checks where
  "msp_checks = map lit ([0x24, 0x58, 0x3C] @ msp_hdr1) @ replicate 5 any @ [dvb_check msp_hdr1 8 5] @
     msp_checks2 22"

text \<open>The part of the state that never changes, and the two halves of the frame.\<close>

definition msp_fixed :: "msp_statics \<Rightarrow> bool" where
  "msp_fixed st = (length (msp_dis st) = 5 \<and> length (msp_flow st) = 9 \<and>
     length (msp_crc1 st) = 10 \<and> take 5 (msp_crc1 st) = msp_hdr1 \<and>
     length (msp_crc2 st) = 14 \<and> take 5 (msp_crc2 st) = msp_hdr2)"

definition msp_R :: "msp_statics \<Rightarrow> u8 list \<Rightarrow> bool" where
  "msp_R st m = (msp_fixed st \<and>
    (msp_s st < 8 \<and> length m = msp_s st \<or>
     msp_s st = 8 \<and> msp_p st < 5 \<and> length m = 8 + msp_p st \<and> take (msp_p st) (msp_dis st) = drop 8 m \<or>
     msp_s st = 9 \<and> length m = 13 \<and> msp_dis st = drop 8 m \<or>
     10 \<le> msp_s st \<and> msp_s st < 18 \<and> length m = msp_s st + 4 \<and> msp_dis st = take 5 (drop 8 m) \<or>
     msp_s st = 18 \<and> msp_p st < 9 \<and> length m = 22 + msp_p st \<and> msp_dis st = take 5 (drop 8 m) \<and>
       take (msp_p st) (msp_flow st) = drop 22 m \<or>
     msp_s st = 19 \<and> length m = 31 \<and> msp_dis st = take 5 (drop 8 m) \<and> msp_flow st = drop 22 m))"

definition msp_out :: "msp_statics \<Rightarrow> u8 list \<Rightarrow> bool" where
  "msp_out st fr = (msp_dis st = take 5 (drop 8 fr) \<and> msp_flow st = take 9 (drop 22 fr))"

lemma msp_checks_nth:
  "length msp_checks = 32"
  "msp_checks ! 0 = lit 0x24" "msp_checks ! 1 = lit 0x58" "msp_checks ! 2 = lit 0x3C"
  "msp_checks ! 3 = lit 0x00" "msp_checks ! 4 = lit 0x01" "msp_checks ! 5 = lit 0x1F"
  "msp_checks ! 6 = lit 0x05" "msp_checks ! 7 = lit 0x00"
  "8 \<le> n \<Longrightarrow> n < 13 \<Longrightarrow> msp_checks ! n = any" "msp_checks ! 13 = dvb_check msp_hdr1 8 5"
  "msp_checks ! 14 = lit 0x24" "msp_checks ! 15 = lit 0x58" "msp_checks ! 16 = lit 0x3C"
  "msp_checks ! 17 = lit 0x00" "msp_checks ! 18 = lit 0x02" "msp_checks ! 19 = lit 0x1F"
  "msp_checks ! 20 = lit 0x09" "msp_checks ! 21 = lit 0x00"
  "22 \<le> n \<Longrightarrow> n < 31 \<Longrightarrow> msp_checks ! n = any" "msp_checks ! 31 = dvb_check msp_hdr2 22 9"
  by (auto simp: msp_checks_def msp_checks2_def msp_hdr1_def msp_hdr2_def nth_append nth_Cons')

lemma lt8: "n < (8 :: nat) \<longleftrightarrow> n \<in> {0, 1, 2, 3, 4, 5, 6, 7}"
  by auto

text \<open>The states that wait for a literal.\<close>

lemma msp_lit_sim:
  assumes "msp_fixed st" "msp_s st < 8" "length m = msp_s st"
  shows "\<exists>st'. msp_parse_char st b = Inr (st', code (-1) (snd (match msp_checks m b))) \<and>
    msp_R st' (fst (match msp_checks m b)) \<and> \<not> snd (match msp_checks m b)"
  using assms(2,3) unfolding lt8 insert_iff empty_iff
  by (elim disjE)
    (use assms(1) msp_checks_nth in \<open>simp_all add: match_lit msp_parse_char_def msp_R_def msp_fixed_def code_def\<close>)

lemma msp_lit_sim2:
  assumes "msp_fixed st" "10 \<le> msp_s st" "msp_s st < 18" "length m = msp_s st + 4"
    "msp_dis st = take 5 (drop 8 m)"
  shows "\<exists>st'. msp_parse_char st b = Inr (st', code (-1) (snd (match msp_checks m b))) \<and>
    msp_R st' (fst (match msp_checks m b)) \<and> \<not> snd (match msp_checks m b)"
proof -
  obtain k where "msp_s st = 10 + k" "k < 8"
    using assms(2,3) by (intro that [of "msp_s st - 10"]) auto
  then show ?thesis
    using assms(4) unfolding lt8 insert_iff empty_iff
    by (elim disjE)
      (use assms(1,5) msp_checks_nth in \<open>simp_all add: match_lit msp_parse_char_def msp_R_def msp_fixed_def code_def\<close>)
qed

lemma append_split: "length xs = m + n \<Longrightarrow> take m xs = ys \<Longrightarrow> xs = ys @ drop m xs"
  by (metis append_take_drop_id)

lemma cpy_hdr:
  assumes "length buf = 5 + length d" "take 5 buf = hdr"
  shows "cpy buf 5 d = Inr (hdr @ d)"
  using assms by simp

lemma crc8_all [simp]: "length bs = n \<Longrightarrow> crc8 bs n = Inr (foldl crc8_dvb_s2 0 bs)"
  by (simp add: crc8_def)

lemma msp_sim:
  assumes "msp_R st m"
  shows "\<exists>st'. msp_parse_char st b = Inr (st', code (-1) (snd (match msp_checks m b))) \<and>
    msp_R st' (fst (match msp_checks m b)) \<and> (snd (match msp_checks m b) \<longrightarrow> msp_out st' (m @ [b]))"
proof -
  have f: "msp_fixed st" using assms by (simp add: msp_R_def)
  then have l: "length (msp_dis st) = 5" "length (msp_flow st) = 9"
    "length (msp_crc1 st) = 10" "take 5 (msp_crc1 st) = msp_hdr1"
    "length (msp_crc2 st) = 14" "take 5 (msp_crc2 st) = msp_hdr2"
    "length msp_hdr1 = 5" "length msp_hdr2 = 5"
    by (simp_all add: msp_fixed_def msp_hdr1_def msp_hdr2_def)
  from assms consider
      (lit1) "msp_s st < 8" "length m = msp_s st"
    | (pay1) "msp_s st = 8" "msp_p st < 5" "length m = 8 + msp_p st" "take (msp_p st) (msp_dis st) = drop 8 m"
    | (crc1) "msp_s st = 9" "length m = 13" "msp_dis st = drop 8 m"
    | (lit2) "10 \<le> msp_s st" "msp_s st < 18" "length m = msp_s st + 4" "msp_dis st = take 5 (drop 8 m)"
    | (pay2) "msp_s st = 18" "msp_p st < 9" "length m = 22 + msp_p st" "msp_dis st = take 5 (drop 8 m)"
        "take (msp_p st) (msp_flow st) = drop 22 m"
    | (crc2) "msp_s st = 19" "length m = 31" "msp_dis st = take 5 (drop 8 m)" "msp_flow st = drop 22 m"
    unfolding msp_R_def by blast
  then show ?thesis
  proof cases
    case lit1
    from msp_lit_sim [OF f this] show ?thesis by blast
  next
    case pay1
    have "match msp_checks m b = (m @ [b], False)"
      using pay1 by (intro match_any) (simp_all add: msp_checks_nth)
    then show ?thesis
      using pay1 f by (auto simp: msp_parse_char_def msp_R_def msp_fixed_def code_def Let_def full_update)
  next
    case crc1
    have "match msp_checks m b = (if msp_hdr1_ok then (m @ [b], False) else ([], False))"
      if "msp_hdr1_ok = (foldl crc8_dvb_s2 0 (msp_hdr1 @ msp_dis st) = b)" for msp_hdr1_ok
      using crc1 that by (simp add: match_def msp_checks_nth dvb_check_def)
    then show ?thesis
      using crc1 f l by (auto simp: msp_parse_char_def msp_R_def msp_fixed_def code_def)
  next
    case lit2
    from msp_lit_sim2 [OF f this] show ?thesis by blast
  next
    case pay2
    have "match msp_checks m b = (m @ [b], False)"
      using pay2 by (intro match_any) (simp_all add: msp_checks_nth)
    then show ?thesis
      using pay2 f by (auto simp: msp_parse_char_def msp_R_def msp_fixed_def code_def Let_def full_update)
  next
    case crc2
    then show ?thesis
      using f l by (auto simp: msp_parse_char_def msp_R_def msp_fixed_def code_def match_last
        msp_checks_nth dvb_check_def msp_out_def)
  qed
qed

interpretation msp: byte_parser msp_parse_char msp_checks msp_R msp_out "-1"
  by unfold_locales (use msp_sim in \<open>auto simp: msp_checks_def\<close>)

text \<open>The receiver without distance sensor recognises the second half alone.\<close>

definition mspn_R :: "mspn_statics \<Rightarrow> u8 list \<Rightarrow> bool" where
  "mspn_R st m = (length (mspn_flow st) = 9 \<and> length (mspn_crc2 st) = 14 \<and>
     take 5 (mspn_crc2 st) = msp_hdr2 \<and>
    (mspn_s st < 8 \<and> length m = mspn_s st \<or>
     mspn_s st = 8 \<and> mspn_p st < 9 \<and> length m = 8 + mspn_p st \<and> take (mspn_p st) (mspn_flow st) = drop 8 m \<or>
     mspn_s st = 9 \<and> length m = 17 \<and> mspn_flow st = drop 8 m))"

definition mspn_out :: "mspn_statics \<Rightarrow> u8 list \<Rightarrow> bool" where
  "mspn_out st fr = (mspn_flow st = take 9 (drop 8 fr))"

lemma mspn_checks_nth:
  "length (msp_checks2 at) = 18"
  "msp_checks2 at ! 0 = lit 0x24" "msp_checks2 at ! 1 = lit 0x58" "msp_checks2 at ! 2 = lit 0x3C"
  "msp_checks2 at ! 3 = lit 0x00" "msp_checks2 at ! 4 = lit 0x02" "msp_checks2 at ! 5 = lit 0x1F"
  "msp_checks2 at ! 6 = lit 0x09" "msp_checks2 at ! 7 = lit 0x00"
  "8 \<le> n \<Longrightarrow> n < 17 \<Longrightarrow> msp_checks2 at ! n = any" "msp_checks2 at ! 17 = dvb_check msp_hdr2 at 9"
  by (auto simp: msp_checks2_def msp_hdr2_def nth_append nth_Cons')

lemma mspn_sim:
  assumes "mspn_R st m"
  shows "\<exists>st'. mspnotof_parse_char st b = Inr (st', code 1 (snd (match (msp_checks2 8) m b))) \<and>
    mspn_R st' (fst (match (msp_checks2 8) m b)) \<and> (snd (match (msp_checks2 8) m b) \<longrightarrow> mspn_out st' (m @ [b]))"
proof -
  have l: "length (mspn_flow st) = 9" "length (mspn_crc2 st) = 14" "take 5 (mspn_crc2 st) = msp_hdr2"
    "length msp_hdr2 = 5"
    using assms by (simp_all add: mspn_R_def msp_hdr2_def)
  from assms consider
      (lit) "mspn_s st < 8" "length m = mspn_s st"
    | (pay) "mspn_s st = 8" "mspn_p st < 9" "length m = 8 + mspn_p st" "take (mspn_p st) (mspn_flow st) = drop 8 m"
    | (crc) "mspn_s st = 9" "length m = 17" "mspn_flow st = drop 8 m"
    unfolding mspn_R_def by blast
  then show ?thesis
  proof cases
    case lit
    then show ?thesis
      unfolding lt8 insert_iff empty_iff
      by (elim disjE)
        (use l mspn_checks_nth in \<open>simp_all add: match_lit mspnotof_parse_char_def mspn_R_def code_def\<close>)
  next
    case pay
    have "match (msp_checks2 8) m b = (m @ [b], False)"
      using pay by (intro match_any) (simp_all add: mspn_checks_nth)
    then show ?thesis
      using pay l by (auto simp: mspnotof_parse_char_def mspn_R_def code_def Let_def full_update)
  next
    case crc
    then show ?thesis
      using l by (auto simp: mspnotof_parse_char_def mspn_R_def code_def match_last
        mspn_checks_nth dvb_check_def mspn_out_def)
  qed
qed

interpretation mspn: byte_parser mspnotof_parse_char "msp_checks2 8" mspn_R mspn_out 1
  by unfold_locales (use mspn_sim in \<open>auto simp: msp_checks2_def\<close>)

subsection \<open>MAVLink\<close>

text \<open>
  The receivers for the two autopilots differ in the length and the identifier of the first message
  only; \<open>mav_parse\<close> is their common body.
\<close>

definition mav_parse :: "u8 \<Rightarrow> u8 \<Rightarrow> nat \<Rightarrow> mav_statics \<Rightarrow> u8 \<Rightarrow> (mav_statics \<times> int) cres" where
  "mav_parse len1 id1 n1 st ch =
  (if mav_s st = 0 then
     Inr (if ch = 0xFE then st\<lparr>mav_s := 1\<rparr> else st\<lparr>mav_s := 0\<rparr>, -1)
   else if mav_s st = 1 then
     Inr (if ch = len1 then st\<lparr>mav_s := 2\<rparr> else st\<lparr>mav_s := 0\<rparr>, -1)
   else if mav_s st = 2 then
     cbind (wr (mav_crc1 st) 1 ch) (\<lambda>crc. Inr (st\<lparr>mav_s := 3, mav_crc1 := crc\<rparr>, -1))
   else if mav_s st = 3 then
     Inr (if ch = 0x00 then st\<lparr>mav_s := 4\<rparr> else st\<lparr>mav_s := 0\<rparr>, -1)
   else if mav_s st = 4 then
     Inr (if ch = 0x9E then st\<lparr>mav_s := 5\<rparr> else st\<lparr>mav_s := 0\<rparr>, -1)
   else if mav_s st = 5 then
     Inr (if ch = id1 then st\<lparr>mav_s := 6, mav_p := 0\<rparr> else st\<lparr>mav_s := 0\<rparr>, -1)
   else if mav_s st = 6 then
     cbind (wr (mav_flow st) (mav_p st) ch) (\<lambda>d.
     let st = st\<lparr>mav_flow := d, mav_p := mav_p st + 1\<rparr> in
     Inr (if mav_p st = n1 then st\<lparr>mav_s := 7, mav_p := 0\<rparr> else st, -1))
   else if mav_s st = 7 then
     cbind (rd_n (mav_flow st) n1) (\<lambda>d.
     cbind (cpy (mav_crc1 st) 5 d) (\<lambda>crc.
     cbind (hexin_crc16_compute crc (uint id1) (of_nat (n1 + 6)) 0xFFFF) (\<lambda>(crc, v).
     Inr (st\<lparr>mav_crc1 := crc, mav_v1 := v, mav_s := (if ch = lo8 v then 8 else 0)\<rparr>, -1))))
   else if mav_s st = 8 then
     Inr (st\<lparr>mav_s := (if ch = hi8 (mav_v1 st) then 9 else 0)\<rparr>, -1)
   else if mav_s st = 9 then
     Inr (if ch = 0xFE then st\<lparr>mav_s := 10\<rparr> else st\<lparr>mav_s := 0\<rparr>, -1)
   else if mav_s st = 10 then
     Inr (if ch = 0x0E then st\<lparr>mav_s := 11\<rparr> else st\<lparr>mav_s := 0\<rparr>, -1)
   else if mav_s st = 11 then
     cbind (wr (mav_crc2 st) 1 ch) (\<lambda>crc. Inr (st\<lparr>mav_s := 12, mav_crc2 := crc\<rparr>, -1))
   else if mav_s st = 12 then
     Inr (if ch = 0x00 then st\<lparr>mav_s := 13\<rparr> else st\<lparr>mav_s := 0\<rparr>, -1)
   else if mav_s st = 13 then
     Inr (if ch = 0x9E then st\<lparr>mav_s := 14\<rparr> else st\<lparr>mav_s := 0\<rparr>, -1)
   else if mav_s st = 14 then
     Inr (if ch = 0x84 then st\<lparr>mav_s := 15, mav_p := 0\<rparr> else st\<lparr>mav_s := 0\<rparr>, -1)
   else if mav_s st = 15 then
     cbind (wr (mav_dis st) (mav_p st) ch) (\<lambda>d.
     let st = st\<lparr>mav_dis := d, mav_p := mav_p st + 1\<rparr> in
     Inr (if mav_p st = 14 then st\<lparr>mav_s := 16, mav_p := 0\<rparr> else st, -1))
   else if mav_s st = 16 then
     cbind (rd_n (mav_dis st) 14) (\<lambda>d.
     cbind (cpy (mav_crc2 st) 5 d) (\<lambda>crc.
     cbind (hexin_crc16_compute crc 0x84 20 0xFFFF) (\<lambda>(crc, v).
     Inr (st\<lparr>mav_crc2 := crc, mav_v2 := v, mav_s := (if ch = lo8 v then 17 else 0)\<rparr>, -1))))
   else if mav_s st = 17 then
     Inr (st\<lparr>mav_s := 0\<rparr>, if ch = hi8 (mav_v2 st) then 0 else -1)
   else Inr (st, -1))"
lemma apm_is_mav: "apm_parse_char = mav_parse 0x1A 0x64 26"
  by (simp add: fun_eq_iff apm_parse_char_def mav_parse_def)

lemma px4_is_mav: "px4_parse_char = mav_parse 0x2C 0x6A 44"
  by (simp add: fun_eq_iff px4_parse_char_def mav_parse_def)

text \<open>
  The checksum covers the frame after its start byte, from the length to the last payload byte, and
  then the extra byte of the message.
\<close>

definition x25_of :: "u8 list \<Rightarrow> u8 \<Rightarrow> u16" where
  "x25_of bs ident = foldl x25_bits 0xFFFF (bs @ [crc_extra_array ! unat ident])"

definition mav_lo :: "u8 \<Rightarrow> u8 \<Rightarrow> nat \<Rightarrow> nat \<Rightarrow> u8 list \<Rightarrow> u8 \<Rightarrow> bool" where
  "mav_lo len ident at n m b =
     (b = lo8 (x25_of ([len, m ! (at + 2), 0x00, 0x9E, ident] @ take n (drop (at + 6) m)) ident))"

definition mav_hi :: "u8 \<Rightarrow> u8 \<Rightarrow> nat \<Rightarrow> nat \<Rightarrow> u8 list \<Rightarrow> u8 \<Rightarrow> bool" where
  "mav_hi len ident at n m b =
     (b = hi8 (x25_of ([len, m ! (at + 2), 0x00, 0x9E, ident] @ take n (drop (at + 6) m)) ident))"

definition mav_half :: "u8 \<Rightarrow> u8 \<Rightarrow> nat \<Rightarrow> nat \<Rightarrow> checks" where
  "mav_half len ident at n =
     [lit 0xFE, lit len, any, lit 0x00, lit 0x9E, lit ident] @ replicate n any @
     [mav_lo len ident at n, mav_hi len ident at n]"

definition mav_checks :: "u8 \<Rightarrow> u8 \<Rightarrow> nat \<Rightarrow> checks" where
  "mav_checks len1 id1 n1 = mav_half len1 id1 0 n1 @ mav_half 0x0E 0x84 (n1 + 8) 14"

lemma mav_half_nth:
  "length (mav_half len ident at n) = n + 8"
  "mav_half len ident at n ! 0 = lit 0xFE" "mav_half len ident at n ! Suc 0 = lit len"
  "mav_half len ident at n ! 2 = any" "mav_half len ident at n ! 3 = lit 0x00"
  "mav_half len ident at n ! 4 = lit 0x9E" "mav_half len ident at n ! 5 = lit ident"
  "6 \<le> k \<Longrightarrow> k < n + 6 \<Longrightarrow> mav_half len ident at n ! k = any"
  "mav_half len ident at n ! (n + 6) = mav_lo len ident at n"
  "mav_half len ident at n ! (n + 7) = mav_hi len ident at n"
  by (auto simp: mav_half_def nth_append nth_Cons')

lemma mav_checks_nth1: "k < n1 + 8 \<Longrightarrow> mav_checks len1 id1 n1 ! k = mav_half len1 id1 0 n1 ! k"
  by (simp add: mav_checks_def nth_append mav_half_nth)

lemma mav_checks_nth2:
  "n1 + 8 \<le> k \<Longrightarrow> mav_checks len1 id1 n1 ! k = mav_half 0x0E 0x84 (n1 + 8) 14 ! (k - (n1 + 8))"
  by (simp add: mav_checks_def nth_append mav_half_nth)

lemma mav_checks_length: "length (mav_checks len1 id1 n1) = n1 + 30"
  by (simp add: mav_checks_def mav_half_nth)

text \<open>The checksum call of a receiver whose buffer holds the header and the payload.\<close>

lemma hexin_call:
  assumes "length buf = n + 6" "length d = n" "n < 200" "take 5 buf = hdr"
  shows "\<exists>x. cpy buf 5 d = Inr (hdr @ d @ [x]) \<and>
    hexin_crc16_compute (hdr @ d @ [x]) (uint ident) (of_nat (n + 6)) 0xFFFF =
      Inr (hdr @ d @ [crc_extra_array ! unat ident], x25_of (hdr @ d) ident)"
proof -
  have h: "length hdr = 5" using assms by auto
  obtain x where x: "drop (5 + n) buf = [x]"
    using assms(1) by (cases "drop (5 + n) buf") (auto dest: arg_cong [of _ _ length])
  have "cpy buf 5 d = Inr (hdr @ d @ [x])"
    using assms x by simp
  moreover have u: "unat (of_nat (n + 6) :: u32) = n + 6"
    using assms(3) by (intro unat_u32_of_nat) simp
  have "hexin_crc16_compute (hdr @ d @ [x]) (uint ident) (of_nat (n + 6)) 0xFFFF =
      Inr ((hdr @ d @ [x])[n + 6 - 1 := crc_extra_array ! nat (uint ident)],
        foldl x25_bits (hexin_reverse16 0xFFFF) (take (n + 6 - 1) (hdr @ d @ [x]) @ [crc_extra_array ! nat (uint ident)]))"
  proof -
    have "0 < unat (of_nat (n + 6) :: u32)" unfolding u by simp
    then have "(0 :: u32) < of_nat (n + 6)" by (simp only: unat_gt_0 word_gt_0)
    moreover have "uint ident < 256" using uint_lt2p [of ident] by simp
    ultimately show ?thesis
      using hexin_crc16_compute_eq [of "uint ident" "of_nat (n + 6)" "hdr @ d @ [x]" "0xFFFF", unfolded u]
        h assms(2) by simp
  qed
  moreover have "hexin_reverse16 0xFFFF = 0xFFFF" by (simp add: hexin_reverse16_def upt_rec [of _ 16])
  ultimately show ?thesis
    using h assms(2) by (intro exI [of _ x]) (simp add: x25_of_def list_update_append)
qed

definition mav_fixed :: "u8 \<Rightarrow> u8 \<Rightarrow> nat \<Rightarrow> mav_statics \<Rightarrow> bool" where
  "mav_fixed len1 id1 n1 st = (length (mav_flow st) = n1 \<and> length (mav_dis st) = 14 \<and>
     length (mav_crc1 st) = n1 + 6 \<and> length (mav_crc2 st) = 20 \<and>
     (\<exists>q. take 5 (mav_crc1 st) = [len1, q, 0x00, 0x9E, id1]) \<and>
     (\<exists>q. take 5 (mav_crc2 st) = [0x0E, q, 0x00, 0x9E, 0x84]))"

definition seq_ok :: "u8 list \<Rightarrow> u8 list \<Rightarrow> nat \<Rightarrow> bool" where
  "seq_ok buf m at = (buf ! 1 = m ! at)"

definition mav_R :: "u8 \<Rightarrow> u8 \<Rightarrow> nat \<Rightarrow> mav_statics \<Rightarrow> u8 list \<Rightarrow> bool" where
  "mav_R len1 id1 n1 st m = (mav_fixed len1 id1 n1 st \<and>
    (mav_s st < 3 \<and> length m = mav_s st \<or>
     3 \<le> mav_s st \<and> mav_s st < 6 \<and> length m = mav_s st \<and> seq_ok (mav_crc1 st) m 2 \<or>
     mav_s st = 6 \<and> mav_p st < n1 \<and> length m = 6 + mav_p st \<and> seq_ok (mav_crc1 st) m 2 \<and>
       take (mav_p st) (mav_flow st) = drop 6 m \<or>
     mav_s st = 7 \<and> length m = n1 + 6 \<and> seq_ok (mav_crc1 st) m 2 \<and> mav_flow st = drop 6 m \<or>
     mav_s st = 8 \<and> length m = n1 + 7 \<and> mav_flow st = take n1 (drop 6 m) \<and>
       mav_hi len1 id1 0 n1 m (hi8 (mav_v1 st)) \<or>
     9 \<le> mav_s st \<and> mav_s st < 12 \<and> length m = n1 + mav_s st - 1 \<and> mav_flow st = take n1 (drop 6 m) \<or>
     12 \<le> mav_s st \<and> mav_s st < 15 \<and> length m = n1 + mav_s st - 1 \<and> mav_flow st = take n1 (drop 6 m) \<and>
       seq_ok (mav_crc2 st) m (n1 + 10) \<or>
     mav_s st = 15 \<and> mav_p st < 14 \<and> length m = n1 + 14 + mav_p st \<and> mav_flow st = take n1 (drop 6 m) \<and>
       seq_ok (mav_crc2 st) m (n1 + 10) \<and> take (mav_p st) (mav_dis st) = drop (n1 + 14) m \<or>
     mav_s st = 16 \<and> length m = n1 + 28 \<and> mav_flow st = take n1 (drop 6 m) \<and>
       seq_ok (mav_crc2 st) m (n1 + 10) \<and> mav_dis st = drop (n1 + 14) m \<or>
     mav_s st = 17 \<and> length m = n1 + 29 \<and> mav_flow st = take n1 (drop 6 m) \<and>
       mav_dis st = take 14 (drop (n1 + 14) m) \<and> mav_hi 0x0E 0x84 (n1 + 8) 14 m (hi8 (mav_v2 st))))"

definition mav_out :: "nat \<Rightarrow> mav_statics \<Rightarrow> u8 list \<Rightarrow> bool" where
  "mav_out n1 st fr = (mav_flow st = take n1 (drop 6 fr) \<and> mav_dis st = take 14 (drop (n1 + 14) fr))"

text \<open>What the simulation of one state has to show.\<close>

definition mav_sim_at :: "u8 \<Rightarrow> u8 \<Rightarrow> nat \<Rightarrow> mav_statics \<Rightarrow> u8 list \<Rightarrow> u8 \<Rightarrow> bool" where
  "mav_sim_at len1 id1 n1 st m b = (let r = match (mav_checks len1 id1 n1) m b in
     \<exists>st'. mav_parse len1 id1 n1 st b = Inr (st', code (-1) (snd r)) \<and>
       mav_R len1 id1 n1 st' (fst r) \<and> (snd r \<longrightarrow> mav_out n1 st' (m @ [b])))"

lemma mav_fixed_1:
  "mav_fixed len1 id1 n1 st \<Longrightarrow> 0 < n1 \<Longrightarrow> mav_fixed len1 id1 n1 (st\<lparr>mav_crc1 := (mav_crc1 st)[1 := b]\<rparr>)"
  "mav_fixed len1 id1 n1 st \<Longrightarrow> mav_fixed len1 id1 n1 (st\<lparr>mav_crc2 := (mav_crc2 st)[1 := b]\<rparr>)"
  by (auto simp: mav_fixed_def take_update_swap)

lemma mav_sim_lit1:
  assumes "mav_fixed len1 id1 n1 st" "mav_s st < 6" "length m = mav_s st" "mav_s st \<noteq> 2" "0 < n1"
    "3 \<le> mav_s st \<longrightarrow> seq_ok (mav_crc1 st) m 2"
  shows "mav_sim_at len1 id1 n1 st m b"
proof -
  consider "mav_s st = 0" | "mav_s st = 1" | "mav_s st = 3" | "mav_s st = 4" | "mav_s st = 5"
    using assms(2,4) by linarith
  then show ?thesis
    by cases (use assms in \<open>simp_all add: mav_sim_at_def match_lit mav_checks_nth1 mav_half_nth
      mav_checks_length mav_parse_def mav_R_def mav_fixed_def code_def seq_ok_def nth_append Let_def\<close>)
qed

lemma mav_sim_lit2:
  assumes "mav_fixed len1 id1 n1 st" "9 \<le> mav_s st" "mav_s st < 15" "length m = n1 + mav_s st - 1"
    "mav_s st \<noteq> 11" "0 < n1" "12 \<le> mav_s st \<longrightarrow> seq_ok (mav_crc2 st) m (n1 + 10)"
    "mav_flow st = take n1 (drop 6 m)"
  shows "mav_sim_at len1 id1 n1 st m b"
proof -
  consider "mav_s st = 9" | "mav_s st = 10" | "mav_s st = 12" | "mav_s st = 13" | "mav_s st = 14"
    using assms(2,3,5) by linarith
  then show ?thesis
    by cases (use assms in \<open>simp_all add: mav_sim_at_def match_lit mav_checks_nth2 mav_half_nth
      mav_checks_length mav_parse_def mav_R_def mav_fixed_def code_def seq_ok_def nth_append Let_def\<close>)
qed

lemma seq_hdr:
  assumes "seq_ok buf m at" "\<exists>q. take 5 buf = [c, q, x, y, z]"
  shows "take 5 buf = [c, m ! at, x, y, z]"
proof -
  obtain q where q: "take 5 buf = [c, q, x, y, z]" using assms(2) by blast
  then have "buf ! 1 = q" by (metis nth_take nth_Cons_Suc nth_Cons_0 One_nat_def one_less_numeral_iff semiring_norm(77))
  then show ?thesis using q assms(1) by (simp add: seq_ok_def)
qed

lemma mav_sim_seq:
  assumes "mav_R len1 id1 n1 st m" "0 < n1" "mav_s st = 2 \<or> mav_s st = 11"
  shows "mav_sim_at len1 id1 n1 st m b"
proof -
  have f: "mav_fixed len1 id1 n1 st" using assms(1) by (simp add: mav_R_def)
  then have l: "length (mav_crc1 st) = n1 + 6" "length (mav_crc2 st) = 20"
    by (simp_all add: mav_fixed_def)
  note f' = mav_fixed_1(1) [OF f assms(2), of b] mav_fixed_1(2) [OF f, of b]
  show ?thesis
    using assms(3)
  proof
    assume s: "mav_s st = 2"
    then have m: "length m = 2" using assms(1) by (simp add: mav_R_def)
    then have "match (mav_checks len1 id1 n1) m b = (m @ [b], False)"
      by (intro match_any) (simp_all add: mav_checks_nth1 mav_half_nth mav_checks_length)
    then show ?thesis
      using s m l f' by (simp add: mav_sim_at_def mav_parse_def mav_R_def mav_fixed_def seq_ok_def code_def nth_append)
  next
    assume s: "mav_s st = 11"
    then have m: "length m = n1 + 10" "mav_flow st = take n1 (drop 6 m)" using assms(1) by (simp_all add: mav_R_def)
    then have "match (mav_checks len1 id1 n1) m b = (m @ [b], False)"
      by (intro match_any) (simp_all add: mav_checks_nth2 mav_half_nth mav_checks_length)
    then show ?thesis
      using s m l f' by (simp add: mav_sim_at_def mav_parse_def mav_R_def mav_fixed_def seq_ok_def code_def nth_append)
  qed
qed

lemma mav_sim_pay:
  assumes "mav_R len1 id1 n1 st m" "0 < n1" "mav_s st = 6 \<or> mav_s st = 15"
  shows "mav_sim_at len1 id1 n1 st m b"
  using assms(3)
proof
  assume s: "mav_s st = 6"
  then have m: "mav_p st < n1" "length m = 6 + mav_p st" "seq_ok (mav_crc1 st) m 2"
    "take (mav_p st) (mav_flow st) = drop 6 m" "mav_fixed len1 id1 n1 st"
    using assms(1) by (simp_all add: mav_R_def)
  then have "match (mav_checks len1 id1 n1) m b = (m @ [b], False)"
    by (intro match_any) (simp_all add: mav_checks_nth1 mav_half_nth mav_checks_length)
  then show ?thesis
    using s m by (auto simp: mav_sim_at_def mav_parse_def mav_R_def mav_fixed_def seq_ok_def code_def
      nth_append Let_def full_update)
next
  assume s: "mav_s st = 15"
  then have m: "mav_p st < 14" "length m = n1 + 14 + mav_p st" "seq_ok (mav_crc2 st) m (n1 + 10)"
    "take (mav_p st) (mav_dis st) = drop (n1 + 14) m" "mav_fixed len1 id1 n1 st" "mav_flow st = take n1 (drop 6 m)"
    using assms(1) by (simp_all add: mav_R_def)
  then have "match (mav_checks len1 id1 n1) m b = (m @ [b], False)"
    by (intro match_any) (simp_all add: mav_checks_nth2 mav_half_nth mav_checks_length)
  then show ?thesis
    using s m by (auto simp: mav_sim_at_def mav_parse_def mav_R_def mav_fixed_def seq_ok_def code_def
      nth_append Let_def full_update)
qed

lemma mav_hi_snoc:
  "at + 6 + n \<le> length m \<Longrightarrow> mav_hi len ident at n (m @ [b]) x = mav_hi len ident at n m x"
  by (simp add: mav_hi_def nth_append)

lemma mav_sim_lo1:
  assumes "mav_R len1 id1 n1 st m" "0 < n1" "n1 < 200" "mav_s st = 7"
  shows "mav_sim_at len1 id1 n1 st m b"
proof -
  have m: "length m = n1 + 6" "seq_ok (mav_crc1 st) m 2" "mav_flow st = drop 6 m" "mav_fixed len1 id1 n1 st"
    using assms(1,4) by (simp_all add: mav_R_def)
  let ?hdr = "[len1, m ! 2, 0x00, 0x9E, id1]"
  have "take 5 (mav_crc1 st) = ?hdr" using m(2,4) by (intro seq_hdr) (auto simp: mav_fixed_def)
  then obtain x where x: "cpy (mav_crc1 st) 5 (mav_flow st) = Inr (?hdr @ mav_flow st @ [x])"
    "hexin_crc16_compute (?hdr @ mav_flow st @ [x]) (uint id1) (of_nat (n1 + 6)) 0xFFFF =
      Inr (?hdr @ mav_flow st @ [crc_extra_array ! unat id1], x25_of (?hdr @ mav_flow st) id1)"
    using hexin_call [of "mav_crc1 st" n1 "mav_flow st" ?hdr id1] m(4) assms(3) by (auto simp: mav_fixed_def)
  have rd: "rd_n (mav_flow st) n1 = Inr (mav_flow st)" using m(4) by (simp add: mav_fixed_def)
  let ?v = "x25_of (?hdr @ mav_flow st) id1"
  have p: "mav_parse len1 id1 n1 st b =
    Inr (st\<lparr>mav_crc1 := ?hdr @ mav_flow st @ [crc_extra_array ! unat id1], mav_v1 := ?v,
      mav_s := (if b = lo8 ?v then 8 else 0)\<rparr>, -1)"
    using assms(4) by (simp only: mav_parse_def rd x cbind.simps) simp
  have v: "take n1 (drop (0 + 6) m) = mav_flow st" using m(1,3) by simp
  have two: "0 + 2 = (2 :: nat)" by simp
  have lo: "mav_lo len1 id1 0 n1 m b \<longleftrightarrow> b = lo8 ?v" and hi: "mav_hi len1 id1 0 n1 m (hi8 ?v)"
    unfolding mav_lo_def mav_hi_def v two by simp_all
  have "match (mav_checks len1 id1 n1) m b = (if b = lo8 ?v then (m @ [b], False) else ([], False))"
    using m(1) by (simp add: match_def mav_checks_nth1 mav_half_nth mav_checks_length lo)
  then show ?thesis
    unfolding mav_sim_at_def p using m hi
    by (simp add: mav_hi_snoc Let_def code_def mav_R_def mav_fixed_def)
qed

lemma mav_sim_lo2:
  assumes "mav_R len1 id1 n1 st m" "0 < n1" "n1 < 200" "mav_s st = 16"
  shows "mav_sim_at len1 id1 n1 st m b"
proof -
  have m: "length m = n1 + 28" "seq_ok (mav_crc2 st) m (n1 + 10)" "mav_dis st = drop (n1 + 14) m"
    "mav_flow st = take n1 (drop 6 m)" "mav_fixed len1 id1 n1 st"
    using assms(1,4) by (simp_all add: mav_R_def)
  let ?hdr = "[0x0E, m ! (n1 + 10), 0x00, 0x9E, 0x84]"
  have "take 5 (mav_crc2 st) = ?hdr" using m(2,5) by (intro seq_hdr) (auto simp: mav_fixed_def)
  then obtain x where x: "cpy (mav_crc2 st) 5 (mav_dis st) = Inr (?hdr @ mav_dis st @ [x])"
    "hexin_crc16_compute (?hdr @ mav_dis st @ [x]) 0x84 20 0xFFFF =
      Inr (?hdr @ mav_dis st @ [crc_extra_array ! unat (0x84 :: u8)], x25_of (?hdr @ mav_dis st) 0x84)"
    using hexin_call [of "mav_crc2 st" 14 "mav_dis st" ?hdr "0x84"] m(5) by (auto simp: mav_fixed_def)
  have rd: "rd_n (mav_dis st) 14 = Inr (mav_dis st)" using m(5) by (simp add: mav_fixed_def)
  let ?v = "x25_of (?hdr @ mav_dis st) 0x84"
  have p: "mav_parse len1 id1 n1 st b =
    Inr (st\<lparr>mav_crc2 := ?hdr @ mav_dis st @ [crc_extra_array ! unat (0x84 :: u8)], mav_v2 := ?v,
      mav_s := (if b = lo8 ?v then 17 else 0)\<rparr>, -1)"
    using assms(4) by (simp only: mav_parse_def rd x cbind.simps) simp
  have v: "take 14 (drop (n1 + 8 + 6) m) = mav_dis st" "n1 + 8 + 2 = n1 + 10"
    using m(1,3) by (simp_all add: add.commute)
  have lo: "mav_lo 0x0E 0x84 (n1 + 8) 14 m b \<longleftrightarrow> b = lo8 ?v"
    and hi: "mav_hi 0x0E 0x84 (n1 + 8) 14 m (hi8 ?v)"
    unfolding mav_lo_def mav_hi_def v by simp_all
  have "match (mav_checks len1 id1 n1) m b = (if b = lo8 ?v then (m @ [b], False) else ([], False))"
    using m(1) lo by (simp add: match_def mav_checks_nth2 mav_half_nth(9) [of _ _ _ 14, simplified]
      mav_checks_length)
  then show ?thesis
    unfolding mav_sim_at_def p using m hi
    by (simp add: mav_hi_snoc Let_def code_def mav_R_def mav_fixed_def)
qed

lemma mav_sim_hi1:
  assumes "mav_R len1 id1 n1 st m" "0 < n1" "mav_s st = 8"
  shows "mav_sim_at len1 id1 n1 st m b"
proof -
  have m: "length m = n1 + 7" "mav_flow st = take n1 (drop 6 m)" "mav_hi len1 id1 0 n1 m (hi8 (mav_v1 st))"
    "mav_fixed len1 id1 n1 st"
    using assms(1,3) by (simp_all add: mav_R_def)
  have "match (mav_checks len1 id1 n1) m b = (if b = hi8 (mav_v1 st) then (m @ [b], False) else ([], False))"
    using m by (simp add: match_def mav_checks_nth1 mav_half_nth mav_checks_length mav_hi_def)
  then show ?thesis
    using m assms by (simp add: mav_sim_at_def mav_parse_def mav_R_def mav_fixed_def code_def nth_append)
qed

lemma mav_sim_hi2:
  assumes "mav_R len1 id1 n1 st m" "0 < n1" "mav_s st = 17"
  shows "mav_sim_at len1 id1 n1 st m b"
proof -
  have m: "length m = n1 + 29" "mav_flow st = take n1 (drop 6 m)" "mav_dis st = take 14 (drop (n1 + 14) m)"
    "mav_hi 0x0E 0x84 (n1 + 8) 14 m (hi8 (mav_v2 st))" "mav_fixed len1 id1 n1 st"
    using assms(1,3) by (simp_all add: mav_R_def)
  have "match (mav_checks len1 id1 n1) m b = ([], b = hi8 (mav_v2 st))"
    using m by (simp add: match_def mav_checks_nth2 mav_half_nth(10) [of _ _ _ 14, simplified]
      mav_checks_length mav_hi_def)
  then show ?thesis
    using m assms by (simp add: mav_sim_at_def mav_parse_def mav_R_def mav_fixed_def code_def mav_out_def)
qed

lemma mav_sim:
  assumes "mav_R len1 id1 n1 st m" "0 < n1" "n1 < 200"
  shows "mav_sim_at len1 id1 n1 st m b"
proof -
  have f: "mav_fixed len1 id1 n1 st" using assms(1) by (simp add: mav_R_def)
  have "mav_s st < 18" using assms(1) by (auto simp: mav_R_def)
  then consider (seq) "mav_s st = 2 \<or> mav_s st = 11" | (pay) "mav_s st = 6 \<or> mav_s st = 15"
    | (lo1) "mav_s st = 7" | (hi1) "mav_s st = 8" | (lo2) "mav_s st = 16" | (hi2) "mav_s st = 17"
    | (lit1) "mav_s st < 6" "mav_s st \<noteq> 2" | (lit2) "9 \<le> mav_s st" "mav_s st < 15" "mav_s st \<noteq> 11"
    by linarith
  then show ?thesis
  proof cases
    case seq then show ?thesis by (rule mav_sim_seq [OF assms(1,2)])
  next
    case pay then show ?thesis by (rule mav_sim_pay [OF assms(1,2)])
  next
    case lo1 then show ?thesis by (rule mav_sim_lo1 [OF assms])
  next
    case hi1 then show ?thesis by (rule mav_sim_hi1 [OF assms(1,2)])
  next
    case lo2 then show ?thesis by (rule mav_sim_lo2 [OF assms])
  next
    case hi2 then show ?thesis by (rule mav_sim_hi2 [OF assms(1,2)])
  next
    case lit1
    then show ?thesis using assms(1) by (intro mav_sim_lit1 [OF f _ _ _ assms(2)]) (auto simp: mav_R_def)
  next
    case lit2
    then show ?thesis using assms(1) by (intro mav_sim_lit2 [OF f _ _ _ _ assms(2)]) (auto simp: mav_R_def)
  qed
qed

lemma mav_parser:
  assumes "0 < n1" "n1 < 200"
  shows "byte_parser (mav_parse len1 id1 n1) (mav_checks len1 id1 n1) (mav_R len1 id1 n1) (mav_out n1) (-1)"
proof
  show "mav_checks len1 id1 n1 \<noteq> []"
    using mav_checks_length [of len1 id1 n1] by (cases "mav_checks len1 id1 n1") auto
next
  fix s m b assume "mav_R len1 id1 n1 s m"
  from mav_sim [OF this assms, of b]
  show "\<exists>s'. mav_parse len1 id1 n1 s b = Inr (s', code (-1) (snd (match (mav_checks len1 id1 n1) m b))) \<and>
      mav_R len1 id1 n1 s' (fst (match (mav_checks len1 id1 n1) m b)) \<and>
      (snd (match (mav_checks len1 id1 n1) m b) \<longrightarrow> mav_out n1 s' (m @ [b]))"
    by (simp only: mav_sim_at_def Let_def)
qed simp

interpretation apm: byte_parser apm_parse_char "mav_checks 0x1A 0x64 26" "mav_R 0x1A 0x64 26" "mav_out 26" "-1"
  unfolding apm_is_mav by (rule mav_parser) simp_all

interpretation px4: byte_parser px4_parse_char "mav_checks 0x2C 0x6A 44" "mav_R 0x2C 0x6A 44" "mav_out 44" "-1"
  unfolding px4_is_mav by (rule mav_parser) simp_all

text \<open>The receiver without distance sensor: the first half of the machine, answering on its last byte.\<close>

definition mavn_R :: "mav_statics \<Rightarrow> u8 list \<Rightarrow> bool" where
  "mavn_R st m = (mav_s st < 9 \<and> mav_R 0x2C 0x6A 44 st m)"

definition mavn_out :: "mav_statics \<Rightarrow> u8 list \<Rightarrow> bool" where
  "mavn_out st fr = (mav_flow st = take 44 (drop 6 fr))"

text \<open>Before its last state it does exactly what the full receiver does.\<close>

lemma px4notof_eq: "mav_s st < 8 \<Longrightarrow> px4notof_parse_char st b = px4_parse_char st b"
  unfolding lt8 insert_iff empty_iff
  by (elim disjE) (simp_all add: px4notof_parse_char_def px4_parse_char_def)

lemma match_extend:
  assumes "Suc (length m) < length cs"
  shows "match (cs @ ds) m b = match cs m b"
  using assms by (simp add: match_def nth_append)

lemma px4_stays_low:
  assumes "mav_s st < 8" "px4_parse_char st b = Inr (st', r)"
  shows "mav_s st' < 9"
  using assms by (auto simp: px4_parse_char_def Let_def case_prod_beta split: if_splits)

lemma mavn_sim:
  assumes "mavn_R st m"
  shows "\<exists>st'. px4notof_parse_char st b = Inr (st', code (-1) (snd (match (mav_half 0x2C 0x6A 0 44) m b))) \<and>
    mavn_R st' (fst (match (mav_half 0x2C 0x6A 0 44) m b)) \<and>
    (snd (match (mav_half 0x2C 0x6A 0 44) m b) \<longrightarrow> mavn_out st' (m @ [b]))"
proof (cases "mav_s st = 8")
  case True
  then have m: "length m = 51" "mav_flow st = take 44 (drop 6 m)"
    "mav_hi 0x2C 0x6A 0 44 m (hi8 (mav_v1 st))" "mav_fixed 0x2C 0x6A 44 st"
    using assms by (simp_all add: mavn_R_def mav_R_def)
  have "match (mav_half 0x2C 0x6A 0 44) m b = ([], b = hi8 (mav_v1 st))"
    using m(1,3) by (simp add: match_def mav_half_nth(1) mav_half_nth(10) [of _ _ _ 44, simplified] mav_hi_def)
  then show ?thesis
    using True m
    by (simp add: px4notof_parse_char_def mavn_R_def mav_R_def mav_fixed_def code_def mavn_out_def)
next
  case False
  then have s: "mav_s st < 8" "mav_R 0x2C 0x6A 44 st m" using assms by (auto simp: mavn_R_def)
  then have "length m < 51" by (auto simp: mav_R_def)
  then have e: "match (mav_checks 0x2C 0x6A 44) m b = match (mav_half 0x2C 0x6A 0 44) m b"
    unfolding mav_checks_def by (intro match_extend) (simp add: mav_half_nth)
  have "\<not> snd (match (mav_half 0x2C 0x6A 0 44) m b)"
    using \<open>length m < 51\<close> by (simp add: match_def mav_half_nth)
  moreover obtain st' where st': "px4_parse_char st b = Inr (st', code (-1) (snd (match (mav_half 0x2C 0x6A 0 44) m b)))"
    "mav_R 0x2C 0x6A 44 st' (fst (match (mav_half 0x2C 0x6A 0 44) m b))"
    using mav_sim [OF s(2), of b] unfolding mav_sim_at_def Let_def px4_is_mav e by auto
  moreover have "mav_s st' < 9" using px4_stays_low [OF s(1) st'(1)] .
  ultimately show ?thesis
    unfolding px4notof_eq [OF s(1)] by (auto simp: mavn_R_def)
qed

interpretation px4n: byte_parser px4notof_parse_char "mav_half 0x2C 0x6A 0 44" mavn_R mavn_out "-1"
  by unfold_locales (use mavn_sim in \<open>simp_all add: mav_half_def\<close>)

lemma parser_inits:
  "up_R up_init []" "msp_R msp_init []" "mspn_R mspn_init []"
  "mav_R 0x1A 0x64 26 apm_init []" "mav_R 0x2C 0x6A 44 px4_init []" "mavn_R px4_init []"
  by (simp_all add: up_R_def up_init_def msp_R_def msp_init_def msp_fixed_def mspn_R_def mspn_init_def
    msp_hdr1_def msp_hdr2_def mav_R_def mavn_R_def apm_init_def px4_init_def mav_init_def mav_fixed_def)

section \<open>The dispatcher\<close>

datatype protocol =
  UPIXELS | UPIXELS_NO_TOF | MSP | MSP_NO_TOF | MAVLINK_APM | MAVLINK_PX4 | MAVLINK_PX4_NO_TOF

record flow_state =
  fl_up :: up_statics
  fl_upn :: up_statics
  fl_msp :: msp_statics
  fl_mspn :: mspn_statics
  fl_apm :: mav_statics
  fl_px4 :: mav_statics
  fl_px4n :: mav_statics

definition flow_init :: flow_state where
  "flow_init = \<lparr>fl_up = up_init, fl_upn = up_init, fl_msp = msp_init, fl_mspn = mspn_init,
     fl_apm = apm_init, fl_px4 = px4_init, fl_px4n = px4_init\<rparr>"

text \<open>Little endian fields of the packed structures; a \<open>float\<close> is its 32 bit pattern.\<close>

definition get16 :: "u8 list \<Rightarrow> nat \<Rightarrow> u16" where
  "get16 d i = mk16 (d ! (i + 1)) (d ! i)"

definition get32 :: "u8 list \<Rightarrow> nat \<Rightarrow> u32" where
  "get32 d i = mk32 (d ! (i + 3)) (d ! (i + 2)) (d ! (i + 1)) (d ! i)"

text \<open>The values of the log lines are the output; each line is a list.\<close>

definition flow_protocol_step :: "protocol \<Rightarrow> flow_state \<Rightarrow> u8 \<Rightarrow> (flow_state \<times> int list list) cres" where
  "flow_protocol_step protocol st ch = (case protocol of
     MAVLINK_PX4_NO_TOF \<Rightarrow> cbind (px4notof_parse_char (fl_px4n st) ch) (\<lambda>(s, ret).
       let f = mav_flow s in
       Inr (st\<lparr>fl_px4n := s\<rparr>,
         if ret = 0 then [[uint (get32 f 12), uint (get32 f 16), uint (f ! 43)]] else []))
   | MAVLINK_PX4 \<Rightarrow> cbind (px4_parse_char (fl_px4 st) ch) (\<lambda>(s, ret).
       let f = mav_flow s in
       Inr (st\<lparr>fl_px4 := s\<rparr>,
         if ret = 0 then [[uint (get32 f 12), uint (get32 f 16), uint (get32 f 36), uint (f ! 43)],
           [uint (get16 (mav_dis s) 8)]] else []))
   | MAVLINK_APM \<Rightarrow> cbind (apm_parse_char (fl_apm st) ch) (\<lambda>(s, ret).
       let f = mav_flow s in
       Inr (st\<lparr>fl_apm := s\<rparr>,
         if ret = 0 then [[uint (get32 f 8), uint (get32 f 12), uint (get32 f 16), uint (f ! 25)],
           [uint (get16 (mav_dis s) 8)]] else []))
   | MSP_NO_TOF \<Rightarrow> cbind (mspnotof_parse_char (fl_mspn st) ch) (\<lambda>(s, ret).
       let f = mspn_flow s in
       Inr (st\<lparr>fl_mspn := s\<rparr>,
         if ret = 0 then [[uint (f ! 0), sint (get32 f 1), sint (get32 f 5)]] else []))
   | MSP \<Rightarrow> cbind (msp_parse_char (fl_msp st) ch) (\<lambda>(s, ret).
       let f = msp_flow s in
       Inr (st\<lparr>fl_msp := s\<rparr>,
         if ret = 0 then [[uint (f ! 0), sint (get32 f 1), sint (get32 f 5)],
           [uint (msp_dis s ! 0), uint (get32 (msp_dis s) 1)]] else []))
   | UPIXELS_NO_TOF \<Rightarrow> cbind (upnotof_parse_char (fl_upn st) ch) (\<lambda>(s, ret).
       let f = up_buf s in
       Inr (st\<lparr>fl_upn := s\<rparr>,
         if ret = 0 then [[sint (get16 f 0), sint (get16 f 2), uint (f ! 8)]] else []))
   | UPIXELS \<Rightarrow> cbind (up_parse_char (fl_up st) ch) (\<lambda>(s, ret).
       let f = up_buf s in
       Inr (st\<lparr>fl_up := s\<rparr>,
         if ret = 0 then [[sint (get16 f 0), sint (get16 f 2), uint (get16 f 6), uint (f ! 8), uint (f ! 9)]]
         else [])))"

text \<open>The firmware is built for one sensor: the local variable \<open>protocol\<close> is constant.\<close>

definition flow_protool_handle :: "flow_state \<Rightarrow> u8 \<Rightarrow> (flow_state \<times> int list list) cres" where
  "flow_protool_handle = flow_protocol_step UPIXELS"

section \<open>What the receivers promise\<close>

text \<open>The frames of the protocols, written out.\<close>

lemma up_frame_iff:
  "frame up_checks fr \<longleftrightarrow>
    (\<exists>d x. length d = 10 \<and> fr = [0xFE, 0x0A] @ d @ [x, 0x55] \<and> x = foldl (XOR) 0 d)"
  (is "?l = ?r")
proof
  assume ?l
  then have len: "length fr = 14" and ok: "\<And>i. i < 14 \<Longrightarrow> (up_checks ! i) (take i fr) (fr ! i)"
    by (simp_all add: frame_def up_checks_nth(1))
  have h: "fr ! 0 = 0xFE" "fr ! 1 = 0x0A" "fr ! 13 = 0x55" "fr ! 12 = foldl (XOR) 0 (take 10 (drop 2 fr))"
    using ok [of 0] ok [of 1] ok [of 13] len
    by (simp_all add: up_checks_nth up_checks_nth(3) [simplified] up_check_def take_drop)
  let ?d = "take 10 (drop 2 fr)"
  have "fr = take 2 fr @ ?d @ drop 10 (drop 2 fr)" by (simp only: append_take_drop_id)
  then have "fr = take 2 fr @ ?d @ drop 12 fr" by (simp only: drop_drop) simp
  moreover have "take 2 fr = [0xFE, 0x0A]" "drop 12 fr = [fr ! 12, 0x55]"
    using h len by (simp_all add: take_Suc_conv_app_nth numeral_2_eq_2 flip: Cons_nth_drop_Suc)
  ultimately show ?r using h(4) len by (intro exI [of _ ?d] exI [of _ "fr ! 12"]) simp
next
  assume ?r
  then obtain d where d: "length d = 10" "fr = [0xFE, 0x0A] @ d @ [foldl (XOR) 0 d, 0x55]" by blast
  have "(up_checks ! i) (take i fr) (fr ! i)" if i: "i < 14" for i
  proof -
    consider "i = 0" | "i = 1" | "2 \<le> i \<and> i < 12" | "i = 12" | "i = 13"
      using i by linarith
    then show ?thesis
      using d by cases (auto simp: up_checks_nth up_checks_nth(3) [simplified] up_check_def nth_append)
  qed
  then show ?l using d by (simp add: frame_def up_checks_nth(1))
qed

text \<open>The frames a sensor of the other protocols sends.\<close>

definition msp_half :: "u8 list \<Rightarrow> u8 list \<Rightarrow> u8 list" where
  "msp_half hdr d = [0x24, 0x58, 0x3C] @ hdr @ d @ [foldl crc8_dvb_s2 0 (hdr @ d)]"

definition mav_message :: "u8 \<Rightarrow> u8 \<Rightarrow> u8 \<Rightarrow> u8 list \<Rightarrow> u8 list" where
  "mav_message len q ident d =
     (let bs = [len, q, 0x00, 0x9E, ident] @ d; v = x25_of bs ident in 0xFE # bs @ [lo8 v, hi8 v])"

lemma frame_append:
  assumes "length m = length cs" "frame cs m"
    "\<And>i. i < length n \<Longrightarrow> (ds ! i) (m @ take i n) (n ! i)" "length n = length ds"
  shows "frame (cs @ ds) (m @ n)"
  using assms by (auto simp: frame_def nth_append)

lemma frame_Nil [simp]: "frame [] []" by (simp add: frame_def)

lemma frame_lits:
  assumes "frame cs m" shows "frame (cs @ map lit bs) (m @ bs)"
  using assms by (intro frame_append) (auto simp: frame_def)

lemma frame_anys:
  assumes "frame cs m" shows "frame (cs @ replicate (length bs) any) (m @ bs)"
  using assms by (intro frame_append) (auto simp: frame_def)

lemma frame_one:
  assumes "frame cs m" "c m b" shows "frame (cs @ [c]) (m @ [b])"
  using assms by (intro frame_append) (auto simp: frame_def)

lemma msp_frame_half:
  assumes "frame cs m" "length d = n" "length hdr = 5"
  shows "frame (cs @ map lit ([0x24, 0x58, 0x3C] @ hdr) @ replicate n any @ [dvb_check hdr (length m + 8) n])
    (m @ msp_half hdr d)"
proof -
  let ?h = "[0x24, 0x58, 0x3C] @ hdr"
  have "frame ((cs @ map lit ?h) @ replicate n any) ((m @ ?h) @ d)"
    using assms(2) frame_anys [OF frame_lits [OF assms(1), of ?h], of d] by simp
  then have "frame (((cs @ map lit ?h) @ replicate n any) @ [dvb_check hdr (length m + 8) n])
      (((m @ ?h) @ d) @ [foldl crc8_dvb_s2 0 (hdr @ d)])"
    by (rule frame_one) (use assms in \<open>simp add: dvb_check_def\<close>)
  then show ?thesis by (simp add: msp_half_def)
qed

lemma msp_frame:
  assumes "length d1 = 5" "length d2 = 9"
  shows "frame msp_checks (msp_half msp_hdr1 d1 @ msp_half msp_hdr2 d2)"
proof -
  have h: "length msp_hdr1 = 5" "length msp_hdr2 = 5" by (simp_all add: msp_hdr1_def msp_hdr2_def)
  have l: "length (msp_half msp_hdr1 d1) = 14" using assms h by (simp add: msp_half_def)
  from msp_frame_half [OF msp_frame_half [OF frame_Nil assms(1) h(1)] assms(2) h(2)]
  show ?thesis by (simp add: msp_checks_def msp_checks2_def l)
qed

lemma mav_frame_half:
  assumes "frame cs m" "length d = n"
  shows "frame (cs @ mav_half len ident (length m) n) (m @ mav_message len q ident d)"
proof -
  let ?v = "x25_of ([len, q, 0x00, 0x9E, ident] @ d) ident"
  let ?c = "cs @ map lit [0xFE, len] @ [any] @ map lit [0x00, 0x9E, ident] @ replicate n any"
  let ?m = "m @ [0xFE, len, q, 0x00, 0x9E, ident] @ d"
  have "frame ?c ?m"
    using assms(2) frame_anys [OF frame_lits [OF frame_one [OF frame_lits [OF assms(1), of "[0xFE, len]"],
      of any q], of "[0x00, 0x9E, ident]"], of d] by simp
  then have "frame (?c @ [mav_lo len ident (length m) n]) (?m @ [lo8 ?v])"
    by (rule frame_one) (use assms in \<open>simp add: mav_lo_def nth_append\<close>)
  then have "frame ((?c @ [mav_lo len ident (length m) n]) @ [mav_hi len ident (length m) n])
      ((?m @ [lo8 ?v]) @ [hi8 ?v])"
    by (rule frame_one) (use assms in \<open>simp add: mav_hi_def nth_append\<close>)
  then show ?thesis by (simp add: mav_half_def mav_message_def Let_def)
qed

lemma mav_frame:
  assumes "length d1 = n1" "length d2 = 14"
  shows "frame (mav_checks len1 id1 n1) (mav_message len1 q1 id1 d1 @ mav_message 0x0E q2 0x84 d2)"
proof -
  have l: "length (mav_message len1 q1 id1 d1) = n1 + 8"
    using assms(1) by (simp add: mav_message_def Let_def)
  from mav_frame_half [OF mav_frame_half [OF frame_Nil assms(1), of len1 id1 q1] assms(2), of "0x0E" "0x84" q2]
  show ?thesis by (simp add: mav_checks_def l)
qed

text \<open>
  C28: no input makes a receiver of the optical flow sensors write or read outside a buffer, and on
  every byte stream each of the seven returns, byte by byte, exactly what the matcher of its frame
  says: 0 on the byte that completes a frame and its "nothing yet" value on every other byte.
\<close>

theorem flow_receivers_refine_matchers:
  "(\<exists>s. feed up_parse_char up_init bs = Inr (s, map (code (-1)) (snd (run (match up_checks) [] bs)))) \<and>
   (\<exists>s. feed upnotof_parse_char up_init bs = Inr (s, map (code (-1)) (snd (run (match up_checks) [] bs)))) \<and>
   (\<exists>s. feed msp_parse_char msp_init bs = Inr (s, map (code (-1)) (snd (run (match msp_checks) [] bs)))) \<and>
   (\<exists>s. feed mspnotof_parse_char mspn_init bs =
      Inr (s, map (code 1) (snd (run (match (msp_checks2 8)) [] bs)))) \<and>
   (\<exists>s. feed apm_parse_char apm_init bs =
      Inr (s, map (code (-1)) (snd (run (match (mav_checks 0x1A 0x64 26)) [] bs)))) \<and>
   (\<exists>s. feed px4_parse_char px4_init bs =
      Inr (s, map (code (-1)) (snd (run (match (mav_checks 0x2C 0x6A 44)) [] bs)))) \<and>
   (\<exists>s. feed px4notof_parse_char px4_init bs =
      Inr (s, map (code (-1)) (snd (run (match (mav_half 0x2C 0x6A 0 44)) [] bs))))"
proof -
  note v = up.nonempty msp.nonempty mspn.nonempty apm.nonempty px4.nonempty px4n.nonempty
  show ?thesis
    using up.feed_refines [OF parser_inits(1), of bs] upn.feed_refines [OF parser_inits(1), of bs]
      msp.feed_refines [OF parser_inits(2), of bs] mspn.feed_refines [OF parser_inits(3), of bs]
      apm.feed_refines [OF parser_inits(4), of bs] px4.feed_refines [OF parser_inits(5), of bs]
      px4n.feed_refines [OF parser_inits(6), of bs]
    unfolding viable_Nil using v by blast
qed

text \<open>
  C19: whatever was received before, when the receiver of the sensor's own protocol returns 0 the
  last fourteen bytes are the two start bytes, ten data bytes, their exclusive-or and the end byte,
  and the structure handed to the application holds exactly those ten bytes.
\<close>

theorem up_receiver_sound:
  assumes "feed up_parse_char up_init (xs @ [b]) = Inr (s, rs)" "last rs = 0"
  shows "\<exists>pre. xs @ [b] = pre @ [0xFE, 0x0A] @ up_buf s @ [foldl (XOR) 0 (up_buf s), 0x55] \<and> length (up_buf s) = 10"
proof -
  obtain pre fr where fr: "xs @ [b] = pre @ fr" "frame up_checks fr" "up_out s fr"
    using up.reported_frame [of up_init xs b s rs] parser_inits(1) up.nonempty assms by auto
  then show ?thesis by (auto simp: up_frame_iff up_out_def)
qed

theorem up_receiver_sound_witness:
  "\<exists>pre. [7, 0xFE, 0x0A, 1, 0, 2, 0, 3, 0, 4, 0, 5, 6, 7, 0x55 :: u8] =
     pre @ [0xFE, 0x0A] @ [1, 0, 2, 0, 3, 0, 4, 0, 5, 6] @ [7, 0x55]"
proof -
  have "feed up_parse_char up_init ([7, 0xFE, 0x0A, 1, 0, 2, 0, 3, 0, 4, 0, 5, 6, 7] @ [0x55]) =
    Inr (\<lparr>up_s = 0, up_p = 0, Xor_r = 7, Xor_c = 7, up_buf = [1, 0, 2, 0, 3, 0, 4, 0, 5, 6]\<rparr>,
      replicate 14 (-1) @ [0])"
    by (simp add: up_parse_char_def up_init_def replicate_numeral_eq)
  from up_receiver_sound [OF this] show ?thesis by simp
qed

text \<open>
  A frame of the sensor's own protocol that carries the five values is decoded by the
  application's handler to exactly these values: nothing is reported before the last byte, and
  then the two signed integrals, the distance, the validity and the confidence.
\<close>

theorem flow_handle_roundtrip:
  "\<exists>st. feed flow_protool_handle flow_init
     (let d = [lo8 fx, hi8 fx, lo8 fy, hi8 fy, lo8 ts, hi8 ts, lo8 gd, hi8 gd, valid, conf]
      in [0xFE, 0x0A] @ d @ [foldl (XOR) 0 d, 0x55]) =
    Inr (st, replicate 13 [] @ [[[sint fx, sint fy, uint gd, uint valid, uint conf]]])"
  by (simp add: flow_protool_handle_def flow_protocol_step_def flow_init_def up_parse_char_def up_init_def
      Let_def get16_def replicate_numeral_eq)

text \<open>
  The two messages of an MSP sensor are accepted exactly at their last byte, and the two
  structures then hold the two payloads, whatever the payloads are.
\<close>

theorem msp_receiver_complete:
  assumes "length d1 = 5" "length d2 = 9"
  shows "\<exists>s. feed msp_parse_char msp_init (msp_half msp_hdr1 d1 @ msp_half msp_hdr2 d2) =
      Inr (s, replicate 31 (-1) @ [0]) \<and> msp_dis s = d1 \<and> msp_flow s = d2"
proof -
  have "length msp_hdr1 = 5" "length msp_hdr2 = 5" by (simp_all add: msp_hdr1_def msp_hdr2_def)
  then show ?thesis
    using msp.accepts [OF parser_inits(2) msp_frame [OF assms]] assms
    by (auto simp: msp_checks_nth msp_out_def msp_half_def)
qed

theorem msp_receiver_complete_witness:
  "\<exists>s. feed msp_parse_char msp_init
     (msp_half msp_hdr1 [1, 2, 3, 4, 5] @ msp_half msp_hdr2 [1, 2, 3, 4, 5, 6, 7, 8, 9]) =
       Inr (s, replicate 31 (-1) @ [0]) \<and> msp_dis s = [1, 2, 3, 4, 5] \<and> msp_flow s = [1, 2, 3, 4, 5, 6, 7, 8, 9]"
  using msp_receiver_complete [of "[1, 2, 3, 4, 5]" "[1, 2, 3, 4, 5, 6, 7, 8, 9]"] by simp

text \<open>
  C34: a flow message and a distance message of a MAVLink sensor, with any sequence numbers and
  payloads and the MAVLink checksum of each, are accepted exactly at their last byte by the
  receiver of that autopilot, and the two structures then hold the two payloads.
\<close>

theorem mavlink_receivers_complete:
  assumes "length da = 26" "length dp = 44" "length d2 = 14"
  shows "(\<exists>s. feed apm_parse_char apm_init (mav_message 0x1A q1 0x64 da @ mav_message 0x0E q2 0x84 d2) =
      Inr (s, replicate 55 (-1) @ [0]) \<and> mav_flow s = da \<and> mav_dis s = d2) \<and>
    (\<exists>s. feed px4_parse_char px4_init (mav_message 0x2C q1 0x6A dp @ mav_message 0x0E q2 0x84 d2) =
      Inr (s, replicate 73 (-1) @ [0]) \<and> mav_flow s = dp \<and> mav_dis s = d2)"
proof
  show "\<exists>s. feed apm_parse_char apm_init (mav_message 0x1A q1 0x64 da @ mav_message 0x0E q2 0x84 d2) =
      Inr (s, replicate 55 (-1) @ [0]) \<and> mav_flow s = da \<and> mav_dis s = d2"
    using apm.accepts [OF parser_inits(4) mav_frame [OF assms(1,3), of "0x1A" "0x64" q1 q2]] assms
    by (auto simp: mav_checks_length mav_out_def mav_message_def Let_def)
  show "\<exists>s. feed px4_parse_char px4_init (mav_message 0x2C q1 0x6A dp @ mav_message 0x0E q2 0x84 d2) =
      Inr (s, replicate 73 (-1) @ [0]) \<and> mav_flow s = dp \<and> mav_dis s = d2"
    using px4.accepts [OF parser_inits(5) mav_frame [OF assms(2,3), of "0x2C" "0x6A" q1 q2]] assms
    by (auto simp: mav_checks_length mav_out_def mav_message_def Let_def)
qed

theorem mavlink_receivers_complete_witness:
  "\<exists>s. feed apm_parse_char apm_init
      (mav_message 0x1A 7 0x64 (replicate 26 5) @ mav_message 0x0E 8 0x84 (replicate 14 9)) =
    Inr (s, replicate 55 (-1) @ [0]) \<and> mav_flow s = replicate 26 5 \<and> mav_dis s = replicate 14 9"
  using mavlink_receivers_complete [of "replicate 26 5" "replicate 44 0" "replicate 14 9" 7 8] by simp

end
