(* ===== verification/StateMachine.thy ===== *)
theory StateMachine
  imports Prelude
begin

text \<open>
  The generic state machine of \<^verbatim>\<open>statemachine/statemachine.c\<close>. Objects live in two memories, one of
  states and one of transitions, and pointers are their addresses (\<open>None\<close> is NULL). Names are
  \<^verbatim>\<open>const char*\<close> values and the code compares them as pointers, so a name is an address as well. A
  function pointer is a number; what the functions do is the application's, a parameter of the
  model: a callback may change the application's world, not the machine. The vector library is not
  part of the repository; its four operations are a parameter, its laws the interface \<open>cvector\<close>.
\<close>

section \<open>The vector library\<close>

record 'v vec_ops =
  cvector_create :: 'v
  cvector_length :: "'v \<Rightarrow> nat"
  cvector_at :: "'v \<Rightarrow> nat \<Rightarrow> nat"
  cvector_pushback :: "'v \<Rightarrow> nat \<Rightarrow> 'v"

text \<open>The documented behaviour, over the list of elements \<open>items v\<close>.\<close>

definition vec_laws :: "'v vec_ops \<Rightarrow> ('v \<Rightarrow> nat list) \<Rightarrow> bool" where
  "vec_laws V items = (items (cvector_create V) = [] \<and>
     (\<forall>v. cvector_length V v = length (items v)) \<and>
     (\<forall>v i. i < length (items v) \<longrightarrow> cvector_at V v i = items v ! i) \<and>
     (\<forall>v x. items (cvector_pushback V v x) = items v @ [x]))"

locale cvector =
  fixes V :: "'v vec_ops" and items :: "'v \<Rightarrow> nat list"
  assumes laws: "vec_laws V items"
begin

lemma ops [simp]:
  "items (cvector_create V) = []" "cvector_length V v = length (items v)"
  "i < length (items v) \<Longrightarrow> cvector_at V v i = items v ! i" "items (cvector_pushback V v x) = items v @ [x]"
  using laws by (simp_all add: vec_laws_def)

text \<open>The loops of the code read the elements in order.\<close>

lemma elements [simp]: "map (cvector_at V v) [0..<cvector_length V v] = items v"
  by (intro nth_equalityI) simp_all

end

definition list_vec :: "nat list vec_ops" where
  "list_vec = \<lparr>cvector_create = [], cvector_length = length, cvector_at = (!), cvector_pushback = (\<lambda>v x. v @ [x])\<rparr>"

interpretation list_vec: cvector list_vec "\<lambda>v. v"
  by unfold_locales (simp add: vec_laws_def list_vec_def)

section \<open>Objects\<close>

record transition =
  trigger :: bool
  to :: "nat option"
  cond :: nat

record 'v aState =
  entry :: "nat option"
  excution :: "nat option"
  exit :: "nat option"
  name :: nat
  transitions :: 'v

record 'v aStateMachine =
  sm_name :: nat
  states :: 'v
  current :: "nat option"
  previous :: "nat option"
  started :: bool
  finished :: bool
  defaultFinishState :: nat
  state_mem :: "nat \<Rightarrow> 'v aState option"
  trans_mem :: "nat \<Rightarrow> transition option"

text \<open>The application's functions: state callbacks get the state, conditions the machine.\<close>

record ('v, 'w) app =
  callback :: "nat \<Rightarrow> nat \<Rightarrow> 'w \<Rightarrow> int \<times> 'w"
  condition_of :: "nat \<Rightarrow> 'v aStateMachine \<Rightarrow> 'w \<Rightarrow> bool \<times> 'w"

definition stateNone :: int where "stateNone = 0"
definition stateFinish :: int where "stateFinish = 2"

text \<open>Following a pointer.\<close>

definition get_state :: "'v aStateMachine \<Rightarrow> nat option \<Rightarrow> 'v aState cres" where
  "get_state sm p = (case p of None \<Rightarrow> Inl NullDeref | Some a \<Rightarrow>
     (case state_mem sm a of None \<Rightarrow> Inl NullDeref | Some s \<Rightarrow> Inr s))"

definition get_trans :: "'v aStateMachine \<Rightarrow> nat option \<Rightarrow> transition cres" where
  "get_trans sm p = (case p of None \<Rightarrow> Inl NullDeref | Some a \<Rightarrow>
     (case trans_mem sm a of None \<Rightarrow> Inl NullDeref | Some t \<Rightarrow> Inr t))"

section \<open>Construction\<close>

definition transition_Init :: "'v aStateMachine \<Rightarrow> nat option \<Rightarrow> nat option \<Rightarrow> nat \<Rightarrow> 'v aStateMachine cres" where
  "transition_Init sm t dest c = (case t of None \<Rightarrow> Inl NullDeref | Some a \<Rightarrow>
     Inr (sm\<lparr>trans_mem := (trans_mem sm)(a \<mapsto> \<lparr>trigger = True, to = dest, cond = c\<rparr>)\<rparr>))"

definition aState_Init ::
  "'v vec_ops \<Rightarrow> 'v aStateMachine \<Rightarrow> nat option \<Rightarrow> nat \<Rightarrow> nat option \<Rightarrow> nat option \<Rightarrow> nat option \<Rightarrow> 'v aStateMachine cres" where
  "aState_Init V sm s nm ex en xt = (case s of None \<Rightarrow> Inl NullDeref | Some a \<Rightarrow>
     Inr (sm\<lparr>state_mem := (state_mem sm)(a \<mapsto>
       \<lparr>entry = en, excution = ex, exit = xt, name = nm, transitions = cvector_create V\<rparr>)\<rparr>))"

text \<open>The three default callbacks and the callback of the finish state only print.\<close>

definition aState_excution :: int where "aState_excution = stateNone"
definition aState_entry :: int where "aState_entry = stateNone"
definition aState_exit :: int where "aState_exit = stateNone"
definition defaultFinishState_excution :: int where "defaultFinishState_excution = stateFinish"

definition aState_getName :: "'v aStateMachine \<Rightarrow> nat option \<Rightarrow> nat cres" where
  "aState_getName sm s = cbind (get_state sm s) (\<lambda>st. Inr (name st))"

definition aState_addTransition ::
  "'v vec_ops \<Rightarrow> 'v aStateMachine \<Rightarrow> nat option \<Rightarrow> nat \<Rightarrow> 'v aStateMachine cres" where
  "aState_addTransition V sm s t =
     cbind (get_state sm s) (\<lambda>st.
     Inr (sm\<lparr>state_mem := (state_mem sm)(the s \<mapsto> st\<lparr>transitions := cvector_pushback V (transitions st) t\<rparr>)\<rparr>))"

definition aStateMachine_Init :: "'v vec_ops \<Rightarrow> 'v aStateMachine \<Rightarrow> nat \<Rightarrow> nat \<Rightarrow> 'v aStateMachine cres" where
  "aStateMachine_Init V sm nm finish_name =
     (let sm = sm\<lparr>sm_name := nm, current := None, previous := None, started := False, finished := False\<rparr> in
      cbind (aState_Init V sm (Some (defaultFinishState sm)) finish_name None None None) (\<lambda>sm.
      Inr (sm\<lparr>states := cvector_create V\<rparr>)))"

definition aStateMachine_finish :: "'v aStateMachine \<Rightarrow> 'v aStateMachine" where
  "aStateMachine_finish sm = sm\<lparr>finished := True\<rparr>"

text \<open>The first state of the list whose name is the given pointer.\<close>

fun find_name :: "'v aStateMachine \<Rightarrow> nat list \<Rightarrow> nat \<Rightarrow> nat option cres" where
  "find_name sm [] nm = Inr None"
| "find_name sm (a # as) nm =
     cbind (aState_getName sm (Some a)) (\<lambda>n. if n = nm then Inr (Some a) else find_name sm as nm)"

definition aStateMachine_convert_state :: "'v vec_ops \<Rightarrow> 'v aStateMachine \<Rightarrow> nat \<Rightarrow> nat option cres" where
  "aStateMachine_convert_state V sm nm =
     find_name sm (map (cvector_at V (states sm)) [0..<cvector_length V (states sm)]) nm"

definition aStateMachine_convert_name :: "'v aStateMachine \<Rightarrow> nat option \<Rightarrow> nat cres" where
  "aStateMachine_convert_name sm s = aState_getName sm s"

definition aStateMachine_addState :: "'v vec_ops \<Rightarrow> 'v aStateMachine \<Rightarrow> nat \<Rightarrow> 'v aStateMachine" where
  "aStateMachine_addState V sm s = sm\<lparr>states := cvector_pushback V (states sm) s\<rparr>"

text \<open>\<open>p\<close> is what \<^verbatim>\<open>malloc\<close> returns for the new transition.\<close>

definition aStateMachine_addTransition1 ::
  "'v vec_ops \<Rightarrow> nat option \<Rightarrow> 'v aStateMachine \<Rightarrow> nat option \<Rightarrow> nat option \<Rightarrow> nat \<Rightarrow> 'v aStateMachine cres" where
  "aStateMachine_addTransition1 V p sm from dest c =
     (let dest = (case dest of None \<Rightarrow> Some (defaultFinishState sm) | Some a \<Rightarrow> Some a) in
      case List.find (\<lambda>a. Some a = from) (map (cvector_at V (states sm)) [0..<cvector_length V (states sm)]) of
        None \<Rightarrow> Inr sm
      | Some a \<Rightarrow>
          cbind (transition_Init sm p dest c) (\<lambda>sm. aState_addTransition V sm from (the p)))"

definition aStateMachine_addTransition2 ::
  "'v vec_ops \<Rightarrow> nat option \<Rightarrow> 'v aStateMachine \<Rightarrow> nat \<Rightarrow> nat \<Rightarrow> nat \<Rightarrow> 'v aStateMachine cres" where
  "aStateMachine_addTransition2 V p sm fromName toName c =
     cbind (aStateMachine_convert_state V sm fromName) (\<lambda>from.
     cbind (aStateMachine_convert_state V sm toName) (\<lambda>dest.
     aStateMachine_addTransition1 V p sm from dest c))"

definition aStateMachine_addTransition3 ::
  "'v vec_ops \<Rightarrow> nat option \<Rightarrow> 'v aStateMachine \<Rightarrow> nat option \<Rightarrow> nat \<Rightarrow> nat \<Rightarrow> 'v aStateMachine cres" where
  "aStateMachine_addTransition3 V p sm from toName c =
     cbind (aStateMachine_convert_state V sm toName) (\<lambda>dest. aStateMachine_addTransition1 V p sm from dest c)"

definition aStateMachine_addTransition4 ::
  "'v vec_ops \<Rightarrow> nat option \<Rightarrow> 'v aStateMachine \<Rightarrow> nat \<Rightarrow> nat option \<Rightarrow> nat \<Rightarrow> 'v aStateMachine cres" where
  "aStateMachine_addTransition4 V p sm fromName dest c =
     cbind (aStateMachine_convert_state V sm fromName) (\<lambda>from. aStateMachine_addTransition1 V p sm from dest c)"

text \<open>The condition the library offers.\<close>

definition sm_condition :: "'v aStateMachine \<Rightarrow> bool" where "sm_condition sm = True"

section \<open>Running\<close>

definition call :: "('v, 'w) app \<Rightarrow> nat option \<Rightarrow> nat \<Rightarrow> 'w \<Rightarrow> int \<times> 'w" where
  "call A f s w = (case f of None \<Rightarrow> (stateNone, w) | Some g \<Rightarrow> callback A g s w)"

definition aStateMachine_start ::
  "('v, 'w) app \<Rightarrow> 'v aStateMachine \<Rightarrow> nat option \<Rightarrow> 'w \<Rightarrow> ('v aStateMachine \<times> 'w) cres" where
  "aStateMachine_start A sm s w =
     (if started sm then Inr (sm, w)
      else (let sm = sm\<lparr>started := True, current := s, previous := None\<rparr> in
        cbind (get_state sm s) (\<lambda>st. Inr (sm, snd (call A (entry st) (the s) w)))))"

definition aStateMachine_restart ::
  "('v, 'w) app \<Rightarrow> 'v aStateMachine \<Rightarrow> nat option \<Rightarrow> 'w \<Rightarrow> ('v aStateMachine \<times> 'w) cres" where
  "aStateMachine_restart A sm s w =
     (let sm = sm\<lparr>started := False, finished := False, current := s, previous := None\<rparr> in
      cbind (get_state sm s) (\<lambda>st. Inr (sm, snd (call A (entry st) (the s) w))))"

text \<open>
  The loop over the transitions of the current state \<open>c\<close>: the first one that is triggered and whose
  condition holds is taken, the conditions before it having been evaluated in order.
\<close>

fun try_transitions ::
  "('v, 'w) app \<Rightarrow> 'v aStateMachine \<Rightarrow> nat \<Rightarrow> nat list \<Rightarrow> 'w \<Rightarrow> ('v aStateMachine \<times> 'w) cres" where
  "try_transitions A sm c [] w = Inr (sm, w)"
| "try_transitions A sm c (t # ts) w =
     cbind (get_trans sm (Some t)) (\<lambda>tr.
     if trigger tr then
       (let (b, w) = condition_of A (cond tr) sm w in
        if b then
          cbind (get_state sm (Some c)) (\<lambda>st.
          let w = snd (call A (exit st) c w); sm = sm\<lparr>previous := Some c, current := to tr\<rparr> in
          cbind (get_state sm (to tr)) (\<lambda>st'. Inr (sm, snd (call A (entry st') (the (to tr)) w))))
        else try_transitions A sm c ts w)
     else try_transitions A sm c ts w)"

text \<open>The firmware is compiled without automatic start (\<^verbatim>\<open>ASTATE_AUTO_START\<close> is 0).\<close>

definition aStateMachine_update ::
  "'v vec_ops \<Rightarrow> ('v, 'w) app \<Rightarrow> 'v aStateMachine \<Rightarrow> 'w \<Rightarrow> ('v aStateMachine \<times> 'w) cres" where
  "aStateMachine_update V A sm w =
     (if \<not> started sm then Inr (sm, w)
      else if finished sm then Inr (sm, w)
      else case current sm of
        None \<Rightarrow> Inr (sm, w)
      | Some c \<Rightarrow>
          cbind (get_state sm (Some c)) (\<lambda>st.
          let (r, w) = call A (excution st) c w;
            sm = (if excution st \<noteq> None \<and> r = stateFinish then aStateMachine_finish sm else sm) in
          try_transitions A sm c
            (map (cvector_at V (transitions st)) [0..<cvector_length V (transitions st)]) w))"

section \<open>Well-formed machines\<close>

text \<open>Every pointer the machine can follow leads somewhere.\<close>

definition target_ok :: "'v aStateMachine \<Rightarrow> nat \<Rightarrow> bool" where
  "target_ok sm t = (\<exists>tr d. trans_mem sm t = Some tr \<and> to tr = Some d \<and> d \<in> dom (state_mem sm))"

definition sm_wf :: "('v \<Rightarrow> nat list) \<Rightarrow> 'v aStateMachine \<Rightarrow> bool" where
  "sm_wf items sm = (set (items (states sm)) \<subseteq> dom (state_mem sm) \<and>
     defaultFinishState sm \<in> dom (state_mem sm) \<and>
     (\<forall>a s. state_mem sm a = Some s \<longrightarrow> (\<forall>t\<in>set (items (transitions s)). target_ok sm t)) \<and>
     set_option (current sm) \<subseteq> dom (state_mem sm))"

lemma get_state_ok: "c \<in> dom (state_mem sm) \<Longrightarrow> \<exists>st. get_state sm (Some c) = Inr st \<and> state_mem sm c = Some st"
  by (auto simp: get_state_def)

lemma target_okD:
  "target_ok sm t \<Longrightarrow> \<exists>tr d. get_trans sm (Some t) = Inr tr \<and> to tr = Some d \<and> d \<in> dom (state_mem sm)"
  by (auto simp: target_ok_def get_trans_def)

lemma target_ok_cong:
  "trans_mem sm' = trans_mem sm \<Longrightarrow> dom (state_mem sm') = dom (state_mem sm) \<Longrightarrow> target_ok sm' t = target_ok sm t"
  by (simp add: target_ok_def)

text \<open>The loop changes at most the current and the previous state.\<close>

lemma try_ok:
  assumes "sm_wf items sm" "c \<in> dom (state_mem sm)" "\<forall>t\<in>set ts. target_ok sm t"
  shows "\<exists>sm' w' cu pr. try_transitions A sm c ts w = Inr (sm', w') \<and>
    sm' = sm\<lparr>current := cu, previous := pr\<rparr> \<and> set_option cu \<subseteq> dom (state_mem sm)"
  using assms(3)
proof (induction ts arbitrary: w)
  case Nil
  have "sm = sm\<lparr>current := current sm, previous := previous sm\<rparr>" by simp
  moreover have "set_option (current sm) \<subseteq> dom (state_mem sm)" using assms(1) by (simp add: sm_wf_def)
  ultimately show ?case by (metis try_transitions.simps(1))
next
  case (Cons t ts)
  obtain tr d where tr: "get_trans sm (Some t) = Inr tr" "to tr = Some d" "d \<in> dom (state_mem sm)"
    using target_okD [of sm t] Cons.prems by auto
  obtain st where st: "get_state sm (Some c) = Inr st" using get_state_ok [OF assms(2)] by blast
  obtain st' where st': "get_state sm (Some d) = Inr st'" using get_state_ok [OF tr(3)] by blast
  then have st'': "get_state (sm\<lparr>previous := pr, current := cu\<rparr>) (Some d) = Inr st'" for pr cu
    by (simp add: get_state_def)
  obtain b w1 where b: "condition_of A (cond tr) sm w = (b, w1)" by fastforce
  show ?case
  proof (cases "trigger tr \<and> b")
    case True
    let ?sm = "sm\<lparr>current := Some d, previous := Some c\<rparr>"
    have "sm\<lparr>previous := Some c, current := Some d\<rparr> = ?sm" by simp
    then have "\<exists>w'. try_transitions A sm c (t # ts) w = Inr (?sm, w')"
      using tr st st'' b True by simp
    moreover have "set_option (Some d) \<subseteq> dom (state_mem sm)" using tr(3) by simp
    ultimately show ?thesis by blast
  next
    case False
    then have "try_transitions A sm c (t # ts) w = try_transitions A sm c ts (if trigger tr then w1 else w)"
      using tr(1) b by auto
    then show ?thesis using Cons.IH Cons.prems by simp
  qed
qed

lemma sm_wf_move:
  assumes "sm_wf items sm" "set_option cu \<subseteq> dom (state_mem sm)"
  shows "sm_wf items (sm\<lparr>finished := f, started := s, current := cu, previous := pr\<rparr>)"
proof -
  let ?sm = "sm\<lparr>finished := f, started := s, current := cu, previous := pr\<rparr>"
  have "target_ok ?sm t = target_ok sm t" for t by (rule target_ok_cong) simp_all
  then show ?thesis using assms unfolding sm_wf_def by auto
qed

lemma update_active:
  assumes "started sm" "\<not> finished sm" "current sm = Some c" "state_mem sm c = Some st"
    "call A (excution st) c w = (r, w1)"
  shows "aStateMachine_update V A sm w =
    try_transitions A (sm\<lparr>finished := excution st \<noteq> None \<and> r = stateFinish\<rparr>) c
      (map (cvector_at V (transitions st)) [0..<cvector_length V (transitions st)]) w1"
proof -
  let ?ts = "map (cvector_at V (transitions st)) [0..<cvector_length V (transitions st)]"
  have "aStateMachine_update V A sm w = try_transitions A
      (if excution st \<noteq> None \<and> r = stateFinish then aStateMachine_finish sm else sm) c ?ts w1"
    using assms by (simp add: aStateMachine_update_def get_state_def)
  moreover have "(if excution st \<noteq> None \<and> r = stateFinish then aStateMachine_finish sm else sm) =
      sm\<lparr>finished := excution st \<noteq> None \<and> r = stateFinish\<rparr>"
    using assms(2) by (auto simp: aStateMachine_finish_def)
  ultimately show ?thesis by (simp only:)
qed

context cvector
begin

lemma update_ok:
  assumes "sm_wf items sm"
  shows "\<exists>sm' w'. aStateMachine_update V A sm w = Inr (sm', w') \<and> sm_wf items sm'"
proof (cases "started sm \<and> \<not> finished sm \<and> current sm \<noteq> None")
  case True
  then obtain c where c: "started sm" "\<not> finished sm" "current sm = Some c" by auto
  then obtain st where st: "get_state sm (Some c) = Inr st" "state_mem sm c = Some st"
    using assms get_state_ok [of c sm] by (force simp: sm_wf_def)
  obtain r w1 where call: "call A (excution st) c w = (r, w1)" by fastforce
  define sm1 where "sm1 = sm\<lparr>finished := excution st \<noteq> None \<and> r = stateFinish\<rparr>"
  have u: "aStateMachine_update V A sm w = try_transitions A sm1 c (items (transitions st)) w1"
    using update_active [OF c st(2) call, of V] unfolding elements sm1_def .
  have "sm_wf items (sm\<lparr>finished := excution st \<noteq> None \<and> r = stateFinish, started := started sm,
      current := current sm, previous := previous sm\<rparr>)"
    by (rule sm_wf_move [OF assms]) (use assms in \<open>simp add: sm_wf_def\<close>)
  then have wf: "sm_wf items sm1" by (simp add: sm1_def)
  have mem: "state_mem sm1 = state_mem sm" "trans_mem sm1 = trans_mem sm" by (simp_all add: sm1_def)
  have "\<forall>t\<in>set (items (transitions st)). target_ok sm1 t"
    using assms st(2) mem target_ok_cong [of sm1 sm] by (auto simp: sm_wf_def)
  moreover have "c \<in> dom (state_mem sm1)" using st(2) mem by auto
  ultimately obtain sm' w' cu pr where r: "try_transitions A sm1 c (items (transitions st)) w1 = Inr (sm', w')"
    "sm' = sm1\<lparr>current := cu, previous := pr\<rparr>" "set_option cu \<subseteq> dom (state_mem sm1)"
    using try_ok [OF wf, of c "items (transitions st)" A w1] by blast
  have "sm_wf items (sm1\<lparr>finished := finished sm1, started := started sm1, current := cu, previous := pr\<rparr>)"
    using wf r(3) by (rule sm_wf_move)
  then show ?thesis using u r(1,2) by simp
qed (use assms in \<open>auto simp: aStateMachine_update_def\<close>)

lemma init_state_wf:
  assumes "sm_wf items sm" "aState_Init V sm (Some a) nm ex en xt = Inr sm'"
  shows "sm_wf items sm'"
proof -
  have sm': "sm' = sm\<lparr>state_mem := (state_mem sm)(a \<mapsto>
      \<lparr>entry = en, excution = ex, exit = xt, name = nm, transitions = cvector_create V\<rparr>)\<rparr>"
    using assms(2) by (simp add: aState_Init_def)
  have "target_ok sm t \<Longrightarrow> target_ok sm' t" for t by (auto simp: target_ok_def sm')
  note tgt = this
  have "t \<in> set (items (transitions s)) \<Longrightarrow> target_ok sm' t" if "state_mem sm' b = Some s" for b s t
    using that assms(1) tgt by (cases "b = a") (auto simp: sm' sm_wf_def)
  moreover have "set (items (states sm')) \<subseteq> dom (state_mem sm')" "set_option (current sm') \<subseteq> dom (state_mem sm')"
    "defaultFinishState sm' \<in> dom (state_mem sm')"
    using assms(1) by (auto simp: sm' sm_wf_def)
  ultimately show ?thesis unfolding sm_wf_def by blast
qed

lemma machine_Init_wf:
  assumes "state_mem sm = Map.empty" "aStateMachine_Init V sm nm fn = Inr sm'"
  shows "sm_wf items sm' \<and> \<not> started sm' \<and> \<not> finished sm' \<and> trans_mem sm' = trans_mem sm"
  using assms by (auto simp: aStateMachine_Init_def aState_Init_def sm_wf_def Let_def split: if_splits)

lemma addState_wf:
  "sm_wf items sm \<Longrightarrow> a \<in> dom (state_mem sm) \<Longrightarrow> sm_wf items (aStateMachine_addState V sm a)"
  using target_ok_cong [of "aStateMachine_addState V sm a" sm]
  by (auto simp: sm_wf_def aStateMachine_addState_def)

text \<open>A transition is added where the source state is registered; otherwise nothing changes.\<close>

lemma addTransition1_eq:
  assumes "sm_wf items sm"
  shows "aStateMachine_addTransition1 V (Some p) sm (Some a) dest c =
    (if a \<in> set (items (states sm)) then
      Inr (sm\<lparr>trans_mem := (trans_mem sm)(p \<mapsto> \<lparr>trigger = True,
          to = (case dest of None \<Rightarrow> Some (defaultFinishState sm) | Some d \<Rightarrow> Some d), cond = c\<rparr>),
        state_mem := (state_mem sm)(a \<mapsto> the (state_mem sm a)\<lparr>transitions :=
          cvector_pushback V (transitions (the (state_mem sm a))) p\<rparr>)\<rparr>)
     else Inr sm)"
proof -
  have find: "List.find (\<lambda>x. Some x = Some a) xs = (if a \<in> set xs then Some a else None)" for xs
    by (induction xs) auto
  show ?thesis
  proof (cases "a \<in> set (items (states sm))")
    case True
    then obtain st where "state_mem sm a = Some st" using assms by (auto simp: sm_wf_def)
    then show ?thesis
      using True unfolding aStateMachine_addTransition1_def elements find
      by (simp add: transition_Init_def aState_addTransition_def get_state_def Let_def)
  next
    case False
    then show ?thesis unfolding aStateMachine_addTransition1_def elements find by (simp add: Let_def)
  qed
qed

lemma addTransition1_wf:
  assumes "sm_wf items sm" "p \<notin> dom (trans_mem sm)" "set_option dest \<subseteq> dom (state_mem sm)"
    "aStateMachine_addTransition1 V (Some p) sm (Some a) dest c = Inr sm'"
  shows "sm_wf items sm'"
proof (cases "a \<in> set (items (states sm))")
  case True
  let ?dest = "case dest of None \<Rightarrow> Some (defaultFinishState sm) | Some d \<Rightarrow> Some d"
  let ?st = "the (state_mem sm a)"
  have sm': "sm' = sm\<lparr>trans_mem := (trans_mem sm)(p \<mapsto> \<lparr>trigger = True, to = ?dest, cond = c\<rparr>),
      state_mem := (state_mem sm)(a \<mapsto> ?st\<lparr>transitions := cvector_pushback V (transitions ?st) p\<rparr>)\<rparr>"
    using assms(4) True addTransition1_eq [OF assms(1)] by simp
  have a: "state_mem sm a = Some ?st" using assms(1) True by (auto simp: sm_wf_def)
  have "target_ok sm t \<Longrightarrow> t \<noteq> p \<and> target_ok sm' t" for t
    using assms(2) by (auto simp: target_ok_def sm')
  moreover have "target_ok sm' p"
    using assms(1,3) by (cases dest) (auto simp: target_ok_def sm' sm_wf_def)
  ultimately show ?thesis
    using assms(1) a unfolding sm_wf_def sm' by (auto split: if_splits)
next
  case False
  then show ?thesis using assms addTransition1_eq [OF assms(1)] by simp
qed

lemma start_wf:
  assumes "sm_wf items sm" "a \<in> dom (state_mem sm)" "aStateMachine_start A sm (Some a) w = Inr (sm', w')"
  shows "sm_wf items sm'"
proof (cases "started sm")
  case False
  have "sm' = sm\<lparr>finished := finished sm, started := True, current := Some a, previous := None\<rparr>"
    using assms(3) False by (auto simp: aStateMachine_start_def Let_def)
  then show ?thesis
    using sm_wf_move [OF assms(1), where cu = "Some a" and f = "finished sm" and s = True and pr = None] assms(2) by simp
qed (use assms in \<open>simp add: aStateMachine_start_def\<close>)

lemma restart_wf:
  assumes "sm_wf items sm" "a \<in> dom (state_mem sm)" "aStateMachine_restart A sm (Some a) w = Inr (sm', w')"
  shows "sm_wf items sm'"
proof -
  have "sm' = sm\<lparr>finished := False, started := False, current := Some a, previous := None\<rparr>"
    using assms(3) by (auto simp: aStateMachine_restart_def Let_def)
  then show ?thesis
    using sm_wf_move [OF assms(1), where cu = "Some a" and f = False and s = False and pr = None] assms(2) by simp
qed

end

section \<open>Histories\<close>

text \<open>
  What an application does with a machine: it initialises states, registers them, adds transitions
  (with memory that is not in use) and starts, restarts and updates.
\<close>

inductive sm_step ::
  "'v vec_ops \<Rightarrow> ('v, 'w) app \<Rightarrow> 'v aStateMachine \<times> 'w \<Rightarrow> 'v aStateMachine \<times> 'w \<Rightarrow> bool" for V A where
  new_state: "aState_Init V sm (Some a) nm ex en xt = Inr sm' \<Longrightarrow> sm_step V A (sm, w) (sm', w)"
| add_state: "a \<in> dom (state_mem sm) \<Longrightarrow> sm_step V A (sm, w) (aStateMachine_addState V sm a, w)"
| add_transition: "p \<notin> dom (trans_mem sm) \<Longrightarrow> set_option dest \<subseteq> dom (state_mem sm) \<Longrightarrow>
    aStateMachine_addTransition1 V (Some p) sm (Some a) dest c = Inr sm' \<Longrightarrow> sm_step V A (sm, w) (sm', w)"
| start: "a \<in> dom (state_mem sm) \<Longrightarrow> aStateMachine_start A sm (Some a) w = Inr (sm', w') \<Longrightarrow>
    sm_step V A (sm, w) (sm', w')"
| restart: "a \<in> dom (state_mem sm) \<Longrightarrow> aStateMachine_restart A sm (Some a) w = Inr (sm', w') \<Longrightarrow>
    sm_step V A (sm, w) (sm', w')"
| update: "aStateMachine_update V A sm w = Inr (sm', w') \<Longrightarrow> sm_step V A (sm, w) (sm', w')"

context cvector
begin

lemma step_wf: "sm_step V A s s' \<Longrightarrow> sm_wf items (fst s) \<Longrightarrow> sm_wf items (fst s')"
proof (induction rule: sm_step.induct)
  case (update sm w sm' w')
  then show ?case using update_ok [of sm A w] by auto
qed (auto intro: init_state_wf addState_wf addTransition1_wf start_wf restart_wf)

lemma steps_wf: "(sm_step V A)\<^sup>*\<^sup>* s s' \<Longrightarrow> sm_wf items (fst s) \<Longrightarrow> sm_wf items (fst s')"
  by (induction rule: rtranclp_induct) (auto intro: step_wf)

end

lemma steps_safe:
  assumes "vec_laws V items" "sm_wf items sm0" "(sm_step V A)\<^sup>*\<^sup>* (sm0, w0) (sm, w)"
  shows "sm_wf items sm"
  using cvector.steps_wf [OF cvector.intro [OF assms(1)] assms(3)] assms(2) by simp

section \<open>What the machine promises\<close>

text \<open>The conditions before the transition that is taken, evaluated in order; \<open>None\<close> if one holds.\<close>

fun skip_all :: "('v, 'w) app \<Rightarrow> 'v aStateMachine \<Rightarrow> nat list \<Rightarrow> 'w \<Rightarrow> 'w option" where
  "skip_all A sm [] w = Some w"
| "skip_all A sm (t # ts) w = (case trans_mem sm t of None \<Rightarrow> None | Some tr \<Rightarrow>
     if trigger tr then
       (case condition_of A (cond tr) sm w of (b, w') \<Rightarrow> if b then None else skip_all A sm ts w')
     else skip_all A sm ts w)"

lemma try_skip:
  "skip_all A sm ts w = Some w' \<Longrightarrow> try_transitions A sm c (ts @ us) w = try_transitions A sm c us w'"
  by (induction ts arbitrary: w) (auto simp: get_trans_def split: option.splits if_splits prod.splits)

text \<open>
  After any history of initialising and registering states, adding transitions, starting,
  restarting and updating, the next update never follows a bad pointer.
\<close>

theorem machine_never_faults:
  assumes "vec_laws V items" "state_mem sm0 = Map.empty" "aStateMachine_Init V sm0 nm fn = Inr sm1"
    "(sm_step V A)\<^sup>*\<^sup>* (sm1, w0) (sm, w)"
  shows "\<exists>sm' w'. aStateMachine_update V A sm w = Inr (sm', w') \<and> sm_step V A (sm, w) (sm', w')"
proof -
  note cv = cvector.intro [OF assms(1)]
  have "sm_wf items sm1" using cvector.machine_Init_wf [OF cv assms(2,3)] by simp
  then have "sm_wf items sm" using steps_safe [OF assms(1) _ assms(4)] by simp
  then show ?thesis using cvector.update_ok [OF cv, of sm A w] sm_step.update by fastforce
qed

text \<open>
  C26: an update of a running machine calls the action of the current state, evaluates the conditions
  of its triggered transitions in the order they were added until one holds, leaves the state
  through its exit callback and enters the target through its entry callback; later conditions are
  not evaluated.
\<close>

theorem update_takes_first_enabled:
  assumes "vec_laws V items" "started sm" "\<not> finished sm" "current sm = Some c" "state_mem sm c = Some st"
    "items (transitions st) = pre @ t # post"
    "call A (excution st) c w = (r, w1)"
    "sm1 = sm\<lparr>finished := excution st \<noteq> None \<and> r = stateFinish\<rparr>"
    "skip_all A sm1 pre w1 = Some w2" "trans_mem sm t = Some tr" "trigger tr"
    "condition_of A (cond tr) sm1 w2 = (True, w3)" "to tr = Some d" "state_mem sm d = Some st'"
  shows "aStateMachine_update V A sm w =
    Inr (sm1\<lparr>previous := Some c, current := Some d\<rparr>, snd (call A (entry st') d (snd (call A (exit st) c w3))))"
proof -
  note cv = cvector.intro [OF assms(1)]
  have mem: "state_mem sm1 = state_mem sm" "trans_mem sm1 = trans_mem sm" by (simp_all add: assms(8))
  have "aStateMachine_update V A sm w = try_transitions A sm1 c (pre @ t # post) w1"
    using update_active [OF assms(2-5,7), of V] unfolding cvector.elements [OF cv] assms(6,8) .
  also have "\<dots> = try_transitions A sm1 c (t # post) w2" by (rule try_skip [OF assms(9)])
  finally show ?thesis
    using assms(5,10-14) mem by (simp add: get_trans_def get_state_def)
qed

text \<open>A machine with two states: state 1 goes to state 2 when condition 7 holds; callbacks log their number.\<close>

definition demo_app :: "(nat list, nat list) app" where
  "demo_app = \<lparr>callback = (\<lambda>f s w. (0, w @ [f])), condition_of = (\<lambda>c sm w. (c = 7, w @ [c]))\<rparr>"

definition demo :: "nat list aStateMachine" where
  "demo = \<lparr>sm_name = 0, states = [1, 2], current = Some 1, previous = None, started = True, finished = False,
     defaultFinishState = 9,
     state_mem = [1 \<mapsto> \<lparr>entry = Some 10, excution = Some 11, exit = Some 12, name = 0, transitions = [5, 6]\<rparr>,
       2 \<mapsto> \<lparr>entry = Some 20, excution = None, exit = None, name = 0, transitions = []\<rparr>],
     trans_mem = [5 \<mapsto> \<lparr>trigger = True, to = Some 1, cond = 3\<rparr>, 6 \<mapsto> \<lparr>trigger = True, to = Some 2, cond = 7\<rparr>]\<rparr>"

theorem update_takes_first_enabled_witness:
  "aStateMachine_update list_vec demo_app demo [] =
     Inr (demo\<lparr>previous := Some 1, current := Some 2\<rparr>, [11, 3, 7, 12, 20])"
  using update_takes_first_enabled [where V = list_vec and items = "\<lambda>v. v" and sm = demo and c = 1 and
    st = "the (state_mem demo 1)" and pre = "[5]" and t = 6 and post = "[]" and A = demo_app and w = "[]" and
    r = 0 and ?w1.0 = "[11]" and ?sm1.0 = demo and ?w2.0 = "[11, 3]" and tr = "the (trans_mem demo 6)" and
    ?w3.0 = "[11, 3, 7]" and d = 2 and st' = "the (state_mem demo 2)"]
  by (simp add: list_vec.laws demo_def demo_app_def call_def stateFinish_def)

text \<open>The machine of an empty memory, initialised.\<close>

definition fresh_machine :: "nat list aStateMachine" where
  "fresh_machine = \<lparr>sm_name = 0, states = [], current = None, previous = None, started = False, finished = False,
     defaultFinishState = 9, state_mem = Map.empty, trans_mem = Map.empty\<rparr>"

theorem machine_never_faults_witness:
  "\<exists>sm1 sm' w'. aStateMachine_Init list_vec fresh_machine 1 2 = Inr sm1 \<and>
     aStateMachine_update list_vec demo_app sm1 [] = Inr (sm', w')"
proof -
  obtain sm1 where sm1: "aStateMachine_Init list_vec fresh_machine 1 2 = Inr sm1"
    by (simp add: aStateMachine_Init_def aState_Init_def Let_def)
  have "(sm_step list_vec demo_app)\<^sup>*\<^sup>* (sm1, []) (sm1, [])" by simp
  from machine_never_faults [OF list_vec.laws _ sm1 this] sm1 show ?thesis by (auto simp: fresh_machine_def)
qed

text \<open>
  A machine that was restarted is not running: \<open>aStateMachine_restart\<close> clears \<open>started\<close>, and every
  update until the next start does nothing, the restarted state's action included.
\<close>

theorem restarted_machine_is_dead:
  assumes "aStateMachine_restart A sm s w = Inr (sm', w')"
  shows "aStateMachine_update V A sm' w'' = Inr (sm', w'') \<and> current sm' = s \<and> \<not> started sm'"
  using assms by (auto simp: aStateMachine_restart_def aStateMachine_update_def Let_def)

theorem restarted_machine_is_dead_witness:
  "aStateMachine_update list_vec demo_app (demo\<lparr>started := False\<rparr>) [5] = Inr (demo\<lparr>started := False\<rparr>, [5])"
  using restarted_machine_is_dead [of demo_app demo "Some 1" "[]" "demo\<lparr>started := False\<rparr>" "[10]" list_vec "[5]"]
  by (simp add: aStateMachine_restart_def get_state_def demo_def demo_app_def call_def)

text \<open>
  A transition added by names connects the first registered states with these names (compared
  as pointers); it is appended to the source's transitions, and a target name that is not
  registered stands for the machine's own finish state.
\<close>

theorem add_transition_by_names:
  assumes "vec_laws V items" "sm_wf items sm"
    "List.find (\<lambda>a. name (the (state_mem sm a)) = n1) (items (states sm)) = Some a"
    "d = (case List.find (\<lambda>a. name (the (state_mem sm a)) = n2) (items (states sm)) of
      None \<Rightarrow> defaultFinishState sm | Some b \<Rightarrow> b)"
  shows "\<exists>sm'. aStateMachine_addTransition2 V (Some p) sm n1 n2 c = Inr sm' \<and>
    trans_mem sm' = (trans_mem sm)(p \<mapsto> \<lparr>trigger = True, to = Some d, cond = c\<rparr>) \<and>
    items (transitions (the (state_mem sm' a))) = items (transitions (the (state_mem sm a))) @ [p]"
proof -
  note cv = cvector.intro [OF assms(1)]
  have find: "set as \<subseteq> dom (state_mem sm) \<Longrightarrow>
      find_name sm as n = Inr (List.find (\<lambda>a. name (the (state_mem sm a)) = n) as)" for as n
    by (induction as) (auto simp: aState_getName_def get_state_def)
  have conv: "aStateMachine_convert_state V sm n =
      Inr (List.find (\<lambda>a. name (the (state_mem sm a)) = n) (items (states sm)))" for n
    unfolding aStateMachine_convert_state_def cvector.elements [OF cv]
    using assms(2) by (intro find) (simp add: sm_wf_def)
  have "a \<in> set (items (states sm))" using assms(3) by (auto simp: find_Some_iff)
  then show ?thesis
    unfolding aStateMachine_addTransition2_def conv cbind.simps assms(3) cvector.addTransition1_eq [OF cv assms(2)]
    using assms(4) by (auto simp: cvector.ops [OF cv] split: option.splits)
qed

theorem add_transition_by_names_witness:
  "\<exists>sm'. aStateMachine_addTransition2 list_vec (Some 8) (demo\<lparr>state_mem := (state_mem demo)(9 \<mapsto>
     \<lparr>entry = None, excution = None, exit = None, name = 4, transitions = []\<rparr>)\<rparr>) 0 3 7 = Inr sm' \<and>
   trans_mem sm' 8 = Some \<lparr>trigger = True, to = Some 9, cond = 7\<rparr>"
proof -
  let ?sm = "demo\<lparr>state_mem := (state_mem demo)(9 \<mapsto>
     \<lparr>entry = None, excution = None, exit = None, name = 4, transitions = []\<rparr>)\<rparr>"
  have "sm_wf (\<lambda>v. v) ?sm" by (auto simp: sm_wf_def demo_def target_ok_def split: if_splits)
  from add_transition_by_names [OF list_vec.laws this, of 0 1 9 3 8 7] show ?thesis
    by (auto simp: demo_def)
qed

end
