(* ===== verification/Floats.thy ===== *)
theory Floats
  imports Prelude Complex_Main
begin

text \<open>
  The floating point arithmetic of the firmware: binary32 (\<^verbatim>\<open>float\<close>) and binary64 (\<^verbatim>\<open>double\<close>) with
  rounding to nearest, ties to even, gradual underflow and overflow to the infinities. A finite
  float is the real number it denotes, so the two zeros are one value; no code modelled here
  looks at the sign of a zero.
\<close>

section \<open>Rounding\<close>

text \<open>The binary exponent of a positive number: \<open>2 ^ expo q \<le> q < 2 ^ (expo q + 1)\<close>.\<close>

function expo_up :: "real \<Rightarrow> nat" where
  "expo_up q = (if q < 2 then 0 else Suc (expo_up (q / 2)))"
  by auto
termination
proof (relation "measure (\<lambda>q. nat \<lfloor>q\<rfloor>)")
  fix q :: real assume "\<not> q < 2"
  then show "(q / 2, q) \<in> measure (\<lambda>q. nat \<lfloor>q\<rfloor>)" by simp linarith
qed simp

function expo_down :: "real \<Rightarrow> nat" where
  "expo_down q = (if q \<le> 0 \<or> 1 \<le> q then 0 else Suc (expo_down (2 * q)))"
  by auto
termination
proof (relation "measure (\<lambda>q. nat \<lfloor>1 / q\<rfloor>)")
  fix q :: real assume q: "\<not> (q \<le> 0 \<or> 1 \<le> q)"
  then have "1 < 1 / q" by simp
  moreover have "2 * \<lfloor>(1 / q) / 2\<rfloor> \<le> \<lfloor>1 / q\<rfloor>" by (simp add: le_floor_iff) linarith
  ultimately have "\<lfloor>(1 / q) / 2\<rfloor> < \<lfloor>1 / q\<rfloor>" "1 \<le> \<lfloor>1 / q\<rfloor>" by linarith+
  moreover have "1 / (2 * q) = (1 / q) / 2" by simp
  ultimately show "(2 * q, q) \<in> measure (\<lambda>q. nat \<lfloor>1 / q\<rfloor>)" by (simp only: in_measure)
qed simp

declare expo_up.simps [simp del] expo_down.simps [simp del]

definition expo :: "real \<Rightarrow> int" where
  "expo q = (if 1 \<le> q then int (expo_up q) else - int (expo_down q))"

text \<open>The nearest integer; the even one of two.\<close>

definition nearest :: "real \<Rightarrow> int" where
  "nearest q = (let f = \<lfloor>q\<rfloor>; r = q - of_int f
                in if r < 1 / 2 \<or> (r = 1 / 2 \<and> even f) then f else f + 1)"

text \<open>Precision \<open>p\<close> bits, smallest normal exponent \<open>emin\<close>; the spacing of the floats near \<open>q\<close>.\<close>

definition spacing :: "nat \<Rightarrow> int \<Rightarrow> real \<Rightarrow> real" where
  "spacing p emin q = 2 powi (max (expo \<bar>q\<bar>) emin - int p + 1)"

definition rnd :: "nat \<Rightarrow> int \<Rightarrow> real \<Rightarrow> real" where
  "rnd p emin q = of_int (nearest (q / spacing p emin q)) * spacing p emin q"

section \<open>Values\<close>

datatype fl = Fin real | Inf bool | NaN

text \<open>\<open>Inf True\<close> is the negative infinity.\<close>

definition f32 :: "real \<Rightarrow> fl" where
  "f32 q = (let r = rnd 24 (- 126) q in if \<bar>r\<bar> < 2 ^ 128 then Fin r else Inf (r < 0))"

definition f64 :: "real \<Rightarrow> fl" where
  "f64 q = (let r = rnd 53 (- 1022) q in if \<bar>r\<bar> < 2 ^ 1024 then Fin r else Inf (r < 0))"

text \<open>The operations, for the rounding \<open>fmt\<close> of the result type.\<close>

fun fmul :: "(real \<Rightarrow> fl) \<Rightarrow> fl \<Rightarrow> fl \<Rightarrow> fl" where
  "fmul fmt (Fin a) (Fin b) = fmt (a * b)"
| "fmul fmt (Inf s) (Inf t) = Inf (s \<noteq> t)"
| "fmul fmt (Inf s) (Fin b) = (if b = 0 then NaN else Inf (s \<noteq> (b < 0)))"
| "fmul fmt (Fin a) (Inf t) = (if a = 0 then NaN else Inf ((a < 0) \<noteq> t))"
| "fmul fmt _ _ = NaN"

fun fneg :: "fl \<Rightarrow> fl" where
  "fneg (Fin a) = Fin (- a)"
| "fneg (Inf s) = Inf (\<not> s)"
| "fneg NaN = NaN"

fun fadd :: "(real \<Rightarrow> fl) \<Rightarrow> fl \<Rightarrow> fl \<Rightarrow> fl" where
  "fadd fmt (Fin a) (Fin b) = fmt (a + b)"
| "fadd fmt (Inf s) (Inf t) = (if s = t then Inf s else NaN)"
| "fadd fmt (Inf s) (Fin b) = Inf s"
| "fadd fmt (Fin a) (Inf t) = Inf t"
| "fadd fmt _ _ = NaN"

definition fsub :: "(real \<Rightarrow> fl) \<Rightarrow> fl \<Rightarrow> fl \<Rightarrow> fl" where
  "fsub fmt a b = fadd fmt a (fneg b)"

text \<open>Division of a nonzero number by zero gives an infinity of the sign of the number.\<close>

fun fdiv :: "(real \<Rightarrow> fl) \<Rightarrow> fl \<Rightarrow> fl \<Rightarrow> fl" where
  "fdiv fmt (Fin a) (Fin b) = (if b = 0 then (if a = 0 then NaN else Inf (a < 0)) else fmt (a / b))"
| "fdiv fmt (Inf s) (Fin b) = Inf (s \<noteq> (b < 0))"
| "fdiv fmt (Fin a) (Inf t) = Fin 0"
| "fdiv fmt _ _ = NaN"

fun fabsf :: "fl \<Rightarrow> fl" where
  "fabsf (Fin a) = Fin \<bar>a\<bar>"
| "fabsf (Inf s) = Inf False"
| "fabsf NaN = NaN"

text \<open>Comparisons; every comparison with a NaN is false.\<close>

fun flt :: "fl \<Rightarrow> fl \<Rightarrow> bool" where
  "flt (Fin a) (Fin b) = (a < b)"
| "flt (Fin a) (Inf t) = (\<not> t)"
| "flt (Inf s) (Fin b) = s"
| "flt (Inf s) (Inf t) = (s \<and> \<not> t)"
| "flt _ _ = False"

fun fle :: "fl \<Rightarrow> fl \<Rightarrow> bool" where
  "fle (Fin a) (Fin b) = (a \<le> b)"
| "fle (Fin a) (Inf t) = (\<not> t)"
| "fle (Inf s) (Fin b) = s"
| "fle (Inf s) (Inf t) = (s \<or> \<not> t)"
| "fle _ _ = False"

text \<open>A \<^verbatim>\<open>double\<close> stored in a \<^verbatim>\<open>float\<close>.\<close>

fun to_f32 :: "fl \<Rightarrow> fl" where
  "to_f32 (Fin a) = f32 a"
| "to_f32 x = x"

text \<open>A cast to an integer type drops the fraction; a value the type cannot hold is undefined.\<close>

definition trunc :: "real \<Rightarrow> int" where
  "trunc q = (if 0 \<le> q then \<lfloor>q\<rfloor> else - \<lfloor>- q\<rfloor>)"

fun fcast :: "int \<Rightarrow> int \<Rightarrow> fl \<Rightarrow> int cres" where
  "fcast lo hi (Fin a) = (if lo \<le> trunc a \<and> trunc a \<le> hi then Inr (trunc a) else Inl BadCast)"
| "fcast lo hi _ = Inl BadCast"

definition to_int16 :: "fl \<Rightarrow> int cres" where "to_int16 = fcast (- (2 ^ 15)) (2 ^ 15 - 1)"
definition to_uint16 :: "fl \<Rightarrow> int cres" where "to_uint16 = fcast 0 (2 ^ 16 - 1)"
definition to_int32 :: "fl \<Rightarrow> int cres" where "to_int32 = fcast (- (2 ^ 31)) (2 ^ 31 - 1)"
definition to_uint32 :: "fl \<Rightarrow> int cres" where "to_uint32 = fcast 0 (2 ^ 32 - 1)"

section \<open>Facts about rounding\<close>

lemma expo_up_bounds: "1 \<le> q \<Longrightarrow> 2 ^ expo_up q \<le> q \<and> q < 2 ^ Suc (expo_up q)"
proof (induction q rule: expo_up.induct)
  case (1 q)
  show ?case
  proof (cases "q < 2")
    case False
    then show ?thesis using 1 by (subst (1 2) expo_up.simps) simp
  qed (use 1 in \<open>simp add: expo_up.simps\<close>)
qed

lemma expo_down_bounds: "0 < q \<Longrightarrow> q < 1 \<Longrightarrow> 1 \<le> 2 ^ expo_down q * q \<and> 2 ^ expo_down q * q < 2"
proof (induction q rule: expo_down.induct)
  case (1 q)
  show ?case
  proof (cases "2 * q < 1")
    case True
    then have "1 \<le> 2 ^ expo_down (2 * q) * (2 * q) \<and> 2 ^ expo_down (2 * q) * (2 * q) < 2"
      using 1 by simp
    then show ?thesis using 1 True by (subst (1 2) expo_down.simps) (simp add: mult.assoc)
  next
    case False
    then show ?thesis using "1.prems" by (simp add: expo_down.simps)
  qed
qed

lemma expo_bounds:
  assumes "0 < q" shows "2 powi expo q \<le> q" "q < 2 powi (expo q + 1)"
proof -
  have *: "2 powi expo q \<le> q \<and> q < 2 * 2 powi expo q"
  proof (cases "1 \<le> q")
    case True
    then show ?thesis using expo_up_bounds [of q] by (simp add: expo_def)
  next
    case False
    then show ?thesis using expo_down_bounds [of q] assms
      by (simp add: expo_def power_int_minus divide_simps mult.commute)
  qed
  then show "2 powi expo q \<le> q" "q < 2 powi (expo q + 1)" by (simp_all add: power_int_add)
qed

lemma expo_unique:
  assumes "0 < q" "2 powi e \<le> q" "q < 2 powi (e + 1)"
  shows "expo q = e"
proof -
  have "(2::real) powi e < 2 powi (expo q + 1)" "(2::real) powi expo q < 2 powi (e + 1)"
    using expo_bounds [OF assms(1)] assms by linarith+
  then have "e < expo q + 1" "expo q < e + 1"
    by (meson not_le one_le_numeral power_int_increasing linorder_not_less)+
  then show ?thesis by simp
qed

lemma expo_mono: "0 < a \<Longrightarrow> a \<le> b \<Longrightarrow> expo a \<le> expo b"
proof -
  assume "0 < a" "a \<le> b"
  then have "(2::real) powi expo a < 2 powi (expo b + 1)"
    using expo_bounds(1) [of a] expo_bounds(2) [of b] by linarith
  then have "expo a < expo b + 1"
    by (meson linorder_not_less one_le_numeral power_int_increasing)
  then show ?thesis by simp
qed

lemma nearest_bounds: "\<bar>of_int (nearest q) - q\<bar> \<le> 1 / 2"
  unfolding nearest_def Let_def by (auto simp: abs_le_iff)

lemma nearest_of_int [simp]: "nearest (of_int n) = n"
  by (simp add: nearest_def)

lemma nearest_mono: "a \<le> b \<Longrightarrow> nearest a \<le> nearest b"
proof -
  assume ab: "a \<le> b"
  show ?thesis
  proof (cases "\<lfloor>a\<rfloor> = \<lfloor>b\<rfloor>")
    case True
    then show ?thesis using ab by (auto simp: nearest_def Let_def)
  next
    case False
    then have "\<lfloor>a\<rfloor> + 1 \<le> \<lfloor>b\<rfloor>" using ab floor_mono [of a b] by linarith
    moreover have "nearest a \<le> \<lfloor>a\<rfloor> + 1" "\<lfloor>b\<rfloor> \<le> nearest b" by (auto simp: nearest_def Let_def)
    ultimately show ?thesis by linarith
  qed
qed

lemma nearest_minus: "nearest (- q) = - nearest q"
proof (cases "q = of_int \<lfloor>q\<rfloor>")
  case True
  then show ?thesis by (metis nearest_of_int of_int_minus)
next
  case False
  then have "\<lfloor>- q\<rfloor> = - \<lfloor>q\<rfloor> - 1" by linarith
  then show ?thesis by (auto simp: nearest_def Let_def)
qed

lemma spacing_pos [simp]: "0 < spacing p emin q" "spacing p emin q \<noteq> 0"
  by (simp_all add: spacing_def)

lemma spacing_minus [simp]: "spacing p emin (- q) = spacing p emin q"
  by (simp add: spacing_def)

lemma rnd_zero [simp]: "rnd p emin 0 = 0"
  by (simp add: rnd_def nearest_def)

lemma rnd_minus [simp]: "rnd p emin (- q) = - rnd p emin q"
  by (simp add: rnd_def nearest_minus)

lemma rnd_error: "\<bar>rnd p emin q - q\<bar> \<le> spacing p emin q / 2"
proof -
  let ?s = "spacing p emin q"
  have "rnd p emin q - q = (of_int (nearest (q / ?s)) - q / ?s) * ?s"
    by (simp add: rnd_def left_diff_distrib)
  then have "\<bar>rnd p emin q - q\<bar> = \<bar>of_int (nearest (q / ?s)) - q / ?s\<bar> * ?s"
    by (simp add: abs_mult less_imp_le)
  also have "\<dots> \<le> 1 / 2 * ?s"
    by (rule mult_right_mono [OF nearest_bounds]) (simp add: less_imp_le)
  finally show ?thesis by simp
qed

text \<open>The numbers with at most \<open>p\<close> significant bits are floats.\<close>

lemma powi_less: "(2::real) powi a < 2 powi b \<Longrightarrow> a < b"
  by (meson linorder_not_less one_le_numeral power_int_increasing)

lemma rnd_exact:
  assumes "\<bar>m\<bar> < 2 ^ p" "emin - int p + 1 \<le> k"
  shows "rnd p emin (of_int m * 2 powi k) = of_int m * 2 powi k"
proof (cases "m = 0")
  case False
  let ?q = "of_int m * 2 powi k :: real"
  define s where "s = max (expo \<bar>?q\<bar>) emin - int p + 1"
  have sp: "spacing p emin ?q = 2 powi s" by (simp add: spacing_def s_def)
  have pos: "0 < \<bar>?q\<bar>" using False by simp
  have "\<bar>?q\<bar> < 2 ^ p * 2 powi k"
    using assms(1) by (simp add: abs_mult) (metis of_int_abs of_int_less_iff of_int_numeral of_int_power)
  also have "\<dots> = 2 powi (k + int p)" by (simp add: power_int_add)
  finally have "2 powi expo \<bar>?q\<bar> < (2::real) powi (k + int p)" using expo_bounds(1) [OF pos] by linarith
  then have "s \<le> k" using powi_less assms(2) unfolding s_def by fastforce
  then obtain j where j: "k = s + int j" using zle_iff_zadd by blast
  have kj: "(2::real) powi k = 2 ^ j * 2 powi s" unfolding j by (simp add: power_int_add)
  have "?q / 2 powi s = of_int (m * 2 ^ j)" unfolding kj by simp
  then have "nearest (?q / 2 powi s) = m * 2 ^ j" by (simp only: nearest_of_int)
  then have "rnd p emin ?q = of_int (m * 2 ^ j) * 2 powi s" by (simp add: rnd_def sp)
  also have "\<dots> = ?q" unfolding kj by simp
  finally show ?thesis .
qed simp

lemma rnd_of_int: "\<bar>n\<bar> < 2 ^ p \<Longrightarrow> emin < int p \<Longrightarrow> rnd p emin (of_int n) = of_int n"
  using rnd_exact [of n p emin 0] by simp

lemma rnd_numeral [simp]: "(numeral n :: int) < 2 ^ p \<Longrightarrow> emin < int p \<Longrightarrow> rnd p emin (numeral n) = numeral n"
  using rnd_of_int [of "numeral n" p emin] by simp

lemma rnd_one [simp]: "0 < p \<Longrightarrow> emin < int p \<Longrightarrow> rnd p emin 1 = 1"
  using rnd_of_int [of 1 p emin] by simp

lemma rnd_nonneg: "0 \<le> q \<Longrightarrow> 0 \<le> rnd p emin q"
  using nearest_mono [of 0 "q / spacing p emin q"] nearest_of_int [of 0]
  by (simp add: rnd_def less_imp_le)

lemma rnd_mono_pos:
  assumes "0 < p" "0 < a" "a \<le> b"
  shows "rnd p emin a \<le> rnd p emin b"
proof (cases "max (expo a) emin = max (expo b) emin")
  case True
  then have "spacing p emin a = spacing p emin b" using assms by (simp add: spacing_def)
  then show ?thesis using nearest_mono [of "a / spacing p emin b" "b / spacing p emin b"] assms
    by (simp add: rnd_def divide_right_mono less_imp_le)
next
  case False
  have e: "expo a \<le> expo b" using expo_mono assms by blast
  let ?E = "max (expo a) emin"
  have E: "?E < expo b" "max (expo b) emin = expo b" using False e by linarith+
  have sa: "spacing p emin a = 2 powi (?E - int p + 1)" and sb: "spacing p emin b = 2 powi (expo b - int p + 1)"
    using assms E by (simp_all add: spacing_def)
  have "a < 2 powi (expo a + 1)" using expo_bounds(2) [OF assms(2)] .
  also have "\<dots> \<le> 2 powi (?E + 1)" by (rule power_int_increasing) simp_all
  finally have "a / spacing p emin a \<le> of_int (2 ^ p)"
    unfolding sa by (simp add: power_int_add power_int_diff field_simps less_imp_le)
  from nearest_mono [OF this] have "nearest (a / spacing p emin a) \<le> 2 ^ p" by (simp only: nearest_of_int)
  then have "rnd p emin a \<le> of_int (2 ^ p) * spacing p emin a"
    unfolding rnd_def by (intro mult_right_mono) (simp_all only: of_int_le_iff, simp add: less_imp_le)
  also have "\<dots> = 2 powi (?E + 1)" unfolding sa by (simp add: power_int_add power_int_diff)
  also have "\<dots> \<le> 2 powi expo b" using E(1) by (intro power_int_increasing) (linarith, simp)
  also have "\<dots> \<le> rnd p emin b"
  proof (cases p)
    case 0
    then show ?thesis using assms(1) by simp
  next
    case (Suc p')
    have "2 powi expo b \<le> b" using expo_bounds(1) [of b] assms by simp
    then have "of_int (2 ^ p') \<le> b / spacing p emin b"
      unfolding sb unfolding Suc by (simp add: power_int_add power_int_diff field_simps)
    from nearest_mono [OF this] have "2 ^ p' \<le> nearest (b / spacing p emin b)" by (simp only: nearest_of_int)
    then have "of_int (2 ^ p') * spacing p emin b \<le> rnd p emin b"
      unfolding rnd_def by (intro mult_right_mono) (simp_all only: of_int_le_iff, simp add: less_imp_le)
    moreover have "of_int (2 ^ p') * spacing p emin b = 2 powi expo b"
      unfolding sb unfolding Suc by (simp add: power_int_add power_int_diff)
    ultimately show ?thesis by simp
  qed
  finally show ?thesis .
qed

lemma rnd_mono: "0 < p \<Longrightarrow> a \<le> b \<Longrightarrow> rnd p emin a \<le> rnd p emin b"
proof -
  assume p: "0 < p" and ab: "a \<le> b"
  consider "0 < a" | "a \<le> 0" "0 \<le> b" | "b < 0" by linarith
  then show ?thesis
  proof cases
    case 2
    then show ?thesis using rnd_nonneg [of b p emin] rnd_nonneg [of "- a" p emin] by simp
  next
    case 3
    then show ?thesis using rnd_mono_pos [of p "- b" "- a" emin] p ab by simp
  qed (simp add: rnd_mono_pos p ab)
qed

text \<open>Rounding stays within bounds that are floats.\<close>

lemma rnd_bound:
  assumes "0 < p" "\<bar>q\<bar> \<le> of_int n" "n < 2 ^ p" "emin < int p"
  shows "\<bar>rnd p emin q\<bar> \<le> of_int n"
proof -
  have "0 \<le> n" using assms(2) by (metis abs_ge_zero of_int_0_le_iff order_trans)
  then have "rnd p emin (of_int n) = of_int n" using assms by (intro rnd_of_int) simp_all
  then show ?thesis
    using rnd_mono [OF assms(1), of q "of_int n" emin] rnd_mono [OF assms(1), of "- of_int n" q emin] assms(2)
    by (simp add: abs_le_iff)
qed

lemma f32_bounded:
  assumes "\<bar>q\<bar> \<le> of_int n" "n < 2 ^ 24"
  obtains r where "f32 q = Fin r" "\<bar>r\<bar> \<le> of_int n" "r = rnd 24 (- 126) q"
proof -
  have "\<bar>rnd 24 (- 126) q\<bar> \<le> of_int n" using rnd_bound [of 24 q n "- 126"] assms by simp
  moreover have "(of_int n :: real) < 2 ^ 128"
  proof -
    have "(of_int n :: real) < of_int (2 ^ 24)" using assms(2) by (simp only: of_int_less_iff)
    then show ?thesis by simp
  qed
  ultimately show ?thesis by (intro that) (auto simp: f32_def Let_def)
qed

lemma f32_of_int [simp]: "\<bar>n\<bar> < 2 ^ 24 \<Longrightarrow> f32 (of_int n) = Fin (of_int n)"
  by (rule f32_bounded [of "of_int n" "\<bar>n\<bar>"]) (simp_all add: rnd_of_int)

lemma f32_numeral [simp]: "(numeral n :: int) < 2 ^ 24 \<Longrightarrow> f32 (numeral n) = Fin (numeral n)"
  using f32_of_int [of "numeral n"] by simp

lemma f32_zero [simp]: "f32 0 = Fin 0"
  using f32_of_int [of 0] by simp

text \<open>The error of a product below \<open>2 ^ 11\<close> is at most \<open>2 ^ -14\<close>.\<close>

lemma rnd32_error:
  assumes "\<bar>q\<bar> < 2048"
  shows "\<bar>rnd 24 (- 126) q - q\<bar> \<le> 1 / 2 ^ 14"
proof -
  have "expo \<bar>q\<bar> \<le> 10" if "q \<noteq> 0"
    using powi_less [of "expo \<bar>q\<bar>" 11] expo_bounds(1) [of "\<bar>q\<bar>"] that assms by simp
  moreover have "expo 0 \<le> 10" by (simp add: expo_def expo_down.simps)
  ultimately have "max (expo \<bar>q\<bar>) (- 126) \<le> 10" by (cases "q = 0") auto
  then have "spacing 24 (- 126) q \<le> 2 powi - 13"
    unfolding spacing_def by (intro power_int_increasing) simp_all
  also have "(2::real) powi - 13 = 1 / 2 ^ 13" by (simp add: power_int_def power_divide)
  finally show ?thesis using rnd_error [of 24 "- 126" q] by simp
qed

lemma trunc_of_int [simp]: "trunc (of_int n) = n"
  by (simp add: trunc_def)

lemma trunc_bound: "\<bar>q\<bar> \<le> of_int n \<Longrightarrow> \<bar>trunc q\<bar> \<le> n"
  by (auto simp: trunc_def abs_le_iff floor_le_iff le_floor_iff) linarith+

lemma trunc_error: "\<bar>of_int (trunc q) - q\<bar> < 1"
  unfolding trunc_def by (cases "0 \<le> q") (simp_all, linarith+)
text \<open>The relative error of one rounding, for numbers that are not tiny.\<close>

lemma rnd_relative:
  assumes "2 powi emin \<le> \<bar>q\<bar>"
  shows "\<bar>rnd p emin q - q\<bar> \<le> \<bar>q\<bar> / 2 ^ p"
proof -
  have "0 < (2::real) powi emin" by simp
  then have pos: "0 < \<bar>q\<bar>" using assms by linarith
  have "(2::real) powi emin < 2 powi (expo \<bar>q\<bar> + 1)" using expo_bounds(2) [OF pos] assms by linarith
  then have "max (expo \<bar>q\<bar>) emin = expo \<bar>q\<bar>" using powi_less by fastforce
  then have "spacing p emin q / 2 = 2 powi expo \<bar>q\<bar> / 2 ^ p"
    by (simp add: spacing_def power_int_add power_int_diff)
  also have "\<dots> \<le> \<bar>q\<bar> / 2 ^ p" using expo_bounds(1) [OF pos] by (simp add: divide_right_mono)
  finally show ?thesis using rnd_error [of p emin q] by linarith
qed

lemma f32_relative:
  assumes "1 / 2 ^ 100 \<le> \<bar>q\<bar>" "\<bar>q\<bar> \<le> 2 ^ 100"
  obtains r where "f32 q = Fin r" "\<bar>r - q\<bar> \<le> \<bar>q\<bar> / 2 ^ 24"
proof -
  have "(2::real) powi - 126 = 1 / 2 ^ 126" by (simp add: power_int_def power_divide)
  also have "\<dots> \<le> 1 / 2 ^ 100" by (intro divide_left_mono) simp_all
  finally have err: "\<bar>rnd 24 (- 126) q - q\<bar> \<le> \<bar>q\<bar> / 2 ^ 24" using assms(1) by (intro rnd_relative) linarith
  have "\<bar>q\<bar> / 2 ^ 24 \<le> \<bar>q\<bar>" by simp
  then have "\<bar>rnd 24 (- 126) q - q\<bar> \<le> \<bar>q\<bar>" using err by linarith
  then have "\<bar>rnd 24 (- 126) q\<bar> \<le> 2 * 2 ^ 100" using assms(2) by linarith
  then have "\<bar>rnd 24 (- 126) q\<bar> < 2 ^ 128" by (rule order_le_less_trans) simp
  with err show ?thesis by (intro that [of "rnd 24 (- 126) q"]) (simp_all add: f32_def Let_def)
qed

end
