(* ===== verification/Servo.thy ===== *)
theory Servo
  imports Floats
begin

text \<open>
  The serial bus servo of \<^verbatim>\<open>FasionStar/fashion_star_uart_servo.c\<close>. The state is the driver's view of the
  port: its transmit buffer, what was written to the device, the bytes the device will deliver, and
  the port's mutex. The line is a list of events, one per attempt to read: a byte, or an empty
  device, after which the semaphore is taken or times out; after the last event the line stays
  silent. A mutex the calling thread already holds is taken again (it is recursive); otherwise
  \<open>takes\<close> says whether the attempt succeeds in time. The value of a local variable that the code
  reads before it writes it is not determined by the code: such values come from \<open>stale\<close>.
\<close>

section \<open>Packages\<close>

record PackageTypeDef =
  header :: u16
  cmdId :: u8
  psize :: u8
  content :: "u8 list"
  checksum :: u8
  status :: u8

record servo =
  tx_buf :: "u8 list"
  sent :: "u8 list list"
  rx :: "rx_event list"
  takes :: "bool list"
  holds :: nat
  stale :: "nat \<Rightarrow> u8"
  drawn :: nat
  stale_angle :: fl

abbreviation (input) "FSUS_PACK_RESPONSE_MAX_SIZE \<equiv> 50 :: nat"
abbreviation (input) "FSUS_PACK_REQUEST_HEADER \<equiv> 0x4c12 :: u16"
abbreviation (input) "FSUS_PACK_RESPONSE_HEADER \<equiv> 0x1c05 :: u16"
abbreviation (input) "FSUS_CMD_NUM \<equiv> 17 :: u8"
abbreviation (input) "FSUS_STATUS_SUCCESS \<equiv> 0 :: u8"
abbreviation (input) "FSUS_STATUS_FAIL \<equiv> 1 :: u8"
abbreviation (input) "FSUS_STATUS_TIMEOUT \<equiv> 2 :: u8"
abbreviation (input) "FSUS_STATUS_WRONG_RESPONSE_HEADER \<equiv> 3 :: u8"
abbreviation (input) "FSUS_STATUS_UNKOWN_CMD_ID \<equiv> 4 :: u8"
abbreviation (input) "FSUS_STATUS_SIZE_TOO_BIG \<equiv> 5 :: u8"
abbreviation (input) "FSUS_STATUS_CHECKSUM_ERROR \<equiv> 6 :: u8"
abbreviation (input) "FSUS_STATUS_ID_NOT_MATCH \<equiv> 7 :: u8"
abbreviation (input) "FSUS_RECV_FLAG_HEADER \<equiv> 0x01 :: u8"
abbreviation (input) "FSUS_RECV_FLAG_CMD_ID \<equiv> 0x02 :: u8"
abbreviation (input) "FSUS_RECV_FLAG_SIZE \<equiv> 0x04 :: u8"
abbreviation (input) "FSUS_RECV_FLAG_CONTENT \<equiv> 0x08 :: u8"
abbreviation (input) "FSUS_RECV_FLAG_CHECKSUM \<equiv> 0x10 :: u8"

text \<open>The sum starts from the variable \<open>junk\<close>, which the code does not initialise.\<close>

definition FSUS_CalcChecksum :: "u8 \<Rightarrow> PackageTypeDef \<Rightarrow> u8 cres" where
  "FSUS_CalcChecksum junk pkg =
     cbind (rd_n (content pkg) (unat (psize pkg))) (\<lambda>cs.
     Inr (foldl (+) (junk + lo8 (header pkg) + hi8 (header pkg) + cmdId pkg + psize pkg) cs))"

definition FSUS_IsValidResponsePackage :: "u8 \<Rightarrow> PackageTypeDef \<Rightarrow> u8 cres" where
  "FSUS_IsValidResponsePackage junk pkg =
     (if header pkg \<noteq> FSUS_PACK_RESPONSE_HEADER then Inr FSUS_STATUS_WRONG_RESPONSE_HEADER
      else if cmdId pkg > FSUS_CMD_NUM then Inr FSUS_STATUS_UNKOWN_CMD_ID
      else if unat (psize pkg) > FSUS_PACK_RESPONSE_MAX_SIZE - 5 then Inr FSUS_STATUS_SIZE_TOO_BIG
      else cbind (FSUS_CalcChecksum junk pkg) (\<lambda>s.
        Inr (if s \<noteq> checksum pkg then FSUS_STATUS_CHECKSUM_ERROR else FSUS_STATUS_SUCCESS)))"

section \<open>Sending\<close>

definition FSUS_UART_Send :: "servo \<Rightarrow> PackageTypeDef \<Rightarrow> servo cres" where
  "FSUS_UART_Send s pkg =
     cbind (cpy (tx_buf s) 0 [lo8 (header pkg), hi8 (header pkg)]) (\<lambda>b.
     cbind (cpy b 2 [cmdId pkg]) (\<lambda>b.
     cbind (cpy b 3 [psize pkg]) (\<lambda>b.
     cbind (rd_n (content pkg) (unat (psize pkg))) (\<lambda>cs.
     cbind (cpy b 4 cs) (\<lambda>b.
     cbind (cpy b (4 + unat (psize pkg)) [checksum pkg]) (\<lambda>b.
     cbind (rd_n b (unat (psize pkg) + 5)) (\<lambda>out.
     Inr (s\<lparr>tx_buf := b, sent := sent s @ [out]\<rparr>))))))))"

text \<open>One undetermined byte, and a package that has not been written to.\<close>

definition draw :: "servo \<Rightarrow> u8 \<times> servo" where
  "draw s = (stale s (drawn s), s\<lparr>drawn := drawn s + 1\<rparr>)"

definition draw_pkg :: "servo \<Rightarrow> PackageTypeDef \<times> servo" where
  "draw_pkg s =
     (\<lparr>header = 0, cmdId = 0, psize = 0,
       content = map (stale s) [drawn s..<drawn s + FSUS_PACK_RESPONSE_MAX_SIZE], checksum = 0, status = 0\<rparr>,
      s\<lparr>drawn := drawn s + FSUS_PACK_RESPONSE_MAX_SIZE\<rparr>)"

definition FSUS_SendPackage :: "servo \<Rightarrow> u8 \<Rightarrow> u8 \<Rightarrow> u8 list \<Rightarrow> servo cres" where
  "FSUS_SendPackage s cmd sz cont =
     (let (p, s) = draw_pkg s; p = p\<lparr>header := FSUS_PACK_REQUEST_HEADER, cmdId := cmd, psize := sz\<rparr> in
      cbind (rd_n cont (unat sz)) (\<lambda>cs.
      cbind (cpy (content p) 0 cs) (\<lambda>ct.
      let p = p\<lparr>content := ct\<rparr>; (junk, s) = draw s in
      cbind (FSUS_CalcChecksum junk p) (\<lambda>c.
      FSUS_UART_Send s (p\<lparr>checksum := c\<rparr>)))))"

section \<open>Receiving\<close>

record recv =
  bIdx :: u8
  hdr :: u16
  pkg :: PackageTypeDef

text \<open>What the loop does with one byte; \<open>Some\<close> is the status it returns.\<close>

definition recv_byte :: "u8 \<Rightarrow> recv \<Rightarrow> u8 \<Rightarrow> (recv \<times> u8 option) cres" where
  "recv_byte junk r tmpdata =
     (let p = pkg r in
      if status p AND FSUS_RECV_FLAG_CONTENT \<noteq> 0 then
        let p = p\<lparr>checksum := tmpdata, status := status p OR FSUS_RECV_FLAG_CHECKSUM\<rparr> in
        cbind (FSUS_CalcChecksum junk p) (\<lambda>c.
        Inr (r\<lparr>pkg := p\<rparr>, Some (if c \<noteq> checksum p then FSUS_STATUS_CHECKSUM_ERROR else FSUS_STATUS_SUCCESS)))
      else if status p AND FSUS_RECV_FLAG_SIZE \<noteq> 0 then
        cbind (wr (content p) (unat (bIdx r)) tmpdata) (\<lambda>ct.
        let p = p\<lparr>content := ct\<rparr>; i = bIdx r + 1 in
        Inr (r\<lparr>bIdx := i,
               pkg := if i = psize p then p\<lparr>status := status p OR FSUS_RECV_FLAG_CONTENT\<rparr> else p\<rparr>, None))
      else if status p AND FSUS_RECV_FLAG_CMD_ID \<noteq> 0 then
        let p = p\<lparr>psize := tmpdata\<rparr> in
        if unat (psize p) > FSUS_PACK_RESPONSE_MAX_SIZE - 5 then Inr (r\<lparr>pkg := p\<rparr>, Some FSUS_STATUS_SIZE_TOO_BIG)
        else Inr (r\<lparr>pkg := p\<lparr>status := status p OR FSUS_RECV_FLAG_SIZE\<rparr>\<rparr>, None)
      else if status p AND FSUS_RECV_FLAG_HEADER \<noteq> 0 then
        let p = p\<lparr>cmdId := tmpdata\<rparr> in
        if cmdId p > FSUS_CMD_NUM then Inr (r\<lparr>pkg := p\<rparr>, Some FSUS_STATUS_UNKOWN_CMD_ID)
        else Inr (r\<lparr>pkg := p\<lparr>status := status p OR FSUS_RECV_FLAG_CMD_ID\<rparr>\<rparr>, None)
      else if hdr r = 0 then
        let h = ucast tmpdata in
        Inr (r\<lparr>hdr := if h \<noteq> (FSUS_PACK_RESPONSE_HEADER AND 0x0F) then 0 else h\<rparr>, None)
      else if hdr r = (FSUS_PACK_RESPONSE_HEADER AND 0x0F) then
        let h = hdr r OR push_bit 8 (ucast tmpdata) in
        if h \<noteq> FSUS_PACK_RESPONSE_HEADER then Inr (r\<lparr>hdr := 0\<rparr>, None)
        else Inr (r\<lparr>hdr := h, pkg := p\<lparr>header := h, status := status p OR FSUS_RECV_FLAG_HEADER\<rparr>\<rparr>, None)
      else Inr (r\<lparr>hdr := 0\<rparr>, None))"

fun recv_loop :: "u8 \<Rightarrow> recv \<Rightarrow> rx_event list \<Rightarrow> (u8 \<times> recv \<times> rx_event list) cres" where
  "recv_loop junk r [] = Inr (FSUS_STATUS_TIMEOUT, r, [])"
| "recv_loop junk r (Empty woken # es) =
     (if woken then recv_loop junk r es else Inr (FSUS_STATUS_TIMEOUT, r, es))"
| "recv_loop junk r (Got b # es) =
     cbind (recv_byte junk r b) (\<lambda>(r, st).
       case st of None \<Rightarrow> recv_loop junk r es | Some code \<Rightarrow> Inr (code, r, es))"

definition FSUS_RecvPackage :: "servo \<Rightarrow> PackageTypeDef \<Rightarrow> (u8 \<times> PackageTypeDef \<times> servo) cres" where
  "FSUS_RecvPackage s p =
     (let (junk, s) = draw s in
      cbind (recv_loop junk \<lparr>bIdx = 0, hdr = 0, pkg = p\<lparr>status := 0\<rparr>\<rparr> (rx s)) (\<lambda>(code, r, es).
      Inr (code, pkg r, s\<lparr>rx := es\<rparr>)))"

section \<open>The port's mutex\<close>

text \<open>A thread that holds the mutex can take it again, up to \<^verbatim>\<open>RT_MUTEX_HOLD_MAX\<close> times.\<close>

definition rt_mutex_take :: "servo \<Rightarrow> bool \<times> servo" where
  "rt_mutex_take s =
     (if holds s > 0 then (if holds s < 255 then (True, s\<lparr>holds := holds s + 1\<rparr>) else (False, s))
      else case takes s of
        [] \<Rightarrow> (True, s\<lparr>holds := 1\<rparr>)
      | b # bs \<Rightarrow> (b, s\<lparr>takes := bs, holds := if b then 1 else 0\<rparr>))"

definition rt_mutex_release :: "servo \<Rightarrow> servo" where
  "rt_mutex_release s = s\<lparr>holds := holds s - 1\<rparr>"

text \<open>\<^verbatim>\<open>if (rt_mutex_take(...) != RT_EOK) return FSUS_STATUS_TIMEOUT;\<close> around the rest of a function.\<close>

definition locked :: "servo \<Rightarrow> 'a \<Rightarrow> (servo \<Rightarrow> ('a \<times> servo) cres) \<Rightarrow> ('a \<times> servo) cres" where
  "locked s timeout k = (case rt_mutex_take s of (ok, s) \<Rightarrow> if ok then k s else Inr (timeout, s))"

section \<open>Commands without an answer\<close>

definition le16 :: "u16 \<Rightarrow> u8 list" where "le16 w = [lo8 w, hi8 w]"
definition le32 :: "u32 \<Rightarrow> u8 list" where "le32 w = [byte32 0 w, byte32 1 w, byte32 2 w, byte32 3 w]"

definition FSUS_WheelMove :: "servo \<Rightarrow> u8 \<Rightarrow> u8 \<Rightarrow> u16 \<Rightarrow> u16 \<Rightarrow> (u8 \<times> servo) cres" where
  "FSUS_WheelMove s servo_id method speed value =
     locked s FSUS_STATUS_TIMEOUT (\<lambda>s.
       cbind (FSUS_SendPackage s 7 6 ([servo_id, method] @ le16 speed @ le16 value)) (\<lambda>s.
       Inr (FSUS_STATUS_SUCCESS, rt_mutex_release s)))"

definition FSUS_WheelStop :: "servo \<Rightarrow> u8 \<Rightarrow> (u8 \<times> servo) cres" where
  "FSUS_WheelStop s servo_id = FSUS_WheelMove s servo_id 0x00 0 0"

definition FSUS_WheelKeepMove :: "servo \<Rightarrow> u8 \<Rightarrow> u8 \<Rightarrow> u16 \<Rightarrow> (u8 \<times> servo) cres" where
  "FSUS_WheelKeepMove s servo_id is_cw speed =
     (let method = (if is_cw \<noteq> 0 then 0x01 OR 0x80 else 0x01) in FSUS_WheelMove s servo_id method speed 0)"

definition FSUS_WheelMoveTime :: "servo \<Rightarrow> u8 \<Rightarrow> u8 \<Rightarrow> u16 \<Rightarrow> u16 \<Rightarrow> (u8 \<times> servo) cres" where
  "FSUS_WheelMoveTime s servo_id is_cw speed nTime =
     (let method = (if is_cw \<noteq> 0 then 0x03 OR 0x80 else 0x03) in FSUS_WheelMove s servo_id method speed nTime)"

definition FSUS_WheelMoveNCircle :: "servo \<Rightarrow> u8 \<Rightarrow> u8 \<Rightarrow> u16 \<Rightarrow> u16 \<Rightarrow> (u8 \<times> servo) cres" where
  "FSUS_WheelMoveNCircle s servo_id is_cw speed nCircle =
     (let method = (if is_cw \<noteq> 0 then 0x02 OR 0x80 else 0x02) in FSUS_WheelMove s servo_id method speed nCircle)"

definition FSUS_DampingMode :: "servo \<Rightarrow> u8 \<Rightarrow> u16 \<Rightarrow> (u8 \<times> servo) cres" where
  "FSUS_DampingMode s servo_id pwr =
     locked s FSUS_STATUS_TIMEOUT (\<lambda>s.
       cbind (FSUS_SendPackage s 9 3 (servo_id # le16 pwr)) (\<lambda>s.
       Inr (FSUS_STATUS_SUCCESS, rt_mutex_release s)))"

section \<open>Commands with an answer\<close>

definition FSUS_Ping :: "servo \<Rightarrow> u8 \<Rightarrow> (u8 \<times> servo) cres" where
  "FSUS_Ping s servo_id =
     locked s FSUS_STATUS_TIMEOUT (\<lambda>s.
       cbind (FSUS_SendPackage s 1 1 [servo_id]) (\<lambda>s.
       let (p, s) = draw_pkg s in
       cbind (FSUS_RecvPackage s p) (\<lambda>(statusCode, p, s).
       let s = rt_mutex_release s in
       if statusCode = FSUS_STATUS_SUCCESS then
         cbind (rd (content p) 0) (\<lambda>echo.
         if echo \<noteq> servo_id then Inr (FSUS_STATUS_ID_NOT_MATCH, s) else Inr (statusCode, s))
       else Inr (statusCode, s))))"

definition FSUS_ResetUserData :: "servo \<Rightarrow> u8 \<Rightarrow> (u8 \<times> servo) cres" where
  "FSUS_ResetUserData s servo_id =
     locked s FSUS_STATUS_TIMEOUT (\<lambda>s.
       cbind (FSUS_SendPackage s 2 1 [servo_id]) (\<lambda>s.
       let (p, s) = draw_pkg s in
       cbind (FSUS_RecvPackage s p) (\<lambda>(statusCode, p, s).
       let s = rt_mutex_release s in
       if statusCode = FSUS_STATUS_SUCCESS then
         cbind (rd (content p) 1) (\<lambda>result.
         if result = 1 then Inr (FSUS_STATUS_SUCCESS, s) else Inr (FSUS_STATUS_FAIL, s))
       else Inr (statusCode, s))))"

text \<open>The caller's array \<open>value\<close> comes back with its size variable, written on success only.\<close>

definition FSUS_ReadData :: "servo \<Rightarrow> u8 \<Rightarrow> u8 \<Rightarrow> u8 list \<Rightarrow> ((u8 \<times> u8 list \<times> u8 option) \<times> servo) cres" where
  "FSUS_ReadData s servo_id address value =
     cbind (FSUS_SendPackage s 3 2 [servo_id, address]) (\<lambda>s.
     let (p, s) = draw_pkg s in
     cbind (FSUS_RecvPackage s p) (\<lambda>(statusCode, p, s).
     if statusCode = FSUS_STATUS_SUCCESS then
       let n = psize p - 2 in
       cbind (rd_n (drop 2 (content p)) (unat n)) (\<lambda>cs.
       cbind (cpy value 0 cs) (\<lambda>value. Inr ((statusCode, value, Some n), s)))
     else Inr ((statusCode, value, None), s)))"

definition FSUS_WriteData :: "servo \<Rightarrow> u8 \<Rightarrow> u8 \<Rightarrow> u8 list \<Rightarrow> u8 \<Rightarrow> (u8 \<times> servo) cres" where
  "FSUS_WriteData s servo_id address value sz =
     cbind (rd_n value (unat sz)) (\<lambda>cs.
     cbind (FSUS_SendPackage s 4 (sz + 2) ([servo_id, address] @ cs)) (\<lambda>s.
     let (p, s) = draw_pkg s in
     cbind (FSUS_RecvPackage s p) (\<lambda>(statusCode, p, s).
     if statusCode = FSUS_STATUS_SUCCESS then
       cbind (rd (content p) 2) (\<lambda>result.
       if result = 1 then Inr (FSUS_STATUS_SUCCESS, s) else Inr (FSUS_STATUS_FAIL, s))
     else Inr (statusCode, s))))"

text \<open>The queried angle is \<open>Some\<close> when the caller's variable was written. The division is in double.\<close>

definition angle_of :: "int \<Rightarrow> fl" where
  "angle_of echoAngle = to_f32 (fdiv f64 (Fin (of_int echoAngle)) (Fin 10))"

definition FSUS_QueryServoAngle :: "servo \<Rightarrow> u8 \<Rightarrow> ((u8 \<times> fl option) \<times> servo) cres" where
  "FSUS_QueryServoAngle s servo_id =
     locked s (FSUS_STATUS_TIMEOUT, None) (\<lambda>s.
       cbind (FSUS_SendPackage s 10 1 [servo_id]) (\<lambda>s.
       let (p, s) = draw_pkg s in
       cbind (FSUS_RecvPackage s p) (\<lambda>(statusCode, p, s).
       let s = rt_mutex_release s in
       if statusCode = FSUS_STATUS_SUCCESS then
         cbind (rd (content p) 0) (\<lambda>echo.
         if echo \<noteq> servo_id then Inr ((FSUS_STATUS_ID_NOT_MATCH, None), s)
         else cbind (rd (content p) 1) (\<lambda>c1. cbind (rd (content p) 2) (\<lambda>c2.
           Inr ((statusCode, Some (angle_of (sint (mk16 c2 c1)))), s))))
       else Inr ((statusCode, None), s))))"

definition FSUS_QueryServoAngleMTurn :: "servo \<Rightarrow> u8 \<Rightarrow> ((u8 \<times> fl option) \<times> servo) cres" where
  "FSUS_QueryServoAngleMTurn s servo_id =
     locked s (FSUS_STATUS_TIMEOUT, None) (\<lambda>s.
       cbind (FSUS_SendPackage s 16 1 [servo_id]) (\<lambda>s.
       let (p, s) = draw_pkg s in
       cbind (FSUS_RecvPackage s p) (\<lambda>(statusCode, p, s).
       if statusCode = FSUS_STATUS_SUCCESS then
         cbind (rd (content p) 0) (\<lambda>echo.
         if echo \<noteq> servo_id then Inr ((FSUS_STATUS_ID_NOT_MATCH, None), s)
         else cbind (rd (content p) 1) (\<lambda>c1. cbind (rd (content p) 2) (\<lambda>c2.
           cbind (rd (content p) 3) (\<lambda>c3. cbind (rd (content p) 4) (\<lambda>c4.
           Inr ((statusCode, Some (angle_of (sint (mk32 c4 c3 c2 c1)))), rt_mutex_release s))))))
       else Inr ((statusCode, None), rt_mutex_release s))))"

text \<open>
  \<open>n\<close> is the number of tries left, \<^verbatim>\<open>FSUS_WAIT_COUNT_MAX - count\<close>; a query that fails leaves
  \<^verbatim>\<open>angle_read\<close> as it was.
\<close>

fun wait_loop :: "nat \<Rightarrow> servo \<Rightarrow> u8 \<Rightarrow> fl \<Rightarrow> u8 \<Rightarrow> fl \<Rightarrow> (u8 \<times> servo) cres" where
  "wait_loop 0 s servo_id target is_mturn angle_read = Inr (FSUS_STATUS_FAIL, s)"
| "wait_loop (Suc n) s servo_id target is_mturn angle_read =
     cbind (if is_mturn \<noteq> 0 then FSUS_QueryServoAngleMTurn s servo_id else FSUS_QueryServoAngle s servo_id)
       (\<lambda>((code, a), s).
         let angle_read = (case a of None \<Rightarrow> angle_read | Some x \<Rightarrow> x);
             angle_error = fabsf (fsub f32 target angle_read)
         in if fle angle_error (Fin 1) then Inr (FSUS_STATUS_SUCCESS, s)
            else wait_loop n s servo_id target is_mturn angle_read)"

definition FSUS_Wait :: "servo \<Rightarrow> u8 \<Rightarrow> fl \<Rightarrow> u8 \<Rightarrow> (u8 \<times> servo) cres" where
  "FSUS_Wait s servo_id target is_mturn = wait_loop 10000 s servo_id target is_mturn (stale_angle s)"

section \<open>Angle commands\<close>

definition clampf :: "real \<Rightarrow> real \<Rightarrow> fl \<Rightarrow> fl" where
  "clampf lo hi a = (if flt (Fin hi) a then Fin hi else if flt a (Fin lo) then Fin lo else a)"

definition at_least20 :: "u16 \<Rightarrow> u16" where "at_least20 t = (if t < 20 then 20 else t)"

text \<open>The common end of the angle commands: send under the mutex, then wait if asked to.\<close>

definition send_wait :: "servo \<Rightarrow> u8 \<Rightarrow> u8 \<Rightarrow> u8 \<Rightarrow> u8 list \<Rightarrow> fl \<Rightarrow> u8 \<Rightarrow> u8 \<Rightarrow> (u8 \<times> servo) cres" where
  "send_wait s servo_id cmd sz buffer angle is_mturn wait =
     locked s FSUS_STATUS_TIMEOUT (\<lambda>s.
       cbind (FSUS_SendPackage s cmd sz buffer) (\<lambda>s.
       let s = rt_mutex_release s in
       if wait \<noteq> 0 then FSUS_Wait s servo_id angle is_mturn else Inr (FSUS_STATUS_SUCCESS, s)))"

definition FSUS_SetServoAngle :: "servo \<Rightarrow> u8 \<Rightarrow> fl \<Rightarrow> u16 \<Rightarrow> u16 \<Rightarrow> u8 \<Rightarrow> (u8 \<times> servo) cres" where
  "FSUS_SetServoAngle s servo_id angle interval pwr wait =
     (let angle = clampf (- 180) 180 angle in
      cbind (to_int16 (fmul f32 (Fin 10) angle)) (\<lambda>v.
      send_wait s servo_id 8 7 ([servo_id] @ le16 (word_of_int v) @ le16 interval @ le16 pwr) angle 0 wait))"

definition FSUS_SetServoAngleByInterval ::
  "servo \<Rightarrow> u8 \<Rightarrow> fl \<Rightarrow> u16 \<Rightarrow> u16 \<Rightarrow> u16 \<Rightarrow> u16 \<Rightarrow> u8 \<Rightarrow> (u8 \<times> servo) cres" where
  "FSUS_SetServoAngleByInterval s servo_id angle interval t_acc t_dec pwr wait =
     (let angle = clampf (- 180) 180 angle; t_acc = at_least20 t_acc; t_dec = at_least20 t_dec in
      cbind (to_int16 (fmul f32 (Fin 10) angle)) (\<lambda>v.
      send_wait s servo_id 11 11
        ([servo_id] @ le16 (word_of_int v) @ le16 interval @ le16 t_acc @ le16 t_dec @ le16 pwr) angle 0 wait))"

definition FSUS_SetServoAngleByVelocity ::
  "servo \<Rightarrow> u8 \<Rightarrow> fl \<Rightarrow> fl \<Rightarrow> u16 \<Rightarrow> u16 \<Rightarrow> u16 \<Rightarrow> u8 \<Rightarrow> (u8 \<times> servo) cres" where
  "FSUS_SetServoAngleByVelocity s servo_id angle velocity t_acc t_dec pwr wait =
     (let angle = clampf (- 180) 180 angle;
          velocity = (if flt velocity (Fin 1) then Fin 1 else if flt (Fin 750) velocity then Fin 750 else velocity);
          t_acc = at_least20 t_acc; t_dec = at_least20 t_dec in
      cbind (to_int16 (fmul f32 (Fin 10) angle)) (\<lambda>v.
      cbind (to_uint16 (fmul f32 (Fin 10) velocity)) (\<lambda>w.
      send_wait s servo_id 12 11
        ([servo_id] @ le16 (word_of_int v) @ le16 (word_of_int w) @ le16 t_acc @ le16 t_dec @ le16 pwr) angle 0 wait)))"

text \<open>An interval above the limit overwrites the angle, not the interval.\<close>

definition FSUS_SetServoAngleMTurn :: "servo \<Rightarrow> u8 \<Rightarrow> fl \<Rightarrow> u32 \<Rightarrow> u16 \<Rightarrow> u8 \<Rightarrow> (u8 \<times> servo) cres" where
  "FSUS_SetServoAngleMTurn s servo_id angle interval pwr wait =
     (let angle = clampf (- 368640) 368640 angle;
          angle = (if interval > 4096000 then Fin 4096000 else angle) in
      cbind (to_int32 (fmul f32 (Fin 10) angle)) (\<lambda>v.
      send_wait s servo_id 13 11 ([servo_id] @ le32 (word_of_int v) @ le32 interval @ le16 pwr) angle 1 wait))"

definition FSUS_SetServoAngleMTurnByInterval ::
  "servo \<Rightarrow> u8 \<Rightarrow> fl \<Rightarrow> u32 \<Rightarrow> u16 \<Rightarrow> u16 \<Rightarrow> u16 \<Rightarrow> u8 \<Rightarrow> (u8 \<times> servo) cres" where
  "FSUS_SetServoAngleMTurnByInterval s servo_id angle interval t_acc t_dec pwr wait =
     (let angle = clampf (- 368640) 368640 angle;
          interval = (if interval > 4096000 then 4096000 else interval);
          t_acc = at_least20 t_acc; t_dec = at_least20 t_dec in
      cbind (to_int32 (fmul f32 (Fin 10) angle)) (\<lambda>v.
      send_wait s servo_id 14 15
        ([servo_id] @ le32 (word_of_int v) @ le32 interval @ le16 t_acc @ le16 t_dec @ le16 pwr) angle 1 wait))"

definition FSUS_SetServoAngleMTurnByVelocity ::
  "servo \<Rightarrow> u8 \<Rightarrow> fl \<Rightarrow> fl \<Rightarrow> u16 \<Rightarrow> u16 \<Rightarrow> u16 \<Rightarrow> u8 \<Rightarrow> (u8 \<times> servo) cres" where
  "FSUS_SetServoAngleMTurnByVelocity s servo_id angle velocity t_acc t_dec pwr wait =
     (let angle = clampf (- 368640) 368640 angle;
          velocity = (if flt velocity (Fin 1) then Fin 1 else if flt (Fin 750) velocity then Fin 750 else velocity);
          t_acc = at_least20 t_acc; t_dec = at_least20 t_dec in
      cbind (to_int32 (fmul f32 (Fin 10) angle)) (\<lambda>v.
      cbind (to_uint16 (fmul f32 (Fin 10) velocity)) (\<lambda>w.
      send_wait s servo_id 15 13
        ([servo_id] @ le32 (word_of_int v) @ le16 (word_of_int w) @ le16 t_acc @ le16 t_dec @ le16 pwr) angle 1 wait)))"

section \<open>The demonstration motions\<close>

text \<open>Recorded bytes of a session, written as they are, then a timed turn.\<close>

definition rt_device_write :: "servo \<Rightarrow> u8 list \<Rightarrow> servo" where
  "rt_device_write s buf = s\<lparr>sent := sent s @ [buf]\<rparr>"

definition up_buf :: "u8 list" where
  "up_buf = [0x01, 0x00, 0x69, 0x12, 0x4C, 0x06, 0x21, 0x00, 0x01, 0x00, 0x00, 0x01, 0x05, 0x01, 0x01, 0x00,
     0xD3, 0x14, 0x8E, 0x23, 0x22, 0x04, 0x01, 0x00, 0x50, 0x00, 0x00, 0x00, 0x00, 0x00, 0x00, 0x00,
     0x95, 0x02, 0xBC, 0x02, 0x40, 0xFC, 0x00, 0x00, 0x2E, 0x12, 0x4C, 0x05, 0x01, 0x00, 0x64, 0x12, 0x4C, 0x0A]"

definition pick_buf :: "u8 list" where
  "pick_buf = [0x01, 0x00, 0x69, 0x12, 0x4C, 0x06, 0x21, 0x00, 0x01, 0x00, 0x00, 0x01, 0x05, 0x01, 0x90, 0x01,
     0xD3, 0x14, 0x8E, 0x23, 0x22, 0x04, 0x2C, 0x01, 0x50, 0x00, 0x00, 0x00, 0x00, 0x00, 0x00, 0x00,
     0x95, 0x02, 0xBC, 0x02, 0x40, 0xFC, 0x00, 0x00, 0xEA, 0x12, 0x4C, 0x05, 0x01, 0x00, 0x64, 0x12, 0x4C, 0x0A]"

definition pick_buf1 :: "u8 list" where
  "pick_buf1 = [0x01, 0x00, 0x69, 0x12, 0x4C, 0x06, 0x21, 0x00, 0x01, 0x00, 0x00, 0x01, 0x05, 0x01, 0x01, 0x00,
     0xD3, 0x14, 0x8E, 0x23, 0x22, 0x04, 0x2C, 0x01, 0x50, 0x00, 0x00, 0x00, 0x00, 0x00, 0x00, 0x00,
     0x95, 0x02, 0xBC, 0x02, 0x40, 0xFC, 0x00, 0x00, 0xBE, 0x12, 0x4C, 0x05, 0x01, 0x00, 0x64, 0x12, 0x4C, 0x0A]"

definition My_FSUS_up :: "servo \<Rightarrow> (u8 \<times> servo) cres" where
  "My_FSUS_up s =
     (let s = rt_device_write s up_buf; s = rt_device_write s up_buf in FSUS_WheelMoveTime s 0 1 500 1800)"

definition My_FSUS_pick :: "servo \<Rightarrow> (u8 \<times> servo) cres" where
  "My_FSUS_pick s =
     (let s = rt_device_write s pick_buf; s = rt_device_write s pick_buf1 in FSUS_WheelMoveTime s 0 0 500 1800)"

section \<open>Helpers of the motions\<close>

text \<open>\<open>cur\<close> is the global \<^verbatim>\<open>curAngle\<close>, which a successful query overwrites.\<close>

definition angle_gap :: "fl \<Rightarrow> fl \<Rightarrow> fl" where
  "angle_gap nextAngle cur = (if flt cur nextAngle then fsub f32 nextAngle cur else fsub f32 cur nextAngle)"

definition calcIntervalMs :: "servo \<Rightarrow> fl \<Rightarrow> u8 \<Rightarrow> fl \<Rightarrow> fl \<Rightarrow> (int \<times> fl \<times> servo) cres" where
  "calcIntervalMs s cur servo_id nextAngle speed =
     cbind (FSUS_QueryServoAngle s servo_id) (\<lambda>((code, a), s).
     let cur = (case a of None \<Rightarrow> cur | Some x \<Rightarrow> x) in
     cbind (to_uint16 (fmul f64 (fdiv f32 (angle_gap nextAngle cur) speed) (Fin 1000))) (\<lambda>ms. Inr (ms, cur, s)))"

text \<open>A loop without a limit; \<open>None\<close> is not returning. \<open>servoDeadBlock\<close> is 1.\<close>

partial_function (option) waitUntilServoIDLE ::
  "servo \<Rightarrow> fl \<Rightarrow> u8 \<Rightarrow> fl \<Rightarrow> (fl \<times> servo) cres option" where
  "waitUntilServoIDLE s cur servo_id nextAngle =
     (case FSUS_QueryServoAngle s servo_id of
        Inl e \<Rightarrow> Some (Inl e)
      | Inr ((code, a), s) \<Rightarrow>
          (let cur = (case a of None \<Rightarrow> cur | Some x \<Rightarrow> x) in
           if fle (angle_gap nextAngle cur) (Fin 1) then Some (Inr (cur, s))
           else waitUntilServoIDLE s cur servo_id nextAngle))"

section \<open>Sent frames\<close>

definition request :: "u8 \<Rightarrow> u8 \<Rightarrow> u8 \<Rightarrow> u8 list \<Rightarrow> u8 list" where
  "request junk cmd sz cs = [0x12, 0x4C, cmd, sz] @ cs @ [junk + 0x5E + cmd + sz + sum_list cs]"

text \<open>The transmit buffer has its declared size.\<close>

definition ready :: "servo \<Rightarrow> bool" where
  "ready s = (length (tx_buf s) = FSUS_PACK_RESPONSE_MAX_SIZE + 5)"

lemma foldl_sum: "foldl (+) a cs = a + sum_list cs" for a :: "'a::monoid_add"
  by (induction cs arbitrary: a) (simp_all add: add.assoc)

lemma header_bytes [simp]: "lo8 FSUS_PACK_REQUEST_HEADER = 0x12" "hi8 FSUS_PACK_REQUEST_HEADER = 0x4C"
    "lo8 FSUS_PACK_RESPONSE_HEADER = 0x05" "hi8 FSUS_PACK_RESPONSE_HEADER = 0x1C"
  by (simp_all add: lo8_def hi8_def)

lemma uart_send:
  assumes "length (tx_buf s) = 55" "unat (psize p) \<le> 50" "unat (psize p) \<le> length (content p)"
  shows "\<exists>b. length b = 55 \<and> FSUS_UART_Send s p =
    Inr (s\<lparr>tx_buf := b, sent := sent s @ [[lo8 (header p), hi8 (header p), cmdId p, psize p] @
      take (unat (psize p)) (content p) @ [checksum p]]\<rparr>)"
proof -
  let ?k = "unat (psize p)"
  obtain a b c d r where tx: "tx_buf s = a # b # c # d # r" "length r = 51"
    using assms(1) by (auto simp: numeral_eq_Suc length_Suc_conv)
  define cs where "cs = take ?k (content p)"
  then have len: "length cs = ?k" using assms(3) by simp
  have rd: "rd_n (content p) ?k = Inr cs" using assms(3) by (simp add: cs_def)
  obtain e r2 where r2: "drop ?k r = e # r2" using assms(2) tx(2) by (cases "drop ?k r") auto
  have k: "4 + ?k = Suc (Suc (Suc (Suc ?k)))" "?k + 5 = Suc (Suc (Suc (Suc (Suc ?k))))" by simp_all
  have l2: "length r2 = 50 - ?k" using arg_cong [OF r2, of length] tx(2) by simp
  have steps: "cpy (a # b # c # d # r) 0 [x, y] = Inr (x # y # c # d # r)"
      "cpy (x # y # c # d # r) 2 [z] = Inr (x # y # z # d # r)"
      "cpy (x # y # z # d # r) 3 [w] = Inr (x # y # z # w # r)"
      "cpy (x # y # z # w # r) 4 cs = Inr (x # y # z # w # cs @ e # r2)"
      "cpy (x # y # z # w # cs @ e # r2) (4 + ?k) [v] = Inr (x # y # z # w # cs @ v # r2)"
      "rd_n (x # y # z # w # cs @ v # r2) (?k + 5) = Inr (x # y # z # w # cs @ [v])" for x y z w v
    using assms(2) tx(2) len r2 l2 by (simp_all add: cpy_def rd_n_def k)
  have "FSUS_UART_Send s p = Inr (s\<lparr>tx_buf := lo8 (header p) # hi8 (header p) # cmdId p # psize p # cs @ checksum p # r2,
      sent := sent s @ [lo8 (header p) # hi8 (header p) # cmdId p # psize p # cs @ [checksum p]]\<rparr>)"
    unfolding FSUS_UART_Send_def tx(1) by (simp only: steps rd cbind.simps)
  then show ?thesis using len l2 assms(2) unfolding cs_def
    by (intro exI [of _ "lo8 (header p) # hi8 (header p) # cmdId p # psize p # take ?k (content p) @ checksum p # r2"]) simp
qed

lemma send_ok:
  assumes "ready s" "unat sz \<le> 50" "unat sz \<le> length cont"
  shows "\<exists>b. length b = 55 \<and> FSUS_SendPackage s cmd sz cont =
    Inr (s\<lparr>drawn := drawn s + 51, tx_buf := b,
           sent := sent s @ [request (stale s (drawn s + 50)) cmd sz (take (unat sz) cont)]\<rparr>)"
proof -
  let ?s = "s\<lparr>drawn := drawn s + 51\<rparr>"
  let ?ct = "take (unat sz) cont @ drop (unat sz) (map (stale s) [drawn s..<drawn s + 50])"
  let ?p = "\<lparr>header = FSUS_PACK_REQUEST_HEADER, cmdId = cmd, psize = sz, content = ?ct,
     checksum = stale s (drawn s + 50) + 0x5E + cmd + sz + sum_list (take (unat sz) cont), status = 0\<rparr>"
  have "\<exists>b. length b = 55 \<and> FSUS_UART_Send ?s ?p =
      Inr (?s\<lparr>tx_buf := b, sent := sent ?s @ [[lo8 (header ?p), hi8 (header ?p), cmdId ?p, psize ?p] @
        take (unat (psize ?p)) (content ?p) @ [checksum ?p]]\<rparr>)"
    by (rule uart_send) (use assms in \<open>simp_all add: ready_def\<close>)
  moreover have "FSUS_SendPackage s cmd sz cont = FSUS_UART_Send ?s ?p"
    using assms by (simp add: FSUS_SendPackage_def draw_pkg_def draw_def Let_def FSUS_CalcChecksum_def foldl_sum ac_simps)
  ultimately show ?thesis using assms by (simp add: request_def)
qed

lemma send_too_big: "50 < unat sz \<Longrightarrow> FSUS_SendPackage s cmd sz cont = Inl OutOfBounds"
  by (auto simp: FSUS_SendPackage_def draw_pkg_def draw_def Let_def rd_n_def cpy_def)

section \<open>Received frames\<close>

definition answer :: "u8 \<Rightarrow> u8 \<Rightarrow> u8 \<Rightarrow> u8 list \<Rightarrow> u8 list" where
  "answer junk cmd sz cs = [0x05, 0x1C, cmd, sz] @ cs @ [junk + 0x21 + cmd + sz + sum_list cs]"

text \<open>What the receiver knows about the bytes \<open>h\<close> it has consumed.\<close>

definition knows :: "recv \<Rightarrow> u8 list \<Rightarrow> bool" where
  "knows r h = (let p = pkg r in length (content p) = 50 \<and>
     ((status p = 0 \<and> bIdx r = 0 \<and> (hdr r = 0 \<or> (hdr r = 5 \<and> (\<exists>q. h = q @ [0x05])))) \<or>
      (status p = 1 \<and> header p = FSUS_PACK_RESPONSE_HEADER \<and> bIdx r = 0 \<and> (\<exists>q. h = q @ [0x05, 0x1C])) \<or>
      (status p = 3 \<and> header p = FSUS_PACK_RESPONSE_HEADER \<and> bIdx r = 0 \<and> cmdId p \<le> 17 \<and> (\<exists>q. h = q @ [0x05, 0x1C, cmdId p])) \<or>
      (status p = 7 \<and> header p = FSUS_PACK_RESPONSE_HEADER \<and> cmdId p \<le> 17 \<and> unat (psize p) \<le> 45 \<and> unat (bIdx r) \<le> 50 \<and>
        (psize p = 0 \<or> bIdx r < psize p) \<and>
        (\<exists>q. h = q @ [0x05, 0x1C, cmdId p, psize p] @ take (unat (bIdx r)) (content p))) \<or>
      (status p = 15 \<and> header p = FSUS_PACK_RESPONSE_HEADER \<and> cmdId p \<le> 17 \<and> unat (psize p) \<le> 45 \<and> psize p \<noteq> 0 \<and>
        (\<exists>q. h = q @ [0x05, 0x1C, cmdId p, psize p] @ take (unat (psize p)) (content p)))))"

lemma flag_tests [simp]:
  "(0 :: u8) AND 8 = 0" "(1 :: u8) AND 8 = 0" "(3 :: u8) AND 8 = 0" "(7 :: u8) AND 8 = 0" "(15 :: u8) AND 8 = 8"
  by simp_all

lemma hdr_byte: "(ucast b :: u16) = 5 \<longleftrightarrow> b = 5" for b :: u8
proof -
  have "(ucast b :: u16) = mk16 0 b" "(5 :: u16) = mk16 0 5" by (simp_all add: mk16_def)
  then show ?thesis by (simp only: mk16_inject) simp
qed

lemma hdr_pair: "(5 :: u16) OR push_bit 8 (ucast b) = 0x1C05 \<longleftrightarrow> b = 0x1C" for b :: u8
proof -
  have "(5 :: u16) OR push_bit 8 (ucast b) = mk16 b 5" by (simp add: mk16_def or.commute)
  moreover have "(0x1C05 :: u16) = mk16 0x1C 5" by (simp add: mk16_def)
  ultimately show ?thesis by (simp only: mk16_inject) simp
qed

text \<open>One byte keeps the knowledge, or the receiver returns; its only fault is an array overrun.\<close>

lemma checksum_ok:
  "unat (psize p) \<le> length (content p) \<Longrightarrow> FSUS_CalcChecksum junk p =
     Inr (junk + lo8 (header p) + hi8 (header p) + cmdId p + psize p + sum_list (take (unat (psize p)) (content p)))"
  by (simp add: FSUS_CalcChecksum_def foldl_sum)

lemma recv_byte_step:
  assumes "knows r h"
  shows "case recv_byte junk r b of
      Inl e \<Rightarrow> e = OutOfBounds \<and> (\<exists>q cmd body. h = q @ [0x05, 0x1C, cmd, 0] @ body \<and> cmd \<le> 17 \<and> length body = 50)
    | Inr (r', None) \<Rightarrow> knows r' (h @ [b])
    | Inr (r', Some code) \<Rightarrow> code \<noteq> FSUS_STATUS_TIMEOUT \<and> (code = FSUS_STATUS_SUCCESS \<longrightarrow>
        (let p = pkg r'; n = unat (psize p) in
         header p = FSUS_PACK_RESPONSE_HEADER \<and> cmdId p \<le> 17 \<and> 0 < n \<and> n \<le> 45 \<and> length (content p) = 50 \<and>
         FSUS_IsValidResponsePackage junk p = Inr FSUS_STATUS_SUCCESS \<and>
         (\<exists>q. h @ [b] = q @ answer junk (cmdId p) (psize p) (take n (content p)))))"
proof -
  let ?p = "pkg r"
  have len: "length (content ?p) = 50" using assms by (simp add: knows_def Let_def)
  consider (zero) "status ?p = 0" "bIdx r = 0" "hdr r = 0 \<or> (hdr r = 5 \<and> (\<exists>q. h = q @ [0x05]))"
    | (one) q where "status ?p = 1" "header ?p = FSUS_PACK_RESPONSE_HEADER" "bIdx r = 0" "h = q @ [0x05, 0x1C]"
    | (three) q where "status ?p = 3" "header ?p = FSUS_PACK_RESPONSE_HEADER" "bIdx r = 0" "cmdId ?p \<le> 17" "h = q @ [0x05, 0x1C, cmdId ?p]"
    | (seven) q where "status ?p = 7" "header ?p = FSUS_PACK_RESPONSE_HEADER" "cmdId ?p \<le> 17" "unat (psize ?p) \<le> 45" "unat (bIdx r) \<le> 50"
        "psize ?p = 0 \<or> bIdx r < psize ?p" "h = q @ [0x05, 0x1C, cmdId ?p, psize ?p] @ take (unat (bIdx r)) (content ?p)"
    | (full) q where "status ?p = 15" "header ?p = FSUS_PACK_RESPONSE_HEADER" "cmdId ?p \<le> 17" "unat (psize ?p) \<le> 45" "psize ?p \<noteq> 0"
        "h = q @ [0x05, 0x1C, cmdId ?p, psize ?p] @ take (unat (psize ?p)) (content ?p)"
    using assms unfolding knows_def Let_def by blast
  then show ?thesis
  proof cases
    case zero
    then show ?thesis using len
      by (cases "hdr r = 0") (auto simp: recv_byte_def Let_def knows_def hdr_byte hdr_pair)
  next
    case one
    then show ?thesis using len by (auto simp: recv_byte_def Let_def knows_def not_less)
  next
    case three
    then show ?thesis using len by (auto simp: recv_byte_def Let_def knows_def not_less word_gt_0)
  next
    case seven
    show ?thesis
    proof (cases "unat (bIdx r) = 50")
      case True
      then have "psize ?p = 0" using seven by (auto simp: word_less_nat_alt)
      then have "h = q @ [0x05, 0x1C, cmdId ?p, 0] @ content ?p" using seven len True by simp
      moreover have "recv_byte junk r b = Inl OutOfBounds"
        using seven len True by (simp add: recv_byte_def Let_def wr_def)
      ultimately show ?thesis using seven len by auto
    next
      case False
      then have i: "unat (bIdx r) < 50" using seven by simp
      then have i1: "unat (bIdx r + 1) = Suc (unat (bIdx r))"
        using unat_u8_inc [of "bIdx r"] by simp
      have "bIdx r + 1 = psize ?p \<longleftrightarrow> unat (psize ?p) = Suc (unat (bIdx r))"
        using i1 by (auto simp: word_unat_eq_iff)
      then show ?thesis using seven len i i1
        by (auto simp: recv_byte_def Let_def knows_def word_less_nat_alt)
    qed
  next
    case full
    then show ?thesis using len
      by (auto simp: recv_byte_def Let_def checksum_ok FSUS_IsValidResponsePackage_def not_less answer_def word_gt_0 unat_gt_0 intro!: exI [of _ q])
  qed
qed

lemma recv_loop_sound:
  assumes "knows r h"
  shows "case recv_loop junk r es of
      Inl e \<Rightarrow> e = OutOfBounds \<and> (\<exists>q cmd body w. h @ bytes es = q @ [0x05, 0x1C, cmd, 0] @ body @ w \<and> cmd \<le> 17 \<and> length body = 51)
    | Inr (code, r', es') \<Rightarrow> (\<exists>used. es = used @ es' \<and> (code = FSUS_STATUS_SUCCESS \<longrightarrow>
        (let p = pkg r'; n = unat (psize p) in
         header p = FSUS_PACK_RESPONSE_HEADER \<and> cmdId p \<le> 17 \<and> 0 < n \<and> n \<le> 45 \<and> length (content p) = 50 \<and>
         FSUS_IsValidResponsePackage junk p = Inr FSUS_STATUS_SUCCESS \<and>
         (\<exists>q. h @ bytes used = q @ answer junk (cmdId p) (psize p) (take n (content p))))))"
  using assms
proof (induction junk r es arbitrary: h rule: recv_loop.induct)
  case (1 junk r)
  then show ?case by simp
next
  case (2 junk r woken es)
  show ?case
  proof (cases woken)
    case True
    then show ?thesis using "2.IH" [OF True "2.prems"]
      by (cases "recv_loop junk r es") (auto intro: exI [of _ "Empty woken # used" for used])
  qed (auto intro: exI [of _ "[Empty woken]"])
next
  case (3 junk r b es)
  note step = recv_byte_step [OF "3.prems", where junk = junk and b = b]
  show ?case
  proof (cases "recv_byte junk r b")
    case (Inl e)
    then obtain q cmd body where "e = OutOfBounds" "h = q @ [0x05, 0x1C, cmd, 0] @ body" "cmd \<le> 17" "length body = 50"
      using step by auto
    then have "h @ bytes (Got b # es) = q @ [0x05, 0x1C, cmd, 0] @ (body @ [b]) @ bytes es \<and> cmd \<le> 17 \<and> length (body @ [b]) = 51"
      by simp
    then show ?thesis using Inl \<open>e = OutOfBounds\<close> by (simp only: recv_loop.simps cbind.simps sum.case) blast
  next
    case (Inr x)
    obtain r' st where x: "x = (r', st)" by (cases x)
    show ?thesis
    proof (cases st)
      case None
      then have "knows r' (h @ [b])" using step Inr x by simp
      from "3.IH" [OF this] show ?thesis using Inr x None
        by (cases "recv_loop junk r' es") (auto intro: exI [of _ "Got b # used" for used])
    next
      case (Some code)
      then show ?thesis using step Inr x by (auto simp: Let_def intro!: exI [of _ "[Got b]"])
    qed
  qed
qed

lemma knows_start: "length (content p) = 50 \<Longrightarrow> knows \<lparr>bIdx = 0, hdr = 0, pkg = p\<lparr>status := 0\<rparr>\<rparr> []"
  by (simp add: knows_def)

section \<open>Answers are received\<close>

text \<open>The bytes before the last one; the receiver does not return on any of them.\<close>

fun feed_bytes :: "u8 \<Rightarrow> recv \<Rightarrow> u8 list \<Rightarrow> (recv \<times> u8 option) cres" where
  "feed_bytes junk r [] = Inr (r, None)"
| "feed_bytes junk r (b # bs) =
     cbind (recv_byte junk r b) (\<lambda>(r, st). case st of None \<Rightarrow> feed_bytes junk r bs | Some c \<Rightarrow> Inr (r, Some c))"

lemma feed_bytes_append:
  "feed_bytes junk r xs = Inr (r', None) \<Longrightarrow> feed_bytes junk r (xs @ ys) = feed_bytes junk r' ys"
  by (induction xs arbitrary: r) (auto split: option.splits)

lemma loop_bytes:
  "plain es \<Longrightarrow> feed_bytes junk r (bytes es) = Inr (r', None) \<Longrightarrow>
     recv_loop junk r (es @ rest) = recv_loop junk r' rest"
proof (induction es arbitrary: r)
  case (Cons e es)
  show ?case
  proof (cases e)
    case (Got b)
    then show ?thesis using Cons by (auto simp: plain_def split: option.splits)
  next
    case (Empty w)
    then show ?thesis using Cons by (simp add: plain_def)
  qed
qed simp

lemma hdr_same [simp]: "hdr r = 0 \<Longrightarrow> r\<lparr>hdr := 0\<rparr> = r"
  by (cases r) simp

lemma feed_noise:
  "0x05 \<notin> set noise \<Longrightarrow> status (pkg r) = 0 \<Longrightarrow> hdr r = 0 \<Longrightarrow> feed_bytes junk r noise = Inr (r, None)"
  by (induction noise) (auto simp: recv_byte_def Let_def hdr_byte)

lemma content_byte:
  assumes "status (pkg r) = 7" "unat (bIdx r) < length (content (pkg r))"
  shows "recv_byte junk r b = Inr (r\<lparr>bIdx := bIdx r + 1, pkg := (pkg r)\<lparr>content := (content (pkg r))[unat (bIdx r) := b],
    status := (if bIdx r + 1 = psize (pkg r) then 15 else 7)\<rparr>\<rparr>, None)"
  using assms by (cases "pkg r") (simp add: recv_byte_def Let_def)

lemma feed_content:
  assumes "status (pkg r) = 7" "length (content (pkg r)) = 50" "unat (bIdx r) + length cs = unat (psize (pkg r))"
    "unat (psize (pkg r)) \<le> 45" "cs \<noteq> []"
  shows "feed_bytes junk r cs = Inr (r\<lparr>bIdx := psize (pkg r), pkg := (pkg r)\<lparr>
    content := take (unat (bIdx r)) (content (pkg r)) @ cs @ drop (unat (psize (pkg r))) (content (pkg r)), status := 15\<rparr>\<rparr>, None)"
  using assms
proof (induction cs arbitrary: r)
  case (Cons c cs)
  let ?i = "unat (bIdx r)" and ?ct = "content (pkg r)"
  have i1: "unat (bIdx r + 1) = ?i + 1" using Cons.prems by (intro unat_u8_inc) simp
  have done_iff: "bIdx r + 1 = psize (pkg r) \<longleftrightarrow> cs = []"
    using Cons.prems(3) i1 by (cases cs) (simp_all add: word_unat_eq_iff)
  note byte = content_byte [OF Cons.prems(1), where b = c and junk = junk]
  show ?case
  proof (cases "cs = []")
    case True
    then have "drop (unat (psize (pkg r))) (?ct[?i := c]) = drop (unat (psize (pkg r))) ?ct"
      "take ?i (?ct[?i := c]) = take ?i ?ct" "unat (psize (pkg r)) = Suc ?i"
      using Cons.prems by auto
    moreover have "?ct[?i := c] = take ?i ?ct @ [c] @ drop (Suc ?i) ?ct"
      using Cons.prems True by (simp add: upd_conv_take_nth_drop)
    ultimately show ?thesis using byte done_iff True Cons.prems by simp
  next
    case False
    let ?r = "r\<lparr>bIdx := bIdx r + 1, pkg := (pkg r)\<lparr>content := ?ct[?i := c], status := 7\<rparr>\<rparr>"
    have "feed_bytes junk ?r cs = Inr (?r\<lparr>bIdx := psize (pkg ?r), pkg := (pkg ?r)\<lparr>
        content := take (unat (bIdx ?r)) (content (pkg ?r)) @ cs @ drop (unat (psize (pkg ?r))) (content (pkg ?r)), status := 15\<rparr>\<rparr>, None)"
      by (rule Cons.IH) (use Cons.prems False i1 in simp_all)
    moreover have "take (Suc ?i) (?ct[?i := c]) = take ?i ?ct @ [c]" using Cons.prems by (simp add: take_Suc_update)
    ultimately show ?thesis using byte done_iff False Cons.prems i1 by simp
  qed
qed simp

lemma feed_header:
  assumes "status (pkg r) = 0" "hdr r = 0" "cmd \<le> 17" "unat sz \<le> 45"
  shows "feed_bytes junk r [0x05, 0x1C, cmd, sz] = Inr (r\<lparr>hdr := 0x1C05, pkg := (pkg r)\<lparr>header := 0x1C05, cmdId := cmd, psize := sz, status := 7\<rparr>\<rparr>, None)"
  using assms by (cases r) (simp add: recv_byte_def Let_def hdr_pair not_less push_bit_eq_mult)

lemma recv_answer:
  assumes "plain es" "bytes es @ [b] = noise @ answer junk cmd sz cs" "0x05 \<notin> set noise" "cmd \<le> 17"
    "0 < length cs" "length cs \<le> 45" "length cs = unat sz" "length (content p) = 50"
  shows "recv_loop junk \<lparr>bIdx = 0, hdr = 0, pkg = p\<lparr>status := 0\<rparr>\<rparr> (es @ Got b # rest) =
    Inr (FSUS_STATUS_SUCCESS, \<lparr>bIdx = sz, hdr = 0x1C05, pkg = p\<lparr>header := 0x1C05, cmdId := cmd, psize := sz,
      content := cs @ drop (unat sz) (content p), status := 31, checksum := b\<rparr>\<rparr>, rest)"
proof -
  let ?r = "\<lparr>bIdx = 0, hdr = 0, pkg = p\<lparr>status := 0\<rparr>\<rparr>"
  let ?q = "p\<lparr>header := 0x1C05, cmdId := cmd, psize := sz, content := cs @ drop (unat sz) (content p), status := 15\<rparr>"
  have e: "bytes es = noise @ ([0x05, 0x1C, cmd, sz] @ cs)" "b = junk + 0x21 + cmd + sz + sum_list cs"
    using assms(2) by (simp_all add: answer_def append_eq_append_conv2 flip: append_assoc)
  have "feed_bytes junk ?r (noise @ ([0x05, 0x1C, cmd, sz] @ cs)) = feed_bytes junk ?r ([0x05, 0x1C, cmd, sz] @ cs)"
    by (rule feed_bytes_append [OF feed_noise]) (simp_all add: assms)
  also have "\<dots> = feed_bytes junk (?r\<lparr>hdr := 0x1C05, pkg := (pkg ?r)\<lparr>header := 0x1C05, cmdId := cmd, psize := sz, status := 7\<rparr>\<rparr>) cs"
    by (rule feed_bytes_append [OF feed_header]) (use assms in simp_all)
  also have "\<dots> = Inr (\<lparr>bIdx = sz, hdr = 0x1C05, pkg = ?q\<rparr>, None)"
    by (subst feed_content) (use assms in \<open>auto simp: \<close>)
  finally have "feed_bytes junk ?r (bytes es) = Inr (\<lparr>bIdx = sz, hdr = 0x1C05, pkg = ?q\<rparr>, None)" by (simp only: e)
  from loop_bytes [OF assms(1) this, of "Got b # rest"]
  have "recv_loop junk ?r (es @ Got b # rest) = recv_loop junk \<lparr>bIdx = sz, hdr = 0x1C05, pkg = ?q\<rparr> (Got b # rest)" .
  also have "recv_byte junk \<lparr>bIdx = sz, hdr = 0x1C05, pkg = ?q\<rparr> b =
      Inr (\<lparr>bIdx = sz, hdr = 0x1C05, pkg = ?q\<lparr>checksum := b, status := 31\<rparr>\<rparr>, Some FSUS_STATUS_SUCCESS)"
    using assms e(2) by (simp add: recv_byte_def Let_def checksum_ok)
  then have "recv_loop junk \<lparr>bIdx = sz, hdr = 0x1C05, pkg = ?q\<rparr> (Got b # rest) =
      Inr (FSUS_STATUS_SUCCESS, \<lparr>bIdx = sz, hdr = 0x1C05, pkg = ?q\<lparr>checksum := b, status := 31\<rparr>\<rparr>, rest)" by simp
  finally show ?thesis by simp
qed

text \<open>A length of zero is not caught: the content runs past its array.\<close>

lemma zero_content:
  "status (pkg r) = 7 \<Longrightarrow> psize (pkg r) = 0 \<Longrightarrow> length (content (pkg r)) = 50 \<Longrightarrow> unat (bIdx r) \<le> 50 \<Longrightarrow> unat (bIdx r) + length cs = 51 \<Longrightarrow>
     feed_bytes junk r cs = Inl OutOfBounds"
proof (induction cs arbitrary: r)
  case (Cons c cs)
  show ?case
  proof (cases "unat (bIdx r) < 50")
    case True
    then have i1: "unat (bIdx r + 1) = unat (bIdx r) + 1" by (intro unat_u8_inc) simp
    then have "bIdx r + 1 \<noteq> 0" by (metis add_is_0 one_neq_zero unat_0)
    then show ?thesis using Cons True i1 by (simp add: content_byte)
  next
    case False
    then show ?thesis using Cons.prems by (simp add: recv_byte_def Let_def wr_def)
  qed
qed simp

section \<open>What the operations keep\<close>

text \<open>
  \<open>keeps n s r\<close>: when \<open>r\<close> returns, the calling thread holds the mutex as often as before, the buffer
  has its size and at most \<open>n\<close> frames were sent.
\<close>

definition keeps :: "nat \<Rightarrow> servo \<Rightarrow> ('a \<times> servo) cres \<Rightarrow> bool" where
  "keeps n s r = ensured r (\<lambda>(x, s'). holds s' = holds s \<and> ready s' \<and> length (sent s') \<le> length (sent s) + n)"

lemma send_frame:
  assumes "ready s" "FSUS_SendPackage s cmd sz cont = Inr s'"
  shows "holds s' = holds s" "ready s'" "length (sent s') = Suc (length (sent s))" "rx s' = rx s" "stale s' = stale s"
    "drawn s' = drawn s + 51" "takes s' = takes s" "stale_angle s' = stale_angle s"
    "sent s' = sent s @ [request (stale s (drawn s + 50)) cmd sz (take (unat sz) cont)]"
proof -
  have "unat sz \<le> 50" using assms(2) send_too_big [of sz s cmd cont] by (cases "50 < unat sz") auto
  moreover have "unat sz \<le> length cont"
    using assms(2) by (auto simp: FSUS_SendPackage_def draw_pkg_def draw_def Let_def rd_n_def split: if_splits)
  ultimately obtain b where "length b = 55" "s' = s\<lparr>drawn := drawn s + 51, tx_buf := b,
      sent := sent s @ [request (stale s (drawn s + 50)) cmd sz (take (unat sz) cont)]\<rparr>"
    using send_ok [OF assms(1), of sz cont cmd] assms(2) by auto
  then show "holds s' = holds s" "ready s'" "length (sent s') = Suc (length (sent s))" "rx s' = rx s" "stale s' = stale s"
    "drawn s' = drawn s + 51" "takes s' = takes s" "stale_angle s' = stale_angle s"
    "sent s' = sent s @ [request (stale s (drawn s + 50)) cmd sz (take (unat sz) cont)]"
    by (simp_all add: ready_def)
qed

lemma recv_code: "recv_byte junk r b = Inr (r', Some c) \<Longrightarrow> c \<in> {0, 4, 5, 6}"
  by (auto simp: recv_byte_def Let_def split: if_splits)

lemma recv_loop_code: "recv_loop junk r es = Inr (c, r', es') \<Longrightarrow> c \<in> {0, 2, 4, 5, 6}"
  by (induction junk r es rule: recv_loop.induct) (auto split: if_splits option.splits dest: recv_code)

lemma recv_keeps:
  assumes "FSUS_RecvPackage s p = Inr (c, p', s')"
  shows "holds s' = holds s" "ready s' = ready s" "sent s' = sent s" "c \<in> {0, 2, 4, 5, 6}" "c \<noteq> 7"
    "takes s' = takes s" "stale_angle s' = stale_angle s"
proof -
  show c: "c \<in> {0, 2, 4, 5, 6}"
  proof -
    obtain r' es' where "recv_loop (stale s (drawn s)) \<lparr>bIdx = 0, hdr = 0, pkg = p\<lparr>status := 0\<rparr>\<rparr> (rx s) = Inr (c, r', es')"
      using assms by (auto simp: FSUS_RecvPackage_def draw_def Let_def)
    then show ?thesis by (rule recv_loop_code)
  qed
  then show "c \<noteq> 7" by auto
qed (use assms in \<open>auto simp: FSUS_RecvPackage_def draw_def Let_def ready_def case_prod_beta\<close>)

lemma take_frame:
  assumes "rt_mutex_take s = (ok, s')"
  shows "holds s' = (if ok then holds s + 1 else holds s)" "ready s' = ready s" "sent s' = sent s" "rx s' = rx s"
    "stale s' = stale s" "drawn s' = drawn s" "stale_angle s' = stale_angle s"
  using assms by (auto simp: rt_mutex_take_def ready_def split: if_splits list.splits)

lemma draw_frame [simp]:
  "holds (snd (draw_pkg s)) = holds s" "ready (snd (draw_pkg s)) = ready s" "sent (snd (draw_pkg s)) = sent s"
  "length (content (fst (draw_pkg s))) = 50"
  by (simp_all add: draw_pkg_def ready_def)

lemma release_frame [simp]:
  "holds (rt_mutex_release s) = holds s - 1" "ready (rt_mutex_release s) = ready s" "sent (rt_mutex_release s) = sent s"
  by (simp_all add: rt_mutex_release_def ready_def)

lemma ensured_send:
  assumes "ready s"
    "\<And>s'. holds s' = holds s \<Longrightarrow> ready s' \<Longrightarrow> sent s' = sent s @ [request (stale s (drawn s + 50)) cmd sz (take (unat sz) cont)] \<Longrightarrow> Q s'"
  shows "ensured (FSUS_SendPackage s cmd sz cont) Q"
proof (rule ensuredI)
  fix s' assume r: "FSUS_SendPackage s cmd sz cont = Inr s'"
  show "Q s'" using send_frame [OF assms(1) r] by (intro assms(2))
qed

lemma ensured_recv:
  assumes "\<And>c p' s'. holds s' = holds s \<Longrightarrow> ready s' = ready s \<Longrightarrow> sent s' = sent s \<Longrightarrow> c \<noteq> 7 \<Longrightarrow> Q (c, p', s')"
  shows "ensured (FSUS_RecvPackage s p) Q"
  by (rule ensuredI) (use assms recv_keeps in \<open>metis prod_cases3\<close>)

lemma ensured_any: "(\<And>x. Q x) \<Longrightarrow> ensured r Q"
  by (rule ensuredI)

lemma ensured_locked:
  assumes "\<And>s1. ready s1 = ready s \<Longrightarrow> holds s1 = Suc (holds s) \<Longrightarrow> sent s1 = sent s \<Longrightarrow> ensured (k s1) Q"
    "\<And>s1. ready s1 = ready s \<Longrightarrow> holds s1 = holds s \<Longrightarrow> sent s1 = sent s \<Longrightarrow> Q (t, s1)"
  shows "ensured (locked s t k) Q"
proof (cases "rt_mutex_take s")
  case (Pair ok s1)
  then show ?thesis using assms take_frame [OF Pair] by (cases ok) (simp_all add: locked_def)
qed

lemmas ensured_rules = ensured_send ensured_recv ensured_any [of _ "rd xs i" for xs i]

lemma Ping_keeps: "ready s \<Longrightarrow> keeps 1 s (FSUS_Ping s i)"
  unfolding FSUS_Ping_def keeps_def
  by (intro ensured_locked) (auto simp: Let_def case_prod_beta intro!: ensured_rules)

lemma Reset_keeps: "ready s \<Longrightarrow> keeps 1 s (FSUS_ResetUserData s i)"
  unfolding FSUS_ResetUserData_def keeps_def
  by (intro ensured_locked) (auto simp: Let_def case_prod_beta intro!: ensured_rules)

lemma WheelMove_keeps: "ready s \<Longrightarrow> keeps 1 s (FSUS_WheelMove s i m sp v)"
  unfolding FSUS_WheelMove_def keeps_def
  by (intro ensured_locked) (auto intro!: ensured_rules)

lemma Damping_keeps: "ready s \<Longrightarrow> keeps 1 s (FSUS_DampingMode s i p)"
  unfolding FSUS_DampingMode_def keeps_def
  by (intro ensured_locked) (auto intro!: ensured_rules)

lemma Query_keeps: "ready s \<Longrightarrow> keeps 1 s (FSUS_QueryServoAngle s i)"
  unfolding FSUS_QueryServoAngle_def keeps_def
  by (intro ensured_locked) (auto simp: Let_def case_prod_beta intro!: ensured_rules)

lemma QueryMTurn_lock:
  "ready s \<Longrightarrow> ensured (FSUS_QueryServoAngleMTurn s i) (\<lambda>((c, a), s').
     holds s' = holds s + (if c = FSUS_STATUS_ID_NOT_MATCH then 1 else 0) \<and> ready s' \<and> length (sent s') \<le> length (sent s) + 1)"
  unfolding FSUS_QueryServoAngleMTurn_def
  by (intro ensured_locked) (auto simp: Let_def case_prod_beta intro!: ensured_rules)

lemma wait_loop_keeps: "ready s \<Longrightarrow> keeps n s (wait_loop n s i target 0 a)"
proof (induction n arbitrary: s a)
  case (Suc n)
  show ?case unfolding keeps_def
    by (auto simp: Let_def case_prod_beta intro!: ensured_mono [OF Query_keeps [unfolded keeps_def, OF Suc.prems]]
      ensured_mono [OF Suc.IH [unfolded keeps_def]])
qed (simp add: keeps_def)

lemma wait_loop_mturn:
  "ready s \<Longrightarrow> ensured (wait_loop n s i target m a) (\<lambda>(c, s'). c \<in> {FSUS_STATUS_SUCCESS, FSUS_STATUS_FAIL} \<and>
     holds s \<le> holds s' \<and> ready s' \<and> length (sent s') \<le> length (sent s) + n)"
proof (induction n arbitrary: s a m)
  case (Suc n)
  show ?case
    by (auto simp: Let_def case_prod_beta intro!: ensured_mono [OF Query_keeps [unfolded keeps_def, OF Suc.prems]]
      ensured_mono [OF QueryMTurn_lock [OF Suc.prems]] ensured_mono [OF Suc.IH])
qed simp

lemma send_wait_keeps: "ready s \<Longrightarrow> keeps 10001 s (send_wait s i cmd sz buf angle 0 w)"
  unfolding send_wait_def keeps_def
  by (intro ensured_locked) (auto simp: Let_def FSUS_Wait_def intro!: ensured_send ensured_mono [OF wait_loop_keeps [unfolded keeps_def]])

section \<open>Angles\<close>

lemma clampf_bounded:
  assumes "a \<noteq> NaN" "0 \<le> b"
  obtains c where "clampf (- b) b a = Fin c" "\<bar>c\<bar> \<le> b" "\<forall>x. a = Fin x \<longrightarrow> c = max (- b) (min b x)"
proof (cases a)
  case (Inf t)
  show ?thesis
  proof (cases t)
    case True
    then show ?thesis using Inf assms(2) by (intro that [of "- b"]) (simp_all add: clampf_def)
  next
    case False
    then show ?thesis using Inf assms(2) by (intro that [of b]) (simp_all add: clampf_def)
  qed
next
  case (Fin x)
  then show ?thesis using assms(2) by (auto simp: clampf_def intro!: that [of "max (- b) (min b x)"])
qed (use assms(1) in simp)

text \<open>Ten times a bounded angle, as the integer of the command.\<close>

lemma tenths:
  assumes "\<bar>c\<bar> \<le> 180"
  obtains v where "to_int16 (fmul f32 (Fin 10) (Fin c)) = Inr v" "\<bar>v\<bar> \<le> 1800" "\<bar>of_int v - 10 * c\<bar> < 1 + 1 / 2 ^ 14"
proof -
  have "\<bar>10 * c\<bar> \<le> of_int 1800" using assms by simp
  then obtain r where r: "f32 (10 * c) = Fin r" "\<bar>r\<bar> \<le> of_int 1800" "r = rnd 24 (- 126) (10 * c)"
    by (rule f32_bounded) simp
  have t: "\<bar>trunc r\<bar> \<le> 1800" using trunc_bound [OF r(2)] .
  have "\<bar>of_int (trunc r) - 10 * c\<bar> < 1 + 1 / 2 ^ 14"
  proof -
    have "\<bar>10 * c\<bar> < 2048" using assms by simp
    then have "\<bar>r - 10 * c\<bar> \<le> 1 / 2 ^ 14" using rnd32_error r(3) by simp
    then show ?thesis using trunc_error [of r] by (simp only: abs_le_iff abs_less_iff) linarith
  qed
  moreover have "- 32768 \<le> trunc r" "trunc r \<le> 32767" using t by linarith+
  ultimately show ?thesis using t r by (intro that [of "trunc r"]) (simp_all add: to_int16_def)
qed

lemma mturn_limit: "to_int32 (fmul f32 (Fin 10) (Fin 4096000)) = Inr 40960000"
proof -
  have "rnd 24 (- 126) (of_int 625 * 2 powi 16) = of_int 625 * 2 powi 16" by (rule rnd_exact) simp_all
  then have "f32 40960000 = Fin 40960000" by (simp add: f32_def)
  moreover have "trunc 40960000 = 40960000" using trunc_of_int [of 40960000] by simp
  ultimately show ?thesis by (simp add: to_int32_def)
qed

section \<open>A silent line\<close>

definition silent :: "servo \<Rightarrow> bool" where
  "silent s = (ready s \<and> rx s = [] \<and> takes s = [])"

lemma silent_take: "silent s \<Longrightarrow> holds s < 255 \<Longrightarrow> \<exists>s'. rt_mutex_take s = (True, s') \<and> silent s' \<and> sent s' = sent s \<and> holds s' = Suc (holds s) \<and> stale_angle s' = stale_angle s"
  by (auto simp: rt_mutex_take_def silent_def ready_def)

lemma silent_send:
  assumes "silent s" "unat sz \<le> 50" "unat sz \<le> length cont"
  obtains s' where "FSUS_SendPackage s cmd sz cont = Inr s'" "silent s'" "sent s' = sent s @ [request (stale s (drawn s + 50)) cmd sz (take (unat sz) cont)]"
    "holds s' = holds s" "stale_angle s' = stale_angle s"
proof -
  have r: "ready s" using assms(1) by (simp add: silent_def)
  obtain b where "length b = 55" "FSUS_SendPackage s cmd sz cont =
      Inr (s\<lparr>drawn := drawn s + 51, tx_buf := b, sent := sent s @ [request (stale s (drawn s + 50)) cmd sz (take (unat sz) cont)]\<rparr>)"
    using send_ok [OF r assms(2,3)] by blast
  then show ?thesis using assms(1) by (intro that [OF \<open>FSUS_SendPackage s cmd sz cont = _\<close>]) (simp_all add: silent_def ready_def)
qed

lemma silent_recv: "silent s \<Longrightarrow> \<exists>p' s'. FSUS_RecvPackage s p = Inr (FSUS_STATUS_TIMEOUT, p', s') \<and> silent s' \<and>
    sent s' = sent s \<and> holds s' = holds s \<and> stale_angle s' = stale_angle s"
  by (auto simp: FSUS_RecvPackage_def draw_def Let_def silent_def ready_def)

lemma silent_draw: "silent s \<Longrightarrow> draw_pkg s = (p, s') \<Longrightarrow> silent s' \<and> sent s' = sent s \<and> holds s' = holds s \<and> stale_angle s' = stale_angle s"
  by (auto simp: draw_pkg_def silent_def ready_def)

lemma silent_release: "silent s \<Longrightarrow> silent (rt_mutex_release s) \<and> stale_angle (rt_mutex_release s) = stale_angle s"
  by (simp add: silent_def ready_def rt_mutex_release_def)

lemma silent_exchange:
  assumes "silent s"
  obtains s2 p3 s3 p4 s4 where "FSUS_SendPackage s cmd 1 [i] = Inr s2" "draw_pkg s2 = (p3, s3)"
    "FSUS_RecvPackage s3 p3 = Inr (FSUS_STATUS_TIMEOUT, p4, s4)" "silent s4" "holds s4 = holds s"
    "length (sent s4) = Suc (length (sent s))" "stale_angle s4 = stale_angle s"
proof -
  obtain s2 where s2: "FSUS_SendPackage s cmd 1 [i] = Inr s2" "silent s2" "length (sent s2) = Suc (length (sent s))"
      "holds s2 = holds s" "stale_angle s2 = stale_angle s"
    by (rule silent_send [OF assms, of 1 "[i]" cmd]) simp_all
  obtain p3 s3 where s3: "draw_pkg s2 = (p3, s3)" by fastforce
  note q = silent_draw [OF s2(2) s3]
  obtain p4 s4 where "FSUS_RecvPackage s3 p3 = Inr (FSUS_STATUS_TIMEOUT, p4, s4)" "silent s4"
      "sent s4 = sent s3" "holds s4 = holds s3" "stale_angle s4 = stale_angle s3"
    using silent_recv q by blast
  then show ?thesis using that s2 s3 q by metis
qed

lemma silent_query:
  assumes "silent s"
  shows "\<exists>s'. (if m \<noteq> 0 then FSUS_QueryServoAngleMTurn s i else FSUS_QueryServoAngle s i) = Inr ((FSUS_STATUS_TIMEOUT, None), s') \<and>
    silent s' \<and> holds s' = holds s \<and> stale_angle s' = stale_angle s"
proof (cases "holds s < 255")
  case True
  obtain s1 where s1: "rt_mutex_take s = (True, s1)" "silent s1" "sent s1 = sent s" "holds s1 = Suc (holds s)" "stale_angle s1 = stale_angle s"
    using silent_take [OF assms True] by blast
  obtain s2 p3 s3 p4 s4 where e: "FSUS_SendPackage s1 (if m \<noteq> 0 then 16 else 10) 1 [i] = Inr s2" "draw_pkg s2 = (p3, s3)"
      "FSUS_RecvPackage s3 p3 = Inr (FSUS_STATUS_TIMEOUT, p4, s4)" "silent s4" "holds s4 = holds s1"
      "length (sent s4) = Suc (length (sent s1))" "stale_angle s4 = stale_angle s1"
    by (rule silent_exchange [OF s1(2)])
  have "(if m \<noteq> 0 then FSUS_QueryServoAngleMTurn s i else FSUS_QueryServoAngle s i) = Inr ((FSUS_STATUS_TIMEOUT, None), rt_mutex_release s4)"
    using e(1-3) by (cases "m = 0") (simp_all add: FSUS_QueryServoAngleMTurn_def FSUS_QueryServoAngle_def locked_def s1(1))
  then show ?thesis using e s1 silent_release [OF e(4)] by simp
next
  case False
  then have "rt_mutex_take s = (False, s)" by (simp add: rt_mutex_take_def)
  then show ?thesis using assms by (simp add: FSUS_QueryServoAngleMTurn_def FSUS_QueryServoAngle_def locked_def)
qed

lemma silent_wait:
  "silent s \<Longrightarrow> \<exists>s'. wait_loop n s i target m a =
     Inr (if 0 < n \<and> fle (fabsf (fsub f32 target a)) (Fin 1) then FSUS_STATUS_SUCCESS else FSUS_STATUS_FAIL, s')"
proof (induction n arbitrary: s)
  case (Suc n)
  obtain s1 where s1: "(if m \<noteq> 0 then FSUS_QueryServoAngleMTurn s i else FSUS_QueryServoAngle s i) = Inr ((FSUS_STATUS_TIMEOUT, None), s1)" "silent s1"
    using silent_query [OF Suc.prems] by blast
  show ?case unfolding wait_loop.simps s1(1) using Suc.IH [OF s1(2)] by (auto split: if_splits)
qed simp

lemma receive_ok:
  assumes "rx s = es @ Got b # rest" "plain es" "bytes es @ [b] = noise @ answer (stale s (drawn s)) cmd sz cs"
    "0x05 \<notin> set noise" "cmd \<le> 17" "0 < length cs" "length cs \<le> 45" "length cs = unat sz" "length (content p) = 50"
  shows "\<exists>p' s'. FSUS_RecvPackage s p = Inr (FSUS_STATUS_SUCCESS, p', s') \<and> rx s' = rest \<and>
    header p' = FSUS_PACK_RESPONSE_HEADER \<and> cmdId p' = cmd \<and> psize p' = sz \<and> length (content p') = 50 \<and>
    take (unat sz) (content p') = cs"
proof -
  have "unat sz \<le> 50" using assms(7,8) by simp
  then show ?thesis using recv_answer [OF assms(2-9), of rest] assms(8,9) unfolding FSUS_RecvPackage_def draw_def Let_def
    by (simp add: assms(1) del: recv_loop.simps)
qed

lemma receive_map:
  assumes "rx s = map Got (answer (stale s (drawn s)) cmd sz cs)" "cmd \<le> 17" "0 < length cs" "length cs \<le> 45"
    "length cs = unat sz" "length (content p) = 50"
  shows "\<exists>p' s'. FSUS_RecvPackage s p = Inr (FSUS_STATUS_SUCCESS, p', s') \<and> psize p' = sz \<and> length (content p') = 50 \<and>
    take (unat sz) (content p') = cs"
proof -
  let ?a = "answer (stale s (drawn s)) cmd sz cs"
  have "?a = butlast ?a @ [last ?a]" by (simp add: answer_def)
  then have "rx s = map Got (butlast ?a) @ Got (last ?a) # []" unfolding assms(1) by (metis list.simps(8,9) map_append)
  from receive_ok [OF this plain_map _ _ assms(2-6), of "[]"] \<open>?a = _\<close> show ?thesis by simp blast
qed

lemma free_take:
  assumes "ready s" "takes s = []" "holds s < 255"
  obtains s1 where "rt_mutex_take s = (True, s1)" "ready s1" "stale s1 = stale s" "drawn s1 = drawn s" "sent s1 = sent s"
  using assms by (cases "holds s = 0") (auto simp: rt_mutex_take_def ready_def)

lemma send_once:
  assumes "ready s" "takes s = []" "holds s < 255" "unat sz \<le> 50" "length buf = unat sz"
  shows "\<exists>s'. send_wait s i cmd sz buf angle m 0 = Inr (FSUS_STATUS_SUCCESS, s') \<and>
    sent s' = sent s @ [request (stale s (drawn s + 50)) cmd sz buf]"
proof -
  obtain s1 where s1: "rt_mutex_take s = (True, s1)" "ready s1" "stale s1 = stale s" "drawn s1 = drawn s" "sent s1 = sent s"
    by (rule free_take [OF assms(1-3)])
  obtain b where "length b = 55" "FSUS_SendPackage s1 cmd sz buf =
      Inr (s1\<lparr>drawn := drawn s1 + 51, tx_buf := b, sent := sent s1 @ [request (stale s1 (drawn s1 + 50)) cmd sz (take (unat sz) buf)]\<rparr>)"
    using send_ok [OF s1(2) assms(4), of buf cmd] assms(5) by auto
  then show ?thesis using s1 assms(5) by (simp add: send_wait_def locked_def)
qed

section \<open>Properties\<close>

text \<open>
  C33: a command of up to 50 bytes is written as one frame, header, command, length, content and a
  checksum that is too large by the value the uninitialised sum started with; a longer command
  overruns the package. In particular the frame is a valid one exactly when that value was 0.
\<close>

theorem servo_send_frame:
  assumes "ready s" "unat sz \<le> length cont"
  shows "if unat sz \<le> 50
    then \<exists>s'. FSUS_SendPackage s cmd sz cont = Inr s' \<and> ready s' \<and> holds s' = holds s \<and> rx s' = rx s \<and>
      (let junk = stale s (drawn s + 50); fr = request junk cmd sz (take (unat sz) cont) in
       sent s' = sent s @ [fr] \<and> (last fr = sum_list (butlast fr) \<longleftrightarrow> junk = 0))
    else FSUS_SendPackage s cmd sz cont = Inl OutOfBounds"
proof (cases "unat sz \<le> 50")
  case True
  obtain b where b: "length b = 55" "FSUS_SendPackage s cmd sz cont =
      Inr (s\<lparr>drawn := drawn s + 51, tx_buf := b, sent := sent s @ [request (stale s (drawn s + 50)) cmd sz (take (unat sz) cont)]\<rparr>)"
    using send_ok [OF assms(1) True assms(2)] by blast
  have "last (request j cmd sz cs) = sum_list (butlast (request j cmd sz cs)) \<longleftrightarrow> j = 0" for j cs
    by (simp add: request_def butlast_append algebra_simps)
  then show ?thesis using True b by (simp add: Let_def ready_def)
qed (simp add: send_too_big)

theorem servo_send_frame_witness:
  "\<exists>s'. FSUS_SendPackage \<lparr>tx_buf = replicate 55 0, sent = [], rx = [], takes = [], holds = 0, stale = (\<lambda>n. 3), drawn = 0, stale_angle = Fin 0\<rparr> 1 1 [7] = Inr s' \<and>
     sent s' = [[0x12, 0x4C, 1, 1, 7, 0x6A]]"
  using servo_send_frame [of "\<lparr>tx_buf = replicate 55 0, sent = [], rx = [], takes = [], holds = 0, stale = (\<lambda>n. 3), drawn = 0, stale_angle = Fin 0\<rparr>" 1 "[7]" 1]
  by (auto simp: ready_def Let_def request_def)

text \<open>
  C2: whatever the line delivers, a package is reported only when the bytes just taken end with a
  complete answer frame whose checksum fits (up to the uninitialised start value), the package
  holds its command, length and content, and the separate validity check accepts it; and the only
  way to a fault is a frame of length 0 followed by 51 bytes, which are written past the content array.
\<close>

theorem servo_receive_sound:
  assumes "length (content p) = 50"
  shows "case FSUS_RecvPackage s p of
      Inl e \<Rightarrow> e = OutOfBounds \<and>
        (\<exists>q cmd body w. bytes (rx s) = q @ [0x05, 0x1C, cmd, 0] @ body @ w \<and> cmd \<le> 17 \<and> length body = 51)
    | Inr (code, p', s') \<Rightarrow> \<exists>used. rx s = used @ rx s' \<and> (code = FSUS_STATUS_SUCCESS \<longrightarrow>
        (let n = unat (psize p'); junk = stale s (drawn s) in 0 < n \<and> n \<le> 45 \<and>
         FSUS_IsValidResponsePackage junk p' = Inr FSUS_STATUS_SUCCESS \<and>
         (\<exists>q. bytes used = q @ answer junk (cmdId p') (psize p') (take n (content p')))))"
proof -
  have "knows \<lparr>bIdx = 0, hdr = 0, pkg = p\<lparr>status := 0\<rparr>\<rparr> []" using assms by (rule knows_start)
  note snd = recv_loop_sound [OF this, where junk = "stale s (drawn s)" and es = "rx s"]
  show ?thesis
  proof (cases "recv_loop (stale s (drawn s)) \<lparr>bIdx = 0, hdr = 0, pkg = p\<lparr>status := 0\<rparr>\<rparr> (rx s)")
    case (Inl e)
    then show ?thesis using snd by (simp add: FSUS_RecvPackage_def draw_def Let_def)
  next
    case (Inr x)
    obtain code r' es' where x: "x = (code, r', es')" by (cases x)
    then obtain used where "rx s = used @ es'" "code = FSUS_STATUS_SUCCESS \<longrightarrow>
        (let p = pkg r'; n = unat (psize p) in header p = FSUS_PACK_RESPONSE_HEADER \<and> cmdId p \<le> 17 \<and> 0 < n \<and> n \<le> 45 \<and> length (content p) = 50 \<and>
         FSUS_IsValidResponsePackage (stale s (drawn s)) p = Inr FSUS_STATUS_SUCCESS \<and>
         (\<exists>q. bytes used = q @ answer (stale s (drawn s)) (cmdId p) (psize p) (take n (content p))))"
      using snd Inr by auto
    then show ?thesis using Inr x by (auto simp: FSUS_RecvPackage_def draw_def Let_def)
  qed
qed

definition port :: "rx_event list \<Rightarrow> servo" where
  "port es = \<lparr>tx_buf = replicate 55 0, sent = [], rx = es, takes = [], holds = 0, stale = (\<lambda>n. 0), drawn = 0, stale_angle = Fin 90\<rparr>"

definition blank :: PackageTypeDef where
  "blank = \<lparr>header = 0, cmdId = 0, psize = 0, content = replicate 50 0, checksum = 0, status = 0\<rparr>"

theorem servo_receive_sound_witness:
  "\<exists>p' s'. FSUS_RecvPackage (port [Got 5, Got 0x1C, Got 1, Got 1, Got 7, Got 0x2A]) blank = Inr (FSUS_STATUS_SUCCESS, p', s') \<and>
     FSUS_IsValidResponsePackage 0 p' = Inr FSUS_STATUS_SUCCESS"
proof -
  have "\<exists>p' s'. FSUS_RecvPackage (port [Got 5, Got 0x1C, Got 1, Got 1, Got 7, Got 0x2A]) blank = Inr (FSUS_STATUS_SUCCESS, p', s')"
    using receive_map [of "port [Got 5, Got 0x1C, Got 1, Got 1, Got 7, Got 0x2A]" 1 1 "[7]" blank]
    by (auto simp: port_def answer_def blank_def)
  then show ?thesis
    using servo_receive_sound [of blank "port [Got 5, Got 0x1C, Got 1, Got 1, Got 7, Got 0x2A]"]
    by (auto simp: blank_def port_def Let_def)
qed

text \<open>
  Every well formed answer is received: after any bytes without the first header byte, and with
  the device running empty any number of times in between, an answer of 1 to 45 bytes is reported
  at its last byte and the package holds it; the events after it are left for the next call.
\<close>

theorem servo_receive_complete:
  assumes "rx s = es @ Got b # rest" "plain es" "bytes es @ [b] = noise @ answer (stale s (drawn s)) cmd sz cs"
    "0x05 \<notin> set noise" "cmd \<le> 17" "0 < length cs" "length cs \<le> 45" "length cs = unat sz" "length (content p) = 50"
  shows "\<exists>p' s'. FSUS_RecvPackage s p = Inr (FSUS_STATUS_SUCCESS, p', s') \<and> rx s' = rest \<and>
    header p' = FSUS_PACK_RESPONSE_HEADER \<and> cmdId p' = cmd \<and> psize p' = sz \<and> take (unat sz) (content p') = cs"
  using receive_ok [OF assms] by blast

theorem servo_receive_complete_witness:
  "\<exists>p' s'. FSUS_RecvPackage (port ([Got 9, Empty True, Got 5, Got 0x1C, Got 1, Empty True, Got 1, Got 7] @ Got 0x2A # [Got 5])) blank =
     Inr (FSUS_STATUS_SUCCESS, p', s') \<and> rx s' = [Got 5] \<and> take (unat (1 :: u8)) (content p') = [7]"
  using servo_receive_complete [of "port ([Got 9, Empty True, Got 5, Got 0x1C, Got 1, Empty True, Got 1, Got 7] @ Got 0x2A # [Got 5])"
      "[Got 9, Empty True, Got 5, Got 0x1C, Got 1, Empty True, Got 1, Got 7]" "0x2A" "[Got 5]" "[9]" 1 1 "[7]" blank]
  by (simp add: port_def blank_def plain_def answer_def) blast

text \<open>
  An answer of length 0 is not refused: the receiver goes on storing bytes and the 51st leaves
  the content array.
\<close>

lemma servo_zero_length_overrun:
  assumes "rx s = map Got ([0x05, 0x1C, cmd, 0] @ body) @ rest" "cmd \<le> 17" "length body = 51" "length (content p) = 50"
  shows "FSUS_RecvPackage s p = Inl OutOfBounds"
proof -
  have "recv_loop junk r (map Got bs @ es) = Inl e" if "feed_bytes junk r bs = Inl e" for junk r bs es e
    using that
  proof (induction bs arbitrary: r)
    case (Cons b bs)
    then show ?case by (cases "recv_byte junk r b") (auto split: option.splits)
  qed simp
  moreover have "feed_bytes junk \<lparr>bIdx = 0, hdr = 0, pkg = p\<lparr>status := 0\<rparr>\<rparr> ([0x05, 0x1C, cmd, 0] @ body) = Inl OutOfBounds" for junk
  proof -
    let ?r = "\<lparr>bIdx = 0, hdr = 0, pkg = p\<lparr>status := 0\<rparr>\<rparr>"
    have "feed_bytes junk ?r ([0x05, 0x1C, cmd, 0] @ body) =
        feed_bytes junk (?r\<lparr>hdr := 0x1C05, pkg := (pkg ?r)\<lparr>header := 0x1C05, cmdId := cmd, psize := 0, status := 7\<rparr>\<rparr>) body"
      by (rule feed_bytes_append [OF feed_header]) (simp_all add: assms)
    also have "\<dots> = Inl OutOfBounds" by (rule zero_content) (simp_all add: assms)
    finally show ?thesis .
  qed
  ultimately have "recv_loop junk \<lparr>bIdx = 0, hdr = 0, pkg = p\<lparr>status := 0\<rparr>\<rparr> (rx s) = Inl OutOfBounds" for junk
    unfolding assms(1) by blast
  then show ?thesis by (simp add: FSUS_RecvPackage_def draw_def)
qed

lemma servo_zero_length_overrun_example:
  "FSUS_RecvPackage (port (map Got ([0x05, 0x1C, 1, 0] @ replicate 51 0))) blank = Inl OutOfBounds"
  by (rule servo_zero_length_overrun [of _ 1 "replicate 51 0" "[]"]) (simp_all add: port_def blank_def)

text \<open>\<open>r\<close> gives the mutex back as often as it took it, when it returns.\<close>

definition balanced :: "servo \<Rightarrow> ('a \<times> servo) cres \<Rightarrow> bool" where
  "balanced s r \<longleftrightarrow> ensured r (\<lambda>(x, s'). holds s' = holds s)"

text \<open>How many multi-turn queries of a wait are answered by a servo with another identifier.\<close>

fun mismatches :: "nat \<Rightarrow> servo \<Rightarrow> u8 \<Rightarrow> fl \<Rightarrow> fl \<Rightarrow> nat" where
  "mismatches 0 s servo_id target angle_read = 0"
| "mismatches (Suc n) s servo_id target angle_read =
     (case FSUS_QueryServoAngleMTurn s servo_id of
        Inl e \<Rightarrow> 0
      | Inr ((code, a), s) \<Rightarrow>
          (let angle_read = (case a of None \<Rightarrow> angle_read | Some x \<Rightarrow> x) in
           (if code = FSUS_STATUS_ID_NOT_MATCH then 1 else 0) +
           (if fle (fabsf (fsub f32 target angle_read)) (Fin 1) then 0 else mismatches n s servo_id target angle_read)))"

lemma wait_loop_holds:
  assumes "ready s" "m \<noteq> 0"
  shows "ensured (wait_loop n s i target m a) (\<lambda>(c, s'). holds s' = holds s + mismatches n s i target a)"
  using assms(1)
proof (induction n arbitrary: s a)
  case (Suc n)
  show ?case
  proof (cases "FSUS_QueryServoAngleMTurn s i")
    case (Inr r)
    obtain code x s1 where r: "r = ((code, x), s1)" by (metis prod.collapse)
    have s1: "holds s1 = holds s + (if code = FSUS_STATUS_ID_NOT_MATCH then 1 else 0)" "ready s1"
      using QueryMTurn_lock [OF Suc.prems, of i] by (simp_all add: Inr r)
    show ?thesis using assms(2) s1 ensured_mono [OF Suc.IH [OF s1(2)]] by (auto simp: Inr r Let_def)
  qed (use assms(2) in simp)
qed simp

text \<open>What a multi-turn command leaves of the mutex: the queries of its wait keep it.\<close>

definition kept_by_wait :: "servo \<Rightarrow> u8 \<Rightarrow> u8 \<Rightarrow> (u8 \<times> servo) cres \<Rightarrow> bool" where
  "kept_by_wait s i wait r \<longleftrightarrow> ensured r (\<lambda>(c, s'). holds s' = holds s \<or> wait \<noteq> 0 \<and>
     (\<exists>s1 target. holds s1 = holds s \<and> FSUS_Wait s1 i target 1 = Inr (c, s') \<and>
        holds s' = holds s + mismatches 10000 s1 i target (stale_angle s1)))"

lemma send_wait_holds:
  assumes "ready s"
  shows "kept_by_wait s i w (send_wait s i cmd sz buf angle 1 w)"
  unfolding send_wait_def kept_by_wait_def
proof (intro ensured_locked, goal_cases)
  case (1 s1)
  show ?case unfolding ensured_cbind
  proof (intro ensured_send)
    show "ready s1" using 1 assms by simp
    fix s2 assume s2: "holds s2 = holds s1" "ready s2"
    let ?s = "rt_mutex_release s2"
    have h: "holds ?s = holds s" "ready ?s" using s2 1 by simp_all
    have e: "ensured (FSUS_Wait ?s i angle 1) (\<lambda>(c, s'). holds s' = holds s + mismatches 10000 ?s i angle (stale_angle ?s))"
      using wait_loop_holds [OF h(2), of 1 10000 i angle "stale_angle ?s"] h(1) by (simp add: FSUS_Wait_def)
    show "ensured (let s = rt_mutex_release s2 in if w \<noteq> 0 then FSUS_Wait s i angle 1 else Inr (FSUS_STATUS_SUCCESS, s))
       (\<lambda>(c, s'). holds s' = holds s \<or> w \<noteq> 0 \<and> (\<exists>s1 target. holds s1 = holds s \<and> FSUS_Wait s1 i target 1 = Inr (c, s') \<and>
          holds s' = holds s + mismatches 10000 s1 i target (stale_angle s1)))"
    proof (intro ensuredI)
      fix x assume x: "(let s = rt_mutex_release s2 in if w \<noteq> 0 then FSUS_Wait s i angle 1 else Inr (FSUS_STATUS_SUCCESS, s)) = Inr x"
      obtain c s' where c: "x = (c, s')" by fastforce
      show "case x of (c, s') \<Rightarrow> holds s' = holds s \<or> w \<noteq> 0 \<and> (\<exists>s1 target. holds s1 = holds s \<and> FSUS_Wait s1 i target 1 = Inr (c, s') \<and>
          holds s' = holds s + mismatches 10000 s1 i target (stale_angle s1))"
      proof (cases "w = 0")
        case False
        then have f: "FSUS_Wait ?s i angle 1 = Inr (c, s')" using x c by (simp add: Let_def)
        then have "holds s' = holds s + mismatches 10000 ?s i angle (stale_angle ?s)" using e by simp
        then show ?thesis using False h(1) f unfolding c prod.case by blast
      qed (use x c h(1) in \<open>auto simp: Let_def\<close>)
    qed
  qed
qed simp

text \<open>
  C25: the mutex of the port, whatever the line delivers. Every command and query of single turns gives it back as often as it
  took it, when it returns. The multi-turn query keeps it once exactly when the answering servo has another identifier, a wait for a
  multi-turn angle as often as its queries are answered so, and the three commands for multi-turn angles as often as the wait they end with;
  without a wait they give it back.
\<close>

theorem servo_mutex_balance:
  assumes "ready s"
  shows "list_all (balanced s) [FSUS_Ping s i, FSUS_ResetUserData s i, FSUS_WheelMove s i m sp v, FSUS_WheelStop s i, FSUS_WheelKeepMove s i cw sp,
      FSUS_WheelMoveTime s i cw sp v, FSUS_WheelMoveNCircle s i cw sp v, FSUS_DampingMode s i pw, FSUS_WriteData s i ad da sz, FSUS_Wait s i a 0,
      FSUS_SetServoAngle s i a t pw w, FSUS_SetServoAngleByInterval s i a t ta td pw w, FSUS_SetServoAngleByVelocity s i a ve ta td pw w,
      My_FSUS_up s, My_FSUS_pick s] \<and>
    balanced s (FSUS_ReadData s i ad da) \<and> balanced s (FSUS_QueryServoAngle s i) \<and>
    ensured (FSUS_QueryServoAngleMTurn s i) (\<lambda>((c, x), s'). holds s' = holds s + (if c = FSUS_STATUS_ID_NOT_MATCH then 1 else 0)) \<and>
    (m \<noteq> 0 \<longrightarrow> ensured (FSUS_Wait s i a m) (\<lambda>(c, s'). holds s' = holds s + mismatches 10000 s i a (stale_angle s))) \<and>
    list_all (kept_by_wait s i w) [FSUS_SetServoAngleMTurn s i a tw pw w, FSUS_SetServoAngleMTurnByInterval s i a tw ta td pw w,
      FSUS_SetServoAngleMTurnByVelocity s i a ve ta td pw w]"
proof -
  have k: "balanced s r" if "keeps n s r" for n and r :: "('x \<times> servo) cres"
    using that by (auto simp: keeps_def balanced_def elim!: ensured_mono)
  have send: "balanced s (send_wait s i cmd sz buf angle 0 w)" for cmd sz buf angle
    using k [OF send_wait_keeps [OF assms]] .
  have first: "balanced s (cbind r f)" if "\<And>x. balanced s (f x)" for r and f :: "'y \<Rightarrow> (u8 \<times> servo) cres"
    using that by (auto simp: balanced_def intro: ensured_any)
  have first': "kept_by_wait s i w (cbind r f)" if "\<And>x. kept_by_wait s i w (f x)" for r and f :: "'y \<Rightarrow> (u8 \<times> servo) cres"
    using that by (auto simp: kept_by_wait_def intro: ensured_any)
  note wheel = k [OF WheelMove_keeps [OF assms]]
  have written: "balanced s (FSUS_WheelMoveTime (rt_device_write (rt_device_write s x) y) 0 c 500 1800)" for x y c
  proof -
    have "ready (rt_device_write (rt_device_write s x) y)" "holds (rt_device_write (rt_device_write s x) y) = holds s"
      using assms by (simp_all add: ready_def rt_device_write_def)
    then show ?thesis unfolding balanced_def FSUS_WheelMoveTime_def Let_def
      by (auto intro!: ensured_mono [OF WheelMove_keeps [unfolded keeps_def]])
  qed
  have "balanced s (FSUS_Wait s i a 0)" using k [OF wait_loop_keeps [OF assms]] by (simp add: FSUS_Wait_def)
  moreover have "balanced s (FSUS_WriteData s i ad da sz)" "balanced s (FSUS_ReadData s i ad da)"
    unfolding FSUS_WriteData_def FSUS_ReadData_def balanced_def using assms
    by (auto simp: Let_def case_prod_beta intro!: ensured_rules ensured_any [of _ "rd_n xs k" for xs k] ensured_any [of _ "cpy xs k cs" for xs k cs])
  moreover have "m \<noteq> 0 \<Longrightarrow> ensured (FSUS_Wait s i a m) (\<lambda>(c, s'). holds s' = holds s + mismatches 10000 s i a (stale_angle s))"
    using wait_loop_holds [OF assms] by (simp add: FSUS_Wait_def)
  moreover have "list_all (kept_by_wait s i w) [FSUS_SetServoAngleMTurn s i a tw pw w, FSUS_SetServoAngleMTurnByInterval s i a tw ta td pw w,
      FSUS_SetServoAngleMTurnByVelocity s i a ve ta td pw w]"
    unfolding FSUS_SetServoAngleMTurn_def FSUS_SetServoAngleMTurnByInterval_def FSUS_SetServoAngleMTurnByVelocity_def Let_def list.pred_inject
    by (intro conjI first' send_wait_holds [OF assms]) simp
  moreover have "list_all (balanced s) [FSUS_SetServoAngle s i a t pw w, FSUS_SetServoAngleByInterval s i a t ta td pw w,
      FSUS_SetServoAngleByVelocity s i a ve ta td pw w]"
    unfolding FSUS_SetServoAngle_def FSUS_SetServoAngleByInterval_def FSUS_SetServoAngleByVelocity_def Let_def list.pred_inject
    by (intro conjI first send) simp
  moreover have "ensured (FSUS_QueryServoAngleMTurn s i) (\<lambda>((c, x), s'). holds s' = holds s + (if c = FSUS_STATUS_ID_NOT_MATCH then 1 else 0))"
    by (rule ensured_mono [OF QueryMTurn_lock [OF assms]]) auto
  moreover have "balanced s (My_FSUS_up s)" "balanced s (My_FSUS_pick s)"
    by (simp_all add: My_FSUS_up_def My_FSUS_pick_def Let_def written)
  ultimately show ?thesis
    using k [OF Ping_keeps [OF assms, of i]] k [OF Reset_keeps [OF assms, of i]] k [OF Damping_keeps [OF assms, of i pw]] k [OF Query_keeps [OF assms, of i]]
      wheel by (simp add: FSUS_WheelStop_def FSUS_WheelKeepMove_def FSUS_WheelMoveNCircle_def FSUS_WheelMoveTime_def Let_def)
qed

text \<open>The servo 2 answers a query to the servo 1.\<close>

definition other_servo :: servo where
  "other_servo = (port (map Got (answer 0 16 5 [2, 0, 0, 0, 0])))\<lparr>stale_angle := Fin 0\<rparr>"

lemma other_servo_query:
  assumes "tx_buf s = b" "length b = 55" "rx s = map Got (answer 0 16 5 [2, 0, 0, 0, 0])" "holds s = 0" "takes s = []" "stale s = (\<lambda>n. 0)"
  shows "\<exists>s'. FSUS_QueryServoAngleMTurn s 1 = Inr ((FSUS_STATUS_ID_NOT_MATCH, None), s')"
proof -
  have r: "ready s" using assms(1,2) by (simp add: ready_def)
  obtain s1 where s1: "rt_mutex_take s = (True, s1)" using assms(4,5) by (simp add: rt_mutex_take_def)
  note f = take_frame [OF s1]
  obtain b2 where s2: "FSUS_SendPackage s1 16 1 [1] =
      Inr (s1\<lparr>drawn := drawn s1 + 51, tx_buf := b2, sent := sent s1 @ [request (stale s1 (drawn s1 + 50)) 16 1 [1]]\<rparr>)"
    using send_ok [of s1 1 "[1]" 16] f(2) r by auto
  let ?s2 = "s1\<lparr>drawn := drawn s1 + 51, tx_buf := b2, sent := sent s1 @ [request (stale s1 (drawn s1 + 50)) 16 1 [1]]\<rparr>"
  obtain p3 s3 where s3: "draw_pkg ?s2 = (p3, s3)" by fastforce
  have q: "rx s3 = map Got (answer 0 16 5 [2, 0, 0, 0, 0])" "stale s3 = (\<lambda>n. 0)" "length (content p3) = 50"
    using s3 f(4,5) assms(3,6) by (auto simp: draw_pkg_def)
  have "rx s3 = map Got (answer (stale s3 (drawn s3)) 16 5 [2, 0, 0, 0, 0])" using q by simp
  from receive_map [OF this _ _ _ _ q(3)] obtain p4 s4 where
    p4: "FSUS_RecvPackage s3 p3 = Inr (FSUS_STATUS_SUCCESS, p4, s4)" "length (content p4) = 50" "take 5 (content p4) = [2, 0, 0, 0, 0]" by auto
  have "content p4 ! 0 = take 5 (content p4) ! 0" by simp
  then have "content p4 ! 0 = 2" unfolding p4(3) by simp
  then have "rd (content p4) 0 = Inr 2" using p4(2) by simp
  then show ?thesis by (simp add: FSUS_QueryServoAngleMTurn_def locked_def s1 s2 s3 p4(1))
qed

theorem servo_mutex_balance_witness:
  "balanced (port []) (FSUS_Ping (port []) 1) \<and>
   (\<exists>s'. FSUS_QueryServoAngleMTurn other_servo 1 = Inr ((FSUS_STATUS_ID_NOT_MATCH, None), s') \<and> holds other_servo = 0 \<and> holds s' = 1) \<and>
   (\<exists>s'. FSUS_Wait other_servo 1 (Fin 0) 1 = Inr (FSUS_STATUS_SUCCESS, s') \<and> holds s' = 1)"
proof -
  have r: "ready (port [])" "ready other_servo" by (simp_all add: ready_def port_def other_servo_def)
  obtain s' where s': "FSUS_QueryServoAngleMTurn other_servo 1 = Inr ((FSUS_STATUS_ID_NOT_MATCH, None), s')"
    using other_servo_query [of other_servo] by (auto simp: other_servo_def port_def)
  have z: "fle (fabsf (fsub f32 (Fin 0) (Fin 0))) (Fin 1)" "stale_angle other_servo = Fin 0" "holds other_servo = 0"
    by (simp_all add: fsub_def other_servo_def port_def)
  have "wait_loop (Suc 9999) other_servo 1 (Fin 0) 1 (Fin 0) = Inr (FSUS_STATUS_SUCCESS, s')"
    by (simp only: wait_loop.simps s' cbind.simps prod.case z(1) Let_def option.case if_True simp_thms) (simp add: z(1))
  then have w: "FSUS_Wait other_servo 1 (Fin 0) 1 = Inr (FSUS_STATUS_SUCCESS, s')" using z(2) by (simp add: FSUS_Wait_def)
  have "balanced (port []) (FSUS_Ping (port []) 1)" using servo_mutex_balance [OF r(1), where i = 1] by simp
  moreover have "holds s' = 1" using servo_mutex_balance [OF r(2), where i = 1] s' z(3) by simp
  ultimately show ?thesis using s' w z(3) by blast
qed

text \<open>
  The wait for an angle always returns after at most 10000 queries, with success or failure;
  but when the servo does not answer at all the first comparison decides, and that reads a variable
  no query has written.
\<close>

theorem servo_wait_terminates:
  assumes "ready s"
  shows "ensured (FSUS_Wait s i target m) (\<lambda>(c, s'). c \<in> {FSUS_STATUS_SUCCESS, FSUS_STATUS_FAIL} \<and> length (sent s') \<le> length (sent s) + 10000) \<and>
    (rx s = [] \<and> takes s = [] \<longrightarrow> (\<exists>s'. FSUS_Wait s i target m =
       Inr (if fle (fabsf (fsub f32 target (stale_angle s))) (Fin 1) then FSUS_STATUS_SUCCESS else FSUS_STATUS_FAIL, s')))"
proof -
  have "ensured (wait_loop 10000 s i target m (stale_angle s)) (\<lambda>(c, s'). c \<in> {FSUS_STATUS_SUCCESS, FSUS_STATUS_FAIL} \<and> length (sent s') \<le> length (sent s) + 10000)"
    by (rule ensured_mono [OF wait_loop_mturn [OF assms]]) auto
  moreover have "\<exists>s'. FSUS_Wait s i target m =
       Inr (if fle (fabsf (fsub f32 target (stale_angle s))) (Fin 1) then FSUS_STATUS_SUCCESS else FSUS_STATUS_FAIL, s')"
    if "rx s = []" "takes s = []"
    using silent_wait [of s 10000 i target m "stale_angle s"] that assms by (simp add: FSUS_Wait_def silent_def)
  ultimately show ?thesis by (simp add: FSUS_Wait_def)
qed

theorem servo_wait_terminates_witness:
  "\<exists>s'. FSUS_Wait (port []) 1 (Fin 90) 0 = Inr (FSUS_STATUS_SUCCESS, s')"
  using servo_wait_terminates [of "port []" 1 "Fin 90" 0] by (simp add: ready_def port_def fsub_def)

text \<open>
  An angle command never asks for more than 180 degrees either way: for every angle but NaN
  (which is cast to an integer undefined) the frame carries an integer of tenths between -1800 and
  1800, within 1 of ten times the limited angle up to float rounding, in its second and third content bytes.
\<close>

theorem servo_angle_bounded:
  assumes "ready s" "a \<noteq> NaN" "takes s = []" "holds s < 255"
  shows "\<exists>v c s'. clampf (- 180) 180 a = Fin c \<and> \<bar>c\<bar> \<le> 180 \<and> \<bar>v\<bar> \<le> 1800 \<and> \<bar>of_int v - 10 * c\<bar> < 1 + 1 / 2 ^ 14 \<and>
    FSUS_SetServoAngle s i a t pw 0 = Inr (FSUS_STATUS_SUCCESS, s') \<and>
    sent s' = sent s @ [request (stale s (drawn s + 50)) 8 7 ([i] @ le16 (word_of_int v) @ le16 t @ le16 pw)]"
proof -
  obtain c where c: "clampf (- 180) 180 a = Fin c" "\<bar>c\<bar> \<le> 180"
    by (rule clampf_bounded [OF assms(2), of 180]) simp_all
  obtain v where v: "to_int16 (fmul f32 (Fin 10) (Fin c)) = Inr v" "\<bar>v\<bar> \<le> 1800" "\<bar>of_int v - 10 * c\<bar> < 1 + 1 / 2 ^ 14"
    by (rule tenths [OF c(2)])
  have "to_int16 (fmul f32 (Fin 10) (clampf (- 180) 180 a)) = Inr v" using c(1) v(1) by simp
  then have "FSUS_SetServoAngle s i a t pw 0 =
      send_wait s i 8 7 ([i] @ le16 (word_of_int v) @ le16 t @ le16 pw) (Fin c) 0 0"
    using c(1) by (simp add: FSUS_SetServoAngle_def)
  then show ?thesis using c v send_once [OF assms(1,3,4), of 7 "[i] @ le16 (word_of_int v) @ le16 t @ le16 pw" i 8 "Fin c" 0]
    by (auto simp: le16_def)
qed

theorem servo_angle_bounded_witness:
  "\<exists>v s'. \<bar>v\<bar> \<le> 1800 \<and> FSUS_SetServoAngle (port []) 1 (Inf True) 500 5 0 = Inr (FSUS_STATUS_SUCCESS, s') \<and>
     sent s' = [request 0 8 7 ([1] @ le16 (word_of_int v) @ le16 500 @ le16 5)]"
  using servo_angle_bounded [of "port []" "Inf True" 1 500 5] by (auto simp: ready_def port_def)

text \<open>
  A multi-turn command with an interval above 4096000 ms turns the servo by 4096000 degrees,
  whatever angle was asked for, and still sends the interval that is too long.
\<close>

lemma servo_mturn_interval:
  assumes "ready s" "takes s = []" "holds s < 255" "4096000 < t"
  shows "\<exists>s'. FSUS_SetServoAngleMTurn s i a t pw 0 = Inr (FSUS_STATUS_SUCCESS, s') \<and>
    sent s' = sent s @ [request (stale s (drawn s + 50)) 13 11 ([i] @ le32 40960000 @ le32 t @ le16 pw)]"
proof -
  have "FSUS_SetServoAngleMTurn s i a t pw 0 = send_wait s i 13 11 ([i] @ le32 40960000 @ le32 t @ le16 pw) (Fin 4096000) 1 0"
    using mturn_limit assms(4) by (simp add: FSUS_SetServoAngleMTurn_def del: fmul.simps)
  then show ?thesis using send_once [OF assms(1-3), of 11 "[i] @ le32 40960000 @ le32 t @ le16 pw" i 13 "Fin 4096000" 1]
    by (simp add: le16_def le32_def)
qed

lemma servo_mturn_interval_example:
  "\<exists>s'. FSUS_SetServoAngleMTurn (port []) 1 (Fin 5) 5000000 7 0 = Inr (FSUS_STATUS_SUCCESS, s') \<and>
     sent s' = [request 0 13 11 ([1] @ le32 40960000 @ le32 5000000 @ le16 7)]"
  using servo_mturn_interval [of "port []" 5000000 1 "Fin 5" 7] by (auto simp: ready_def port_def)

text \<open>
  The recorded bytes of the demonstration motions are a window into a repeating stream of frames:
  the end of an angle query, a whole write command, a whole read command and the beginning of the next
  query. The checksums fit in both buffers of the first motion and in the first of the second motion; the
  second one was edited and its write command carries the checksum 0xBE instead of 0x5A.
\<close>
lemma servo_recorded_frames:
  "\<exists>b1 b2 b3. length b1 = 33 \<and> length b2 = 33 \<and> length b3 = 33 \<and>
     up_buf = drop 3 (request 0 10 1 [0]) @ request 0 6 33 b1 @ request 0 5 1 [0] @ take 3 (request 0 10 1 [0]) \<and>
     pick_buf = drop 3 (request 0 10 1 [0]) @ request 0 6 33 b2 @ request 0 5 1 [0] @ take 3 (request 0 10 1 [0]) \<and>
     pick_buf1 = drop 3 (request 0 10 1 [0]) @ (butlast (request 0 6 33 b3) @ [0xBE]) @ request 0 5 1 [0] @ take 3 (request 0 10 1 [0]) \<and>
     last (request 0 6 33 b3) = 0x5A"
proof -
  let ?b = "\<lambda>buf. take 33 (drop 7 buf) :: u8 list"
  have "length (?b up_buf) = 33" "length (?b pick_buf) = 33" "length (?b pick_buf1) = 33"
    by (simp_all add: up_buf_def pick_buf_def pick_buf1_def)
  moreover have "up_buf = drop 3 (request 0 10 1 [0]) @ request 0 6 33 (?b up_buf) @ request 0 5 1 [0] @ take 3 (request 0 10 1 [0])"
    by (simp add: request_def up_buf_def)
  moreover have "pick_buf = drop 3 (request 0 10 1 [0]) @ request 0 6 33 (?b pick_buf) @ request 0 5 1 [0] @ take 3 (request 0 10 1 [0])"
    by (simp add: request_def pick_buf_def)
  moreover have "pick_buf1 = drop 3 (request 0 10 1 [0]) @ (butlast (request 0 6 33 (?b pick_buf1)) @ [0xBE]) @ request 0 5 1 [0] @ take 3 (request 0 10 1 [0])"
    "last (request 0 6 33 (?b pick_buf1)) = 0x5A"
    by (simp_all add: request_def pick_buf1_def)
  ultimately show ?thesis by blast
qed

text \<open>
  Reading data from a servo that answers with a single content byte computes the length 255 and
  copies past the end of the package.
\<close>

lemma servo_read_short_answer:
  assumes "ready s" "rx s = map Got (answer (stale s (drawn s + 101)) cmd 1 [c])" "cmd \<le> 17"
  shows "FSUS_ReadData s i ad value = Inl OutOfBounds"
proof -
  obtain b where b: "length b = 55" "FSUS_SendPackage s 3 2 [i, ad] =
      Inr (s\<lparr>drawn := drawn s + 51, tx_buf := b, sent := sent s @ [request (stale s (drawn s + 50)) 3 2 (take (unat (2 :: u8)) [i, ad])]\<rparr>)"
    using send_ok [OF assms(1), of 2 "[i, ad]" 3] by auto
  let ?s = "s\<lparr>drawn := drawn s + 51, tx_buf := b, sent := sent s @ [request (stale s (drawn s + 50)) 3 2 [i, ad]]\<rparr>"
  have "\<exists>p' s'. FSUS_RecvPackage (snd (draw_pkg ?s)) (fst (draw_pkg ?s)) = Inr (FSUS_STATUS_SUCCESS, p', s') \<and> psize p' = 1 \<and>
      length (content p') = 50 \<and> take (unat (1 :: u8)) (content p') = [c]"
    by (rule receive_map) (use assms(2,3) in \<open>simp_all add: draw_pkg_def add.commute [of 101]\<close>)
  then obtain p' s' where r: "FSUS_RecvPackage (snd (draw_pkg ?s)) (fst (draw_pkg ?s)) = Inr (FSUS_STATUS_SUCCESS, p', s')"
      "psize p' = 1" "length (content p') = 50" by blast
  have "unat (1 - 2 :: u8) = 255" by (simp add: unsigned_minus_1_eq_mask mask_eq_exp_minus_1)
  then show ?thesis using b r by (simp add: FSUS_ReadData_def rd_n_def case_prod_beta Let_def)
qed

lemma servo_read_short_answer_example:
  "FSUS_ReadData (port (map Got (answer 0 3 1 [9]))) 1 34 (replicate 4 0) = Inl OutOfBounds"
  by (rule servo_read_short_answer [of _ 3 9]) (simp_all add: port_def ready_def)

text \<open>
  The unlimited wait for an angle does not return at all when the servo is silent and the last
  known angle is more than the dead band away (or not a number).
\<close>

theorem servo_idle_wait_diverges:
  assumes "ready s" "rx s = []" "takes s = []" "\<not> fle (angle_gap target cur) (Fin 1)"
  shows "waitUntilServoIDLE s cur i target = None"
proof (rule ccontr)
  assume "waitUntilServoIDLE s cur i target \<noteq> None"
  then obtain y where "waitUntilServoIDLE s cur i target = Some y" by blast
  then have "silent s \<longrightarrow> fle (angle_gap target cur) (Fin 1)"
  proof (rule waitUntilServoIDLE.raw_induct [where P = "\<lambda>s cur i target y. silent s \<longrightarrow> fle (angle_gap target cur) (Fin 1)", rotated])
    fix W s cur i target y
    assume IH: "\<And>s cur i target y. W s cur i target = Some y \<Longrightarrow> silent s \<longrightarrow> fle (angle_gap target cur) (Fin 1)"
      and step: "(case FSUS_QueryServoAngle s i of Inl e \<Rightarrow> Some (Inl e)
        | Inr ((code, a), s) \<Rightarrow> let cur = case a of None \<Rightarrow> cur | Some x \<Rightarrow> x
            in if fle (angle_gap target cur) (Fin 1) then Some (Inr (cur, s)) else W s cur i target) = Some y"
    show "silent s \<longrightarrow> fle (angle_gap target cur) (Fin 1)"
    proof
      assume "silent s"
      then obtain s1 where "FSUS_QueryServoAngle s i = Inr ((FSUS_STATUS_TIMEOUT, None), s1)" "silent s1"
        using silent_query [of s 0 i] by auto
      then show "fle (angle_gap target cur) (Fin 1)" using step IH by (auto split: if_splits)
    qed
  qed
  then show False using assms by (simp add: silent_def)
qed

theorem servo_idle_wait_diverges_witness:
  "waitUntilServoIDLE (port []) (Fin 0) 1 (Fin 60) = None"
  by (rule servo_idle_wait_diverges) (simp_all add: port_def ready_def angle_gap_def fsub_def)
end
