(* ===== verification/EmmV5.thy ===== *)
theory EmmV5
  imports Floats
begin

text \<open>
  The stepper motor driver of \<^verbatim>\<open>motor_emm_v5_driver.c\<close>: thirteen commands, each of which takes the
  driver's mutex, writes one frame and waits for the motor's answer. The state is the driver's view
  of the port: the frames written, the bytes the line will deliver (see \<^typ>\<open>rx_event\<close>), the
  receive buffer shared by all calls, and how often the calling thread holds the mutex. The mutex
  and the device exist (\<^verbatim>\<open>emm_v5_init\<close> and the driver's thread ran before), and a thread that takes
  the mutex gets it, since it waits for ever, unless it already holds it \<^verbatim>\<open>RT_MUTEX_HOLD_MAX\<close> times: then the take
  fails, which the driver does not notice.
\<close>

section \<open>Data\<close>

text \<open>\<open>S_other\<close> stands for every value of the enumeration type that no constant names.\<close>

datatype SysParams_t =
  S_VER | S_RL | S_PID | S_VBUS | S_CPHA | S_ENCL | S_TPOS | S_VEL | S_CPOS | S_PERR | S_FLAG | S_Conf | S_State | S_ORG
| S_other

text \<open>The fields of \<^verbatim>\<open>stepper_motor_t\<close> the driver reads or writes; the others keep their values.\<close>

record stepper_motor =
  stepper_motor_id :: u8
  stepper_motor_speed :: u16
  stepper_motor_angle :: fl

record emm =
  emm_sent :: "u8 list list"
  emm_rx :: "rx_event list"
  Emm_rx_buf :: "u8 list"
  mutex_step :: nat

section \<open>Answers\<close>

definition emm_transmit :: "emm \<Rightarrow> u8 list \<Rightarrow> nat \<Rightarrow> emm cres" where
  "emm_transmit st buf len = cbind (rd_n buf len) (\<lambda>out. Inr (st\<lparr>emm_sent := emm_sent st @ [out]\<rparr>))"

definition emm_get_cmd_receive_size :: "u8 \<Rightarrow> u8" where
  "emm_get_cmd_receive_size cmd = (if cmd = 0x35 then 6 else if cmd = 0x36 then 8 else 4)"

definition emm_cmd_ana :: "stepper_motor \<Rightarrow> u8 \<Rightarrow> u8 list \<Rightarrow> stepper_motor cres" where
  "emm_cmd_ana m cmd rxb =
     (if cmd = 0x35 then
        cbind (rd rxb 1) (\<lambda>c. if c = 0x35 then
          cbind (rd rxb 3) (\<lambda>h. cbind (rd rxb 4) (\<lambda>l. cbind (rd rxb 2) (\<lambda>sign.
            let m = m\<lparr>stepper_motor_speed := push_bit 8 (ucast h) OR ucast l\<rparr>
            in Inr (if sign \<noteq> 0 then m\<lparr>stepper_motor_speed := - stepper_motor_speed m\<rparr> else m))))
          else Inr m)
      else if cmd = 0x36 then
        cbind (rd rxb 1) (\<lambda>c. if c = 0x36 then
          cbind (rd rxb 3) (\<lambda>b3. cbind (rd rxb 4) (\<lambda>b2. cbind (rd rxb 5) (\<lambda>b1. cbind (rd rxb 6) (\<lambda>b0.
          cbind (rd rxb 2) (\<lambda>sign.
            let pos = f32 (of_nat (unat (push_bit 24 (ucast b3) OR push_bit 16 (ucast b2) OR push_bit 8 (ucast b1) OR ucast b0 :: u32)));
                m = m\<lparr>stepper_motor_angle := fdiv f32 (fmul f32 pos (Fin 360)) (Fin 65536)\<rparr>
            in Inr (if sign \<noteq> 0 then m\<lparr>stepper_motor_angle := fneg (stepper_motor_angle m)\<rparr> else m))))))
          else Inr m)
      else cbind (rd rxb 3) (\<lambda>_. Inr m))"

text \<open>
  The loop that reads the answer. The first result tells whether the last byte arrived, as opposed
  to a wait that timed out; after the last event the line stays silent.
\<close>

fun ack_loop :: "u8 \<Rightarrow> u8 \<Rightarrow> u8 list \<Rightarrow> rx_event list \<Rightarrow> (bool \<times> u8 list \<times> rx_event list) cres" where
  "ack_loop will_rx_size i buf [] = Inr (False, buf, [])"
| "ack_loop will_rx_size i buf (Empty woken # es) =
     (if woken then ack_loop will_rx_size i buf es else Inr (False, buf, es))"
| "ack_loop will_rx_size i buf (Got ch # es) =
     cbind (wr buf (unat i) ch) (\<lambda>buf.
       if i + 1 \<ge> will_rx_size then Inr (True, buf, es) else ack_loop will_rx_size (i + 1) buf es)"

definition emm_wait_for_ack :: "emm \<Rightarrow> stepper_motor \<Rightarrow> u8 \<Rightarrow> (emm \<times> stepper_motor) cres" where
  "emm_wait_for_ack st m cmd =
     cbind (ack_loop (emm_get_cmd_receive_size cmd) 0 (Emm_rx_buf st) (emm_rx st)) (\<lambda>(got, buf, es).
     cbind (if got then emm_cmd_ana m cmd buf else Inr m) (\<lambda>m.
     Inr (st\<lparr>emm_rx := es, Emm_rx_buf := buf, mutex_step := mutex_step st - 1\<rparr>, m)))"

section \<open>Commands\<close>

text \<open>
  What every command does with the bytes \<open>bs\<close> it stores at the start of its zeroed local array of
  \<open>cap\<close> bytes: send them and wait for the answer to \<^verbatim>\<open>cmd[1]\<close>.
\<close>

definition emm_command :: "nat \<Rightarrow> u8 list \<Rightarrow> emm \<Rightarrow> stepper_motor \<Rightarrow> (emm \<times> stepper_motor) cres" where
  "emm_command cap bs st m =
     (let st = st\<lparr>mutex_step := if mutex_step st < 255 then mutex_step st + 1 else mutex_step st\<rparr> in
      cbind (cpy (replicate cap 0) 0 bs) (\<lambda>cmd.
      cbind (emm_transmit st cmd (length bs)) (\<lambda>st.
      cbind (rd cmd 1) (\<lambda>c.
      emm_wait_for_ack st m c))))"

definition Emm_V5_Reset_CurPos_To_Zero :: "emm \<Rightarrow> stepper_motor \<Rightarrow> (emm \<times> stepper_motor) cres" where
  "Emm_V5_Reset_CurPos_To_Zero st m = emm_command 16 [stepper_motor_id m, 0x0A, 0x6D, 0x6B] st m"

definition Emm_V5_Reset_Clog_Pro :: "emm \<Rightarrow> stepper_motor \<Rightarrow> (emm \<times> stepper_motor) cres" where
  "Emm_V5_Reset_Clog_Pro st m = emm_command 16 [stepper_motor_id m, 0x0E, 0x52, 0x6B] st m"

fun sys_code :: "SysParams_t \<Rightarrow> u8 list" where
  "sys_code S_VER = [0x1F]"
| "sys_code S_RL = [0x20]"
| "sys_code S_PID = [0x21]"
| "sys_code S_VBUS = [0x24]"
| "sys_code S_CPHA = [0x27]"
| "sys_code S_ENCL = [0x31]"
| "sys_code S_TPOS = [0x33]"
| "sys_code S_VEL = [0x35]"
| "sys_code S_CPOS = [0x36]"
| "sys_code S_PERR = [0x37]"
| "sys_code S_FLAG = [0x3A]"
| "sys_code S_ORG = [0x3B]"
| "sys_code S_Conf = [0x42, 0x6C]"
| "sys_code S_State = [0x43, 0x7A]"
| "sys_code S_other = []"

definition Emm_V5_Read_Sys_Params :: "emm \<Rightarrow> stepper_motor \<Rightarrow> SysParams_t \<Rightarrow> (emm \<times> stepper_motor) cres" where
  "Emm_V5_Read_Sys_Params st m s = emm_command 16 ([stepper_motor_id m] @ sys_code s @ [0x6B]) st m"

definition Emm_V5_Modify_Ctrl_Mode :: "emm \<Rightarrow> stepper_motor \<Rightarrow> bool \<Rightarrow> u8 \<Rightarrow> (emm \<times> stepper_motor) cres" where
  "Emm_V5_Modify_Ctrl_Mode st m svF ctrl_mode =
     emm_command 16 [stepper_motor_id m, 0x46, 0x69, of_bool svF, ctrl_mode, 0x6B] st m"

definition Emm_V5_En_Control :: "emm \<Rightarrow> stepper_motor \<Rightarrow> bool \<Rightarrow> bool \<Rightarrow> (emm \<times> stepper_motor) cres" where
  "Emm_V5_En_Control st m state snF =
     emm_command 16 [stepper_motor_id m, 0xF3, 0xAB, of_bool state, of_bool snF, 0x6B] st m"

definition Emm_V5_Vel_Control ::
  "emm \<Rightarrow> stepper_motor \<Rightarrow> u8 \<Rightarrow> u16 \<Rightarrow> u8 \<Rightarrow> bool \<Rightarrow> (emm \<times> stepper_motor) cres" where
  "Emm_V5_Vel_Control st m dir vel acc snF =
     emm_command 16 [stepper_motor_id m, 0xF6, dir, hi8 vel, lo8 vel, acc, of_bool snF, 0x6B] st m"

definition Emm_V5_Pos_Control ::
  "emm \<Rightarrow> stepper_motor \<Rightarrow> u8 \<Rightarrow> u16 \<Rightarrow> u8 \<Rightarrow> u32 \<Rightarrow> bool \<Rightarrow> bool \<Rightarrow> (emm \<times> stepper_motor) cres" where
  "Emm_V5_Pos_Control st m dir vel acc clk raF snF =
     emm_command 16 [stepper_motor_id m, 0xFD, dir, hi8 vel, lo8 vel, acc,
       byte32 3 clk, byte32 2 clk, byte32 1 clk, byte32 0 clk, of_bool raF, of_bool snF, 0x6B] st m"

definition Emm_V5_Stop_Now :: "emm \<Rightarrow> stepper_motor \<Rightarrow> bool \<Rightarrow> (emm \<times> stepper_motor) cres" where
  "Emm_V5_Stop_Now st m snF = emm_command 16 [stepper_motor_id m, 0xFE, 0x98, of_bool snF, 0x6B] st m"

definition Emm_V5_Synchronous_motion :: "emm \<Rightarrow> stepper_motor \<Rightarrow> (emm \<times> stepper_motor) cres" where
  "Emm_V5_Synchronous_motion st m = emm_command 16 [stepper_motor_id m, 0xFF, 0x66, 0x6B] st m"

definition Emm_V5_Origin_Set_O :: "emm \<Rightarrow> stepper_motor \<Rightarrow> bool \<Rightarrow> (emm \<times> stepper_motor) cres" where
  "Emm_V5_Origin_Set_O st m svF = emm_command 16 [stepper_motor_id m, 0x93, 0x88, of_bool svF, 0x6B] st m"

definition Emm_V5_Origin_Modify_Params ::
  "emm \<Rightarrow> stepper_motor \<Rightarrow> bool \<Rightarrow> u8 \<Rightarrow> u8 \<Rightarrow> u16 \<Rightarrow> u32 \<Rightarrow> u16 \<Rightarrow> u16 \<Rightarrow> u16 \<Rightarrow> bool \<Rightarrow> (emm \<times> stepper_motor) cres" where
  "Emm_V5_Origin_Modify_Params st m svF o_mode o_dir o_vel o_tm sl_vel sl_ma sl_ms potF =
     emm_command 32 [stepper_motor_id m, 0x4C, 0xAE, of_bool svF, o_mode, o_dir, hi8 o_vel, lo8 o_vel,
       byte32 3 o_tm, byte32 2 o_tm, byte32 1 o_tm, byte32 0 o_tm, hi8 sl_vel, lo8 sl_vel,
       hi8 sl_ma, lo8 sl_ma, hi8 sl_ms, lo8 sl_ms, of_bool potF, 0x6B] st m"

definition Emm_V5_Origin_Trigger_Return :: "emm \<Rightarrow> stepper_motor \<Rightarrow> u8 \<Rightarrow> bool \<Rightarrow> (emm \<times> stepper_motor) cres" where
  "Emm_V5_Origin_Trigger_Return st m o_mode snF =
     emm_command 16 [stepper_motor_id m, 0x9A, o_mode, of_bool snF, 0x6B] st m"

definition Emm_V5_Origin_Interrupt :: "emm \<Rightarrow> stepper_motor \<Rightarrow> (emm \<times> stepper_motor) cres" where
  "Emm_V5_Origin_Interrupt st m = emm_command 16 [stepper_motor_id m, 0x9C, 0x48, 0x6B] st m"

text \<open>The command interface as one function.\<close>

datatype emm_cmd =
  Reset_CurPos_To_Zero | Reset_Clog_Pro | Read_Sys_Params SysParams_t | Modify_Ctrl_Mode bool u8 | En_Control bool bool
| Vel_Control u8 u16 u8 bool | Pos_Control u8 u16 u8 u32 bool bool | Stop_Now bool | Synchronous_motion | Origin_Set_O bool
| Origin_Modify_Params bool u8 u8 u16 u32 u16 u16 u16 bool | Origin_Trigger_Return u8 bool | Origin_Interrupt

fun emm_op :: "emm_cmd \<Rightarrow> emm \<Rightarrow> stepper_motor \<Rightarrow> (emm \<times> stepper_motor) cres" where
  "emm_op Reset_CurPos_To_Zero st m = Emm_V5_Reset_CurPos_To_Zero st m"
| "emm_op Reset_Clog_Pro st m = Emm_V5_Reset_Clog_Pro st m"
| "emm_op (Read_Sys_Params s) st m = Emm_V5_Read_Sys_Params st m s"
| "emm_op (Modify_Ctrl_Mode svF c) st m = Emm_V5_Modify_Ctrl_Mode st m svF c"
| "emm_op (En_Control e snF) st m = Emm_V5_En_Control st m e snF"
| "emm_op (Vel_Control d v a snF) st m = Emm_V5_Vel_Control st m d v a snF"
| "emm_op (Pos_Control d v a c raF snF) st m = Emm_V5_Pos_Control st m d v a c raF snF"
| "emm_op (Stop_Now snF) st m = Emm_V5_Stop_Now st m snF"
| "emm_op Synchronous_motion st m = Emm_V5_Synchronous_motion st m"
| "emm_op (Origin_Set_O svF) st m = Emm_V5_Origin_Set_O st m svF"
| "emm_op (Origin_Modify_Params svF md d v t a b c potF) st m = Emm_V5_Origin_Modify_Params st m svF md d v t a b c potF"
| "emm_op (Origin_Trigger_Return md snF) st m = Emm_V5_Origin_Trigger_Return st m md snF"
| "emm_op Origin_Interrupt st m = Emm_V5_Origin_Interrupt st m"


section \<open>The answer loop\<close>

lemma u8_less_inc: "i < n \<Longrightarrow> unat (i + 1) = unat i + 1" for i n :: u8
  using unat_u8_inc [of i] unat_lt2p_u8 [of n] by (simp add: word_less_nat_alt)

text \<open>
  The loop stores the bytes it consumes one after the other and stops at the byte that fills the
  answer or at the first wait that times out.
\<close>

lemma ack_loop_cases:
  assumes "i < n" "unat n \<le> length buf"
  obtains got used es' where
    "ack_loop n i buf es = Inr (got, take (unat i) buf @ bytes used @ drop (unat i + length (bytes used)) buf, es')"
    "es = used @ es'" "unat i + length (bytes used) \<le> unat n"
    "got \<longleftrightarrow> unat i + length (bytes used) = unat n"
proof -
  have "\<exists>got used es'.
    ack_loop n i buf es = Inr (got, take (unat i) buf @ bytes used @ drop (unat i + length (bytes used)) buf, es') \<and>
    es = used @ es' \<and> unat i + length (bytes used) \<le> unat n \<and> (got \<longleftrightarrow> unat i + length (bytes used) = unat n)"
    using assms
  proof (induction n i buf es rule: ack_loop.induct)
    case (1 n i buf)
    then show ?case by (auto simp: word_less_nat_alt)
  next
    case (2 n i buf woken es)
    show ?case
    proof (cases woken)
      case True
      with 2 obtain got used es' where
        "ack_loop n i buf es = Inr (got, take (unat i) buf @ bytes used @ drop (unat i + length (bytes used)) buf, es')"
        "es = used @ es'" "unat i + length (bytes used) \<le> unat n" "got \<longleftrightarrow> unat i + length (bytes used) = unat n"
        by blast
      then show ?thesis using True by (intro exI [of _ got] exI [of _ "Empty True # used"] exI [of _ es']) simp
    next
      case False
      then show ?thesis using 2(2)
        by (intro exI [of _ False] exI [of _ "[Empty False]"] exI [of _ es]) (simp add: word_less_nat_alt)
    qed
  next
    case (3 n i buf ch es)
    have i: "unat i < length buf" "unat (i + 1) = unat i + 1" using 3 u8_less_inc [of i n] by (auto simp: word_less_nat_alt)
    have step: "take (Suc (unat i)) (buf[unat i := ch]) = take (unat i) buf @ [ch]" using i by simp
    show ?case
    proof (cases "i + 1 \<ge> n")
      case True
      then have "unat i + 1 = unat n" using 3(2) i by (simp add: word_less_nat_alt word_le_nat_alt)
      then show ?thesis using True i
        by (intro exI [of _ True] exI [of _ "[Got ch]"] exI [of _ es]) (simp add: upd_conv_take_nth_drop)
    next
      case False
      then obtain got used es' where
        "ack_loop n (i + 1) (buf[unat i := ch]) es =
           Inr (got, take (unat (i + 1)) (buf[unat i := ch]) @ bytes used @ drop (unat (i + 1) + length (bytes used)) (buf[unat i := ch]), es')"
        "es = used @ es'" "unat (i + 1) + length (bytes used) \<le> unat n" "got \<longleftrightarrow> unat (i + 1) + length (bytes used) = unat n"
        using 3(1) [of "buf[unat i := ch]"] 3(2,3) i by (auto simp: not_le)
      then show ?thesis using False i step
        by (intro exI [of _ got] exI [of _ "Got ch # used"] exI [of _ es']) simp
    qed
  qed
  then show ?thesis using that by blast
qed

lemma ack_loop_plain:
  assumes "plain es" "i < n" "unat i + length (bytes es) + 1 = unat n" "unat n \<le> length buf"
  shows "ack_loop n i buf (es @ Got b # rest) =
           Inr (True, take (unat i) buf @ bytes es @ [b] @ drop (unat n) buf, rest)"
  using assms
proof (induction es arbitrary: i buf rule: bytes.induct)
  case 1
  then have "n \<le> i + 1" using u8_less_inc [of i n] by (simp add: word_le_nat_alt)
  then show ?case using 1 by (simp add: upd_conv_take_nth_drop)
next
  case (2 c es)
  have i: "unat i < length buf" "unat (i + 1) = unat i + 1" using 2(3-5) u8_less_inc [of i n] by (auto simp: word_less_nat_alt)
  then have less: "i + 1 < n" using 2(4) by (simp add: word_less_nat_alt)
  from 2(1) [of "i + 1" "buf[unat i := c]"] 2(2-5) less i show ?case by (simp add: not_le)
qed simp

lemma receive_size: "0 < emm_get_cmd_receive_size cmd" "4 \<le> unat (emm_get_cmd_receive_size cmd)" "unat (emm_get_cmd_receive_size cmd) \<le> 8"
  by (simp_all add: emm_get_cmd_receive_size_def)

text \<open>The analysis only reads inside the buffer and needs the command's code in its second byte.\<close>

lemma ana_total:
  assumes "length buf = 64"
  shows "\<exists>m'. emm_cmd_ana m cmd buf = Inr m' \<and> stepper_motor_id m' = stepper_motor_id m \<and>
    (m' = m \<or> (buf ! 1 = cmd \<and> (cmd = 0x35 \<or> cmd = 0x36)))"
  using assms by (simp add: emm_cmd_ana_def Let_def)

lemma wait_total:
  assumes "length (Emm_rx_buf st) = 64"
  obtains st' m' used where
    "emm_wait_for_ack st m cmd = Inr (st', m')"
    "length (Emm_rx_buf st') = 64" "mutex_step st' = mutex_step st - 1" "emm_sent st' = emm_sent st"
    "emm_rx st = used @ emm_rx st'" "length (bytes used) \<le> unat (emm_get_cmd_receive_size cmd)"
    "Emm_rx_buf st' = bytes used @ drop (length (bytes used)) (Emm_rx_buf st)" "stepper_motor_id m' = stepper_motor_id m"
    "m' = m \<or> (length (bytes used) = unat (emm_get_cmd_receive_size cmd) \<and> bytes used ! 1 = cmd \<and> (cmd = 0x35 \<or> cmd = 0x36))"
proof -
  let ?n = "emm_get_cmd_receive_size cmd"
  obtain got used es' where *:
    "ack_loop ?n 0 (Emm_rx_buf st) (emm_rx st) = Inr (got, take (unat (0 :: u8)) (Emm_rx_buf st) @ bytes used @ drop (unat (0 :: u8) + length (bytes used)) (Emm_rx_buf st), es')"
    "emm_rx st = used @ es'" "unat (0 :: u8) + length (bytes used) \<le> unat ?n" "got \<longleftrightarrow> unat (0 :: u8) + length (bytes used) = unat ?n"
    using ack_loop_cases [of 0 ?n "Emm_rx_buf st" "emm_rx st"] receive_size [of cmd] assms by auto
  define buf where "buf = bytes used @ drop (length (bytes used)) (Emm_rx_buf st)"
  have ack: "ack_loop ?n 0 (Emm_rx_buf st) (emm_rx st) = Inr (got, buf, es')" using *(1) by (simp add: buf_def)
  have len: "length buf = 64" using *(3) receive_size(3) [of cmd] assms by (simp add: buf_def)
  let ?st = "st\<lparr>emm_rx := es', Emm_rx_buf := buf, mutex_step := mutex_step st - 1\<rparr>"
  show ?thesis
  proof (cases got)
    case True
    obtain m' where m': "emm_cmd_ana m cmd buf = Inr m'" "stepper_motor_id m' = stepper_motor_id m"
      "m' = m \<or> (buf ! 1 = cmd \<and> (cmd = 0x35 \<or> cmd = 0x36))" using ana_total [OF len] by blast
    have "buf ! 1 = bytes used ! 1" using True *(4) receive_size(2) [of cmd] by (simp add: nth_append buf_def)
    then show ?thesis using *(2-4) ack m' True len
      by (intro that [of ?st m' used]) (auto simp: emm_wait_for_ack_def, auto simp: buf_def)
  next
    case False
    then show ?thesis using *(2-4) ack len
      by (intro that [of ?st m used]) (auto simp: emm_wait_for_ack_def, auto simp: buf_def)
  qed
qed

section \<open>Frames\<close>

text \<open>A reference decoder of the motor's side: the address and the command of a frame.\<close>

fun emm_body :: "u8 list \<Rightarrow> emm_cmd option" where
  "emm_body [] = Some (Read_Sys_Params S_other)"
| "emm_body [c] = map_option Read_Sys_Params (map_of [(0x1F, S_VER), (0x20, S_RL), (0x21, S_PID), (0x24, S_VBUS),
     (0x27, S_CPHA), (0x31, S_ENCL), (0x33, S_TPOS), (0x35, S_VEL), (0x36, S_CPOS), (0x37, S_PERR), (0x3A, S_FLAG), (0x3B, S_ORG)] c)"
| "emm_body [c, k] = map_of [((0x0A, 0x6D), Reset_CurPos_To_Zero), ((0x0E, 0x52), Reset_Clog_Pro), ((0xFF, 0x66), Synchronous_motion),
     ((0x9C, 0x48), Origin_Interrupt), ((0x42, 0x6C), Read_Sys_Params S_Conf), ((0x43, 0x7A), Read_Sys_Params S_State)] (c, k)"
| "emm_body [c, k, x] =
     (if c = 0xFE \<and> k = 0x98 then Some (Stop_Now (x \<noteq> 0)) else if c = 0x93 \<and> k = 0x88 then Some (Origin_Set_O (x \<noteq> 0))
      else if c = 0x9A then Some (Origin_Trigger_Return k (x \<noteq> 0)) else None)"
| "emm_body [c, k, x, y] =
     (if c = 0x46 \<and> k = 0x69 then Some (Modify_Ctrl_Mode (x \<noteq> 0) y)
      else if c = 0xF3 \<and> k = 0xAB then Some (En_Control (x \<noteq> 0) (y \<noteq> 0)) else None)"
| "emm_body [c, d, vh, vl, a, s] = (if c = 0xF6 then Some (Vel_Control d (mk16 vh vl) a (s \<noteq> 0)) else None)"
| "emm_body [c, d, vh, vl, a, c3, c2, c1, c0, r, s] =
     (if c = 0xFD then Some (Pos_Control d (mk16 vh vl) a (mk32 c3 c2 c1 c0) (r \<noteq> 0) (s \<noteq> 0)) else None)"
| "emm_body [c, k, sv, md, d, vh, vl, t3, t2, t1, t0, ah, al, bh, bl, ch, cl, p] =
     (if c = 0x4C \<and> k = 0xAE then
        Some (Origin_Modify_Params (sv \<noteq> 0) md d (mk16 vh vl) (mk32 t3 t2 t1 t0) (mk16 ah al) (mk16 bh bl) (mk16 ch cl) (p \<noteq> 0))
      else None)"
| "emm_body _ = None"

fun emm_decode :: "u8 list \<Rightarrow> (u8 \<times> emm_cmd) option" where
  "emm_decode (a # xs) = (if xs \<noteq> [] \<and> last xs = 0x6B then map_option (Pair a) (emm_body (butlast xs)) else None)"
| "emm_decode [] = None"

lemma command_total:
  assumes "length (Emm_rx_buf st) = 64" "length bs \<le> cap" "2 \<le> length bs"
  obtains st' m' where "emm_command cap bs st m = Inr (st', m')" "length (Emm_rx_buf st') = 64"
    "mutex_step st' = (if mutex_step st < 255 then mutex_step st else mutex_step st - 1)"
    "emm_sent st' = emm_sent st @ [bs]" "stepper_motor_id m' = stepper_motor_id m"
proof -
  let ?st = "st\<lparr>mutex_step := if mutex_step st < 255 then mutex_step st + 1 else mutex_step st, emm_sent := emm_sent st @ [bs]\<rparr>"
  have c: "rd (bs @ drop (length bs) (replicate cap 0)) 1 = Inr (bs ! 1)"
    using assms(2,3) by (simp add: nth_append)
  have "emm_command cap bs st m = emm_wait_for_ack ?st m (bs ! 1)"
    using assms(2) c unfolding emm_command_def emm_transmit_def Let_def by simp
  moreover have "length (Emm_rx_buf ?st) = 64" using assms(1) by simp
  from wait_total [OF this, of m "bs ! 1"]
  obtain st' m' where "emm_wait_for_ack ?st m (bs ! 1) = Inr (st', m')" "length (Emm_rx_buf st') = 64"
    "mutex_step st' = mutex_step ?st - 1" "emm_sent st' = emm_sent ?st" "stepper_motor_id m' = stepper_motor_id m" .
  ultimately show ?thesis using that [of st' m'] by simp
qed

section \<open>Measurements\<close>

definition emm_angle :: "u32 \<Rightarrow> fl" where
  "emm_angle p = fdiv f32 (fmul f32 (f32 (of_nat (unat p))) (Fin 360)) (Fin 65536)"

lemma unat_lt2p_u32: "real (unat (w :: u32)) < 2 ^ 32"
proof -
  have "unat w < 2 ^ 32" by (rule order_less_le_trans [OF unsigned_less]) simp
  then have "real (unat w) < real (2 ^ 32)" by (simp only: of_nat_less_iff)
  then show ?thesis by simp
qed

lemma near_bounds: "\<bar>r - q\<bar> \<le> q / 2 ^ 24 \<Longrightarrow> 0 \<le> q \<Longrightarrow> q / 2 \<le> r \<and> r \<le> 2 * q" for q r :: real
proof -
  assume r: "\<bar>r - q\<bar> \<le> q / 2 ^ 24" and q: "0 \<le> q"
  have "q / 2 ^ 24 \<le> q / 2" using q by simp
  then show ?thesis using r q by linarith
qed

text \<open>Three roundings: the conversion, the product and the quotient.\<close>

lemma emm_angle_error:
  obtains c where "emm_angle p = Fin c" "\<bar>c - real (unat p) * 360 / 65536\<bar> \<le> real (unat p) * 360 / 65536 / 2 ^ 22"
proof (cases "unat p = 0")
  case True
  then show ?thesis by (intro that [of 0]) (simp_all add: emm_angle_def)
next
  case False
  define x where "x = real (unat p)"
  have "1 \<le> unat p" using False by simp
  then have "1 \<le> x" unfolding x_def by linarith
  moreover have "x < 4294967296" using unat_lt2p_u32 [of p] unfolding x_def by (simp del: of_nat_unat)
  ultimately have x: "1 \<le> x" "x < 4294967296" .
  obtain a where a: "f32 x = Fin a" "\<bar>a - x\<bar> \<le> x / 2 ^ 24" using f32_relative [of x] x by auto
  have a': "x / 2 \<le> a" "a \<le> 2 * x" using near_bounds [OF a(2)] x(1) by linarith+
  obtain b where b: "f32 (a * 360) = Fin b" "\<bar>b - a * 360\<bar> \<le> a * 360 / 2 ^ 24"
    using f32_relative [of "a * 360"] x a' by auto
  have b': "x \<le> b" "b \<le> 10000000000000" using near_bounds [OF b(2)] a' x by linarith+
  obtain c where c: "f32 (b / 65536) = Fin c" "\<bar>c - b / 65536\<bar> \<le> b / 65536 / 2 ^ 24"
    using f32_relative [of "b / 65536"] b' x by auto
  have "\<bar>c - x * 360 / 65536\<bar> \<le> x * 360 / 65536 / 2 ^ 22"
    using abs_le_D1 [OF a(2)] abs_le_D2 [OF a(2)] abs_le_D1 [OF b(2)] abs_le_D2 [OF b(2)] abs_le_D1 [OF c(2)] abs_le_D2 [OF c(2)] x
    by (intro abs_leI) (simp_all add: field_simps)
  then show ?thesis using a(1) b(1) c(1) by (intro that [of c]) (simp_all add: emm_angle_def x_def)
qed

lemma emm_angle_exact:
  assumes "unat p \<le> 46603"
  shows "emm_angle p = Fin (real (unat p) * 360 / 65536)"
proof -
  define n where "n = int (unat p)"
  have n: "0 \<le> n" "n \<le> 46603" "real (unat p) = of_int n" using assms unfolding n_def by linarith+
  have small: "\<bar>n * 360\<bar> < 2 ^ 24" "\<bar>n\<bar> < 2 ^ 24" using n(1,2) by (simp_all add: abs_if)
  then have "f32 (of_int (n * 360)) = Fin (of_int (n * 360))" by (intro f32_of_int)
  moreover have "real_of_int n * 360 / 65536 \<le> of_int 46603" "0 \<le> real_of_int n" using n(1,2) by simp_all
  then obtain r where "f32 (of_int n * 360 / 65536) = Fin r" "r = rnd 24 (- 126) (of_int n * 360 / 65536)"
    using f32_bounded [of "of_int n * 360 / 65536" 46603] by auto
  moreover have "rnd 24 (- 126) (of_int (n * 360) * 2 powi - 16) = of_int (n * 360) * 2 powi - 16"
    using small by (intro rnd_exact) simp_all
  then have "f32 (of_int n * 360 / 65536) = Fin (of_int n * 360 / 65536)"
    using calculation by (simp add: power_int_def power_divide)
  moreover have "f32 (of_int n) = Fin (of_int n)" using small(2) by (intro f32_of_int)
  ultimately show ?thesis unfolding emm_angle_def n(3) by simp
qed

lemma wait_plain:
  assumes "length (Emm_rx_buf st) = 64" "emm_rx st = es @ Got e # rest" "plain es"
    "length (bytes es) + 1 = unat (emm_get_cmd_receive_size cmd)"
  shows "emm_wait_for_ack st m cmd = cbind (emm_cmd_ana m cmd (bytes es @ [e] @ drop (length (bytes es) + 1) (Emm_rx_buf st))) (\<lambda>m.
     Inr (st\<lparr>emm_rx := rest, Emm_rx_buf := bytes es @ [e] @ drop (length (bytes es) + 1) (Emm_rx_buf st), mutex_step := mutex_step st - 1\<rparr>, m))"
  using ack_loop_plain [of es 0 "emm_get_cmd_receive_size cmd" "Emm_rx_buf st" e rest] receive_size [of cmd] assms
  by (simp add: emm_wait_for_ack_def)

section \<open>Properties\<close>

text \<open>
  C17: every command of the driver returns without a fault whatever the line delivers, leaves the
  mutex held as often as before (once less when it was held 255 times and could not be taken) and the motor's address alone, and writes exactly one frame, from
  which the reference decoder gets back the address and the command with all its parameters.
\<close>
theorem emm_commands:
  assumes "length (Emm_rx_buf st) = 64"
  shows "\<exists>st' m' f. emm_op c st m = Inr (st', m') \<and> emm_sent st' = emm_sent st @ [f] \<and>
    emm_decode f = Some (stepper_motor_id m, c) \<and> mutex_step st' = (if mutex_step st < 255 then mutex_step st else mutex_step st - 1) \<and>
    length (Emm_rx_buf st') = 64 \<and> stepper_motor_id m' = stepper_motor_id m"
proof -
  have *: "\<exists>st' m' f. emm_command cap bs st m = Inr (st', m') \<and> emm_sent st' = emm_sent st @ [f] \<and>
    emm_decode f = Some (stepper_motor_id m, c') \<and> mutex_step st' = (if mutex_step st < 255 then mutex_step st else mutex_step st - 1) \<and>
    length (Emm_rx_buf st') = 64 \<and> stepper_motor_id m' = stepper_motor_id m"
    if "length bs \<le> cap" "2 \<le> length bs" "emm_decode bs = Some (stepper_motor_id m, c')" for cap bs c'
    using command_total [OF assms that(1,2), of m] that(3) by blast
  show ?thesis
  proof (cases c)
    case (Read_Sys_Params s)
    have "emm_decode ([stepper_motor_id m] @ sys_code s @ [0x6B]) = Some (stepper_motor_id m, Read_Sys_Params s)"
      by (cases s) simp_all
    moreover have "length (sys_code s) \<le> 2" by (cases s) simp_all
    ultimately show ?thesis unfolding Read_Sys_Params emm_op.simps Emm_V5_Read_Sys_Params_def
      by (intro *) simp_all
  qed (simp only: emm_op.simps Emm_V5_Reset_CurPos_To_Zero_def Emm_V5_Reset_Clog_Pro_def Emm_V5_Modify_Ctrl_Mode_def
      Emm_V5_En_Control_def Emm_V5_Vel_Control_def Emm_V5_Pos_Control_def Emm_V5_Stop_Now_def Emm_V5_Synchronous_motion_def
      Emm_V5_Origin_Set_O_def Emm_V5_Origin_Modify_Params_def Emm_V5_Origin_Trigger_Return_def Emm_V5_Origin_Interrupt_def,
      rule *, simp, simp, simp)+
qed

definition emm_line :: "rx_event list \<Rightarrow> emm" where
  "emm_line es = \<lparr>emm_sent = [], emm_rx = es, Emm_rx_buf = replicate 64 0, mutex_step = 0\<rparr>"

definition emm_motor :: stepper_motor where
  "emm_motor = \<lparr>stepper_motor_id = 1, stepper_motor_speed = 0, stepper_motor_angle = Fin 0\<rparr>"

theorem emm_commands_witness:
  "\<exists>st' m' f. emm_op (Pos_Control 1 1500 255 3200 True False) (emm_line [Got 1, Empty True, Got 0xFD, Empty False]) emm_motor = Inr (st', m') \<and>
     emm_sent st' = [] @ [f] \<and> emm_decode f = Some (1, Pos_Control 1 1500 255 3200 True False) \<and> mutex_step st' = 0"
  using emm_commands [of "emm_line [Got 1, Empty True, Got 0xFD, Empty False]" "Pos_Control 1 1500 255 3200 True False" emm_motor]
  by (auto simp: emm_line_def emm_motor_def)

text \<open>
  C36: a wait for an answer takes events off the line until the number of bytes the command's
  answer has have arrived or a wait times out, never more bytes than that; it releases the mutex
  once, and it changes the motor's values only after a complete answer whose second byte is the
  code of the speed or position query that was sent. The other bytes of an answer are not compared.
\<close>
theorem emm_wait_sound:
  assumes "length (Emm_rx_buf st) = 64"
  shows "\<exists>st' m' used. emm_wait_for_ack st m cmd = Inr (st', m') \<and> mutex_step st' = mutex_step st - 1 \<and>
    emm_rx st = used @ emm_rx st' \<and> length (bytes used) \<le> unat (emm_get_cmd_receive_size cmd) \<and>
    take (length (bytes used)) (Emm_rx_buf st') = bytes used \<and>
    (m' = m \<or> (length (bytes used) = unat (emm_get_cmd_receive_size cmd) \<and> bytes used ! 1 = cmd \<and> (cmd = 0x35 \<or> cmd = 0x36)))"
proof -
  from wait_total [OF assms, of m cmd]
  obtain st' m' used where "emm_wait_for_ack st m cmd = Inr (st', m')"
    "length (Emm_rx_buf st') = 64" "mutex_step st' = mutex_step st - 1" "emm_sent st' = emm_sent st"
    "emm_rx st = used @ emm_rx st'" "length (bytes used) \<le> unat (emm_get_cmd_receive_size cmd)"
    "Emm_rx_buf st' = bytes used @ drop (length (bytes used)) (Emm_rx_buf st)" "stepper_motor_id m' = stepper_motor_id m"
    "m' = m \<or> (length (bytes used) = unat (emm_get_cmd_receive_size cmd) \<and> bytes used ! 1 = cmd \<and> (cmd = 0x35 \<or> cmd = 0x36))" .
  then show ?thesis by (intro exI [of _ st'] exI [of _ m'] exI [of _ used]) simp
qed

theorem emm_wait_sound_witness:
  "\<exists>st' m' used. emm_wait_for_ack (emm_line [Got 1, Got 0x20, Empty True, Got 0, Got 7, Got 9]) emm_motor 0x20 = Inr (st', m') \<and>
     [Got 1, Got 0x20, Empty True, Got 0, Got 7, Got 9] = used @ emm_rx st' \<and> length (bytes used) \<le> 4 \<and> m' = emm_motor"
  using emm_wait_sound [of "emm_line [Got 1, Got 0x20, Empty True, Got 0, Got 7, Got 9]" emm_motor "0x20"]
  by (simp add: emm_line_def emm_get_cmd_receive_size_def) blast

text \<open>
  A complete speed answer sets the speed to the transmitted magnitude, negated modulo
  \<open>2 ^ 16\<close> for a sign byte that is not zero; a complete position answer sets the angle to the
  transmitted count times 360/65536 degrees with that sign, exactly for counts up to 46603 and with
  a relative error of at most \<open>2 ^ -22\<close> for all of them. Waits between the bytes and whatever follows do
  not matter.
\<close>
theorem emm_measurements:
  assumes "length (Emm_rx_buf st) = 64" "emm_rx st = es @ Got e # rest" "plain es"
  shows "(bytes es = [adr, 0x35, sign, hi8 v, lo8 v] \<longrightarrow>
      (\<exists>st'. emm_rx st' = rest \<and>
        emm_wait_for_ack st m 0x35 = Inr (st', m\<lparr>stepper_motor_speed := if sign = 0 then v else - v\<rparr>))) \<and>
    (bytes es = [adr, 0x36, sign, byte32 3 p, byte32 2 p, byte32 1 p, byte32 0 p] \<longrightarrow>
      (\<exists>st' a. emm_rx st' = rest \<and>
        emm_wait_for_ack st m 0x36 = Inr (st', m\<lparr>stepper_motor_angle := Fin (if sign = 0 then a else - a)\<rparr>) \<and>
        \<bar>a - real (unat p) * 360 / 65536\<bar> \<le> real (unat p) * 360 / 65536 / 2 ^ 22 \<and>
        (unat p \<le> 46603 \<longrightarrow> a = real (unat p) * 360 / 65536)))"
proof (intro conjI impI)
  assume b: "bytes es = [adr, 0x35, sign, hi8 v, lo8 v]"
  have "push_bit 8 (ucast (hi8 v)) OR ucast (lo8 v) = v" using mk16_hi_lo [of v] by (simp only: mk16_def)
  then show "\<exists>st'. emm_rx st' = rest \<and>
        emm_wait_for_ack st m 0x35 = Inr (st', m\<lparr>stepper_motor_speed := if sign = 0 then v else - v\<rparr>)"
    using wait_plain [OF assms, of "0x35" m] b
    by (simp add: emm_get_cmd_receive_size_def emm_cmd_ana_def Let_def)
next
  assume b: "bytes es = [adr, 0x36, sign, byte32 3 p, byte32 2 p, byte32 1 p, byte32 0 p]"
  have p: "push_bit 24 (ucast (byte32 3 p)) OR push_bit 16 (ucast (byte32 2 p)) OR push_bit 8 (ucast (byte32 1 p)) OR ucast (byte32 0 p) = p"
    using mk32_of_bytes(1) [of p] by (simp only: mk32_def)
  obtain a where a: "emm_angle p = Fin a" "\<bar>a - real (unat p) * 360 / 65536\<bar> \<le> real (unat p) * 360 / 65536 / 2 ^ 22"
    by (rule emm_angle_error)
  moreover have "unat p \<le> 46603 \<longrightarrow> a = real (unat p) * 360 / 65536" using emm_angle_exact [of p] a(1) by auto
  moreover have "\<exists>st'. emm_rx st' = rest \<and>
        emm_wait_for_ack st m 0x36 = Inr (st', m\<lparr>stepper_motor_angle := Fin (if sign = 0 then a else - a)\<rparr>)"
    using wait_plain [OF assms, of "0x36" m] b a(1) p
    by (simp add: emm_get_cmd_receive_size_def emm_cmd_ana_def Let_def emm_angle_def del: of_nat_unat)
  ultimately show "\<exists>st' a. emm_rx st' = rest \<and>
        emm_wait_for_ack st m 0x36 = Inr (st', m\<lparr>stepper_motor_angle := Fin (if sign = 0 then a else - a)\<rparr>) \<and>
        \<bar>a - real (unat p) * 360 / 65536\<bar> \<le> real (unat p) * 360 / 65536 / 2 ^ 22 \<and>
        (unat p \<le> 46603 \<longrightarrow> a = real (unat p) * 360 / 65536)" by blast
qed

theorem emm_measurements_witness:
  "(\<exists>st'. emm_wait_for_ack (emm_line (map Got [1, 0x35, 1, 0x05, 0xDC] @ Got 0x6B # [Got 1])) emm_motor 0x35 =
      Inr (st', emm_motor\<lparr>stepper_motor_speed := - 1500\<rparr>)) \<and>
   (\<exists>st' a. emm_wait_for_ack (emm_line (map Got [1, 0x36, 0, 0, 0, 0x80, 0] @ Got 0x6B # [])) emm_motor 0x36 =
      Inr (st', emm_motor\<lparr>stepper_motor_angle := Fin a\<rparr>) \<and> a = 180)"
  using emm_measurements [of "emm_line (map Got [1, 0x35, 1, 0x05, 0xDC] @ Got 0x6B # [Got 1])" "map Got [1, 0x35, 1, 0x05, 0xDC]" "0x6B" "[Got 1]" 1 1 1500 emm_motor]
    emm_measurements [of "emm_line (map Got [1, 0x36, 0, 0, 0, 0x80, 0] @ Got 0x6B # [])" "map Got [1, 0x36, 0, 0, 0, 0x80, 0]" "0x6B" "[]" 1 0 0 emm_motor 32768]
  by (simp add: emm_line_def hi8_def lo8_def byte32_def) blast

end
