(* ===== verification/RingBuffer.thy ===== *)
theory RingBuffer
  imports Prelude
begin

text \<open>
  The ring buffer of RT-Thread, \<^verbatim>\<open>components/drivers/ipc/ringbuffer.c\<close>. It carries the motor numbers from the CAN callback
  to the receiving thread and every byte of a serial port. An index has 31 bits, a mirror one bit, the size is an \<^verbatim>\<open>int\<close>; the
  truncations of the C types are written out. A pool is the list of its bytes.
\<close>

section \<open>Data\<close>

record rt_ringbuffer =
  buffer_ptr :: "u8 list"
  read_mirror :: bool
  read_index :: int
  write_mirror :: bool
  write_index :: int
  buffer_size :: int

datatype rt_ringbuffer_state = RT_RINGBUFFER_EMPTY | RT_RINGBUFFER_FULL | RT_RINGBUFFER_HALFFULL

text \<open>The values an index field and an unsigned length can hold, and the conversion of a length to \<^verbatim>\<open>rt_int32_t\<close>.\<close>

definition idx31 :: "int \<Rightarrow> int" where "idx31 x = x mod 2 ^ 31"
definition len32 :: "int \<Rightarrow> int" where "len32 x = x mod 2 ^ 32"
definition sgn32 :: "int \<Rightarrow> int" where "sgn32 x = (x + 2 ^ 31) mod 2 ^ 32 - 2 ^ 31"

text \<open>An index into the pool that is negative or too large is a fault.\<close>

definition at_index :: "int \<Rightarrow> nat cres" where
  "at_index i = (if i < 0 then Inl OutOfBounds else Inr (nat i))"

definition pool_get :: "rt_ringbuffer \<Rightarrow> int \<Rightarrow> int \<Rightarrow> u8 list cres" where
  "pool_get rb i n = cbind (at_index i) (\<lambda>i. rd_n (drop i (buffer_ptr rb)) (nat n))"

definition pool_put :: "rt_ringbuffer \<Rightarrow> int \<Rightarrow> u8 list \<Rightarrow> rt_ringbuffer cres" where
  "pool_put rb i src = cbind (at_index i) (\<lambda>i. cbind (cpy (buffer_ptr rb) i src) (\<lambda>p. Inr (rb\<lparr>buffer_ptr := p\<rparr>)))"

text \<open>The part of the caller's data a copy of \<open>n\<close> bytes from position \<open>i\<close> reads.\<close>

definition src_part :: "u8 list \<Rightarrow> int \<Rightarrow> int \<Rightarrow> u8 list cres" where
  "src_part ptr i n = cbind (at_index i) (\<lambda>i. rd_n (drop i ptr) (nat n))"

section \<open>Operations\<close>

definition rt_ringbuffer_status :: "rt_ringbuffer \<Rightarrow> rt_ringbuffer_state" where
  "rt_ringbuffer_status rb =
     (if read_index rb = write_index rb
      then (if read_mirror rb = write_mirror rb then RT_RINGBUFFER_EMPTY else RT_RINGBUFFER_FULL)
      else RT_RINGBUFFER_HALFFULL)"

definition rt_ringbuffer_data_len :: "rt_ringbuffer \<Rightarrow> int" where
  "rt_ringbuffer_data_len rb =
     (case rt_ringbuffer_status rb of
        RT_RINGBUFFER_EMPTY \<Rightarrow> 0
      | RT_RINGBUFFER_FULL \<Rightarrow> len32 (buffer_size rb)
      | RT_RINGBUFFER_HALFFULL \<Rightarrow>
          (let wi = write_index rb; ri = read_index rb in
           if wi > ri then wi - ri else len32 (buffer_size rb - (ri - wi))))"

definition rt_ringbuffer_space_len :: "rt_ringbuffer \<Rightarrow> int" where
  "rt_ringbuffer_space_len rb = len32 (buffer_size rb - rt_ringbuffer_data_len rb)"

definition rt_ringbuffer_init :: "u8 list \<Rightarrow> int \<Rightarrow> rt_ringbuffer cres" where
  "rt_ringbuffer_init pool sz =
     (if sz \<le> 0 then Inl Stuck
      else Inr \<lparr>buffer_ptr = pool, read_mirror = False, read_index = 0, write_mirror = False, write_index = 0,
                buffer_size = sz - sz mod 8\<rparr>)"

text \<open>The distances to the end of the pool: the difference of two \<^verbatim>\<open>int\<close>s, compared as unsigned.\<close>

definition to_end_w :: "rt_ringbuffer \<Rightarrow> int" where "to_end_w rb = len32 (buffer_size rb - write_index rb)"
definition to_end_r :: "rt_ringbuffer \<Rightarrow> int" where "to_end_r rb = len32 (buffer_size rb - read_index rb)"

text \<open>
  The copy of \<^verbatim>\<open>length\<close> bytes to the write position, in one or two parts; the flag says whether it went to the other side of the
  mirror. Both functions that write a block do this.
\<close>

definition write_block :: "rt_ringbuffer \<Rightarrow> u8 list \<Rightarrow> int \<Rightarrow> (rt_ringbuffer \<times> bool) cres" where
  "write_block rb ptr len =
     (if to_end_w rb > len then
        cbind (src_part ptr 0 len) (\<lambda>d. cbind (pool_put rb (write_index rb) d) (\<lambda>rb.
        Inr (rb\<lparr>write_index := idx31 (write_index rb + len)\<rparr>, False)))
      else
        cbind (src_part ptr 0 (to_end_w rb)) (\<lambda>d. cbind (pool_put rb (write_index rb) d) (\<lambda>rb.
        cbind (src_part ptr (to_end_w rb) (len32 (len - to_end_w rb))) (\<lambda>d. cbind (pool_put rb 0 d) (\<lambda>rb.
        Inr (rb\<lparr>write_mirror := \<not> write_mirror rb, write_index := idx31 (len - to_end_w rb)\<rparr>, True))))))"

definition rt_ringbuffer_put :: "rt_ringbuffer \<Rightarrow> u8 list \<Rightarrow> u32 \<Rightarrow> (int \<times> rt_ringbuffer) cres" where
  "rt_ringbuffer_put rb ptr len =
     (let sz = rt_ringbuffer_space_len rb in
      if sz = 0 then Inr (0, rb)
      else let n = (if sz < uint len then sz else uint len) in
        cbind (write_block rb ptr n) (\<lambda>(rb, _). Inr (n, rb)))"

definition rt_ringbuffer_put_force :: "rt_ringbuffer \<Rightarrow> u8 list \<Rightarrow> u32 \<Rightarrow> (int \<times> rt_ringbuffer) cres" where
  "rt_ringbuffer_put_force rb ptr len =
     (let space = rt_ringbuffer_space_len rb; sz = len32 (buffer_size rb);
          (ptr, n) = (if uint len > sz then (drop (nat (uint len - sz)) ptr, sz) else (ptr, uint len)) in
      cbind (write_block rb ptr n) (\<lambda>(rb, other_side).
      if \<not> other_side then
        Inr (n, if n > space then rb\<lparr>read_index := write_index rb\<rparr> else rb)
      else
        Inr (n, if n > space
                then let rb = (if write_index rb \<le> read_index rb then rb\<lparr>read_mirror := \<not> read_mirror rb\<rparr> else rb) in
                     rb\<lparr>read_index := write_index rb\<rparr>
                else rb)))"

definition rt_ringbuffer_get :: "rt_ringbuffer \<Rightarrow> u32 \<Rightarrow> (u8 list \<times> rt_ringbuffer) cres" where
  "rt_ringbuffer_get rb len =
     (let sz = rt_ringbuffer_data_len rb in
      if sz = 0 then Inr ([], rb)
      else let n = (if sz < uint len then sz else uint len) in
        if to_end_r rb > n then
          cbind (pool_get rb (read_index rb) n) (\<lambda>d. Inr (d, rb\<lparr>read_index := idx31 (read_index rb + n)\<rparr>))
        else
          cbind (pool_get rb (read_index rb) (to_end_r rb)) (\<lambda>d. cbind (pool_get rb 0 (len32 (n - to_end_r rb))) (\<lambda>e.
          Inr (d @ e, rb\<lparr>read_mirror := \<not> read_mirror rb, read_index := idx31 (n - to_end_r rb)\<rparr>))))"

text \<open>What the returned pointer and size show; the bytes are taken out of the buffer.\<close>

definition rt_ringbuffer_peek :: "rt_ringbuffer \<Rightarrow> (u8 list \<times> rt_ringbuffer) cres" where
  "rt_ringbuffer_peek rb =
     (let sz = rt_ringbuffer_data_len rb in
      if sz = 0 then Inr ([], rb)
      else if to_end_r rb > sz then
        cbind (pool_get rb (read_index rb) sz) (\<lambda>d. Inr (d, rb\<lparr>read_index := idx31 (read_index rb + sz)\<rparr>))
      else
        cbind (pool_get rb (read_index rb) (to_end_r rb)) (\<lambda>d. Inr (d, rb\<lparr>read_mirror := \<not> read_mirror rb, read_index := 0\<rparr>)))"

definition rt_ringbuffer_putchar :: "rt_ringbuffer \<Rightarrow> u8 \<Rightarrow> (int \<times> rt_ringbuffer) cres" where
  "rt_ringbuffer_putchar rb c =
     (if rt_ringbuffer_space_len rb = 0 then Inr (0, rb)
      else cbind (pool_put rb (write_index rb) [c]) (\<lambda>rb.
        Inr (1, if write_index rb = buffer_size rb - 1
                then rb\<lparr>write_mirror := \<not> write_mirror rb, write_index := 0\<rparr>
                else rb\<lparr>write_index := idx31 (write_index rb + 1)\<rparr>)))"

definition rt_ringbuffer_putchar_force :: "rt_ringbuffer \<Rightarrow> u8 \<Rightarrow> (int \<times> rt_ringbuffer) cres" where
  "rt_ringbuffer_putchar_force rb c =
     (let old_state = rt_ringbuffer_status rb in
      cbind (pool_put rb (write_index rb) [c]) (\<lambda>rb.
      if write_index rb = buffer_size rb - 1 then
        let rb = rb\<lparr>write_mirror := \<not> write_mirror rb, write_index := 0\<rparr> in
        Inr (1, if old_state = RT_RINGBUFFER_FULL
                then rb\<lparr>read_mirror := \<not> read_mirror rb, read_index := write_index rb\<rparr> else rb)
      else
        let rb = rb\<lparr>write_index := idx31 (write_index rb + 1)\<rparr> in
        Inr (1, if old_state = RT_RINGBUFFER_FULL then rb\<lparr>read_index := write_index rb\<rparr> else rb)))"

definition rt_ringbuffer_getchar :: "rt_ringbuffer \<Rightarrow> (u8 option \<times> rt_ringbuffer) cres" where
  "rt_ringbuffer_getchar rb =
     (if rt_ringbuffer_data_len rb = 0 then Inr (None, rb)
      else cbind (pool_get rb (read_index rb) 1) (\<lambda>d.
        Inr (Some (hd d), if read_index rb = buffer_size rb - 1
                          then rb\<lparr>read_mirror := \<not> read_mirror rb, read_index := 0\<rparr>
                          else rb\<lparr>read_index := idx31 (read_index rb + 1)\<rparr>)))"

definition rt_ringbuffer_reset :: "rt_ringbuffer \<Rightarrow> rt_ringbuffer" where
  "rt_ringbuffer_reset rb = rb\<lparr>read_mirror := False, read_index := 0, write_mirror := False, write_index := 0\<rparr>"

text \<open>
  The allocator is a parameter: whether it serves the object and the pool of the given size, whose bytes are anything. The result is
  \<open>None\<close> for \<^verbatim>\<open>RT_NULL\<close>.
\<close>

definition rt_ringbuffer_create :: "u32 \<Rightarrow> bool \<Rightarrow> (u32 \<Rightarrow> u8 list option) \<Rightarrow> rt_ringbuffer option cres" where
  "rt_ringbuffer_create sz served pool_of =
     (if sz = 0 then Inl Stuck
      else let sz = sz AND NOT 7 in
        if \<not> served then Inr None
        else (case pool_of sz of None \<Rightarrow> Inr None
              | Some pool \<Rightarrow> cbind (rt_ringbuffer_init pool (sgn32 (uint sz))) (\<lambda>rb. Inr (Some rb))))"

section \<open>Windows of a circular pool\<close>

text \<open>The \<open>n\<close> bytes from position \<open>r\<close> on, and a pool after bytes were stored from position \<open>w\<close> on, both around the end.\<close>

definition win :: "nat \<Rightarrow> 'a list \<Rightarrow> nat \<Rightarrow> nat \<Rightarrow> 'a list" where
  "win N p r n = map (\<lambda>i. p ! ((r + i) mod N)) [0..<n]"

fun cw :: "nat \<Rightarrow> 'a list \<Rightarrow> nat \<Rightarrow> 'a list \<Rightarrow> 'a list" where
  "cw N p w [] = p"
| "cw N p w (x # xs) = cw N (p[w mod N := x]) (Suc w) xs"

lemma length_win [simp]: "length (win N p r n) = n"
  by (simp add: win_def)

lemma win_0 [simp]: "win N p r 0 = []"
  by (simp add: win_def)

lemma length_cw [simp]: "length (cw N p w d) = length p"
  by (induction N p w d rule: cw.induct) simp_all

lemma win_nth [simp]: "i < n \<Longrightarrow> win N p r n ! i = p ! ((r + i) mod N)"
  by (simp add: win_def)

lemma win_drop: "drop k (win N p r n) = win N p (r + k) (n - k)"
  by (rule nth_equalityI) (simp_all add: add.assoc)

lemma win_take: "take k (win N p r n) = win N p r (min k n)"
  by (rule nth_equalityI) (simp_all add: win_def)

lemma win_mod: "win N p (r mod N) n = win N p r n"
  by (simp add: win_def mod_add_left_eq)

lemma win_Suc: "win N p r (Suc n) = win N p r n @ [p ! ((r + n) mod N)]"
  by (simp add: win_def)

lemma win_flat: "r + n \<le> N \<Longrightarrow> N \<le> length p \<Longrightarrow> win N p r n = take n (drop r p)"
  by (rule nth_equalityI) (simp_all add: win_def)

lemma win_around:
  assumes "r < N" "N \<le> r + n" "n \<le> N" "N \<le> length p"
  shows "win N p r n = take (N - r) (drop r p) @ take (n - (N - r)) p"
proof (rule nth_equalityI)
  fix i assume "i < length (win N p r n)"
  moreover have "(r + i) mod N = r + i - N" if "N \<le> r + i" "i < n"
    using that assms by (simp add: mod_if)
  ultimately show "win N p r n ! i = (take (N - r) (drop r p) @ take (n - (N - r)) p) ! i"
    using assms by (auto simp: nth_append add.commute)
qed (use assms in simp)

lemma cw_append: "cw N p w (d @ e) = cw N (cw N p w d) (w + length d) e"
  by (induction N p w d rule: cw.induct) simp_all

lemma cw_turn: "cw N p (N + w) d = cw N p w d"
  by (induction d arbitrary: p w) (simp_all flip: add_Suc_right)

lemma cw_mod: "cw N p (w mod N) d = cw N p w d"
proof (induction d arbitrary: p w)
  case (Cons x d)
  have "cw N p (w mod N) (x # d) = cw N (p[w mod N := x]) (Suc (w mod N) mod N) d" by (simp only: cw.simps mod_mod_trivial Cons.IH)
  also have "\<dots> = cw N p w (x # d)" by (simp only: mod_Suc_eq Cons.IH cw.simps)
  finally show ?case .
qed simp

lemma cw_flat: "w + length d \<le> N \<Longrightarrow> N \<le> length p \<Longrightarrow> cw N p w d = take w p @ d @ drop (w + length d) p"
proof (induction d arbitrary: p w)
  case (Cons x d)
  then show ?case using Cons.IH [of "Suc w" "p[w := x]"] by simp
qed simp

lemma cw_around:
  assumes "w < N" "N - w \<le> length d" "length d \<le> N" "N \<le> length p"
  shows "cw N p w d = cw N (cw N p w (take (N - w) d)) 0 (drop (N - w) d)"
proof -
  have "cw N p w d = cw N p w (take (N - w) d @ drop (N - w) d)" by simp
  also have "\<dots> = cw N (cw N p w (take (N - w) d)) (N + 0) (drop (N - w) d)" unfolding cw_append using assms by simp
  finally show ?thesis unfolding cw_turn .
qed

lemma win_cw:
  assumes "n + length d \<le> N" "N \<le> length p"
  shows "win N (cw N p (r + n) d) r (n + length d) = win N p r n @ d"
  using assms
proof (induction d arbitrary: p n)
  case (Cons x d)
  let ?p = "p[(r + n) mod N := x]"
  have "(r + i) mod N \<noteq> (r + n) mod N" if "i < n" for i
  proof
    assume "(r + i) mod N = (r + n) mod N"
    then have "N dvd (r + n) - (r + i)" using that by (metis mod_eq_dvd_iff_nat add_le_cancel_left less_imp_le)
    then show False using that Cons.prems(1) by (auto dest: dvd_imp_le)
  qed
  then have "win N ?p r n = win N p r n" by (auto simp: win_def) (metis nth_list_update_neq)
  moreover have "(r + n) mod N < length p" using Cons.prems by (metis add_is_0 gr0I le_zero_eq length_0_conv list.distinct(1) mod_less_divisor order_less_le_trans)
  ultimately show ?case using Cons.IH [of "Suc n" ?p] Cons.prems by (simp add: win_Suc)
qed simp

section \<open>The queue in a buffer\<close>

text \<open>The buffer holds the bytes \<open>q\<close> in a pool of \<open>N\<close> bytes. This is the well-formedness of a ring buffer as well.\<close>

definition ring_holds :: "rt_ringbuffer \<Rightarrow> nat \<Rightarrow> u8 list \<Rightarrow> bool" where
  "ring_holds rb N q \<longleftrightarrow> 0 < N \<and> N < 2 ^ 31 \<and> N \<le> length (buffer_ptr rb) \<and> buffer_size rb = int N \<and> length q \<le> N \<and>
     (\<exists>r < N. read_index rb = int r \<and> write_index rb = int ((r + length q) mod N) \<and>
        (write_mirror rb \<noteq> read_mirror rb \<longleftrightarrow> N \<le> r + length q) \<and> q = win N (buffer_ptr rb) r (length q))"

lemma narrow [simp]: "0 \<le> x \<Longrightarrow> x < 2 ^ 31 \<Longrightarrow> idx31 x = x" "0 \<le> x \<Longrightarrow> x < 2 ^ 32 \<Longrightarrow> len32 x = x"
  by (simp_all add: idx31_def len32_def)

lemma around: "r < N \<Longrightarrow> n \<le> N \<Longrightarrow> (r + n) mod N = (if N \<le> r + n then r + n - N else r + n)" for r :: nat
  by (simp add: mod_if)

text \<open>How a state is opened and closed again: read position, number of bytes, and the two derived fields.\<close>

lemma ring_holdsE:
  assumes "ring_holds rb N q"
  obtains r where "0 < N" "N < 2 ^ 31" "N \<le> length (buffer_ptr rb)" "buffer_size rb = int N" "length q \<le> N" "r < N" "read_index rb = int r"
    "write_index rb = int ((r + length q) mod N)" "write_mirror rb \<noteq> read_mirror rb \<longleftrightarrow> N \<le> r + length q"
    "win N (buffer_ptr rb) r (length q) = q"
proof -
  obtain r where "r < N" "read_index rb = int r" "write_index rb = int ((r + length q) mod N)"
    "write_mirror rb \<noteq> read_mirror rb \<longleftrightarrow> N \<le> r + length q" "q = win N (buffer_ptr rb) r (length q)"
    using assms unfolding ring_holds_def by blast
  then show ?thesis using that [of r] assms unfolding ring_holds_def by argo
qed

lemma ring_lens:
  assumes "ring_holds rb N q"
  shows "rt_ringbuffer_data_len rb = int (length q)" "rt_ringbuffer_space_len rb = int (N - length q)"
    "rt_ringbuffer_status rb = (if q = [] then RT_RINGBUFFER_EMPTY else if length q = N then RT_RINGBUFFER_FULL else RT_RINGBUFFER_HALFFULL)"
proof -
  obtain r where h: "0 < N" "N < 2 ^ 31" "buffer_size rb = int N" "length q \<le> N" "r < N" "read_index rb = int r"
    "write_index rb = int ((r + length q) mod N)" "write_mirror rb \<noteq> read_mirror rb \<longleftrightarrow> N \<le> r + length q"
    using assms by (rule ring_holdsE) blast
  show s: "rt_ringbuffer_status rb = (if q = [] then RT_RINGBUFFER_EMPTY else if length q = N then RT_RINGBUFFER_FULL else RT_RINGBUFFER_HALFFULL)"
    using h by (auto simp: rt_ringbuffer_status_def around)
  show l: "rt_ringbuffer_data_len rb = int (length q)"
    using h unfolding rt_ringbuffer_data_len_def s by (auto simp: around Let_def of_nat_diff)
  show "rt_ringbuffer_space_len rb = int (N - length q)"
    using h by (simp add: rt_ringbuffer_space_len_def l of_nat_diff)
qed

text \<open>Bytes taken out at the front, stored at the end, and stored over the oldest ones.\<close>

lemma ring_advance:
  assumes "ring_holds rb N q" "k \<le> length q"
  shows "ring_holds (rb\<lparr>read_mirror := (read_mirror rb \<noteq> (N \<le> nat (read_index rb) + k)), read_index := int ((nat (read_index rb) + k) mod N)\<rparr>) N (drop k q)"
proof -
  obtain r where h: "0 < N" "N < 2 ^ 31" "N \<le> length (buffer_ptr rb)" "buffer_size rb = int N" "length q \<le> N" "r < N" "read_index rb = int r"
    "write_index rb = int ((r + length q) mod N)" "write_mirror rb \<noteq> read_mirror rb \<longleftrightarrow> N \<le> r + length q"
    "win N (buffer_ptr rb) r (length q) = q"
    using assms(1) by (rule ring_holdsE)
  have "((r + k) mod N + (length q - k)) mod N = (r + length q) mod N"
    by (simp only: mod_add_left_eq) (simp add: assms(2))
  moreover have "write_mirror rb \<noteq> (read_mirror rb \<noteq> (N \<le> r + k)) \<longleftrightarrow> N \<le> (r + k) mod N + (length q - k)"
    using h(5,6,9) assms(2) by (auto simp: around)
  moreover have "drop k q = win N (buffer_ptr rb) ((r + k) mod N) (length q - k)"
    using win_drop [of k N "buffer_ptr rb" r "length q"] by (simp add: h(10) win_mod)
  moreover have "(r + k) mod N < N" using h(1) by simp
  ultimately show ?thesis unfolding ring_holds_def using h by (intro conjI exI [of _ "(r + k) mod N"]) simp_all
qed

lemma ring_extend:
  assumes "ring_holds rb N q" "length q + length d \<le> N"
  shows "ring_holds (rb\<lparr>buffer_ptr := cw N (buffer_ptr rb) (nat (write_index rb)) d,
      write_mirror := (write_mirror rb \<noteq> (N \<le> nat (write_index rb) + length d)),
      write_index := int ((nat (write_index rb) + length d) mod N)\<rparr>) N (q @ d)"
proof -
  obtain r where h: "0 < N" "N < 2 ^ 31" "N \<le> length (buffer_ptr rb)" "buffer_size rb = int N" "length q \<le> N" "r < N" "read_index rb = int r"
    "write_index rb = int ((r + length q) mod N)" "write_mirror rb \<noteq> read_mirror rb \<longleftrightarrow> N \<le> r + length q"
    "win N (buffer_ptr rb) r (length q) = q"
    using assms(1) by (rule ring_holdsE)
  have "((r + length q) mod N + length d) mod N = (r + (length q + length d)) mod N" by (simp add: mod_add_left_eq add.assoc)
  moreover have "(write_mirror rb \<noteq> (N \<le> (r + length q) mod N + length d)) \<noteq> read_mirror rb \<longleftrightarrow> N \<le> r + (length q + length d)"
    using h(5,6,9) assms(2) by (auto simp: around)
  moreover have "q @ d = win N (cw N (buffer_ptr rb) ((r + length q) mod N) d) r (length q + length d)"
    using win_cw [OF assms(2) h(3), of r] by (simp add: h(10) cw_mod)
  ultimately show ?thesis unfolding ring_holds_def using h assms(2) by (intro conjI exI [of _ r]) simp_all
qed

lemma ring_overwrite:
  assumes "ring_holds rb N q" "length d \<le> N" "N < length q + length d"
    and rb': "buffer_ptr rb' = cw N (buffer_ptr rb) (nat (write_index rb)) d" "read_mirror rb' = (\<not> write_mirror rb')"
      "write_index rb' = int ((nat (write_index rb) + length d) mod N)" "read_index rb' = write_index rb'" "buffer_size rb' = buffer_size rb"
  shows "ring_holds rb' N (drop (length q + length d - N) q @ d)"
proof -
  obtain r where h: "0 < N" "N < 2 ^ 31" "N \<le> length (buffer_ptr rb)" "buffer_size rb = int N" "length q \<le> N" "r < N" "read_index rb = int r"
    "write_index rb = int ((r + length q) mod N)" "win N (buffer_ptr rb) r (length q) = q"
    using assms(1) by (rule ring_holdsE)
  let ?r = "r + (length q + length d - N)" and ?w = "(r + length q) mod N"
  have r: "(?w + length d) mod N = ?r mod N"
  proof -
    have "(?w + length d) mod N = (r + (length q + length d)) mod N" by (simp only: mod_add_left_eq add.assoc)
    also have "\<dots> = (r + (length q + length d) - N) mod N" using assms(3) by (intro le_mod_geq) simp
    also have "r + (length q + length d) - N = ?r" using assms(3) by simp
    finally show ?thesis .
  qed
  have len: "length (drop (length q + length d - N) q @ d) = N" using assms(2,3) h(5) by simp
  have "win N (cw N (buffer_ptr rb) (?r + (N - length d)) d) ?r ((N - length d) + length d) = win N (buffer_ptr rb) ?r (N - length d) @ d"
    using assms(2) by (intro win_cw h(3)) simp
  moreover have "?r + (N - length d) = r + length q" using assms(2,3) by simp
  moreover have "win N (buffer_ptr rb) ?r (N - length d) = drop (length q + length d - N) q"
    using win_drop [of "length q + length d - N" N "buffer_ptr rb" r "length q"] assms(2,3) h(5) by (simp add: h(9))
  ultimately have "win N (cw N (buffer_ptr rb) ?w d) (?r mod N) N = drop (length q + length d - N) q @ d"
    using assms(2) by (simp add: cw_mod win_mod)
  moreover have "?r mod N < N" "(?r mod N + N) mod N = ?r mod N" using h(1) by simp_all
  ultimately show ?thesis unfolding ring_holds_def len using h r by (intro conjI exI [of _ "?r mod N"]) (simp_all add: rb')
qed

section \<open>Copies\<close>

lemma at_index_int [simp]: "at_index (int i) = Inr i"
  by (simp add: at_index_def)

lemma pool_get_ok: "i + n \<le> length (buffer_ptr rb) \<Longrightarrow> pool_get rb (int i) (int n) = Inr (take n (drop i (buffer_ptr rb)))"
  by (simp add: pool_get_def)

lemma pool_put_ok:
  "i + length d \<le> N \<Longrightarrow> N \<le> length (buffer_ptr rb) \<Longrightarrow> pool_put rb (int i) d = Inr (rb\<lparr>buffer_ptr := cw N (buffer_ptr rb) i d\<rparr>)"
  by (simp add: pool_put_def cw_flat)

lemma src_part_ok: "i + n \<le> length ptr \<Longrightarrow> src_part ptr (int i) (int n) = Inr (take n (drop i ptr))"
  by (simp add: src_part_def)

lemma ring_indices:
  assumes "ring_holds rb N q"
  obtains r w where "r < N" "w < N" "read_index rb = int r" "write_index rb = int w" "to_end_r rb = int (N - r)" "to_end_w rb = int (N - w)"
    "w = (r + length q) mod N" "N < 2 ^ 31" "N \<le> length (buffer_ptr rb)" "length q \<le> N" "win N (buffer_ptr rb) r (length q) = q"
    "buffer_size rb = int N"
proof -
  obtain r where h: "0 < N" "N < 2 ^ 31" "N \<le> length (buffer_ptr rb)" "buffer_size rb = int N" "length q \<le> N" "r < N" "read_index rb = int r"
    "write_index rb = int ((r + length q) mod N)" "win N (buffer_ptr rb) r (length q) = q"
    using assms by (rule ring_holdsE)
  then show ?thesis using that [of r "(r + length q) mod N"]
    by (simp add: to_end_r_def to_end_w_def of_nat_diff less_imp_le)
qed

lemma to_end_upd [simp]: "to_end_w (rb\<lparr>buffer_ptr := p\<rparr>) = to_end_w rb" "to_end_r (rb\<lparr>buffer_ptr := p\<rparr>) = to_end_r rb"
  by (simp_all add: to_end_w_def to_end_r_def)

lemma write_block_ok:
  assumes "ring_holds rb N q" "k \<le> N" "k \<le> length ptr"
  shows "write_block rb ptr (int k) =
    Inr (rb\<lparr>buffer_ptr := cw N (buffer_ptr rb) (nat (write_index rb)) (take k ptr),
      write_mirror := (write_mirror rb \<noteq> (N \<le> nat (write_index rb) + k)), write_index := int ((nat (write_index rb) + k) mod N)\<rparr>,
      N \<le> nat (write_index rb) + k)"
proof -
  obtain w where h: "w < N" "write_index rb = int w" "to_end_w rb = int (N - w)" "N < 2 ^ 31" "N \<le> length (buffer_ptr rb)"
    using assms(1) by (rule ring_indices)
  show ?thesis
  proof (cases "N \<le> w + k")
    case False
    have "src_part ptr 0 (int k) = Inr (take k ptr)" using src_part_ok [of 0 k ptr] assms(3) by simp
    moreover have "pool_put rb (int w) (take k ptr) = Inr (rb\<lparr>buffer_ptr := cw N (buffer_ptr rb) w (take k ptr)\<rparr>)"
      using False h(5) assms(3) by (intro pool_put_ok) simp_all
    moreover have "idx31 (int w + int k) = int (w + k)" "int (N - w) > int k" using False h(4) by simp_all
    ultimately show ?thesis using False by (simp add: write_block_def h)
  next
    case True
    obtain m j where m: "N = w + m" "k = m + j" using True h(1) by (metis add_le_cancel_left le_Suc_ex less_imp_le)
    let ?p = "cw N (buffer_ptr rb) w (take m ptr)" and ?d = "take j (drop m ptr)"
    have j: "j \<le> w" "m + j \<le> length ptr" "w + m \<le> length (buffer_ptr rb)" using m assms(2,3) h(5) by simp_all
    have t: "to_end_w rb = int m" using h(3) m(1) by simp
    have a: "src_part ptr 0 (int m) = Inr (take m ptr)" using src_part_ok [of 0 m ptr] j(2) by simp
    have b: "pool_put rb (int w) (take m ptr) = Inr (rb\<lparr>buffer_ptr := ?p\<rparr>)" using j(2,3) m(1) by (intro pool_put_ok) simp_all
    have c: "len32 (int k - int m) = int j" "idx31 (int k - int m) = int j" using m h(1,4) j(1) by simp_all
    have d: "src_part ptr (int m) (int j) = Inr ?d" using j(2) by (intro src_part_ok)
    have s: "take m (take k ptr) = take m ptr" "drop m (take k ptr) = ?d" "length (take k ptr) = k"
      using m(2) j(2) by (simp_all add: drop_take)
    have "cw N (buffer_ptr rb) w (take k ptr) = cw N ?p 0 ?d"
      using cw_around [of w N "take k ptr" "buffer_ptr rb"] assms(2) h(1,5) m j(2) by (simp add: drop_take)
    moreover have "0 + length ?d \<le> N" using j(1) m(1) by simp
    ultimately have e: "pool_put (rb\<lparr>buffer_ptr := ?p\<rparr>) 0 ?d = Inr (rb\<lparr>buffer_ptr := cw N (buffer_ptr rb) w (take k ptr)\<rparr>)"
      using pool_put_ok [of 0 ?d N "rb\<lparr>buffer_ptr := ?p\<rparr>"] h(5) by simp
    have "(w + k) mod N = j" "\<not> int m > int k" using m j(1) h(1) by (simp_all add: mod_if)
    then show ?thesis using True by (simp add: write_block_def h(2) t a b c d e)
  qed
qed

section \<open>The operations on the queue\<close>

text \<open>What one byte is: a block of one.\<close>

lemma ring_room: "ring_holds rb N q \<Longrightarrow> length q \<le> N" "ring_holds rb N q \<Longrightarrow> N < 2 ^ 31" "ring_holds rb N q \<Longrightarrow> 0 < N"
  by (simp_all add: ring_holds_def)

lemma int_min: "(if int a < uint n then int a else uint n) = int (min a (unat n))" for n :: u32
proof -
  have "uint n = int (unat n)" by simp
  then show ?thesis by (simp only: of_nat_less_iff min_def) auto
qed

lemma take_min_length: "take (min (length q) n) q = take n q" "drop (min (length q) n) q = drop n q"
  by (simp_all add: min_def)

lemma ring_put:
  assumes "ring_holds rb N q" "unat len \<le> length ptr"
  obtains rb' where "rt_ringbuffer_put rb ptr len = Inr (int (min (N - length q) (unat len)), rb')"
    "ring_holds rb' N (q @ take (min (N - length q) (unat len)) ptr)"
proof (cases "length q = N")
  case True
  then show ?thesis using that [of rb] assms(1) by (simp add: rt_ringbuffer_put_def ring_lens [OF assms(1)])
next
  case False
  let ?k = "min (N - length q) (unat len)"
  have k: "?k \<le> N" "?k \<le> length ptr" "length (take ?k ptr) = ?k" using assms(2) by auto
  have "int (N - length q) \<noteq> 0" using False ring_room(1) [OF assms(1)] by simp
  then show ?thesis using that ring_extend [OF assms(1), of "take ?k ptr"] ring_room(1) [OF assms(1)]
    unfolding rt_ringbuffer_put_def ring_lens [OF assms(1)] Let_def int_min k(3)
    by (simp add: write_block_ok [OF assms(1) k(1,2)])
qed

lemma ring_get:
  assumes "ring_holds rb N q"
  obtains rb' where "rt_ringbuffer_get rb len = Inr (take (unat len) q, rb')" "ring_holds rb' N (drop (unat len) q)"
proof (cases "q = []")
  case True
  then show ?thesis using that [of rb] assms(1) by (simp add: rt_ringbuffer_get_def ring_lens [OF assms(1)])
next
  case False
  let ?k = "min (length q) (unat len)"
  obtain r where h: "r < N" "read_index rb = int r" "to_end_r rb = int (N - r)" "N < 2 ^ 31" "N \<le> length (buffer_ptr rb)" "length q \<le> N"
    "win N (buffer_ptr rb) r (length q) = q"
    using assms(1) by (rule ring_indices)
  have q: "take (unat len) q = win N (buffer_ptr rb) r ?k" using win_take [of ?k N "buffer_ptr rb" r "length q"]
    min.absorb1 [of ?k "length q"] by (simp add: h(7) take_min_length)
  have "?k \<le> length q" by simp
  note adv = ring_advance [OF assms(1) this]
  have d: "drop ?k q = drop (unat len) q" by (rule take_min_length)
  show ?thesis
  proof (cases "N \<le> r + ?k")
    case True
    obtain m j where m: "N = r + m" "?k = m + j" using True h(1) by (metis add_le_cancel_left le_Suc_ex less_imp_le)
    have j: "j \<le> r" "r + m \<le> length (buffer_ptr rb)" using m(1,2) h(5,6) by simp_all
    have t: "to_end_r rb = int m" using h(3) m(1) by simp
    have g: "pool_get rb (int r) (int m) = Inr (take m (drop r (buffer_ptr rb)))" using j(2) by (intro pool_get_ok)
    have g0: "pool_get rb 0 (int j) = Inr (take j (buffer_ptr rb))" using j pool_get_ok [of 0 j rb] by simp
    have c: "len32 (int ?k - int m) = int j" "idx31 (int ?k - int m) = int j" unfolding m(2) using m(1) h(4) j(1) by simp_all
    have "take (unat len) q = take m (drop r (buffer_ptr rb)) @ take j (buffer_ptr rb)"
      unfolding q using True h win_around [of r N ?k "buffer_ptr rb"] m(1) j(1) unfolding m(2) by simp
    moreover have "(r + ?k) mod N = j" "\<not> int m > int ?k" unfolding m(2) using m(1) j(1) h(1) by (simp_all add: mod_if)
    ultimately show ?thesis using that adv False True
      unfolding rt_ringbuffer_get_def ring_lens [OF assms(1)] Let_def int_min d by (simp add: h(2) t g g0 c)
  next
    case flat: False
    then have "pool_get rb (int r) (int ?k) = Inr (take ?k (drop r (buffer_ptr rb)))" "idx31 (int r + int ?k) = int (r + ?k)"
      using h by (auto intro!: pool_get_ok)
    moreover have "take (unat len) q = take ?k (drop r (buffer_ptr rb))"
      unfolding q using flat h by (intro win_flat) auto
    moreover have "int (N - r) > int ?k" using flat by simp
    ultimately show ?thesis using that adv False flat
      unfolding rt_ringbuffer_get_def ring_lens [OF assms(1)] Let_def int_min d by (simp add: h(2,3))
  qed
qed

lemma ring_putchar:
  assumes "ring_holds rb N q"
  obtains rb' where "rt_ringbuffer_putchar rb c = Inr (if length q < N then 1 else 0, rb')"
    "ring_holds rb' N (if length q < N then q @ [c] else q)"
proof (cases "length q < N")
  case False
  then have "int (N - length q) = 0" by simp
  then show ?thesis using that [of rb] assms(1) False by (simp add: rt_ringbuffer_putchar_def ring_lens [OF assms(1)])
next
  case True
  obtain w where h: "w < N" "write_index rb = int w" "N < 2 ^ 31" "N \<le> length (buffer_ptr rb)" "buffer_size rb = int N"
    using assms(1) by (rule ring_indices)
  have "pool_put rb (int w) [c] = Inr (rb\<lparr>buffer_ptr := cw N (buffer_ptr rb) w [c]\<rparr>)" using h(1,4) by (intro pool_put_ok) simp_all
  moreover have "w + 1 = N \<longleftrightarrow> int w = int N - 1" "N \<le> w + 1 \<longleftrightarrow> w + 1 = N" "w + 1 < N \<Longrightarrow> idx31 (int w + 1) = int w + 1"
    using h(1,3) by auto
  moreover have "(w + 1) mod N = (if w + 1 = N then 0 else w + 1)" using h(1) by (simp add: mod_if)
  ultimately show ?thesis using that ring_extend [OF assms(1), of "[c]"] True h(1)
    by (auto simp: rt_ringbuffer_putchar_def ring_lens [OF assms(1)] h(2,5) add.commute split: if_splits)
qed

lemma ring_getchar:
  assumes "ring_holds rb N q"
  obtains rb' where "rt_ringbuffer_getchar rb = Inr (if q = [] then None else Some (hd q), rb')" "ring_holds rb' N (tl q)"
proof (cases q)
  case Nil
  then show ?thesis using that [of rb] assms by (simp add: rt_ringbuffer_getchar_def ring_lens [OF assms])
next
  case (Cons a q')
  obtain r where h: "r < N" "read_index rb = int r" "N < 2 ^ 31" "N \<le> length (buffer_ptr rb)" "buffer_size rb = int N"
    "win N (buffer_ptr rb) r (length q) = q"
    using assms by (rule ring_indices)
  have "pool_get rb (int r) (int 1) = Inr (take 1 (drop r (buffer_ptr rb)))" using h(1,4) by (intro pool_get_ok) simp
  moreover have "hd (take 1 (drop r (buffer_ptr rb))) = a"
    using h(1,4) arg_cong [OF h(6), of hd] by (simp add: Cons win_def upt_rec hd_drop_conv_nth)
  moreover have "r + 1 = N \<longleftrightarrow> int r = int N - 1" "N \<le> r + 1 \<longleftrightarrow> r + 1 = N" "r + 1 < N \<Longrightarrow> idx31 (int r + 1) = int r + 1"
    using h(1,3) by auto
  moreover have "(r + 1) mod N = (if r + 1 = N then 0 else r + 1)" using h(1) by (simp add: mod_if)
  ultimately show ?thesis using that ring_advance [OF assms, of 1] h(1)
    by (auto simp: Cons rt_ringbuffer_getchar_def ring_lens [OF assms] h(2,5) add.commute split: if_splits)
qed

lemma ring_reset: "ring_holds rb N q \<Longrightarrow> ring_holds (rt_ringbuffer_reset rb) N []"
  by (auto simp: ring_holds_def rt_ringbuffer_reset_def)

lemma ring_putchar_force:
  assumes "ring_holds rb N q"
  obtains rb' where "rt_ringbuffer_putchar_force rb c = Inr (1, rb')"
    "ring_holds rb' N ((if length q = N then tl q else q) @ [c])"
proof -
  obtain w where h: "w < N" "write_index rb = int w" "N < 2 ^ 31" "N \<le> length (buffer_ptr rb)" "buffer_size rb = int N" "length q \<le> N"
    using assms(1) by (rule ring_indices)
  have p: "pool_put rb (int w) [c] = Inr (rb\<lparr>buffer_ptr := cw N (buffer_ptr rb) w [c]\<rparr>)" using h(1,4) by (intro pool_put_ok) simp_all
  have i: "w + 1 = N \<longleftrightarrow> int w = int N - 1" "N \<le> w + 1 \<longleftrightarrow> w + 1 = N" "w + 1 < N \<Longrightarrow> idx31 (int w + 1) = int w + 1"
    using h(1,3) by auto
  have m: "(w + 1) mod N = (if w + 1 = N then 0 else w + 1)" using h(1) by (simp add: mod_if)
  show ?thesis
  proof (cases "length q = N")
    case False
    then have "rt_ringbuffer_status rb \<noteq> RT_RINGBUFFER_FULL" "length q + length [c] \<le> N"
      using h(1,6) by (auto simp: ring_lens [OF assms])
    then show ?thesis using that ring_extend [OF assms(1), of "[c]"] False h(1) i m
      by (auto simp: rt_ringbuffer_putchar_force_def Let_def h(2,5) p add.commute split: if_splits)
  next
    case True
    then have f: "rt_ringbuffer_status rb = RT_RINGBUFFER_FULL" using h(1) by (auto simp: ring_lens [OF assms])
    have mir: "read_mirror rb = (\<not> write_mirror rb)" using assms True by (auto simp: ring_holds_def)
    have len: "length [c] \<le> N" "N < length q + length [c]" using h(1) True by auto
    have "drop (length q + length [c] - N) q = tl q" by (simp add: True drop_Suc)
    then have holds: "ring_holds rb' N ((if length q = N then tl q else q) @ [c])" if "buffer_ptr rb' = cw N (buffer_ptr rb) w [c]" "read_mirror rb' = (\<not> write_mirror rb')"
      "write_index rb' = int ((w + 1) mod N)" "read_index rb' = write_index rb'" "buffer_size rb' = buffer_size rb" for rb'
      using ring_overwrite [OF assms(1) len, of rb'] that h(2) True by simp
    show ?thesis
    proof (cases "w + 1 = N")
      case True
      then have "rt_ringbuffer_putchar_force rb c = Inr (1, rb\<lparr>buffer_ptr := cw N (buffer_ptr rb) w [c], write_mirror := \<not> write_mirror rb,
          write_index := 0, read_mirror := \<not> read_mirror rb, read_index := 0\<rparr>)"
        using i by (simp add: rt_ringbuffer_putchar_force_def Let_def h(2,5) p f)
      then show ?thesis by (rule that [OF _ holds]) (use True m mir in simp_all)
    next
      case False
      then have "rt_ringbuffer_putchar_force rb c = Inr (1, rb\<lparr>buffer_ptr := cw N (buffer_ptr rb) w [c],
          write_index := int w + 1, read_index := int w + 1\<rparr>)"
        using i h(1) by (simp add: rt_ringbuffer_putchar_force_def Let_def h(2,5) p f)
      then show ?thesis by (rule that [OF _ holds]) (use False m mir in simp_all)
    qed
  qed
qed

lemma ring_put_force:
  assumes "ring_holds rb N q" "unat len \<le> length ptr"
  obtains rb' where "rt_ringbuffer_put_force rb ptr len = Inr (int (min N (unat len)), rb')"
    "ring_holds rb' N (drop (length q + unat len - N) (q @ take (unat len) ptr))"
proof -
  obtain r w where h: "r < N" "w < N" "read_index rb = int r" "write_index rb = int w" "w = (r + length q) mod N" "N < 2 ^ 31"
    "buffer_size rb = int N" "length q \<le> N"
    using assms(1) by (rule ring_indices)
  define k where "k = min N (unat len)"
  define d where "d = take k (drop (unat len - N) ptr)"
  have k: "k \<le> N" "length d = k" using assms(2) by (auto simp: k_def d_def)
  have front: "(let sz = len32 (buffer_size rb) in (if uint len > sz then (drop (nat (uint len - sz)) ptr, sz) else (ptr, uint len))) =
      (drop (unat len - N) ptr, int k)"
  proof -
    obtain n where n: "unat len = n" "uint len = int n" using of_nat_unat by metis
    show ?thesis unfolding k_def n using h(6,7) by (auto simp: Let_def nat_diff_distrib')
  qed
  have "k \<le> length (drop (unat len - N) ptr)" using assms(2) by (auto simp: k_def)
  note block = write_block_ok [OF assms(1) k(1) this, folded d_def]
  have target: "drop (length q + unat len - N) (q @ take (unat len) ptr) = drop (length q + k - N) q @ d"
    using h(8) assms(2) by (auto simp: k_def d_def drop_take min_def)
  let ?rb = "rb\<lparr>buffer_ptr := cw N (buffer_ptr rb) w d, write_mirror := (write_mirror rb \<noteq> (N \<le> w + k)), write_index := int ((w + k) mod N)\<rparr>"
  have run: "rt_ringbuffer_put_force rb ptr len =
      (if \<not> N \<le> w + k then
        Inr (int k, if int k > int (N - length q) then ?rb\<lparr>read_index := write_index ?rb\<rparr> else ?rb)
      else
        Inr (int k, if int k > int (N - length q)
                then let rb = (if write_index ?rb \<le> read_index ?rb then ?rb\<lparr>read_mirror := \<not> read_mirror ?rb\<rparr> else ?rb) in
                     rb\<lparr>read_index := write_index rb\<rparr>
                else ?rb))"
    using front block unfolding rt_ringbuffer_put_force_def ring_lens [OF assms(1)]
    by (simp add: h(4) Let_def split: prod.splits)
  note fin = that [folded k_def, unfolded target]
  show ?thesis
  proof (cases "k \<le> N - length q")
    case True
    have "ring_holds ?rb N (q @ d)" using ring_extend [OF assms(1), of d] True h(8) k by (simp add: h(4))
    then show ?thesis using that [of ?rb] True h(8) unfolding run target k_def [symmetric] by simp
  next
    case False
    then have len: "length d \<le> N" "N < length q + length d" using k h(8) by auto
    have mir: "write_mirror rb \<noteq> read_mirror rb \<longleftrightarrow> N \<le> r + length q"
      using assms(1) h(1,3) by (auto simp: ring_holds_def)
    have holds: "ring_holds rb' N (drop (length q + k - N) q @ d)"
      if "buffer_ptr rb' = cw N (buffer_ptr rb) w d" "read_mirror rb' = (\<not> write_mirror rb')"
      "write_index rb' = int ((w + k) mod N)" "read_index rb' = write_index rb'" "buffer_size rb' = buffer_size rb" for rb'
      using ring_overwrite [OF assms(1) len, of rb'] that h(4) k(2) by simp
    have w: "w = (if N \<le> r + length q then r + length q - N else r + length q)" using h(1,5,8) by (simp add: around)
    show ?thesis
    proof (cases "N \<le> w + k")
      case True
      then have i: "(w + k) mod N = w + k - N" using h(2) k(1) by (simp add: mod_if)
      have "(w + k - N \<le> r) = (N \<le> r + length q)" using w len k True h(1,8) by (auto split: if_splits)
      moreover have "\<not> int k \<le> int (N - length q)" using False by simp
      ultimately have "rt_ringbuffer_put_force rb ptr len = Inr (int k, ?rb\<lparr>read_mirror := (read_mirror rb \<noteq> (N \<le> r + length q)),
          read_index := write_index ?rb\<rparr>)" unfolding run using True i h(3) by auto
      then show ?thesis by (rule fin [OF _ holds]) (use True mir in auto)
    next
      case flat: False
      then have n: "N \<le> r + length q" using w len k by (auto split: if_splits)
      have "rt_ringbuffer_put_force rb ptr len = Inr (int k, ?rb\<lparr>read_index := write_index ?rb\<rparr>)" unfolding run using False flat by auto
      then show ?thesis by (rule fin [OF _ holds]) (use flat mir n in auto)
    qed
  qed
qed

text \<open>The peeked bytes are gone afterwards; at least one is, when there is one.\<close>

lemma ring_peek:
  assumes "ring_holds rb N q"
  obtains k rb' where "rt_ringbuffer_peek rb = Inr (take k q, rb')" "ring_holds rb' N (drop k q)" "q \<noteq> [] \<Longrightarrow> 0 < k"
proof (cases "q = []")
  case True
  then show ?thesis using that [of 0 rb] assms(1) by (simp add: rt_ringbuffer_peek_def ring_lens [OF assms(1)])
next
  case False
  obtain r where h: "r < N" "read_index rb = int r" "to_end_r rb = int (N - r)" "N < 2 ^ 31" "N \<le> length (buffer_ptr rb)" "length q \<le> N"
    "win N (buffer_ptr rb) r (length q) = q"
    using assms(1) by (rule ring_indices)
  define k where "k = min (length q) (N - r)"
  have k: "k \<le> length q" "0 < k" "r + k \<le> N" using False h(1) by (auto simp: k_def)
  have q: "take k q = take k (drop r (buffer_ptr rb))"
    using win_take [of k N "buffer_ptr rb" r "length q"] win_flat [OF k(3) h(5)] k(1) by (simp add: h(7) min_absorb1)
  note adv = ring_advance [OF assms(1) k(1)]
  have g: "pool_get rb (int r) (int k) = Inr (take k (drop r (buffer_ptr rb)))" using k(3) h(5) by (intro pool_get_ok) simp
  show ?thesis
  proof (cases "length q < N - r")
    case True
    then have "k = length q" "idx31 (int r + int k) = int (r + k)" "r + k < N" using h(1,4) by (auto simp: k_def)
    then show ?thesis using that [of k] adv False True g q k(2)
      by (simp add: rt_ringbuffer_peek_def ring_lens [OF assms(1)] Let_def h(2,3))
  next
    case f: False
    then have "r + k = N" "\<not> k > length q" "k \<le> length q" "to_end_r rb = int k" using h(1,3) by (auto simp: k_def)
    then show ?thesis using that [of k] adv False g q k(2)
      by (simp add: rt_ringbuffer_peek_def ring_lens [OF assms(1)] Let_def h(2))
  qed
qed

lemma ring_init:
  assumes "8 \<le> sz" "sz < 2 ^ 31" "sz \<le> int (length pool)"
  obtains rb where "rt_ringbuffer_init pool sz = Inr rb" "ring_holds rb (nat (sz - sz mod 8)) []"
proof -
  have "0 < sz - sz mod 8" "sz - sz mod 8 \<le> sz"
    using assms(1) pos_mod_bound [of 8 sz] pos_mod_sign [of 8 sz] by linarith+
  moreover from this have "nat (sz - sz mod 8) < 2 ^ 31" "nat (sz - sz mod 8) \<le> length pool" using assms(2,3) by (simp_all add: nat_less_iff nat_le_iff)
  ultimately show ?thesis using that assms(1) by (simp add: rt_ringbuffer_init_def ring_holds_def)
qed

section \<open>Sequences of operations\<close>

datatype ring_op =
  Put "u8 list" | Put_force "u8 list" | Putchar u8 | Putchar_force u8 | Get u32 | Getchar | Reset

text \<open>What an operation returns, as a number and the bytes it hands out; on a ring buffer, and on a queue of at most \<open>N\<close> bytes.\<close>

definition ring_step :: "rt_ringbuffer \<Rightarrow> ring_op \<Rightarrow> ((int \<times> u8 list) \<times> rt_ringbuffer) cres" where
  "ring_step rb op =
     (case op of
        Put d \<Rightarrow> cbind (rt_ringbuffer_put rb d (of_nat (length d))) (\<lambda>(n, rb). Inr ((n, []), rb))
      | Put_force d \<Rightarrow> cbind (rt_ringbuffer_put_force rb d (of_nat (length d))) (\<lambda>(n, rb). Inr ((n, []), rb))
      | Putchar c \<Rightarrow> cbind (rt_ringbuffer_putchar rb c) (\<lambda>(n, rb). Inr ((n, []), rb))
      | Putchar_force c \<Rightarrow> cbind (rt_ringbuffer_putchar_force rb c) (\<lambda>(n, rb). Inr ((n, []), rb))
      | Get len \<Rightarrow> cbind (rt_ringbuffer_get rb len) (\<lambda>(d, rb). Inr ((int (length d), d), rb))
      | Getchar \<Rightarrow> cbind (rt_ringbuffer_getchar rb) (\<lambda>(c, rb). Inr (case c of None \<Rightarrow> (0, []) | Some b \<Rightarrow> (1, [b]), rb))
      | Reset \<Rightarrow> Inr ((0, []), rt_ringbuffer_reset rb))"

fun ring_run :: "rt_ringbuffer \<Rightarrow> ring_op list \<Rightarrow> ((int \<times> u8 list) list \<times> rt_ringbuffer) cres" where
  "ring_run rb [] = Inr ([], rb)"
| "ring_run rb (op # ops) = cbind (ring_step rb op) (\<lambda>(out, rb). cbind (ring_run rb ops) (\<lambda>(outs, rb). Inr (out # outs, rb)))"

definition queue_step :: "nat \<Rightarrow> u8 list \<Rightarrow> ring_op \<Rightarrow> (int \<times> u8 list) \<times> u8 list" where
  "queue_step N q op =
     (case op of
        Put d \<Rightarrow> ((int (min (N - length q) (length d)), []), take N (q @ d))
      | Put_force d \<Rightarrow> ((int (min N (length d)), []), drop (length (q @ d) - N) (q @ d))
      | Putchar c \<Rightarrow> ((if length q < N then 1 else 0, []), take N (q @ [c]))
      | Putchar_force c \<Rightarrow> ((1, []), drop (length (q @ [c]) - N) (q @ [c]))
      | Get len \<Rightarrow> ((int (min (length q) (unat len)), take (unat len) q), drop (unat len) q)
      | Getchar \<Rightarrow> ((int (min (length q) 1), take 1 q), drop 1 q)
      | Reset \<Rightarrow> ((0, []), []))"

fun queue_run :: "nat \<Rightarrow> u8 list \<Rightarrow> ring_op list \<Rightarrow> (int \<times> u8 list) list \<times> u8 list" where
  "queue_run N q [] = ([], q)"
| "queue_run N q (op # ops) =
     (let (out, q) = queue_step N q op; (outs, q) = queue_run N q ops in (out # outs, q))"

fun op_ok :: "ring_op \<Rightarrow> bool" where
  "op_ok (Put d) = (length d < 2 ^ 32)"
| "op_ok (Put_force d) = (length d < 2 ^ 32)"
| "op_ok _ = True"

lemma ring_step_ok:
  assumes "ring_holds rb N q" "op_ok op"
  obtains rb' where "ring_step rb op = Inr (fst (queue_step N q op), rb')" "ring_holds rb' N (snd (queue_step N q op))"
proof (cases op)
  case (Put d)
  have n: "unat (of_nat (length d) :: u32) = length d" using assms(2) by (simp add: Put)
  then have "unat (of_nat (length d) :: u32) \<le> length d" by simp
  then obtain rb' where "rt_ringbuffer_put rb d (of_nat (length d)) = Inr (int (min (N - length q) (length d)), rb')"
    "ring_holds rb' N (q @ take (min (N - length q) (length d)) d)" using ring_put [OF assms(1), of "of_nat (length d)" d] unfolding n by auto
  moreover have "q @ take (min (N - length q) (length d)) d = take N (q @ d)" using ring_room(1) [OF assms(1)] by (simp add: min_def)
  ultimately show ?thesis using that by (simp add: Put ring_step_def queue_step_def)
next
  case (Put_force d)
  have n: "unat (of_nat (length d) :: u32) = length d" using assms(2) by (simp add: Put_force)
  then have "unat (of_nat (length d) :: u32) \<le> length d" by simp
  then obtain rb' where "rt_ringbuffer_put_force rb d (of_nat (length d)) = Inr (int (min N (length d)), rb')"
    "ring_holds rb' N (drop (length q + length d - N) (q @ take (length d) d))" using ring_put_force [OF assms(1), of "of_nat (length d)" d] unfolding n by auto
  then show ?thesis using that by (simp add: Put_force ring_step_def queue_step_def)
next
  case (Putchar c)
  obtain rb' where "rt_ringbuffer_putchar rb c = Inr (if length q < N then 1 else 0, rb')"
    "ring_holds rb' N (if length q < N then q @ [c] else q)" using assms(1) by (rule ring_putchar)
  then show ?thesis using that ring_room(1) [OF assms(1)] by (simp add: Putchar ring_step_def queue_step_def split: if_splits)
next
  case (Putchar_force c)
  obtain rb' where "rt_ringbuffer_putchar_force rb c = Inr (1, rb')" "ring_holds rb' N ((if length q = N then tl q else q) @ [c])"
    using assms(1) by (rule ring_putchar_force)
  moreover have "(if length q = N then tl q else q) @ [c] = drop (length (q @ [c]) - N) (q @ [c])"
    using ring_room [OF assms(1)] by (cases q) auto
  ultimately show ?thesis using that by (simp add: Putchar_force ring_step_def queue_step_def)
next
  case (Get n)
  obtain rb' where "rt_ringbuffer_get rb n = Inr (take (unat n) q, rb')" "ring_holds rb' N (drop (unat n) q)"
    using assms(1) by (rule ring_get)
  then show ?thesis using that by (simp add: Get ring_step_def queue_step_def)
next
  case Getchar
  obtain rb' where "rt_ringbuffer_getchar rb = Inr (if q = [] then None else Some (hd q), rb')" "ring_holds rb' N (tl q)"
    using assms(1) by (rule ring_getchar)
  then show ?thesis using that by (cases q) (simp_all add: Getchar ring_step_def queue_step_def)
next
  case Reset
  then show ?thesis using that ring_reset [OF assms(1)] by (simp add: ring_step_def queue_step_def)
qed

text \<open>
  C6: the ring buffer is a bounded queue. Whatever sequence of its operations runs on a well formed buffer of \<open>N\<close> bytes, no copy
  leaves the pool or the caller's data, every operation returns what the same operation returns on a list of at most \<open>N\<close> bytes
  (where a block or byte that does not fit is cut off, and the forced ones push the oldest bytes out), and the buffer holds that list.
\<close>
theorem ring_refines_queue:
  assumes "ring_holds rb N q" "\<forall>op \<in> set ops. op_ok op"
  shows "\<exists>rb'. ring_run rb ops = Inr (fst (queue_run N q ops), rb') \<and> ring_holds rb' N (snd (queue_run N q ops))"
  using assms
proof (induction ops arbitrary: rb q)
  case (Cons op ops)
  obtain rb1 where s: "ring_step rb op = Inr (fst (queue_step N q op), rb1)" "ring_holds rb1 N (snd (queue_step N q op))"
    using Cons.prems by (auto elim: ring_step_ok)
  obtain rb2 where "ring_run rb1 ops = Inr (fst (queue_run N (snd (queue_step N q op)) ops), rb2)"
    "ring_holds rb2 N (snd (queue_run N (snd (queue_step N q op)) ops))" using Cons.IH [OF s(2)] Cons.prems(2) by auto
  then show ?case using s(1) by (simp add: Let_def split_beta)
qed simp

definition small_ring :: rt_ringbuffer where
  "small_ring = \<lparr>buffer_ptr = [1, 2, 3, 4, 5, 6, 7, 8], read_mirror = False, read_index = 6, write_mirror = True, write_index = 1, buffer_size = 8\<rparr>"

lemma small_ring_holds: "ring_holds small_ring 8 [7, 8, 1]"
  unfolding ring_holds_def by (intro conjI exI [of _ 6]) (simp_all add: small_ring_def win_def upt_rec)

theorem ring_refines_queue_witness:
  "\<exists>rb'. ring_run small_ring [Put [10, 11, 12], Putchar_force 13, Put_force [14, 15, 16], Get 3] =
     Inr ([(3, []), (1, []), (3, []), (3, [1, 10, 11])], rb') \<and> ring_holds rb' 8 [12, 13, 14, 15, 16]"
  using ring_refines_queue [OF small_ring_holds, of "[Put [10, 11, 12], Putchar_force 13, Put_force [14, 15, 16], Get 3]"]
  by (simp add: queue_step_def)

lemma unat_align8: "unat (sz AND NOT 7) = unat sz - unat sz mod 8" for sz :: u32
proof -
  have m: "(7 :: u32) = mask 3" by (simp add: mask_eq_exp_minus_1)
  have "sz AND NOT (mask 3) = push_bit 3 (drop_bit 3 sz)" by (rule bit_word_eqI) (auto simp: bit_simps)
  then have a: "sz AND NOT 7 = push_bit 3 (drop_bit 3 sz)" unfolding m .
  have "unat sz < 2 ^ LENGTH(32)" by (rule unsigned_less)
  then have l: "unat sz div 8 * 8 < 2 ^ LENGTH(32)" by (rule le_less_trans [OF div_times_less_eq_dividend])
  have d: "unat (drop_bit 3 sz) = unat sz div 8" unfolding unat_drop_bit_eq by (simp add: drop_bit_eq_div)
  have "unat (push_bit 3 (drop_bit 3 sz)) = take_bit LENGTH(32) (unat sz div 8 * 2 ^ 3)"
    by (simp only: unsigned_push_bit_eq d) (simp add: push_bit_eq_mult)
  also have "\<dots> = unat sz div 8 * 8" using l by (simp add: take_bit_nat_eq_self)
  finally show ?thesis unfolding a by (simp add: minus_mod_eq_div_mult)
qed

text \<open>
  C23: ring buffers stay well formed. One that is created with at least 8 and less than \<open>2 ^ 31\<close> bytes is well formed and empty;
  its capacity is its size rounded down to a multiple of 8. Every operation on a well formed buffer returns without a fault and leaves a well
  formed buffer of the same capacity; among them the peek, which returns the oldest bytes and takes them out.
\<close>
theorem ring_stays_well_formed:
  "(\<forall>sz pool. 8 \<le> unat sz \<and> unat sz < 2 ^ 31 \<and> (\<forall>n. unat n \<le> length (pool n)) \<longrightarrow>
      (\<exists>rb. rt_ringbuffer_create sz True (\<lambda>n. Some (pool n)) = Inr (Some rb) \<and> ring_holds rb (unat sz - unat sz mod 8) [])) \<and>
   (\<forall>rb N q op. ring_holds rb N q \<and> op_ok op \<longrightarrow> (\<exists>out rb' q'. ring_step rb op = Inr (out, rb') \<and> ring_holds rb' N q')) \<and>
   (\<forall>rb N q. ring_holds rb N q \<longrightarrow>
      (\<exists>k rb'. rt_ringbuffer_peek rb = Inr (take k q, rb') \<and> ring_holds rb' N (drop k q) \<and> (q \<noteq> [] \<longrightarrow> 0 < k)))"
proof (intro conjI allI impI)
  fix sz :: u32 and pool :: "u32 \<Rightarrow> u8 list"
  assume a: "8 \<le> unat sz \<and> unat sz < 2 ^ 31 \<and> (\<forall>n. unat n \<le> length (pool n))"
  define z where "z = sz AND NOT 7"
  show "\<exists>rb. rt_ringbuffer_create sz True (\<lambda>n. Some (pool n)) = Inr (Some rb) \<and> ring_holds rb (unat sz - unat sz mod 8) []"
  proof -
    have z: "unat z = unat sz - unat sz mod 8" unfolding z_def by (rule unat_align8)
    obtain n where n: "unat z = n" "uint z = int n" using of_nat_unat by metis
    have b: "n mod 8 = 0" "8 \<le> n" "n < 2 ^ 31" "sz \<noteq> 0" using a n(1) unfolding z by (auto simp: minus_mod_eq_div_mult)
    have "n \<le> length (pool z)" using a n(1) by blast
    then have "8 \<le> int n" "int n < 2 ^ 31" "int n \<le> int (length (pool z))" using b(2,3) by simp_all
    then obtain rb where "rt_ringbuffer_init (pool z) (int n) = Inr rb" "ring_holds rb (nat (int n - int n mod 8)) []"
      by (rule ring_init)
    moreover have "int n mod 8 = 0" using b(1) by presburger
    moreover have "sgn32 (uint z) = int n" using b(3) unfolding n(2) by (simp add: sgn32_def)
    ultimately have r: "rt_ringbuffer_init (pool z) (sgn32 (uint z)) = Inr rb" "ring_holds rb (unat z) []"
      by (simp_all only: n(1) diff_zero nat_int)
    have "rt_ringbuffer_create sz True (\<lambda>n. Some (pool n)) = Inr (Some rb)"
      unfolding rt_ringbuffer_create_def Let_def z_def [symmetric] using b(4) r(1) by simp
    then show ?thesis unfolding z [symmetric] using r(2) by blast
  qed
next
  fix rb N q op assume "ring_holds rb N q \<and> op_ok op"
  then show "\<exists>out rb' q'. ring_step rb op = Inr (out, rb') \<and> ring_holds rb' N q'" by (blast elim: ring_step_ok)
next
  fix rb N q assume "ring_holds rb N q"
  then show "\<exists>k rb'. rt_ringbuffer_peek rb = Inr (take k q, rb') \<and> ring_holds rb' N (drop k q) \<and> (q \<noteq> [] \<longrightarrow> 0 < k)"
    by (metis ring_peek)
qed

theorem ring_stays_well_formed_witness:
  "(\<exists>rb. rt_ringbuffer_create 4099 True (\<lambda>n. Some (replicate (unat n) 0)) = Inr (Some rb) \<and> ring_holds rb 4096 []) \<and>
   (\<exists>out rb' q'. ring_step small_ring (Put_force [1, 2, 3, 4, 5, 6, 7]) = Inr (out, rb') \<and> ring_holds rb' 8 q') \<and>
   (\<exists>k rb'. rt_ringbuffer_peek small_ring = Inr (take k [7, 8, 1], rb') \<and> ring_holds rb' 8 (drop k [7, 8, 1]) \<and> 0 < k)"
proof (intro conjI)
  note w = ring_stays_well_formed
  have "\<exists>rb. rt_ringbuffer_create 4099 True (\<lambda>n. Some (replicate (unat n) 0)) = Inr (Some rb) \<and>
    ring_holds rb (unat (4099 :: u32) - unat (4099 :: u32) mod 8) []"
    using w [THEN conjunct1, rule_format, of 4099 "\<lambda>n. replicate (unat n) 0"] by simp
  then show "\<exists>rb. rt_ringbuffer_create 4099 True (\<lambda>n. Some (replicate (unat n) 0)) = Inr (Some rb) \<and> ring_holds rb 4096 []" by simp
  show "\<exists>out rb' q'. ring_step small_ring (Put_force [1, 2, 3, 4, 5, 6, 7]) = Inr (out, rb') \<and> ring_holds rb' 8 q'"
    using w [THEN conjunct2, THEN conjunct1, rule_format, of small_ring 8 "[7, 8, 1]" "Put_force [1, 2, 3, 4, 5, 6, 7]"] small_ring_holds by simp
  show "\<exists>k rb'. rt_ringbuffer_peek small_ring = Inr (take k [7, 8, 1], rb') \<and> ring_holds rb' 8 (drop k [7, 8, 1]) \<and> 0 < k"
    using w [THEN conjunct2, THEN conjunct2, rule_format, OF small_ring_holds] by blast
qed

text \<open>
  A buffer of 1 to 7 bytes has the capacity 0 after rounding. Nothing can be put into it, but the forced operation writes one byte after
  another, past the end of the pool.
\<close>

lemma no_capacity_overruns:
  assumes "buffer_size rb = 0" "read_index rb = 0" "write_index rb = int i" "read_mirror rb = write_mirror rb"
    "i \<le> length (buffer_ptr rb)" "length (buffer_ptr rb) < i + length cs" "length (buffer_ptr rb) < 2 ^ 31 - 1"
  shows "ring_run rb (map Putchar_force cs) = Inl OutOfBounds"
  using assms
proof (induction cs arbitrary: rb i)
  case (Cons c cs)
  show ?case
  proof (cases "i < length (buffer_ptr rb)")
    case True
    let ?rb = "rb\<lparr>buffer_ptr := (buffer_ptr rb)[i := c], write_index := int i + 1\<rparr>"
    have s: "rt_ringbuffer_status rb \<noteq> RT_RINGBUFFER_FULL" using Cons.prems(2-4) by (auto simp: rt_ringbuffer_status_def)
    have p: "pool_put rb (int i) [c] = Inr (rb\<lparr>buffer_ptr := (buffer_ptr rb)[i := c]\<rparr>)"
      using True by (simp add: pool_put_def upd_conv_take_nth_drop)
    have "idx31 (int i + 1) = int i + 1" using True Cons.prems(7) by simp
    then have "ring_step rb (Putchar_force c) = Inr ((1, []), ?rb)"
      using s p Cons.prems(1-4) by (simp add: ring_step_def rt_ringbuffer_putchar_force_def Let_def)
    moreover have "ring_run ?rb (map Putchar_force cs) = Inl OutOfBounds"
      by (rule Cons.IH [of _ "Suc i"]) (use Cons.prems True in simp_all)
    ultimately show ?thesis by simp
  next
    case False
    then have "pool_put rb (int i) [c] = Inl OutOfBounds" using Cons.prems(5) by (simp add: pool_put_def cpy_def)
    then show ?thesis using Cons.prems(3) by (simp add: ring_step_def rt_ringbuffer_putchar_force_def Let_def)
  qed
qed simp

lemma tiny_ring_overruns:
  assumes "0 < sz" "sz < 8" "length pool < length cs" "length pool < 2 ^ 31 - 1"
  shows "\<exists>rb. rt_ringbuffer_init pool sz = Inr rb \<and> rt_ringbuffer_put rb d n = Inr (0, rb) \<and>
    ring_run rb (map Putchar_force cs) = Inl OutOfBounds"
proof -
  let ?rb = "\<lparr>buffer_ptr = pool, read_mirror = False, read_index = 0, write_mirror = False, write_index = 0, buffer_size = 0\<rparr>"
  have "ring_run ?rb (map Putchar_force cs) = Inl OutOfBounds" by (rule no_capacity_overruns [of _ 0]) (use assms in simp_all)
  moreover have "rt_ringbuffer_put ?rb d n = Inr (0, ?rb)"
    by (simp add: rt_ringbuffer_put_def rt_ringbuffer_space_len_def rt_ringbuffer_data_len_def rt_ringbuffer_status_def)
  ultimately show ?thesis using assms(1,2) by (simp add: rt_ringbuffer_init_def)
qed

end
