(* ===== verification/Trajectory.thy ===== *)
theory Trajectory
  imports Floats
begin

text \<open>
  The position and speed profiles of \<^verbatim>\<open>Trajectory_planning.c\<close>: a curve object is advanced by one step
  per call of \<^verbatim>\<open>motor_planning\<close>, along a logistic curve from the start to the target. The exponential function
  of the C library, whose rounding the C standard leaves open, is the parameter \<open>expf\<close>.
\<close>

section \<open>Curves\<close>

text \<open>\<open>curveMode\<close> is the value of the enumeration type, which the code uses as an array index.\<close>

record CurveObjectType =
  startPos :: fl
  currentPos :: fl
  targetPos :: fl
  stepPos :: fl
  aTimes :: int
  maxTimes :: int
  curveMode :: nat
  flexible :: fl
  intervel :: int

abbreviation (input) "CURVE_NONE \<equiv> 0 :: nat"
abbreviation (input) "CURVE_TRAP \<equiv> 1 :: nat"
abbreviation (input) "CURVE_SPTA \<equiv> 2 :: nat"

text \<open>\<^verbatim>\<open>(float)n\<close> for an integer \<open>n\<close>.\<close>

definition f32_int :: "int \<Rightarrow> fl" where "f32_int n = f32 (of_int n)"

definition CalCurveSPTA :: "(fl \<Rightarrow> fl) \<Rightarrow> CurveObjectType \<Rightarrow> CurveObjectType" where
  "CalCurveSPTA expf spta =
     (let power = fdiv f32 (fsub f32 (fmul f32 (Fin 2) (f32_int (aTimes spta))) (f32_int (maxTimes spta))) (f32_int (maxTimes spta));
          power = fmul f32 (fsub f32 (Fin 0) (flexible spta)) power;
          Pos = fadd f32 (Fin 1) (expf power);
          Pos = fdiv f32 (fsub f32 (targetPos spta) (startPos spta)) Pos
      in spta\<lparr>currentPos := fadd f32 Pos (startPos spta)\<rparr>)"

text \<open>The call through the table of three function pointers, the first of them null.\<close>

definition pCalCurve :: "(fl \<Rightarrow> fl) \<Rightarrow> nat \<Rightarrow> CurveObjectType \<Rightarrow> CurveObjectType cres" where
  "pCalCurve expf k c = (if k = 0 then Inl NullCall else if k \<le> 2 then Inr (CalCurveSPTA expf c) else Inl OutOfBounds)"

definition MotorVelocityCurve :: "(fl \<Rightarrow> fl) \<Rightarrow> CurveObjectType \<Rightarrow> CurveObjectType cres" where
  "MotorVelocityCurve expf curve =
     cbind (if fle (fabsf (fsub f32 (currentPos curve) (startPos curve))) (stepPos curve) \<and> maxTimes curve = 0 then
              cbind (to_int32 (fadd f32 (fdiv f32 (fabsf (fsub f32 (targetPos curve) (startPos curve))) (stepPos curve)) (Fin 1))) (\<lambda>n.
              cbind (chk32 (n * intervel curve)) (\<lambda>m.
              Inr (curve\<lparr>maxTimes := m, aTimes := 0\<rparr>)))
            else Inr curve) (\<lambda>curve.
     if aTimes curve < maxTimes curve then
       cbind (pCalCurve expf (curveMode curve) curve) (\<lambda>curve.
       cbind (chk32 (aTimes curve + intervel curve)) (\<lambda>t.
       Inr (curve\<lparr>aTimes := t\<rparr>)))
     else Inr (curve\<lparr>currentPos := targetPos curve, maxTimes := 0, aTimes := 0\<rparr>))"

text \<open>The returned position and the curve object afterwards.\<close>

definition motor_planning :: "(fl \<Rightarrow> fl) \<Rightarrow> CurveObjectType \<Rightarrow> (fl \<times> CurveObjectType) cres" where
  "motor_planning expf curve =
     (if flt (Fin 0) (targetPos curve) then
        cbind (MotorVelocityCurve expf curve) (\<lambda>curve. Inr (currentPos curve, curve))
      else
        let curve = curve\<lparr>targetPos := fneg (targetPos curve)\<rparr>;
            curve = curve\<lparr>currentPos := fneg (currentPos curve)\<rparr> in
        cbind (MotorVelocityCurve expf curve) (\<lambda>curve.
        let curve = curve\<lparr>targetPos := fneg (targetPos curve)\<rparr>;
            curve = curve\<lparr>currentPos := fneg (currentPos curve)\<rparr>
        in Inr (currentPos curve, curve)))"

section \<open>A planned motion\<close>

text \<open>The positions of \<open>n\<close> calls and the curve object after them.\<close>

fun plan_run :: "(fl \<Rightarrow> fl) \<Rightarrow> nat \<Rightarrow> CurveObjectType \<Rightarrow> (fl list \<times> CurveObjectType) cres" where
  "plan_run expf 0 c = Inr ([], c)"
| "plan_run expf (Suc n) c =
     cbind (motor_planning expf c) (\<lambda>(p, c). cbind (plan_run expf n c) (\<lambda>(ps, c). Inr (p # ps, c)))"

text \<open>
  The position at time \<open>t\<close>: on the logistic curve from the start to the target. For a target that is
  not positive the code mirrors the target and the result, but not the start.
\<close>

definition plan_at :: "(fl \<Rightarrow> fl) \<Rightarrow> CurveObjectType \<Rightarrow> int \<Rightarrow> fl" where
  "plan_at expf c t =
     (if flt (Fin 0) (targetPos c) then currentPos (CalCurveSPTA expf (c\<lparr>aTimes := t\<rparr>))
      else fneg (currentPos (CalCurveSPTA expf (c\<lparr>aTimes := t, targetPos := fneg (targetPos c)\<rparr>))))"

lemma fneg_fneg [simp]: "fneg (fneg x) = x"
  by (cases x) simp_all

lemma planning_step:
  assumes "aTimes c < maxTimes c" "maxTimes c \<noteq> 0" "curveMode c = 1 \<or> curveMode c = 2"
    "- (2 ^ 31) \<le> aTimes c + intervel c" "aTimes c + intervel c < 2 ^ 31"
  shows "motor_planning expf c = Inr (plan_at expf c (aTimes c),
           c\<lparr>currentPos := plan_at expf c (aTimes c), aTimes := aTimes c + intervel c\<rparr>)"
  using assms
  by (auto simp: motor_planning_def MotorVelocityCurve_def pCalCurve_def plan_at_def CalCurveSPTA_def Let_def)

lemma planning_last:
  assumes "maxTimes c \<le> aTimes c" "maxTimes c \<noteq> 0"
  shows "motor_planning expf c = Inr (targetPos c, c\<lparr>currentPos := targetPos c, maxTimes := 0, aTimes := 0\<rparr>)"
  using assms by (simp add: motor_planning_def MotorVelocityCurve_def Let_def)

lemma plan_at_update [simp]:
  "plan_at expf (c\<lparr>currentPos := p, aTimes := u\<rparr>) t = plan_at expf c t"
  by (simp add: plan_at_def CalCurveSPTA_def Let_def)

lemma plan_steps:
  assumes "curveMode c = 1 \<or> curveMode c = 2" "0 < intervel c" "0 \<le> aTimes c"
    "aTimes c + (int n - 1) * intervel c < maxTimes c" "maxTimes c + intervel c \<le> 2 ^ 31" "maxTimes c \<noteq> 0"
  shows "\<exists>p. plan_run expf n c = Inr (map (\<lambda>j. plan_at expf c (aTimes c + int j * intervel c)) [0..<n],
           c\<lparr>currentPos := p, aTimes := aTimes c + int n * intervel c\<rparr>)"
  using assms
proof (induction n arbitrary: c)
  case 0
  show ?case by (intro exI [of _ "currentPos c"]) simp
next
  case (Suc n)
  let ?c = "c\<lparr>currentPos := plan_at expf c (aTimes c), aTimes := aTimes c + intervel c\<rparr>"
  have a: "aTimes c + int n * intervel c < maxTimes c" using Suc.prems(4) by simp
  moreover have "0 \<le> int n * intervel c" using Suc.prems(2) by simp
  ultimately have less: "aTimes c < maxTimes c" by linarith
  have step: "motor_planning expf c = Inr (plan_at expf c (aTimes c), ?c)"
    using Suc.prems less by (intro planning_step) simp_all
  have eq: "aTimes ?c + (int n - 1) * intervel ?c = aTimes c + int n * intervel c" by (simp add: algebra_simps)
  obtain p where "plan_run expf n ?c = Inr (map (\<lambda>j. plan_at expf ?c (aTimes ?c + int j * intervel ?c)) [0..<n],
           ?c\<lparr>currentPos := p, aTimes := aTimes ?c + int n * intervel ?c\<rparr>)"
    using Suc.IH [of ?c] Suc.prems eq a by auto
  then show ?case using step
    by (intro exI [of _ p]) (simp add: algebra_simps upt_conv_Cons map_Suc_upt [symmetric] del: upt_Suc)
qed

lemma plan_run_snoc:
  "plan_run expf n c = Inr (ps, d) \<Longrightarrow> motor_planning expf d = Inr (p, e) \<Longrightarrow> plan_run expf (Suc n) c = Inr (ps @ [p], e)"
  by (induction n arbitrary: c ps) auto

section \<open>Properties\<close>

definition plan_calls :: "CurveObjectType \<Rightarrow> nat" where
  "plan_calls c = nat ((maxTimes c + intervel c - 1) div intervel c)"

lemma plan_calls_bounds:
  assumes "0 < intervel c" "0 < maxTimes c"
  shows "(int (plan_calls c) - 1) * intervel c < maxTimes c" "maxTimes c \<le> int (plan_calls c) * intervel c"
proof -
  let ?q = "(maxTimes c + intervel c - 1) div intervel c"
  have "0 \<le> ?q" using assms by (simp add: pos_imp_zdiv_nonneg_iff)
  then have q: "int (plan_calls c) = ?q" by (simp add: plan_calls_def)
  define r where "r = (maxTimes c + intervel c - 1) mod intervel c"
  have "?q * intervel c + r = maxTimes c + intervel c - 1" unfolding r_def by (rule div_mult_mod_eq)
  moreover have "0 \<le> r" "r < intervel c" using assms by (simp_all add: r_def)
  ultimately show "(int (plan_calls c) - 1) * intervel c < maxTimes c" "maxTimes c \<le> int (plan_calls c) * intervel c"
    unfolding q left_diff_distrib by linarith+
qed

text \<open>
  C30: a planned motion ends. From a fresh plan of \<open>maxTimes\<close> time units in steps of \<open>intervel\<close>, the calls
  return the positions of the curve at the times 0, \<open>intervel\<close>, ... below \<open>maxTimes\<close>, the next call
  returns the target itself, and the plan is then switched off; no call faults, whatever the floats
  are. A plan without a curve type is a call through a null pointer.
\<close>
theorem planned_motion:
  assumes "0 < intervel c" "0 < maxTimes c" "aTimes c = 0" "maxTimes c + intervel c \<le> 2 ^ 31"
  shows "(curveMode c = 1 \<or> curveMode c = 2 \<longrightarrow>
      (\<exists>d. plan_run expf (plan_calls c + 1) c =
         Inr (map (\<lambda>j. plan_at expf c (int j * intervel c)) [0..<plan_calls c] @ [targetPos c], d) \<and>
         currentPos d = targetPos c \<and> maxTimes d = 0 \<and> aTimes d = 0)) \<and>
    (curveMode c = 0 \<longrightarrow> motor_planning expf c = Inl NullCall)"
proof (intro conjI impI)
  assume mode: "curveMode c = 1 \<or> curveMode c = 2"
  note b = plan_calls_bounds [OF assms(1,2)]
  obtain p where run: "plan_run expf (plan_calls c) c =
      Inr (map (\<lambda>j. plan_at expf c (aTimes c + int j * intervel c)) [0..<plan_calls c],
           c\<lparr>currentPos := p, aTimes := aTimes c + int (plan_calls c) * intervel c\<rparr>)"
    using plan_steps [OF mode assms(1), of "plan_calls c" expf] assms b(1) by auto
  have "motor_planning expf (c\<lparr>currentPos := p, aTimes := aTimes c + int (plan_calls c) * intervel c\<rparr>) =
      Inr (targetPos c, c\<lparr>currentPos := targetPos c, maxTimes := 0, aTimes := 0\<rparr>)"
    using b(2) assms by (subst planning_last) simp_all
  from plan_run_snoc [OF run this] show "\<exists>d. plan_run expf (plan_calls c + 1) c =
         Inr (map (\<lambda>j. plan_at expf c (int j * intervel c)) [0..<plan_calls c] @ [targetPos c], d) \<and>
         currentPos d = targetPos c \<and> maxTimes d = 0 \<and> aTimes d = 0"
    using assms(3) by (intro exI [of _ "c\<lparr>currentPos := targetPos c, maxTimes := 0, aTimes := 0\<rparr>"]) (simp del: plan_run.simps)
next
  assume "curveMode c = 0"
  then show "motor_planning expf c = Inl NullCall"
    using assms by (simp add: motor_planning_def MotorVelocityCurve_def pCalCurve_def Let_def)
qed

definition plan_from :: "fl \<Rightarrow> fl \<Rightarrow> CurveObjectType" where
  "plan_from s t = \<lparr>startPos = s, currentPos = s, targetPos = t, stepPos = Fin 1, aTimes = 0, maxTimes = 5,
     curveMode = 1, flexible = Fin 0, intervel = 2\<rparr>"

theorem planned_motion_witness:
  "\<exists>d. plan_run (\<lambda>_. Fin 1) 4 (plan_from (Fin 0) (Fin (- 10))) =
     Inr ([Fin (- 5), Fin (- 5), Fin (- 5), Fin (- 10)], d) \<and> maxTimes d = 0"
proof -
  let ?c = "plan_from (Fin 0) (Fin (- 10))"
  have n: "plan_calls ?c = 3" by (simp add: plan_calls_def plan_from_def)
  have "plan_at (\<lambda>_. Fin 1) ?c t = Fin (- 5)" for t
    by (simp add: plan_at_def plan_from_def CalCurveSPTA_def Let_def fsub_def)
  moreover have "map (\<lambda>j. Fin (- 5)) [0..<3] = [Fin (- 5), Fin (- 5), Fin (- 5)]" by (simp add: upt_rec)
  moreover have "0 < intervel ?c" "0 < maxTimes ?c" "aTimes ?c = 0" "maxTimes ?c + intervel ?c \<le> 2 ^ 31" "curveMode ?c = 1"
    "targetPos ?c = Fin (- 10)" by (simp_all add: plan_from_def)
  ultimately show ?thesis using planned_motion [of ?c "\<lambda>_. Fin 1"] n by (auto simp del: plan_run.simps)
qed

text \<open>
  A plan to a negative target begins on the wrong side: where the logistic curve still is at its
  start (the exponential has overflowed to infinity), the first position is the mirrored start.
\<close>

lemma plan_begins_mirrored:
  assumes "\<forall>x. expf x = Inf False" "\<bar>s\<bar> < 2 ^ 24" "\<bar>t\<bar> < 2 ^ 24" "t \<le> 0"
    "startPos c = Fin (of_int s)" "targetPos c = Fin (of_int t)"
  shows "plan_at expf c 0 = Fin (of_int (- s))"
proof -
  have "real_of_int \<bar>s\<bar> < real_of_int (2 ^ 24)" "real_of_int \<bar>t\<bar> < real_of_int (2 ^ 24)"
    using assms(2,3) by (simp_all only: of_int_less_iff)
  then have small: "\<bar>real_of_int s\<bar> < 16777216" "\<bar>real_of_int t\<bar> < 16777216" by simp_all
  have "\<exists>r. f32 (- of_int t + - of_int s) = Fin r"
  proof (cases "t = - s")
    case False
    then have "1 \<le> \<bar>- t - s\<bar>" by simp
    then have "1 \<le> \<bar>real_of_int (- t - s)\<bar>" by linarith
    then have "1 / 2 ^ 100 \<le> \<bar>- real_of_int t + - real_of_int s\<bar>" by simp
    moreover have "\<bar>- real_of_int t + - real_of_int s\<bar> \<le> 33554432" using small by linarith
    then have "\<bar>- real_of_int t + - real_of_int s\<bar> \<le> 2 ^ 100" by (rule order_trans) simp
    ultimately have "1 / 2 ^ 100 \<le> \<bar>- real_of_int t + - real_of_int s\<bar>" "\<bar>- real_of_int t + - real_of_int s\<bar> \<le> 2 ^ 100" .
    from f32_relative [OF this] show ?thesis by blast
  qed simp
  then obtain r where "f32 (- of_int t + - of_int s) = Fin r" ..
  then show ?thesis using assms f32_of_int [OF assms(2)]
    by (simp add: plan_at_def CalCurveSPTA_def Let_def fsub_def)
qed

end
