(* ===== verification/Motor.thy ===== *)
theory Motor
  imports Trajectory
begin

text \<open>
  The motor abstraction of \<^verbatim>\<open>motor.c\<close> and \<^verbatim>\<open>motor_planning.c\<close>: a list of motors, each with cascaded
  position, speed and torque controllers of which the motor's hardware may take over the inner ones.
  The PID library and the drivers behind a motor's operations are parameters: the library is not
  part of the repository (\<^verbatim>\<open>apid.h\<close>; its number type is taken to be \<^verbatim>\<open>float\<close>), and the drivers are given
  in their own theories. Every motor has its own controllers and its own curve object, as the configuration
  macros create them, so they are stored in the motor.
\<close>

section \<open>Data\<close>

abbreviation (input) "MOTOR_MODE_IDEL \<equiv> 0 :: u16"
abbreviation (input) "MOTOR_MODE_TORQUE \<equiv> 1 :: u16"
abbreviation (input) "MOTOR_MODE_SPEED \<equiv> 2 :: u16"
abbreviation (input) "MOTOR_MODE_POS \<equiv> 3 :: u16"
abbreviation (input) "MOTOR_MODE_TEMP \<equiv> 5 :: u16"
abbreviation (input) "MOTOR_MODE_SAFETY_STOP \<equiv> 9 :: u16"
abbreviation (input) "MOTOR_MODE_SAFETY_START \<equiv> 10 :: u16"

text \<open>The four values of the function pointer \<^verbatim>\<open>behaver\<close>.\<close>

datatype motor_behiver = motor_behiver_1 | motor_behiver_2 | motor_behiver_3 | motor_behiver_4

text \<open>\<open>driver\<close> stands for the two function pointers of the driver and its private data.\<close>

record 'd motor_ops =
  driver :: 'd
  curve :: "CurveObjectType option"

record ('p, 'd) motor =
  ops :: "'d motor_ops option"
  id_of :: int
  time :: int
  ratio_pos :: "4 word"
  ratio_speed :: "4 word"
  pid_speed :: "'p option"
  pid_pos :: "'p option"
  pid_torque :: "'p option"
  tar_speed :: fl
  tar_pos :: fl
  tar_torque :: fl
  cur_speed :: fl
  cur_pos :: fl
  cur_torque :: fl
  flag_run_mode :: "2 word"
  flag_out_mode :: "2 word"
  flag_accept_level :: "2 word"
  flag_passive_feedback :: bool
  flag_is_stop :: bool
  behaver :: "motor_behiver option"
  acc_out :: fl
  ratio :: fl

text \<open>The motor list, the flag of \<^verbatim>\<open>motor_init\<close>, and the state of the devices the drivers talk to.\<close>

record ('p, 'd, 'w) robot =
  motor_list :: "('p, 'd) motor list"
  is_init :: bool
  dev :: 'w

text \<open>
  The operations of the PID library on one controller; \<open>APID_Init\<close> keeps the controller's own gains, as it is
  called here, and \<open>APID_alloc\<close> is a freshly allocated controller, unless memory is short.
\<close>

record 'p apid =
  APID_Set_Target :: "'p \<Rightarrow> fl \<Rightarrow> 'p"
  APID_Set_Present :: "'p \<Rightarrow> fl \<Rightarrow> 'p"
  APID_Hander :: "'p \<Rightarrow> fl \<Rightarrow> 'p"
  APID_Get_Out :: "'p \<Rightarrow> fl"
  APID_Init :: "'p \<Rightarrow> 'p"
  APID_alloc :: "'p option"

text \<open>The drivers: what \<^verbatim>\<open>driver\<close> and \<^verbatim>\<open>control\<close> do for a motor number, a mode and the value passed in.\<close>

record ('p, 'd, 'w) drivers =
  drive :: "'d \<Rightarrow> int \<Rightarrow> u16 \<Rightarrow> fl \<Rightarrow> ('p, 'd, 'w) robot \<Rightarrow> ('p, 'd, 'w) robot cres"
  control :: "'d \<Rightarrow> int \<Rightarrow> u16 \<Rightarrow> fl \<Rightarrow> ('p, 'd, 'w) robot \<Rightarrow> (fl \<times> ('p, 'd, 'w) robot) cres"

section \<open>Access to the motors\<close>

text \<open>The number of the motor pointed to; a number past the list gives the null pointer.\<close>

definition motor_get :: "('p, 'd, 'w) robot \<Rightarrow> int \<Rightarrow> nat option cres" where
  "motor_get s i = (if i \<ge> int (length (motor_list s)) then Inr None else if i < 0 then Inl OutOfBounds else Inr (Some (nat i)))"

definition put :: "nat \<Rightarrow> ('p, 'd) motor \<Rightarrow> ('p, 'd, 'w) robot \<Rightarrow> ('p, 'd, 'w) robot" where
  "put i m s = s\<lparr>motor_list := (motor_list s)[i := m]\<rparr>"

text \<open>\<open>motor_get\<close> followed by a use of the pointer, without and with the assertion \<^verbatim>\<open>MOTOR_ASSERT(motor)\<close>.\<close>

definition on_motor :: "('p, 'd, 'w) robot \<Rightarrow> int \<Rightarrow> (nat \<Rightarrow> ('p, 'd) motor \<Rightarrow> 'r cres) \<Rightarrow> 'r cres" where
  "on_motor s i f = cbind (motor_get s i) (\<lambda>p. case p of None \<Rightarrow> Inl NullDeref | Some k \<Rightarrow> f k (motor_list s ! k))"

definition asserted :: "('p, 'd, 'w) robot \<Rightarrow> int \<Rightarrow> (nat \<Rightarrow> ('p, 'd) motor \<Rightarrow> 'r cres) \<Rightarrow> 'r cres" where
  "asserted s i f = cbind (motor_get s i) (\<lambda>p. case p of None \<Rightarrow> Inl Stuck | Some k \<Rightarrow> f k (motor_list s ! k))"

definition motor_set_pid_speed_ratio :: "('p, 'd, 'w) robot \<Rightarrow> int \<Rightarrow> u8 \<Rightarrow> u8 \<Rightarrow> ('p, 'd, 'w) robot cres" where
  "motor_set_pid_speed_ratio s i rs rp =
     on_motor s i (\<lambda>k m. Inr (put k (m\<lparr>ratio_speed := ucast rs, ratio_pos := ucast rp\<rparr>) s))"

section \<open>Controllers\<close>

text \<open>\<^verbatim>\<open>MOTOD_IS_POS_TIME\<close> and \<^verbatim>\<open>MOTOD_IS_SPEED_TIME\<close>: the time is a multiple of the ratio.\<close>

definition is_time :: "int \<Rightarrow> 4 word \<Rightarrow> bool cres" where
  "is_time t r = (if r = 0 then Inl DivByZero else Inr (t mod uint r = 0))"

definition pid_run :: "'p apid \<Rightarrow> 'p option \<Rightarrow> fl \<Rightarrow> fl \<Rightarrow> fl \<Rightarrow> 'p cres" where
  "pid_run L p target present cycle =
     (case p of None \<Rightarrow> Inl NullDeref
      | Some p \<Rightarrow> Inr (APID_Hander L (APID_Set_Present L (APID_Set_Target L p target) present) cycle))"

definition motor_behiver_pos :: "'p apid \<Rightarrow> ('p, 'd) motor \<Rightarrow> fl \<Rightarrow> ('p, 'd) motor cres" where
  "motor_behiver_pos L m cycle =
     cbind (is_time (time m) (ratio_pos m)) (\<lambda>b.
       if b then cbind (pid_run L (pid_pos m) (tar_pos m) (cur_pos m) (fmul f32 cycle (f32_int (uint (ratio_pos m))))) (\<lambda>p.
              Inr (m\<lparr>pid_pos := Some p, tar_speed := APID_Get_Out L p\<rparr>))
       else Inr m)"

definition motor_behiver_speed :: "'p apid \<Rightarrow> ('p, 'd) motor \<Rightarrow> fl \<Rightarrow> ('p, 'd) motor cres" where
  "motor_behiver_speed L m cycle =
     cbind (is_time (time m) (ratio_speed m)) (\<lambda>b.
       if b then cbind (pid_run L (pid_speed m) (tar_speed m) (cur_speed m) (fmul f32 cycle (f32_int (uint (ratio_speed m))))) (\<lambda>p.
              Inr (m\<lparr>pid_speed := Some p, tar_torque := APID_Get_Out L p\<rparr>))
       else Inr m)"

definition motor_behiver_torque :: "'p apid \<Rightarrow> ('p, 'd) motor \<Rightarrow> fl \<Rightarrow> ('p, 'd) motor cres" where
  "motor_behiver_torque L m cycle =
     cbind (pid_run L (pid_torque m) (tar_torque m) (cur_torque m) cycle) (\<lambda>p.
       Inr (m\<lparr>pid_torque := Some p, acc_out := APID_Get_Out L p\<rparr>))"

text \<open>The four functions a motor's \<^verbatim>\<open>behaver\<close> points to, with the fall-through of their switches.\<close>

definition behiver_none :: "'p apid \<Rightarrow> ('p, 'd) motor \<Rightarrow> u16 \<Rightarrow> fl \<Rightarrow> ('p, 'd) motor cres" where
  "behiver_none L m mode cycle =
     (if mode = MOTOR_MODE_POS then
        cbind (motor_behiver_pos L m cycle) (\<lambda>m. cbind (motor_behiver_speed L m cycle) (\<lambda>m. motor_behiver_torque L m cycle))
      else if mode = MOTOR_MODE_SPEED then cbind (motor_behiver_speed L m cycle) (\<lambda>m. motor_behiver_torque L m cycle)
      else if mode = MOTOR_MODE_TORQUE then motor_behiver_torque L m cycle
      else Inr m)"

definition behiver_takes_torque :: "'p apid \<Rightarrow> ('p, 'd) motor \<Rightarrow> u16 \<Rightarrow> fl \<Rightarrow> ('p, 'd) motor cres" where
  "behiver_takes_torque L m mode cycle =
     (if mode = MOTOR_MODE_POS then
        cbind (motor_behiver_pos L m cycle) (\<lambda>m. cbind (motor_behiver_speed L m cycle) (\<lambda>m. Inr (m\<lparr>acc_out := tar_torque m\<rparr>)))
      else if mode = MOTOR_MODE_SPEED then cbind (motor_behiver_speed L m cycle) (\<lambda>m. Inr (m\<lparr>acc_out := tar_torque m\<rparr>))
      else if mode = MOTOR_MODE_TORQUE then Inr (m\<lparr>acc_out := tar_torque m\<rparr>)
      else Inr m)"

definition behiver_takes_speed :: "'p apid \<Rightarrow> ('p, 'd) motor \<Rightarrow> u16 \<Rightarrow> fl \<Rightarrow> ('p, 'd) motor cres" where
  "behiver_takes_speed L m mode cycle =
     (if mode = MOTOR_MODE_POS then cbind (motor_behiver_pos L m cycle) (\<lambda>m. Inr (m\<lparr>acc_out := tar_speed m\<rparr>))
      else if mode = MOTOR_MODE_SPEED then Inr (m\<lparr>acc_out := tar_speed m\<rparr>)
      else if mode = MOTOR_MODE_TORQUE then Inr (m\<lparr>acc_out := tar_torque m\<rparr>)
      else Inr m)"

definition behiver_takes_pos :: "('p, 'd) motor \<Rightarrow> u16 \<Rightarrow> ('p, 'd) motor cres" where
  "behiver_takes_pos m mode =
     (if mode = MOTOR_MODE_POS then Inr (m\<lparr>acc_out := tar_pos m\<rparr>)
      else if mode = MOTOR_MODE_SPEED then Inr (m\<lparr>acc_out := tar_speed m\<rparr>)
      else if mode = MOTOR_MODE_TORQUE then Inr (m\<lparr>acc_out := tar_torque m\<rparr>)
      else Inr m)"

fun behave :: "motor_behiver \<Rightarrow> 'p apid \<Rightarrow> ('p, 'd) motor \<Rightarrow> u16 \<Rightarrow> fl \<Rightarrow> ('p, 'd) motor cres" where
  "behave motor_behiver_1 L m mode cycle = behiver_none L m mode cycle"
| "behave motor_behiver_2 L m mode cycle = behiver_takes_torque L m mode cycle"
| "behave motor_behiver_3 L m mode cycle = behiver_takes_speed L m mode cycle"
| "behave motor_behiver_4 L m mode cycle = behiver_takes_pos m mode"

section \<open>The periodic handler\<close>

text \<open>One call of a motor's \<^verbatim>\<open>control\<close> operation with the address of one of its fields.\<close>

definition read_value ::
  "('p, 'd, 'w) drivers \<Rightarrow> nat \<Rightarrow> u16 \<Rightarrow> (('p, 'd) motor \<Rightarrow> fl) \<Rightarrow> (fl \<Rightarrow> ('p, 'd) motor \<Rightarrow> ('p, 'd) motor) \<Rightarrow>
     ('p, 'd, 'w) robot \<Rightarrow> ('p, 'd, 'w) robot cres" where
  "read_value D k mode field upd s =
     (let m = motor_list s ! k in
      case ops m of None \<Rightarrow> Inl NullDeref
      | Some d \<Rightarrow> cbind (control D (driver d) (id_of m) mode (field m) s) (\<lambda>(v, s). Inr (put k (upd v (motor_list s ! k)) s)))"

definition read_feedback :: "('p, 'd, 'w) drivers \<Rightarrow> nat \<Rightarrow> ('p, 'd, 'w) robot \<Rightarrow> ('p, 'd, 'w) robot cres" where
  "read_feedback D k s =
     cbind (read_value D k MOTOR_MODE_TORQUE cur_torque (\<lambda>v m. m\<lparr>cur_torque := v\<rparr>) s) (\<lambda>s.
     cbind (is_time (time (motor_list s ! k)) (ratio_speed (motor_list s ! k))) (\<lambda>b.
     cbind (if b then read_value D k MOTOR_MODE_SPEED cur_speed (\<lambda>v m. m\<lparr>cur_speed := v\<rparr>) s else Inr s) (\<lambda>s.
     cbind (is_time (time (motor_list s ! k)) (ratio_pos (motor_list s ! k))) (\<lambda>b.
     if b then read_value D k MOTOR_MODE_POS cur_pos (\<lambda>v m. m\<lparr>cur_pos := v\<rparr>) s else Inr s))))"

definition motor_read_feedback :: "('p, 'd, 'w) drivers \<Rightarrow> ('p, 'd, 'w) robot \<Rightarrow> int \<Rightarrow> ('p, 'd, 'w) robot cres" where
  "motor_read_feedback D s i = asserted s i (\<lambda>k m. read_feedback D k s)"

text \<open>\<^verbatim>\<open>motor->time += cycle\<close>: the 64 bit counter is converted to a float and back.\<close>

definition add_time :: "int \<Rightarrow> fl \<Rightarrow> int cres" where
  "add_time t cycle = fcast (- (2 ^ 63)) (2 ^ 63 - 1) (fadd f32 (f32_int t) cycle)"

text \<open>One step of the motor's curve, if one is running, to the target of the current mode.\<close>

definition follow_curve :: "(fl \<Rightarrow> fl) \<Rightarrow> ('p, 'd) motor \<Rightarrow> ('p, 'd) motor cres" where
  "follow_curve expf m =
     (case ops m of None \<Rightarrow> Inl NullDeref
      | Some d \<Rightarrow> case curve d of None \<Rightarrow> Inr m
        | Some c \<Rightarrow>
            if maxTimes c = 0 then Inr m
            else if flag_run_mode m = 3 then
              cbind (motor_planning expf c) (\<lambda>(v, c). Inr (m\<lparr>ops := Some (d\<lparr>curve := Some c\<rparr>), tar_pos := v\<rparr>))
            else if flag_run_mode m = 2 then
              cbind (motor_planning expf c) (\<lambda>(v, c). Inr (m\<lparr>ops := Some (d\<lparr>curve := Some c\<rparr>), tar_speed := v\<rparr>))
            else if flag_run_mode m = 1 then
              cbind (motor_planning expf c) (\<lambda>(v, c). Inr (m\<lparr>ops := Some (d\<lparr>curve := Some c\<rparr>), tar_torque := v\<rparr>))
            else Inr m)"

definition motor_handle ::
  "'p apid \<Rightarrow> ('p, 'd, 'w) drivers \<Rightarrow> (fl \<Rightarrow> fl) \<Rightarrow> ('p, 'd, 'w) robot \<Rightarrow> int \<Rightarrow> fl \<Rightarrow> ('p, 'd, 'w) robot cres" where
  "motor_handle L D expf s i cycle =
     asserted s i (\<lambda>k m.
       if ops m = None then Inl Stuck
       else cbind (add_time (time m) cycle) (\<lambda>t.
         let s = put k (m\<lparr>time := t\<rparr>) s in
         cbind (if flag_passive_feedback m then Inr s else read_feedback D k s) (\<lambda>s.
         let m = motor_list s ! k in
         cbind (if flag_is_stop m then Inr (m\<lparr>acc_out := Fin 0\<rparr>)
                else cbind (follow_curve expf m) (\<lambda>m.
                  case behaver m of None \<Rightarrow> Inl NullCall
                  | Some b \<Rightarrow> behave b L m (ucast (flag_run_mode m)) cycle)) (\<lambda>m.
         let s = put k m s in
         case ops m of None \<Rightarrow> Inl NullDeref
         | Some d \<Rightarrow> drive D (driver d) i (ucast (flag_out_mode m)) (acc_out m) s))))"

section \<open>Setting and reading values\<close>

definition feedback :: "('p, 'd, 'w) robot \<Rightarrow> int \<Rightarrow> (('p, 'd) motor \<Rightarrow> ('p, 'd) motor) \<Rightarrow> ('p, 'd, 'w) robot cres" where
  "feedback s i f = cbind (motor_get s i) (\<lambda>p. case p of None \<Rightarrow> Inr s | Some k \<Rightarrow> Inr (put k (f (motor_list s ! k)) s))"

definition motor_feedback_torque :: "('p, 'd, 'w) robot \<Rightarrow> int \<Rightarrow> fl \<Rightarrow> ('p, 'd, 'w) robot cres" where
  "motor_feedback_torque s i v = feedback s i (\<lambda>m. m\<lparr>cur_torque := v\<rparr>)"

definition motor_feedback_speed :: "('p, 'd, 'w) robot \<Rightarrow> int \<Rightarrow> fl \<Rightarrow> ('p, 'd, 'w) robot cres" where
  "motor_feedback_speed s i v = feedback s i (\<lambda>m. m\<lparr>cur_speed := v\<rparr>)"

definition motor_feedback_pos :: "('p, 'd, 'w) robot \<Rightarrow> int \<Rightarrow> fl \<Rightarrow> ('p, 'd, 'w) robot cres" where
  "motor_feedback_pos s i v = feedback s i (\<lambda>m. m\<lparr>cur_pos := v\<rparr>)"

definition motor_start :: "('p, 'd, 'w) robot \<Rightarrow> int \<Rightarrow> ('p, 'd, 'w) robot cres" where
  "motor_start s i = asserted s i (\<lambda>k m. Inr (put k (m\<lparr>flag_is_stop := False\<rparr>) s))"

definition motor_stop :: "('p, 'd, 'w) robot \<Rightarrow> int \<Rightarrow> ('p, 'd, 'w) robot cres" where
  "motor_stop s i = asserted s i (\<lambda>k m. Inr (put k (m\<lparr>flag_is_stop := True\<rparr>) s))"

definition motor_set_speed :: "('p, 'd, 'w) robot \<Rightarrow> int \<Rightarrow> fl \<Rightarrow> ('p, 'd, 'w) robot cres" where
  "motor_set_speed s i v =
     asserted s i (\<lambda>k m. Inr (put k (m\<lparr>flag_run_mode := 2, tar_speed := fmul f32 v (ratio m)\<rparr>) s))"

definition motor_set_relative_speed :: "('p, 'd, 'w) robot \<Rightarrow> int \<Rightarrow> fl \<Rightarrow> ('p, 'd, 'w) robot cres" where
  "motor_set_relative_speed s i v =
     asserted s i (\<lambda>k m. Inr (put k (m\<lparr>flag_run_mode := 2, tar_speed := fadd f32 (tar_speed m) (fmul f32 v (ratio m))\<rparr>) s))"

definition motor_set_pos :: "('p, 'd, 'w) robot \<Rightarrow> int \<Rightarrow> fl \<Rightarrow> ('p, 'd, 'w) robot cres" where
  "motor_set_pos s i v =
     asserted s i (\<lambda>k m. Inr (put k (m\<lparr>flag_run_mode := 3, tar_pos := fmul f32 v (ratio m)\<rparr>) s))"

definition motor_set_relative_pos :: "('p, 'd, 'w) robot \<Rightarrow> int \<Rightarrow> fl \<Rightarrow> ('p, 'd, 'w) robot cres" where
  "motor_set_relative_pos s i v =
     asserted s i (\<lambda>k m. Inr (put k (m\<lparr>flag_run_mode := 3, tar_pos := fadd f32 (tar_pos m) (fmul f32 v (ratio m))\<rparr>) s))"

definition motor_set_torque :: "('p, 'd, 'w) robot \<Rightarrow> int \<Rightarrow> fl \<Rightarrow> ('p, 'd, 'w) robot cres" where
  "motor_set_torque s i v =
     asserted s i (\<lambda>k m. Inr (put k (m\<lparr>flag_run_mode := 1, tar_torque := fmul f32 v (ratio m)\<rparr>) s))"

definition motor_get_speed :: "('p, 'd, 'w) robot \<Rightarrow> int \<Rightarrow> fl cres" where
  "motor_get_speed s i = asserted s i (\<lambda>k m. Inr (fdiv f32 (cur_speed m) (ratio m)))"

definition motor_get_pos :: "('p, 'd, 'w) robot \<Rightarrow> int \<Rightarrow> fl cres" where
  "motor_get_pos s i = asserted s i (\<lambda>k m. Inr (fdiv f32 (cur_pos m) (ratio m)))"

definition motor_get_torque :: "('p, 'd, 'w) robot \<Rightarrow> int \<Rightarrow> fl cres" where
  "motor_get_torque s i = asserted s i (\<lambda>k m. Inr (fdiv f32 (cur_torque m) (ratio m)))"

definition motor_get_pid_torque :: "('p, 'd, 'w) robot \<Rightarrow> int \<Rightarrow> 'p option cres" where
  "motor_get_pid_torque s i = asserted s i (\<lambda>k m. Inr (pid_torque m))"

definition motor_get_pid_speed :: "('p, 'd, 'w) robot \<Rightarrow> int \<Rightarrow> 'p option cres" where
  "motor_get_pid_speed s i = asserted s i (\<lambda>k m. Inr (pid_speed m))"

definition motor_get_pid_pos :: "('p, 'd, 'w) robot \<Rightarrow> int \<Rightarrow> 'p option cres" where
  "motor_get_pid_pos s i = asserted s i (\<lambda>k m. Inr (pid_pos m))"

definition motor_set_passive_feedback :: "('p, 'd, 'w) robot \<Rightarrow> int \<Rightarrow> bool \<Rightarrow> ('p, 'd, 'w) robot cres" where
  "motor_set_passive_feedback s i b = on_motor s i (\<lambda>k m. Inr (put k (m\<lparr>flag_passive_feedback := b\<rparr>) s))"

definition motor_set_ratio :: "('p, 'd, 'w) robot \<Rightarrow> int \<Rightarrow> fl \<Rightarrow> ('p, 'd, 'w) robot cres" where
  "motor_set_ratio s i r = on_motor s i (\<lambda>k m. Inr (put k (m\<lparr>ratio := r\<rparr>) s))"

text \<open>The planned position command fills in the motor's curve object and takes its first step.\<close>

definition motor_set_pos_plan ::
  "(fl \<Rightarrow> fl) \<Rightarrow> ('p, 'd, 'w) robot \<Rightarrow> int \<Rightarrow> fl \<Rightarrow> fl \<Rightarrow> fl \<Rightarrow> int \<Rightarrow> ('p, 'd, 'w) robot cres" where
  "motor_set_pos_plan expf s i target step flex maxt =
     on_motor s i (\<lambda>k m.
       case ops m of None \<Rightarrow> Inl NullDeref
       | Some d \<Rightarrow> case curve d of None \<Rightarrow> Inl NullDeref
         | Some c \<Rightarrow>
             let c = c\<lparr>intervel := 2, aTimes := 0, targetPos := fmul f32 target (ratio m), startPos := cur_pos m,
                       currentPos := cur_pos m, maxTimes := maxt, stepPos := step, flexible := flex, curveMode := CURVE_TRAP\<rparr> in
             cbind (motor_planning expf c) (\<lambda>(v, c). Inr (put k (m\<lparr>ops := Some (d\<lparr>curve := Some c\<rparr>), tar_pos := v\<rparr>) s)))"

section \<open>Configuration\<close>

text \<open>\<^verbatim>\<open>RT_ASSERT(pid)\<close> and \<^verbatim>\<open>APID_Init\<close> on one controller.\<close>

definition pid_ready :: "'p apid \<Rightarrow> 'p option \<Rightarrow> 'p option cres" where
  "pid_ready L p = (case p of None \<Rightarrow> Inl Stuck | Some p \<Rightarrow> Inr (Some (APID_Init L p)))"

definition motor_updata_cfg :: "'p apid \<Rightarrow> ('p, 'd, 'w) robot \<Rightarrow> int \<Rightarrow> int \<Rightarrow> ('p, 'd, 'w) robot cres" where
  "motor_updata_cfg L s i level =
     on_motor s i (\<lambda>k m. cbind
       (if level = 0 then
          let m = m\<lparr>behaver := Some motor_behiver_1, flag_out_mode := 0\<rparr> in
          cbind (pid_ready L (APID_alloc L)) (\<lambda>t. cbind (pid_ready L (APID_alloc L)) (\<lambda>v. cbind (pid_ready L (APID_alloc L)) (\<lambda>p.
          Inr (m\<lparr>pid_torque := t, pid_speed := v, pid_pos := p\<rparr>))))
        else if level = 1 then
          let m = m\<lparr>behaver := Some motor_behiver_2, flag_out_mode := 1\<rparr> in
          cbind (pid_ready L (pid_speed m)) (\<lambda>v. cbind (pid_ready L (pid_pos m)) (\<lambda>p.
          Inr (m\<lparr>pid_speed := v, pid_pos := p\<rparr>)))
        else if level = 2 then
          let m = m\<lparr>behaver := Some motor_behiver_3, flag_out_mode := 2\<rparr> in
          cbind (pid_ready L (APID_alloc L)) (\<lambda>p. Inr (m\<lparr>pid_pos := p\<rparr>))
        else if level = 3 then Inr (m\<lparr>behaver := Some motor_behiver_4, flag_out_mode := 3\<rparr>)
        else Inr m) (\<lambda>m. Inr (put k m s)))"

text \<open>The loop of \<^verbatim>\<open>motor_init\<close> from motor \<open>k\<close> on, for \<open>n\<close> more motors.\<close>

fun init_loop :: "'p apid \<Rightarrow> nat \<Rightarrow> nat \<Rightarrow> ('p, 'd, 'w) robot \<Rightarrow> ('p, 'd, 'w) robot cres" where
  "init_loop L k 0 s = Inr s"
| "init_loop L k (Suc n) s =
     (let m = (motor_list s ! k)\<lparr>id_of := int k, time := 0, flag_run_mode := 0, flag_out_mode := 0\<rparr>; s = put k m s in
      cbind (motor_updata_cfg L s (int k) (uint (flag_accept_level m))) (init_loop L (Suc k) n))"

definition motor_init :: "'p apid \<Rightarrow> ('p, 'd, 'w) robot \<Rightarrow> ('p, 'd, 'w) robot cres" where
  "motor_init L s = (if is_init s then Inr s else init_loop L 0 (length (motor_list s)) (s\<lparr>is_init := True\<rparr>))"

section \<open>Cascades\<close>

text \<open>
  The reference: a motor whose hardware accepts targets of kind \<open>level\<close> (0 nothing, 1 torque, 2 speed, 3
  position), run in mode \<open>mode\<close>, computes the targets from the mode's kind down to the accepted kind,
  outermost controller first, and puts out the target of the innermost kind the hardware accepts.
\<close>

definition target :: "nat \<Rightarrow> ('p, 'd) motor \<Rightarrow> fl" where
  "target q m = (if q = 1 then tar_torque m else if q = 2 then tar_speed m else tar_pos m)"

definition cascade :: "'p apid \<Rightarrow> nat \<Rightarrow> nat \<Rightarrow> ('p, 'd) motor \<Rightarrow> fl \<Rightarrow> ('p, 'd) motor cres" where
  "cascade L level mode m cycle =
     (if mode = 0 then Inr m
      else cbind (if level < 3 \<and> 3 \<le> mode then motor_behiver_pos L m cycle else Inr m) (\<lambda>m.
           cbind (if level < 2 \<and> 2 \<le> mode then motor_behiver_speed L m cycle else Inr m) (\<lambda>m.
           if level = 0 then motor_behiver_torque L m cycle else Inr (m\<lparr>acc_out := target (min level mode) m\<rparr>))))"

definition level_behiver :: "nat \<Rightarrow> motor_behiver" where
  "level_behiver level = [motor_behiver_1, motor_behiver_2, motor_behiver_3, motor_behiver_4] ! level"

lemma cbind_Inr [simp]: "cbind r Inr = r"
  by (cases r) simp_all

lemma behave_cascade:
  assumes "level < 4" "mode < 4"
  shows "behave (level_behiver level) L m (of_nat mode) cycle = cascade L level mode m cycle"
proof -
  from assms(2) consider "mode = 0" | "mode = 1" | "mode = 2" | "mode = 3" by linarith
  note modes = this
  from assms(1) consider "level = 0" | "level = 1" | "level = 2" | "level = 3" by linarith
  then show ?thesis
  proof cases
    case 1
    then show ?thesis by (cases rule: modes) (simp_all add: level_behiver_def cascade_def behiver_none_def)
  next
    case 2
    then show ?thesis by (cases rule: modes) (simp_all add: level_behiver_def cascade_def target_def behiver_takes_torque_def)
  next
    case 3
    then show ?thesis by (cases rule: modes) (simp_all add: level_behiver_def cascade_def target_def behiver_takes_speed_def)
  next
    case 4
    then show ?thesis by (cases rule: modes) (simp_all add: level_behiver_def cascade_def target_def behiver_takes_pos_def)
  qed
qed

section \<open>Motors that are ready\<close>

fun pids_for :: "motor_behiver \<Rightarrow> ('p, 'd) motor \<Rightarrow> bool" where
  "pids_for motor_behiver_1 m \<longleftrightarrow> pid_pos m \<noteq> None \<and> pid_speed m \<noteq> None \<and> pid_torque m \<noteq> None"
| "pids_for motor_behiver_2 m \<longleftrightarrow> pid_pos m \<noteq> None \<and> pid_speed m \<noteq> None"
| "pids_for motor_behiver_3 m \<longleftrightarrow> pid_pos m \<noteq> None"
| "pids_for motor_behiver_4 m \<longleftrightarrow> True"

definition plan_ok :: "CurveObjectType \<Rightarrow> bool" where
  "plan_ok c \<longleftrightarrow> maxTimes c = 0 \<or> ((curveMode c = 1 \<or> curveMode c = 2) \<and> 0 < maxTimes c \<and> 0 < intervel c \<and> 0 \<le> aTimes c \<and>
     maxTimes c + intervel c \<le> 2 ^ 31)"

definition ops_ok :: "('d \<Rightarrow> 'w \<Rightarrow> bool) \<Rightarrow> 'w \<Rightarrow> 'd motor_ops option \<Rightarrow> bool" where
  "ops_ok okd w r \<longleftrightarrow> (\<exists>d. r = Some d \<and> okd (driver d) w \<and> (\<forall>c. curve d = Some c \<longrightarrow> plan_ok c))"

text \<open>
  Motor \<open>k\<close> is ready: its operations are there and fit the device, its number is its own, its
  ratios are not zero, and its behaviour is set and has the controllers it uses.
\<close>

definition motor_ready :: "('d \<Rightarrow> 'w \<Rightarrow> bool) \<Rightarrow> 'w \<Rightarrow> nat \<Rightarrow> ('p, 'd) motor \<Rightarrow> bool" where
  "motor_ready okd w k m \<longleftrightarrow> ops_ok okd w (ops m) \<and> id_of m = int k \<and> ratio_pos m \<noteq> 0 \<and> ratio_speed m \<noteq> 0 \<and>
     (\<exists>b. behaver m = Some b \<and> pids_for b m)"

definition ready :: "('d \<Rightarrow> 'w \<Rightarrow> bool) \<Rightarrow> ('p, 'd, 'w) robot \<Rightarrow> bool" where
  "ready okd s \<longleftrightarrow> (\<forall>k < length (motor_list s). motor_ready okd (dev s) k (motor_list s ! k))"

lemma put_sel [simp]: "length (motor_list (put k m s)) = length (motor_list s)" "dev (put k m s) = dev s" "is_init (put k m s) = is_init s"
  "k < length (motor_list s) \<Longrightarrow> motor_list (put k m s) ! k = m"
  by (simp_all add: put_def)

lemma ready_put: "ready okd s \<Longrightarrow> motor_ready okd (dev s) k m \<Longrightarrow> ready okd (put k m s)"
  by (cases "k < length (motor_list s)") (auto simp: ready_def put_def nth_list_update)

lemma ready_dev: "ready okd s \<Longrightarrow> (\<And>d. okd d (dev s) \<Longrightarrow> okd' d w) \<Longrightarrow> ready okd' (s\<lparr>dev := w\<rparr>)"
  by (simp add: ready_def motor_ready_def ops_ok_def) blast

lemma readyD: "ready okd s \<Longrightarrow> k < length (motor_list s) \<Longrightarrow> motor_ready okd (dev s) k (motor_list s ! k)"
  by (simp add: ready_def)

lemma motor_get_valid [simp]: "k < length (motor_list s) \<Longrightarrow> motor_get s (int k) = Inr (Some k)"
  by (simp add: motor_get_def)

lemma planning_ok:
  assumes "plan_ok c" "maxTimes c \<noteq> 0"
  obtains v c' where "motor_planning expf c = Inr (v, c')" "plan_ok c'"
proof (cases "aTimes c < maxTimes c")
  case True
  then have "motor_planning expf c = Inr (plan_at expf c (aTimes c), c\<lparr>currentPos := plan_at expf c (aTimes c), aTimes := aTimes c + intervel c\<rparr>)"
    using assms by (intro planning_step) (auto simp: plan_ok_def)
  then show ?thesis using assms by (intro that) (auto simp: plan_ok_def)
next
  case False
  then show ?thesis using assms by (intro that [OF planning_last]) (auto simp: plan_ok_def)
qed

lemma is_time_ok [simp]: "r \<noteq> 0 \<Longrightarrow> is_time t r = Inr (t mod uint r = 0)"
  by (simp add: is_time_def)

text \<open>Fields that readiness does not look at.\<close>

lemma pids_for_cong:
  "pid_pos m' = pid_pos m \<Longrightarrow> pid_speed m' = pid_speed m \<Longrightarrow> pid_torque m' = pid_torque m \<Longrightarrow> pids_for b m' = pids_for b m"
  by (cases b) simp_all

lemma motor_ready_cong:
  "motor_ready okd w k m \<Longrightarrow> ops_ok okd w (ops m') \<Longrightarrow> id_of m' = id_of m \<Longrightarrow> ratio_pos m' = ratio_pos m \<Longrightarrow>
     ratio_speed m' = ratio_speed m \<Longrightarrow> behaver m' = behaver m \<Longrightarrow> (\<And>b. pids_for b m \<Longrightarrow> pids_for b m') \<Longrightarrow> motor_ready okd w k m'"
  by (auto simp: motor_ready_def)

lemma motor_ready_ops: "motor_ready okd w k m \<Longrightarrow> ops_ok okd w (ops m)"
  by (simp add: motor_ready_def)

lemma follow_curve_ready:
  assumes "motor_ready okd w k m"
  obtains m' where "follow_curve expf m = Inr m'" "motor_ready okd w k m'" "time m' = time m"
proof -
  obtain d where d: "ops m = Some d" "okd (driver d) w" "\<And>c. curve d = Some c \<Longrightarrow> plan_ok c"
    using motor_ready_ops [OF assms] by (auto simp: ops_ok_def)
  show ?thesis
  proof (cases "\<exists>c. curve d = Some c \<and> maxTimes c \<noteq> 0 \<and> (flag_run_mode m = 1 \<or> flag_run_mode m = 2 \<or> flag_run_mode m = 3)")
    case True
    then obtain c where c: "curve d = Some c" "maxTimes c \<noteq> 0" "flag_run_mode m = 1 \<or> flag_run_mode m = 2 \<or> flag_run_mode m = 3" by blast
    obtain v c' where p: "motor_planning expf c = Inr (v, c')" "plan_ok c'" using planning_ok [OF d(3) [OF c(1)] c(2)] .
    let ?d = "d\<lparr>curve := Some c'\<rparr>"
    have o: "ops_ok okd w (Some ?d)" using d(2) p(2) by (simp add: ops_ok_def)
    have r: "motor_ready okd w k m'" if "m' = m\<lparr>ops := Some ?d, tar_pos := v\<rparr> \<or> m' = m\<lparr>ops := Some ?d, tar_speed := v\<rparr> \<or> m' = m\<lparr>ops := Some ?d, tar_torque := v\<rparr>" for m'
      using that o by (intro motor_ready_cong [OF assms]) (auto cong: pids_for_cong)
    define m' where "m' = (if flag_run_mode m = 3 then m\<lparr>ops := Some ?d, tar_pos := v\<rparr>
      else if flag_run_mode m = 2 then m\<lparr>ops := Some ?d, tar_speed := v\<rparr> else m\<lparr>ops := Some ?d, tar_torque := v\<rparr>)"
    have "follow_curve expf m = Inr m'" using c p by (auto simp: follow_curve_def d(1) m'_def)
    moreover have "motor_ready okd w k m'" by (rule r) (simp add: m'_def)
    moreover have "time m' = time m" by (simp add: m'_def)
    ultimately show ?thesis using that by blast
  next
    case False
    then have "follow_curve expf m = Inr m" using d(1) by (auto simp: follow_curve_def split: option.splits)
    then show ?thesis using assms that by blast
  qed
qed

lemma pid_run_ok: "p \<noteq> None \<Longrightarrow> \<exists>q. pid_run L p a b c = Inr q"
  by (auto simp: pid_run_def)

text \<open>No controller of a ready motor is missing, and the controllers only change controllers and targets.\<close>

definition same_motor :: "('p, 'd) motor \<Rightarrow> ('p, 'd) motor \<Rightarrow> bool" where
  "same_motor m m' \<longleftrightarrow> ops m' = ops m \<and> id_of m' = id_of m \<and> ratio_pos m' = ratio_pos m \<and> ratio_speed m' = ratio_speed m \<and>
     behaver m' = behaver m \<and> time m' = time m \<and> (pid_pos m \<noteq> None \<longrightarrow> pid_pos m' \<noteq> None) \<and>
     (pid_speed m \<noteq> None \<longrightarrow> pid_speed m' \<noteq> None) \<and> (pid_torque m \<noteq> None \<longrightarrow> pid_torque m' \<noteq> None)"

lemma same_motor_ready: "same_motor m m' \<Longrightarrow> motor_ready okd w k m \<Longrightarrow> motor_ready okd w k m'"
proof -
  have "pids_for b m'" if "same_motor m m'" "pids_for b m" for b using that by (cases b) (auto simp: same_motor_def)
  then show "same_motor m m' \<Longrightarrow> motor_ready okd w k m \<Longrightarrow> motor_ready okd w k m'"
    by (auto simp: motor_ready_def same_motor_def)
qed

lemma same_motor_trans: "same_motor a b \<Longrightarrow> same_motor b c \<Longrightarrow> same_motor a c"
  by (simp add: same_motor_def)

lemma behiver_pos_ok: "ratio_pos m \<noteq> 0 \<Longrightarrow> pid_pos m \<noteq> None \<Longrightarrow> \<exists>m'. motor_behiver_pos L m c = Inr m' \<and> same_motor m m'"
  using pid_run_ok [of "pid_pos m"] by (auto simp: motor_behiver_pos_def same_motor_def pid_run_def)

lemma behiver_speed_ok: "ratio_speed m \<noteq> 0 \<Longrightarrow> pid_speed m \<noteq> None \<Longrightarrow> \<exists>m'. motor_behiver_speed L m c = Inr m' \<and> same_motor m m'"
  by (auto simp: motor_behiver_speed_def same_motor_def pid_run_def)

lemma behiver_torque_ok: "pid_torque m \<noteq> None \<Longrightarrow> \<exists>m'. motor_behiver_torque L m c = Inr m' \<and> same_motor m m'"
  by (auto simp: motor_behiver_torque_def same_motor_def pid_run_def)

lemma same_motor_out [simp]: "same_motor m (m\<lparr>acc_out := v\<rparr>)" "same_motor m m"
  by (simp_all add: same_motor_def)

lemma speed_torque_ok:
  assumes "ratio_speed m \<noteq> 0" "pid_speed m \<noteq> None" "pid_torque m \<noteq> None"
  shows "\<exists>m'. cbind (motor_behiver_speed L m c) (\<lambda>m. motor_behiver_torque L m c) = Inr m' \<and> same_motor m m'"
proof -
  obtain a where a: "motor_behiver_speed L m c = Inr a" "same_motor m a" using behiver_speed_ok [OF assms(1,2)] by blast
  then have "pid_torque a \<noteq> None" using assms(3) by (simp add: same_motor_def)
  from behiver_torque_ok [OF this, of L c] show ?thesis using a same_motor_trans by auto
qed

lemma behave_ok:
  assumes "motor_ready okd w k m" "behaver m = Some b"
  obtains m' where "behave b L m mode c = Inr m'" "same_motor m m'"
proof -
  have r: "ratio_pos m \<noteq> 0" "ratio_speed m \<noteq> 0" "pids_for b m" using assms by (auto simp: motor_ready_def)
  have after: "\<exists>a. motor_behiver_pos L m c = Inr a \<and> same_motor m a" if "b \<noteq> motor_behiver_4"
    using r that by (intro behiver_pos_ok) (cases b; auto)+
  have "\<exists>m'. behave b L m mode c = Inr m' \<and> same_motor m m'"
  proof (cases b)
    case motor_behiver_1
    obtain a where a: "motor_behiver_pos L m c = Inr a" "same_motor m a" using after motor_behiver_1 by auto
    have "\<exists>m'. cbind (motor_behiver_speed L x c) (\<lambda>m. motor_behiver_torque L m c) = Inr m' \<and> same_motor m m'" if "same_motor m x" for x
      using speed_torque_ok [of x L c] r that motor_behiver_1 same_motor_trans by (fastforce simp: same_motor_def)
    from this [OF a(2)] this [of m] show ?thesis
      using r a motor_behiver_1 behiver_torque_ok [of m L c] by (auto simp: behiver_none_def)
  next
    case motor_behiver_2
    obtain a where a: "motor_behiver_pos L m c = Inr a" "same_motor m a" using after motor_behiver_2 by auto
    have "\<exists>m'. cbind (motor_behiver_speed L x c) (\<lambda>m. Inr (m\<lparr>acc_out := tar_torque m\<rparr>)) = Inr m' \<and> same_motor m m'" if "same_motor m x" for x
      using behiver_speed_ok [of x L c] r that motor_behiver_2 same_motor_trans by (fastforce simp: same_motor_def)
    from this [OF a(2)] this [of m] show ?thesis
      using r a motor_behiver_2 by (auto simp: behiver_takes_torque_def)
  next
    case motor_behiver_3
    obtain a where a: "motor_behiver_pos L m c = Inr a" "same_motor m a" using after motor_behiver_3 by auto
    have "same_motor m (a\<lparr>acc_out := tar_speed a\<rparr>)" using a(2) by (simp add: same_motor_def)
    then show ?thesis using a motor_behiver_3 by (simp add: behiver_takes_speed_def)
  next
    case motor_behiver_4
    then show ?thesis by (simp add: behiver_takes_pos_def)
  qed
  then show ?thesis using that by blast
qed

section \<open>Set-up\<close>

text \<open>What \<^verbatim>\<open>motor_init\<close> expects of a motor in the list: its operations, and the controllers its level uses or the memory for them.\<close>

definition configured :: "'p apid \<Rightarrow> ('d \<Rightarrow> 'w \<Rightarrow> bool) \<Rightarrow> 'w \<Rightarrow> ('p, 'd) motor \<Rightarrow> bool" where
  "configured L okd w m \<longleftrightarrow> ops_ok okd w (ops m) \<and>
     (flag_accept_level m = 1 \<longrightarrow> pid_speed m \<noteq> None \<and> pid_pos m \<noteq> None) \<and>
     (flag_accept_level m = 0 \<or> flag_accept_level m = 2 \<longrightarrow> APID_alloc L \<noteq> None)"

definition set_up :: "('d \<Rightarrow> 'w \<Rightarrow> bool) \<Rightarrow> 'w \<Rightarrow> nat \<Rightarrow> ('p, 'd) motor \<Rightarrow> bool" where
  "set_up okd w k m \<longleftrightarrow> ops_ok okd w (ops m) \<and> id_of m = int k \<and> time m = 0 \<and> flag_run_mode m = 0 \<and>
     flag_out_mode m = flag_accept_level m \<and>
     behaver m = Some (level_behiver (unat (flag_accept_level m))) \<and> pids_for (level_behiver (unat (flag_accept_level m))) m"

lemma set_up_ready: "set_up okd w k m \<Longrightarrow> ratio_pos m \<noteq> 0 \<Longrightarrow> ratio_speed m \<noteq> 0 \<Longrightarrow> motor_ready okd w k m"
  by (simp add: set_up_def motor_ready_def)

lemma two_bits: "x = 0 \<or> x = 1 \<or> x = 2 \<or> x = 3" for x :: "2 word"
proof -
  have "unat x < 4" by (rule order_less_le_trans [OF unsigned_less]) simp
  then have "unat x = 0 \<or> unat x = 1 \<or> unat x = 2 \<or> unat x = 3" by linarith
  then show ?thesis by (auto simp: word_unat_eq_iff)
qed

lemma updata_cfg_ok:
  fixes s :: "('p, 'd, 'w) robot"
  assumes "k < length (motor_list s)" "motor_list s ! k = m" "configured L okd w m" "id_of m = int k" "time m = 0" "flag_run_mode m = 0"
  obtains m' where "motor_updata_cfg L s (int k) (uint (flag_accept_level m)) = Inr (put k m' s)" "set_up okd w k m'"
    "flag_accept_level m' = flag_accept_level m"
proof -
  consider "flag_accept_level m = 0" | "flag_accept_level m = 1" | "flag_accept_level m = 2" | "flag_accept_level m = 3"
    using two_bits by blast
  then show ?thesis
  proof cases
    case 1
    then obtain p where "APID_alloc L = Some p" using assms(3) by (auto simp: configured_def)
    then show ?thesis using assms 1
      by (intro that [of "m\<lparr>behaver := Some motor_behiver_1, flag_out_mode := 0, pid_torque := Some (APID_Init L p), pid_speed := Some (APID_Init L p), pid_pos := Some (APID_Init L p)\<rparr>"])
        (simp_all add: motor_updata_cfg_def on_motor_def pid_ready_def set_up_def configured_def level_behiver_def Let_def)
  next
    case 2
    then obtain p q where "pid_speed m = Some p" "pid_pos m = Some q" using assms(3) by (auto simp: configured_def)
    then show ?thesis using assms 2
      by (intro that [of "m\<lparr>behaver := Some motor_behiver_2, flag_out_mode := 1, pid_speed := Some (APID_Init L p), pid_pos := Some (APID_Init L q)\<rparr>"])
        (simp_all add: motor_updata_cfg_def on_motor_def pid_ready_def set_up_def configured_def level_behiver_def Let_def)
  next
    case 3
    then obtain p where "APID_alloc L = Some p" using assms(3) by (auto simp: configured_def)
    then show ?thesis using assms 3
      by (intro that [of "m\<lparr>behaver := Some motor_behiver_3, flag_out_mode := 2, pid_pos := Some (APID_Init L p)\<rparr>"])
        (simp_all add: motor_updata_cfg_def on_motor_def pid_ready_def set_up_def configured_def level_behiver_def Let_def)
  next
    case 4
    then show ?thesis using assms
      by (intro that [of "m\<lparr>behaver := Some motor_behiver_4, flag_out_mode := 3\<rparr>"])
        (simp_all add: motor_updata_cfg_def on_motor_def pid_ready_def set_up_def configured_def level_behiver_def Let_def)
  qed
qed

lemma put_put [simp]: "put k m (put k m' s) = put k m s"
  by (simp add: put_def)

lemma put_other [simp]: "k \<noteq> j \<Longrightarrow> motor_list (put k m s) ! j = motor_list s ! j"
  by (simp add: put_def)

lemma init_loop_ok:
  fixes s :: "('p, 'd, 'w) robot"
  assumes "k + n \<le> length (motor_list s)" "\<And>j. k \<le> j \<Longrightarrow> j < k + n \<Longrightarrow> configured L okd w (motor_list s ! j)"
  shows "\<exists>s'. init_loop L k n s = Inr s' \<and> length (motor_list s') = length (motor_list s) \<and> dev s' = dev s \<and> is_init s' = is_init s \<and>
    (\<forall>j < length (motor_list s). if k \<le> j \<and> j < k + n
       then set_up okd w j (motor_list s' ! j) \<and> flag_accept_level (motor_list s' ! j) = flag_accept_level (motor_list s ! j)
       else motor_list s' ! j = motor_list s ! j)"
  using assms
proof (induction n arbitrary: k s)
  case (Suc n)
  let ?m = "(motor_list s ! k)\<lparr>id_of := int k, time := 0, flag_run_mode := 0, flag_out_mode := 0\<rparr>"
  have k: "k < length (motor_list s)" using Suc.prems(1) by simp
  have "configured L okd w ?m" using Suc.prems(2) [of k] by (simp add: configured_def)
  then obtain m' where m': "motor_updata_cfg L (put k ?m s) (int k) (uint (flag_accept_level ?m)) = Inr (put k m' (put k ?m s))"
    "set_up okd w k m'" "flag_accept_level m' = flag_accept_level ?m"
    using updata_cfg_ok [of k "put k ?m s" ?m L okd w] k by auto
  let ?s = "put k m' s"
  have "configured L okd w (motor_list ?s ! j)" if "Suc k \<le> j" "j < Suc k + n" for j
    using that Suc.prems(2) [of j] by simp
  then obtain s' where s': "init_loop L (Suc k) n ?s = Inr s'" "length (motor_list s') = length (motor_list s)" "dev s' = dev s" "is_init s' = is_init s"
    "\<forall>j < length (motor_list s). if Suc k \<le> j \<and> j < Suc k + n
       then set_up okd w j (motor_list s' ! j) \<and> flag_accept_level (motor_list s' ! j) = flag_accept_level (motor_list ?s ! j)
       else motor_list s' ! j = motor_list ?s ! j"
    using Suc.IH [of "Suc k" ?s] Suc.prems(1) by auto
  have "init_loop L k (Suc n) s = Inr s'" using m'(1) s'(1) by (simp add: Let_def)
  moreover have "if k \<le> j \<and> j < k + Suc n
       then set_up okd w j (motor_list s' ! j) \<and> flag_accept_level (motor_list s' ! j) = flag_accept_level (motor_list s ! j)
       else motor_list s' ! j = motor_list s ! j" if "j < length (motor_list s)" for j
  proof (cases "j = k")
    case True
    then have "motor_list s' ! j = m'" using s'(5) k by auto
    then show ?thesis using True m'(2,3) by simp
  next
    case False
    then have "motor_list ?s ! j = motor_list s ! j" by simp
    then show ?thesis using s'(5) that False by (simp split: if_splits)
  qed
  ultimately show ?case using s'(2-4) by blast
qed auto

section \<open>The handler over any drivers\<close>

text \<open>
  The contract of the drivers: for a motor of theirs they change nothing but the devices, keep what
  they rely on (\<open>okd\<close>), always return from a query of torque, speed or position, and at worst fail to
  cast the value they are given to an integer.
\<close>

locale motor_backend =
  fixes D :: "('p, 'd, 'w) drivers" and okd :: "'d \<Rightarrow> 'w \<Rightarrow> bool"
  assumes drive_ok: "k < length (motor_list s) \<Longrightarrow> ops (motor_list s ! k) = Some d \<Longrightarrow> okd (driver d) (dev s) \<Longrightarrow>
      drive D (driver d) (int k) mode v s = Inl BadCast \<or>
      (\<exists>w. drive D (driver d) (int k) mode v s = Inr (s\<lparr>dev := w\<rparr>) \<and> (\<forall>e. okd e (dev s) \<longrightarrow> okd e w))"
    and control_ok: "k < length (motor_list s) \<Longrightarrow> ops (motor_list s ! k) = Some d \<Longrightarrow> okd (driver d) (dev s) \<Longrightarrow>
      mode = 1 \<or> mode = 2 \<or> mode = 3 \<Longrightarrow>
      \<exists>u w. control D (driver d) (int k) mode v s = Inr (u, s\<lparr>dev := w\<rparr>) \<and> (\<forall>e. okd e (dev s) \<longrightarrow> okd e w)"
begin

lemma read_value_ready:
  assumes "ready okd s" "k < length (motor_list s)" "mode = 1 \<or> mode = 2 \<or> mode = 3" "\<And>v m. same_motor m (upd v m)"
  obtains s' where "read_value D k mode field upd s = Inr s'" "ready okd s'" "length (motor_list s') = length (motor_list s)"
    "time (motor_list s' ! k) = time (motor_list s ! k)" "is_init s' = is_init s"
proof -
  let ?m = "motor_list s ! k"
  have r: "motor_ready okd (dev s) k ?m" using assms by (simp add: readyD)
  then obtain d where d: "ops ?m = Some d" "okd (driver d) (dev s)" "id_of ?m = int k" by (auto simp: motor_ready_def ops_ok_def)
  obtain u w where c: "control D (driver d) (int k) mode (field ?m) s = Inr (u, s\<lparr>dev := w\<rparr>)" "\<And>e. okd e (dev s) \<Longrightarrow> okd e w"
    using control_ok [OF assms(2) d(1,2) assms(3)] by blast
  have rw: "ready okd (s\<lparr>dev := w\<rparr>)" using assms(1) c(2) by (rule ready_dev)
  have "motor_ready okd (dev (s\<lparr>dev := w\<rparr>)) k (upd u ?m)"
    using same_motor_ready [OF assms(4)] readyD [OF rw, of k] assms(2) by simp
  then have "ready okd (put k (upd u ?m) (s\<lparr>dev := w\<rparr>))" using rw by (intro ready_put)
  moreover have "read_value D k mode field upd s = Inr (put k (upd u ?m) (s\<lparr>dev := w\<rparr>))"
    using d c(1) by (simp add: read_value_def Let_def)
  ultimately show ?thesis using that assms(2,4) by (simp add: same_motor_def)
qed

lemma read_feedback_ready:
  assumes "ready okd s" "k < length (motor_list s)"
  obtains s' where "read_feedback D k s = Inr s'" "ready okd s'" "length (motor_list s') = length (motor_list s)"
    "time (motor_list s' ! k) = time (motor_list s ! k)" "is_init s' = is_init s"
proof -
  have ratios: "ratio_pos (motor_list t ! k) \<noteq> 0" "ratio_speed (motor_list t ! k) \<noteq> 0"
    if "ready okd t" "length (motor_list t) = length (motor_list s)" for t
    using readyD [OF that(1), of k] that(2) assms(2) by (simp_all add: motor_ready_def)
  obtain a where a: "read_value D k 1 cur_torque (\<lambda>v m. m\<lparr>cur_torque := v\<rparr>) s = Inr a" "ready okd a" "length (motor_list a) = length (motor_list s)"
    "time (motor_list a ! k) = time (motor_list s ! k)" "is_init a = is_init s"
    by (rule read_value_ready [OF assms, of 1 "\<lambda>v m. m\<lparr>cur_torque := v\<rparr>" cur_torque]) (simp_all add: same_motor_def)
  obtain a' where a': "read_value D k 2 cur_speed (\<lambda>v m. m\<lparr>cur_speed := v\<rparr>) a = Inr a'" "ready okd a'" "length (motor_list a') = length (motor_list a)"
    "time (motor_list a' ! k) = time (motor_list a ! k)" "is_init a' = is_init a"
    by (rule read_value_ready [OF a(2), of k 2 "\<lambda>v m. m\<lparr>cur_speed := v\<rparr>" cur_speed]) (simp_all add: same_motor_def a(3) assms(2))
  obtain b where b: "(if time (motor_list a ! k) mod uint (ratio_speed (motor_list a ! k)) = 0
      then read_value D k 2 cur_speed (\<lambda>v m. m\<lparr>cur_speed := v\<rparr>) a else Inr a) = Inr b" "ready okd b" "length (motor_list b) = length (motor_list s)"
    "time (motor_list b ! k) = time (motor_list s ! k)" "is_init b = is_init s"
    using a a' that by (cases "time (motor_list a ! k) mod uint (ratio_speed (motor_list a ! k)) = 0") auto
  obtain b' where b': "read_value D k 3 cur_pos (\<lambda>v m. m\<lparr>cur_pos := v\<rparr>) b = Inr b'" "ready okd b'" "length (motor_list b') = length (motor_list b)"
    "time (motor_list b' ! k) = time (motor_list b ! k)" "is_init b' = is_init b"
    by (rule read_value_ready [OF b(2), of k 3 "\<lambda>v m. m\<lparr>cur_pos := v\<rparr>" cur_pos]) (simp_all add: same_motor_def b(3) assms(2))
  show ?thesis
  proof (cases "time (motor_list b ! k) mod uint (ratio_pos (motor_list b ! k)) = 0")
    case True
    then show ?thesis using a(1) b b' ratios [OF a(2,3)] ratios [OF b(2,3)] that [of b'] by (simp add: read_feedback_def)
  next
    case False
    then show ?thesis using a(1) b ratios [OF a(2,3)] ratios [OF b(2,3)] that [of b] by (simp add: read_feedback_def)
  qed
qed

text \<open>The handler keeps motors ready; the only fault is a cast.\<close>

lemma handle_ready:
  assumes "ready okd s" "k < length (motor_list s)"
  shows "motor_handle L D expf s (int k) cycle = Inl BadCast \<or>
    (\<exists>s' t. motor_handle L D expf s (int k) cycle = Inr s' \<and> ready okd s' \<and> length (motor_list s') = length (motor_list s) \<and>
       is_init s' = is_init s \<and> add_time (time (motor_list s ! k)) cycle = Inr t \<and> time (motor_list s' ! k) = t)"
proof (cases "add_time (time (motor_list s ! k)) cycle")
  case (Inl e)
  then have "e = BadCast" unfolding add_time_def by (cases "fadd f32 (f32_int (time (motor_list s ! k))) cycle") (auto split: if_splits)
  moreover have "ops (motor_list s ! k) \<noteq> None" using readyD [OF assms] by (auto simp: motor_ready_def ops_ok_def)
  ultimately show ?thesis using Inl assms(2) by (simp add: motor_handle_def asserted_def)
next
  case (Inr t)
  let ?m = "(motor_list s ! k)\<lparr>time := t\<rparr>" let ?s = "put k ?m s"
  have r: "motor_ready okd (dev s) k (motor_list s ! k)" using readyD assms by blast
  then obtain od where od: "ops (motor_list s ! k) = Some od" by (auto simp: motor_ready_def ops_ok_def)
  have "motor_ready okd (dev s) k ?m" using r by (rule motor_ready_cong) (simp_all add: motor_ready_ops [OF r] cong: pids_for_cong)
  then have rs: "ready okd ?s" using assms(1) by (rule ready_put [rotated])
  obtain a where a: "(if flag_passive_feedback ?m then Inr ?s else read_feedback D k ?s) = Inr a" "ready okd a"
    "length (motor_list a) = length (motor_list s)" "time (motor_list a ! k) = t" "is_init a = is_init s"
    by (cases "flag_passive_feedback ?m") (use rs assms(2) in \<open>auto intro: read_feedback_ready [OF rs, of k]\<close>)
  let ?ma = "motor_list a ! k"
  have ra: "motor_ready okd (dev a) k ?ma" using readyD [OF a(2)] a(3) assms(2) by simp
  obtain m' where m': "(if flag_is_stop ?ma then Inr (?ma\<lparr>acc_out := Fin 0\<rparr>)
      else cbind (follow_curve expf ?ma) (\<lambda>m. case behaver m of None \<Rightarrow> Inl NullCall
                  | Some b \<Rightarrow> behave b L m (ucast (flag_run_mode m)) cycle)) = Inr m'" "motor_ready okd (dev a) k m'" "time m' = t"
  proof (cases "flag_is_stop ?ma")
    case True
    then show ?thesis using that [of "?ma\<lparr>acc_out := Fin 0\<rparr>"] same_motor_ready [OF same_motor_out(1) ra] a(4) by simp
  next
    case False
    obtain f where f: "follow_curve expf ?ma = Inr f" "motor_ready okd (dev a) k f" "time f = time ?ma"
      by (rule follow_curve_ready [OF ra])
    then obtain b where b: "behaver f = Some b" by (auto simp: motor_ready_def)
    obtain g where g: "behave b L f (ucast (flag_run_mode f)) cycle = Inr g" "same_motor f g" by (rule behave_ok [OF f(2) b])
    then show ?thesis using that [of g] False f b same_motor_ready [OF g(2) f(2)] a(4) by (simp add: same_motor_def)
  qed
  let ?a = "put k m' a"
  have ka: "k < length (motor_list ?a)" using a(3) assms(2) by simp
  have rp: "ready okd ?a" using a(2) m'(2) by (rule ready_put)
  obtain d where d: "ops m' = Some d" "okd (driver d) (dev ?a)" using m'(2) by (auto simp: motor_ready_def ops_ok_def)
  have eq: "motor_handle L D expf s (int k) cycle = drive D (driver d) (int k) (ucast (flag_out_mode m')) (acc_out m') ?a"
    using od Inr a(1) m'(1) d(1) assms(2) by (simp add: motor_handle_def asserted_def Let_def)
  have "ops (motor_list ?a ! k) = Some d" using d(1) ka by simp
  from drive_ok [OF ka this d(2), of "ucast (flag_out_mode m')" "acc_out m'"]
  consider "motor_handle L D expf s (int k) cycle = Inl BadCast"
    | w where "motor_handle L D expf s (int k) cycle = Inr (?a\<lparr>dev := w\<rparr>)" "\<forall>e. okd e (dev ?a) \<longrightarrow> okd e w"
    unfolding eq by blast
  then show ?thesis
  proof cases
    case 2
    have "ready okd (?a\<lparr>dev := w\<rparr>)" using 2(2) by (intro ready_dev [where okd = okd and okd' = okd, OF rp]) auto
    then show ?thesis using 2(1) Inr a(3,5) m'(3) ka by (intro disjI2 exI [of _ "?a\<lparr>dev := w\<rparr>"] exI [of _ t]) simp
  qed simp
qed

end

section \<open>The tick counter\<close>

text \<open>The counter is exact up to \<open>2 ^ 24\<close>, where adding one no longer changes the float.\<close>

lemma add_time_one:
  assumes "0 \<le> t" "t \<le> 2 ^ 24"
  shows "add_time t (Fin 1) = Inr (min (t + 1) (2 ^ 24))"
proof -
  have top: "rnd 24 (- 126) (of_int 16777217) = 16777216"
  proof -
    have "expo (16777217 :: real) = 24" by (rule expo_unique) (simp_all add: power_int_def)
    then have "spacing 24 (- 126) 16777217 = 2" by (simp add: spacing_def)
    moreover have "nearest (16777217 / 2) = 8388608" by (simp add: nearest_def Let_def)
    ultimately show ?thesis by (simp add: rnd_def)
  qed
  have pow: "rnd 24 (- 126) (of_int (2 ^ 24)) = of_int (2 ^ 24)"
    using rnd_exact [of 1 24 "- 126" 24] by (simp add: power_int_def)
  consider "t < 2 ^ 24 - 1" | "t = 2 ^ 24 - 1" | "t = 2 ^ 24" using assms(2) by linarith
  then show ?thesis
  proof cases
    case 1
    have "\<bar>t\<bar> < 2 ^ 24" "\<bar>t + 1\<bar> < 2 ^ 24" using 1 assms(1) by simp_all
    then have "f32 (of_int t) = Fin (of_int t)" "f32 (real_of_int t + 1) = Fin (real_of_int t + 1)"
      using f32_of_int [of "t + 1"] by simp_all
    moreover have "trunc (real_of_int t + 1) = t + 1" using trunc_of_int [of "t + 1"] by simp
    ultimately show ?thesis using 1 assms(1) by (simp add: add_time_def f32_int_def)
  next
    case 2
    have "f32 (of_int t) = Fin (of_int t)" using 2 by (intro f32_of_int) simp
    moreover have "f32 16777216 = Fin 16777216" using pow by (simp add: f32_def Let_def)
    moreover have "trunc 16777216 = 16777216" using trunc_of_int [of 16777216] by simp
    ultimately show ?thesis using 2 by (simp add: add_time_def f32_int_def)
  next
    case 3
    have "f32 16777216 = Fin 16777216" using pow by (simp add: f32_def Let_def)
    moreover have "f32 16777217 = Fin 16777216" using top by (simp add: f32_def Let_def)
    moreover have "trunc 16777216 = 16777216" using trunc_of_int [of 16777216] by simp
    ultimately show ?thesis using 3 by (simp add: add_time_def f32_int_def)
  qed
qed

section \<open>Properties\<close>

text \<open>
  C4: after \<^verbatim>\<open>motor_init\<close> on a configured list every motor has the behaviour, the output mode and the
  controllers of its level, and that behaviour is, in every run mode and for all values, the
  cascade of its level: the controllers from the mode's quantity down to the accepted one, then the
  target of the innermost quantity of the two. The driver is told the level, not this quantity.
\<close>
theorem motor_modes_cascade:
  assumes "\<not> is_init s" "\<And>k. k < length (motor_list s) \<Longrightarrow> configured L okd (dev s) (motor_list s ! k)"
  shows "\<exists>s'. motor_init L s = Inr s' \<and> is_init s' \<and> length (motor_list s') = length (motor_list s) \<and>
    (\<forall>k < length (motor_list s). \<exists>b. behaver (motor_list s' ! k) = Some b \<and> pids_for b (motor_list s' ! k) \<and>
       flag_out_mode (motor_list s' ! k) = flag_accept_level (motor_list s ! k) \<and>
       (\<forall>m mode cycle. mode < 4 \<longrightarrow>
          behave b L m (of_nat mode) cycle = cascade L (unat (flag_accept_level (motor_list s ! k))) mode m cycle))"
proof -
  let ?n = "length (motor_list s)"
  have "\<exists>s'. init_loop L 0 ?n (s\<lparr>is_init := True\<rparr>) = Inr s' \<and> length (motor_list s') = ?n \<and> dev s' = dev s \<and> is_init s' \<and>
    (\<forall>j < ?n. if 0 \<le> j \<and> j < 0 + ?n
       then set_up okd (dev s) j (motor_list s' ! j) \<and> flag_accept_level (motor_list s' ! j) = flag_accept_level (motor_list s ! j)
       else motor_list s' ! j = motor_list s ! j)"
    using init_loop_ok [of 0 ?n "s\<lparr>is_init := True\<rparr>" L okd "dev s"] assms(2) by simp
  then obtain s' where s': "motor_init L s = Inr s'" "is_init s'" "length (motor_list s') = ?n"
    "\<And>k. k < ?n \<Longrightarrow> set_up okd (dev s) k (motor_list s' ! k) \<and> flag_accept_level (motor_list s' ! k) = flag_accept_level (motor_list s ! k)"
    using assms(1) by (auto simp: motor_init_def)
  have "\<exists>b. behaver (motor_list s' ! k) = Some b \<and> pids_for b (motor_list s' ! k) \<and>
       flag_out_mode (motor_list s' ! k) = flag_accept_level (motor_list s ! k) \<and>
       (\<forall>m mode cycle. mode < 4 \<longrightarrow>
          behave b L m (of_nat mode) cycle = cascade L (unat (flag_accept_level (motor_list s ! k))) mode m cycle)"
    if "k < ?n" for k
  proof -
    let ?v = "unat (flag_accept_level (motor_list s ! k))"
    have "?v < 4" by (rule order_less_le_trans [OF unsigned_less]) simp
    then show ?thesis using conjunct1 [OF s'(4) [OF that]] conjunct2 [OF s'(4) [OF that]] by (intro exI [of _ "level_behiver ?v"]) (simp add: set_up_def behave_cascade)
  qed
  then show ?thesis using s'(1-3) by blast
qed

text \<open>An instance for the witnesses: a library whose controller is its output, and a list of two motors.\<close>

definition plain_pid :: "fl apid" where
  "plain_pid = \<lparr>APID_Set_Target = (\<lambda>p t. t), APID_Set_Present = (\<lambda>p x. p), APID_Hander = (\<lambda>p c. p),
     APID_Get_Out = (\<lambda>p. p), APID_Init = (\<lambda>p. p), APID_alloc = Some (Fin 0)\<rparr>"

definition blank_motor :: "'d \<Rightarrow> 2 word \<Rightarrow> fl option \<Rightarrow> (fl, 'd) motor" where
  "blank_motor d level p = \<lparr>ops = Some \<lparr>driver = d, curve = None\<rparr>, id_of = 0, time = 0, ratio_pos = 0, ratio_speed = 0,
     pid_speed = p, pid_pos = p, pid_torque = None, tar_speed = Fin 0, tar_pos = Fin 0, tar_torque = Fin 0,
     cur_speed = Fin 0, cur_pos = Fin 0, cur_torque = Fin 0, flag_run_mode = 0, flag_out_mode = 0, flag_accept_level = level,
     flag_passive_feedback = False, flag_is_stop = False, behaver = None, acc_out = Fin 0, ratio = Fin 0\<rparr>"

definition two_motors :: "(fl, nat, unit) robot" where
  "two_motors = \<lparr>motor_list = [blank_motor 0 1 (Some (Fin 0)), blank_motor 1 3 None], is_init = False, dev = ()\<rparr>"

theorem motor_modes_cascade_witness:
  "\<exists>s'. motor_init plain_pid two_motors = Inr s' \<and> length (motor_list s') = 2 \<and>
     (\<exists>b. behaver (motor_list s' ! 0) = Some b \<and>
        behave b plain_pid (blank_motor (0 :: nat) 1 (Some (Fin 0))) 1 (Fin 1) = cascade plain_pid 1 1 (blank_motor (0 :: nat) 1 (Some (Fin 0))) (Fin 1))"
proof -
  have n: "length (motor_list two_motors) = 2" by (simp add: two_motors_def)
  have ok: "configured plain_pid (\<lambda>d w. True) (dev two_motors) (motor_list two_motors ! k)" if "k < 2" for k
    using that by (cases k) (auto simp: two_motors_def configured_def ops_ok_def blank_motor_def plain_pid_def less_Suc_eq numeral_2_eq_2)
  have level: "\<not> is_init two_motors" "flag_accept_level (motor_list two_motors ! 0) = 1" by (simp_all add: two_motors_def blank_motor_def)
  from motor_modes_cascade [OF level(1), of plain_pid "\<lambda>d w. True", unfolded n, OF ok]
  obtain s' where s': "motor_init plain_pid two_motors = Inr s'" "length (motor_list s') = 2"
    and all: "\<And>k. k < 2 \<Longrightarrow> \<exists>b. behaver (motor_list s' ! k) = Some b \<and>
       (\<forall>(m :: (fl, nat) motor) mode cycle. mode < 4 \<longrightarrow> behave b plain_pid m (of_nat mode) cycle =
          cascade plain_pid (unat (flag_accept_level (motor_list two_motors ! k))) mode m cycle)" by blast
  from all [of 0] obtain b where b: "behaver (motor_list s' ! 0) = Some b"
    and c: "\<forall>(m :: (fl, nat) motor) mode cycle. mode < 4 \<longrightarrow> behave b plain_pid m (of_nat mode) cycle =
      cascade plain_pid (unat (flag_accept_level (motor_list two_motors ! 0))) mode m cycle" by auto
  show ?thesis using s' b c [rule_format, of 1 "blank_motor (0 :: nat) 1 (Some (Fin 0))" "Fin 1"]
    by (intro exI [of _ s']) (simp add: level)
qed

end
