(* ===== verification/MotorDJ.thy ===== *)
theory MotorDJ
  imports RingBuffer Motor
begin

text \<open>
  The CAN motor driver of \<^verbatim>\<open>motor_dj_rm_driver.c\<close>: the receive callback that turns a motor's frames into
  an unwrapped angle and feedback values, the driver that sends the torque of four motors in one frame,
  the thread that runs the handler of \<^theory_text>\<open>Motor\<close> once per received frame, and the driver entry points of
  \<^verbatim>\<open>motor_emm_v5_driver.c\<close>. The motors the preprocessor selects are a parameter of the driver; the
  configuration of \<^verbatim>\<open>motor_cfg.h\<close>, one M3508 with CAN id 0x201 and one stepper motor, is \<open>built_cfg\<close>.
\<close>

section \<open>Data\<close>

record motor_measure =
  mm_id :: u8
  can_id :: u16
  angle :: u16
  msg_cnt :: u8
  last_angle :: u16
  offset_angle :: u16
  round_cnt :: int
  total_angle :: int

text \<open>
  The devices: the table of motors, the currents of the two groups of motors, the frames sent, the
  results of the next writes (after the last one every write succeeds), and the ring buffer of motor numbers.
\<close>

record can =
  dj_motors :: "motor_measure list"
  iq1_low :: "u16 list"
  iq1_high :: "u16 list"
  can_sent :: "(int \<times> u8 list) list"
  write_ok :: "bool list"
  dj_m_ringfifo :: rt_ringbuffer

text \<open>A motor's driver and its private data, an entry of \<open>dj_motors\<close>.\<close>

datatype motor_dev = Dj nat | Emm nat

fun user_data :: "motor_dev \<Rightarrow> nat" where
  "user_data (Dj n) = n"
| "user_data (Emm n) = n"

type_synonym 'p bot = "('p, motor_dev, can) robot"

abbreviation (input) "CAN_Motor1_ID \<equiv> 0x201 :: int"
abbreviation (input) "CAN_Motor_ALL_ID \<equiv> 0x200 :: int"
abbreviation (input) "CAN_Motor_ALL_ID2 \<equiv> 0x1FF :: int"

section \<open>Receiving\<close>

text \<open>
  The binary search, with its 8 bit indices; a search that is still running when the fuel is used up never ends
  (an iteration that neither returns nor leaves the table narrows the interval, unless an index wraps).
\<close>

fun canid_loop :: "nat \<Rightarrow> motor_measure list \<Rightarrow> u16 \<Rightarrow> u8 \<Rightarrow> u8 \<Rightarrow> nat option cres" where
  "canid_loop 0 ms i left right = Inl Stuck"
| "canid_loop (Suc fuel) ms i left right =
     (if left \<le> right then
        let mid = of_nat ((unat left + unat right) div 2) :: u8 in
        cbind (rd ms (unat mid)) (\<lambda>m.
        if can_id m = i then Inr (Some (unat mid))
        else if can_id m < i then canid_loop fuel ms i (mid + 1) right
        else canid_loop fuel ms i left (mid - 1))
      else Inr None)"

definition motor_get_by_canid :: "motor_measure list \<Rightarrow> u16 \<Rightarrow> nat option cres" where
  "motor_get_by_canid ms i = canid_loop 512 ms i 0 (of_nat (length ms) - 1)"

definition dj_motor_BackToZero :: "motor_measure \<Rightarrow> motor_measure" where
  "dj_motor_BackToZero m = m\<lparr>offset_angle := angle m, round_cnt := 0\<rparr>"

text \<open>The new measurement for the angle \<open>a\<close> of a frame: the first fifty frames calibrate, then turns are counted.\<close>

definition measure_angle :: "motor_measure \<Rightarrow> u16 \<Rightarrow> motor_measure cres" where
  "measure_angle m a =
     (if msg_cnt m < 50 then Inr (m\<lparr>msg_cnt := msg_cnt m + 1, angle := a, offset_angle := a\<rparr>)
      else
        let m = m\<lparr>last_angle := angle m\<rparr>; m = m\<lparr>angle := a\<rparr>; d = uint (angle m) - uint (last_angle m) in
        cbind (if d > 4096 then chk32 (round_cnt m - 1) else if d < - 4096 then chk32 (round_cnt m + 1) else Inr (round_cnt m)) (\<lambda>r.
        let m = m\<lparr>round_cnt := r, msg_cnt := 0xff\<rparr> in
        cbind (chk32 (round_cnt m * 8191)) (\<lambda>x.
        cbind (chk32 (x + uint (angle m))) (\<lambda>x.
        cbind (chk32 (x - uint (offset_angle m))) (\<lambda>x.
        Inr (m\<lparr>total_angle := x\<rparr>))))))"

abbreviation (input) "PI_2 \<equiv> f32 (628318530719 / 100000000000)"

definition ind_dj_can_motor_callback :: "'p bot \<Rightarrow> u32 \<Rightarrow> u8 list \<Rightarrow> 'p bot cres" where
  "ind_dj_can_motor_callback s rx_id data =
     cbind (motor_get_by_canid (dj_motors (dev s)) (ucast rx_id)) (\<lambda>p. case p of None \<Rightarrow> Inl NullDeref | Some n \<Rightarrow>
     cbind (rd data 0) (\<lambda>d0. cbind (rd data 1) (\<lambda>d1. cbind (rd data 2) (\<lambda>d2. cbind (rd data 3) (\<lambda>d3.
     cbind (rd data 4) (\<lambda>d4. cbind (rd data 5) (\<lambda>d5.
     cbind (measure_angle (dj_motors (dev s) ! n) (mk16 d0 d1)) (\<lambda>m.
     let s = s\<lparr>dev := (dev s)\<lparr>dj_motors := (dj_motors (dev s))[n := m]\<rparr>\<rparr>; i = uint (mm_id m) in
     cbind (motor_feedback_speed s i (f32_int (sint (mk16 d2 d3)))) (\<lambda>s.
     cbind (motor_feedback_torque s i (f32_int (sint (mk16 d4 d5)))) (\<lambda>s.
     cbind (motor_feedback_pos s i (fdiv f32 (fmul f32 (f32_int (total_angle m)) PI_2) (Fin 8192))) (\<lambda>s.
     cbind (rt_ringbuffer_putchar_force (dj_m_ringfifo (dev s)) (of_int i)) (\<lambda>(n, rb).
     Inr (s\<lparr>dev := (dev s)\<lparr>dj_m_ringfifo := rb\<rparr>\<rparr>)))))))))))))"

section \<open>Driving\<close>

text \<open>Sending one frame; the result of the write.\<close>

definition can_write :: "can \<Rightarrow> int \<Rightarrow> u8 list \<Rightarrow> bool \<times> can" where
  "can_write c i data =
     (case write_ok c of
        [] \<Rightarrow> (True, c\<lparr>can_sent := can_sent c @ [(i, data)]\<rparr>)
      | ok # oks \<Rightarrow> (ok, c\<lparr>write_ok := oks, can_sent := if ok then can_sent c @ [(i, data)] else can_sent c\<rparr>))"

definition current_bytes :: "u16 list \<Rightarrow> u8 list" where
  "current_bytes iq = concat (map (\<lambda>v. [hi8 v, lo8 v]) (take 4 iq))"

text \<open>The index \<^verbatim>\<open>(uint16_t)((can_id - CAN_Motor1_ID) % 4)\<close>, with the sign of C's remainder.\<close>

definition iq_index :: "int \<Rightarrow> nat" where
  "iq_index r = (if 0 \<le> r then nat (r mod 4) else nat ((- ((- r) mod 4)) mod 65536))"

text \<open>
  The motors whose counters the driver waits for, as positions in the table: the high group, the
  low group without the first M2006 motor on CAN 1, and that motor, which the code joins with \<^verbatim>\<open>||\<close>.
\<close>

record dj_cfg =
  high_all :: "nat list"
  low_first :: "nat option"
  low_rest :: "nat list"

definition built_cfg :: dj_cfg where
  "built_cfg = \<lparr>high_all = [], low_first = None, low_rest = [0]\<rparr>"

fun all_fresh :: "motor_measure list \<Rightarrow> nat list \<Rightarrow> bool cres" where
  "all_fresh ms [] = Inr True"
| "all_fresh ms (n # ns) = cbind (rd ms n) (\<lambda>m. if msg_cnt m = 0xff then all_fresh ms ns else Inr False)"

definition high_fresh :: "dj_cfg \<Rightarrow> motor_measure list \<Rightarrow> bool cres" where
  "high_fresh cfg ms = all_fresh ms (high_all cfg)"

definition low_fresh :: "dj_cfg \<Rightarrow> motor_measure list \<Rightarrow> bool cres" where
  "low_fresh cfg ms =
     (case low_first cfg of None \<Rightarrow> all_fresh ms (low_rest cfg)
      | Some n \<Rightarrow> cbind (rd ms n) (\<lambda>m. if msg_cnt m = 0xff then Inr True else all_fresh ms (low_rest cfg)))"

definition send_high :: "dj_cfg \<Rightarrow> can \<Rightarrow> nat \<Rightarrow> u16 \<Rightarrow> can cres" where
  "send_high cfg c tt tmpout =
     cbind (wr (iq1_high c) tt tmpout) (\<lambda>iq.
     let c = c\<lparr>iq1_high := iq\<rparr> in
     cbind (high_fresh cfg (dj_motors c)) (\<lambda>b.
     Inr (if b then snd (can_write c CAN_Motor_ALL_ID2 (current_bytes iq)) else c)))"

definition send_low :: "dj_cfg \<Rightarrow> can \<Rightarrow> nat \<Rightarrow> u16 \<Rightarrow> can cres" where
  "send_low cfg c tt tmpout =
     cbind (low_fresh cfg (dj_motors c)) (\<lambda>b.
     if b then
       cbind (wr (iq1_low c) tt tmpout) (\<lambda>iq.
       let c = c\<lparr>iq1_low := iq\<rparr>; (ok, c) = can_write c CAN_Motor_ALL_ID (current_bytes iq) in
       Inr (if ok then c else c\<lparr>dj_motors := map (\<lambda>m. m\<lparr>msg_cnt := 50\<rparr>) (dj_motors c)\<rparr>))
     else Inr c)"

definition send_torque :: "dj_cfg \<Rightarrow> can \<Rightarrow> motor_measure \<Rightarrow> u16 \<Rightarrow> can cres" where
  "send_torque cfg c m tmpout =
     (let r = uint (can_id m) - CAN_Motor1_ID; tt = iq_index r in
      if r \<ge> 8 then Inr c else if r \<ge> 4 then send_high cfg c tt tmpout else send_low cfg c tt tmpout)"

definition motor_dj_driver :: "dj_cfg \<Rightarrow> 'p bot \<Rightarrow> int \<Rightarrow> u16 \<Rightarrow> fl \<Rightarrow> 'p bot cres" where
  "motor_dj_driver cfg s i mode v =
     on_motor s i (\<lambda>k m. case ops m of None \<Rightarrow> Inl NullDeref | Some d \<Rightarrow>
       cbind (to_int16 v) (\<lambda>tmpout.
       if mode = MOTOR_MODE_TORQUE then
         cbind (rd (dj_motors (dev s)) (user_data (driver d))) (\<lambda>mm.
         cbind (send_torque cfg (dev s) mm (of_int tmpout)) (\<lambda>c. Inr (s\<lparr>dev := c\<rparr>)))
       else Inr s))"

definition motor_dj_ctr :: "'p bot \<Rightarrow> int \<Rightarrow> u16 \<Rightarrow> fl \<Rightarrow> (fl \<times> 'p bot) cres" where
  "motor_dj_ctr s i cmd arg =
     on_motor s i (\<lambda>k m. case ops m of None \<Rightarrow> Inl NullDeref | Some d \<Rightarrow>
       if cmd = MOTOR_MODE_SAFETY_STOP then cbind (motor_stop s i) (\<lambda>s. Inr (arg, s))
       else if cmd = MOTOR_MODE_SAFETY_START then cbind (motor_start s i) (\<lambda>s. Inr (arg, s))
       else if cmd = MOTOR_MODE_TEMP then Inr (Fin 42, s)
       else Inr (arg, s))"

definition motor_emm_v5_driver :: "'p bot \<Rightarrow> int \<Rightarrow> u16 \<Rightarrow> fl \<Rightarrow> 'p bot cres" where
  "motor_emm_v5_driver s i mode v =
     on_motor s i (\<lambda>k m. case ops m of None \<Rightarrow> Inl NullDeref | Some d \<Rightarrow> cbind (to_int16 v) (\<lambda>tmpout. Inr s))"

definition motor_emm_v5_ctr :: "'p bot \<Rightarrow> int \<Rightarrow> u16 \<Rightarrow> fl \<Rightarrow> (fl \<times> 'p bot) cres" where
  "motor_emm_v5_ctr s i cmd arg =
     on_motor s i (\<lambda>k m. case ops m of None \<Rightarrow> Inl NullDeref | Some d \<Rightarrow>
       if cmd = MOTOR_MODE_TEMP then Inr (Fin 42, s) else Inr (arg, s))"

text \<open>The function pointers of the two kinds of motors.\<close>

fun drive_of :: "dj_cfg \<Rightarrow> motor_dev \<Rightarrow> int \<Rightarrow> u16 \<Rightarrow> fl \<Rightarrow> 'p bot \<Rightarrow> 'p bot cres" where
  "drive_of cfg (Dj n) i mode v s = motor_dj_driver cfg s i mode v"
| "drive_of cfg (Emm n) i mode v s = motor_emm_v5_driver s i mode v"

fun control_of :: "motor_dev \<Rightarrow> int \<Rightarrow> u16 \<Rightarrow> fl \<Rightarrow> 'p bot \<Rightarrow> (fl \<times> 'p bot) cres" where
  "control_of (Dj n) i cmd v s = motor_dj_ctr s i cmd v"
| "control_of (Emm n) i cmd v s = motor_emm_v5_ctr s i cmd v"

definition bot_drivers :: "dj_cfg \<Rightarrow> ('p, motor_dev, can) drivers" where
  "bot_drivers cfg = \<lparr>drive = drive_of cfg, control = control_of\<rparr>"

text \<open>One round of the receiving thread.\<close>

definition can_rx_step :: "dj_cfg \<Rightarrow> 'p apid \<Rightarrow> (fl \<Rightarrow> fl) \<Rightarrow> 'p bot \<Rightarrow> 'p bot cres" where
  "can_rx_step cfg L expf s =
     cbind (rt_ringbuffer_getchar (dj_m_ringfifo (dev s))) (\<lambda>(c, rb).
     let s = s\<lparr>dev := (dev s)\<lparr>dj_m_ringfifo := rb\<rparr>\<rparr> in
     case c of
       None \<Rightarrow> Inr s
     | Some i \<Rightarrow> motor_handle L (bot_drivers cfg) expf s (uint i) (Fin 1))"

section \<open>The table search\<close>

lemma mid_bounds: "l \<le> r \<Longrightarrow> r < 128 \<Longrightarrow> unat (of_nat ((l + r) div 2) :: u8) = (l + r) div 2" for l r :: nat
  by (rule unat_u8_of_nat) simp

lemma sorted_canids:
  assumes "sorted_wrt (<) (map can_id ms)" "j < length ms" "k < length ms"
  shows "can_id (ms ! j) < can_id (ms ! k) \<longleftrightarrow> j < k"
proof -
  have "can_id (ms ! a) < can_id (ms ! b)" if "a < b" "b < length ms" for a b
    using sorted_wrt_nth_less [OF assms(1) that(1)] that by simp
  then show ?thesis using assms(2,3) by (metis less_irrefl linorder_neqE_nat order_less_trans)
qed

lemma unat_u8_dec: "0 < unat x \<Longrightarrow> unat (x - 1) = unat x - 1" for x :: u8
  by (metis One_nat_def Suc_pred' of_nat_1 of_nat_diff Suc_leI unat_minus_one unat_gt_0)

text \<open>An identifier not below the first one: everything left of the interval is smaller, everything right of it larger.\<close>

lemma canid_loop_correct:
  assumes "sorted_wrt (<) (map can_id ms)" "length ms \<le> 127" "ms \<noteq> []" "can_id (ms ! 0) \<le> i"
    "unat r < length ms" "unat l \<le> length ms" "unat r + 1 - unat l < fuel"
    "\<And>j. j < unat l \<Longrightarrow> can_id (ms ! j) < i" "\<And>j. unat r < j \<Longrightarrow> j < length ms \<Longrightarrow> i < can_id (ms ! j)"
  shows "\<exists>p. canid_loop fuel ms i l r = Inr p \<and>
    (case p of None \<Rightarrow> i \<notin> set (map can_id ms) | Some k \<Rightarrow> k < length ms \<and> can_id (ms ! k) = i)"
  using assms
proof (induction fuel arbitrary: l r)
  case (Suc fuel)
  show ?case
  proof (cases "l \<le> r")
    case False
    then have "unat r < unat l" by (simp add: word_le_nat_alt)
    then have "can_id (ms ! j) \<noteq> i" if "j < length ms" for j
      using Suc.prems(8) [of j] Suc.prems(9) [of j] that by (cases "j < unat l") auto
    then have "i \<notin> set (map can_id ms)" by (metis in_set_conv_nth length_map nth_map)
    then show ?thesis using False by simp
  next
    case True
    define m where "m = (of_nat ((unat l + unat r) div 2) :: u8)"
    have le: "unat l \<le> unat r" using True by (simp add: word_le_nat_alt)
    have m: "unat m = (unat l + unat r) div 2" unfolding m_def
      using mid_bounds [OF le] Suc.prems(2,5) by simp
    have ml: "unat l \<le> unat m" "unat m \<le> unat r" "unat m < length ms" using m le Suc.prems(5) by simp_all
    consider "can_id (ms ! unat m) = i" | "can_id (ms ! unat m) < i" | "i < can_id (ms ! unat m)" by (meson linorder_cases)
    then show ?thesis
    proof cases
      case 1
      then show ?thesis using True ml(3) by (simp add: Let_def m_def [symmetric])
    next
      case 2
      have inc: "unat (m + 1) = unat m + 1" using ml(3) Suc.prems(2) by (intro unat_u8_inc) simp
      have "can_id (ms ! j) < i" if "j < unat (m + 1)" for j
        using that inc 2 sorted_canids [OF Suc.prems(1), of j "unat m"] ml(3) by (cases "j = unat m") (auto intro: order_less_trans)
      from Suc.IH [OF Suc.prems(1-5), of "m + 1", OF _ _ this Suc.prems(9)]
      have "\<exists>p. canid_loop fuel ms i (m + 1) r = Inr p \<and>
        (case p of None \<Rightarrow> i \<notin> set (map can_id ms) | Some k \<Rightarrow> k < length ms \<and> can_id (ms ! k) = i)"
        using inc ml Suc.prems(7) by simp
      then show ?thesis using True 2 ml(3) by (simp add: Let_def m_def [symmetric])
    next
      case 3
      then have "0 < unat m" using Suc.prems(4) by (cases "unat m") auto
      then have dec: "unat (m - 1) = unat m - 1" by (rule unat_u8_dec)
      have "i < can_id (ms ! j)" if "unat (m - 1) < j" "j < length ms" for j
        using that dec 3 sorted_canids [OF Suc.prems(1), of "unat m" j] ml(3) \<open>0 < unat m\<close>
        by (cases "j = unat m") (auto intro: order_less_trans)
      from Suc.IH [OF Suc.prems(1-4), of "m - 1" l, OF _ Suc.prems(6) _ Suc.prems(8) this]
      have "\<exists>p. canid_loop fuel ms i l (m - 1) = Inr p \<and>
        (case p of None \<Rightarrow> i \<notin> set (map can_id ms) | Some k \<Rightarrow> k < length ms \<and> can_id (ms ! k) = i)"
        using dec ml Suc.prems(7) \<open>0 < unat m\<close> by simp
      moreover have "\<not> can_id (ms ! unat m) < i" "can_id (ms ! unat m) \<noteq> i" using 3 by auto
      ultimately show ?thesis using True ml(3) by (simp add: Let_def m_def [symmetric])
    qed
  qed
qed simp

text \<open>An identifier below the first one: the right index falls to 0, wraps to 255, and the next middle is 127.\<close>

lemma canid_loop_low:
  assumes "sorted_wrt (<) (map can_id ms)" "length ms \<le> 127" "ms \<noteq> []" "i < can_id (ms ! 0)"
    "unat r < length ms" "unat r + 2 < fuel"
  shows "canid_loop fuel ms i 0 r = Inl OutOfBounds"
  using assms
proof (induction fuel arbitrary: r)
  case (Suc fuel)
  define m where "m = (of_nat (unat r div 2) :: u8)"
  have m: "unat m = unat r div 2" using mid_bounds [of 0 "unat r"] Suc.prems(2,5) by (simp add: m_def)
  have lt: "unat m < length ms" using m Suc.prems(5) by simp
  have "can_id (ms ! 0) \<le> can_id (ms ! unat m)"
    using sorted_canids [OF Suc.prems(1), of 0 "unat m"] lt Suc.prems(3) by (cases "unat m = 0") (auto intro: less_imp_le)
  then have i: "i < can_id (ms ! unat m)" using Suc.prems(4) by simp
  have step: "canid_loop (Suc fuel) ms i 0 r = canid_loop fuel ms i 0 (m - 1)"
    using i lt by (simp add: Let_def m_def [symmetric]) auto
  show ?case
  proof (cases "unat m = 0")
    case True
    then have "m - 1 = - 1" by (simp add: unat_eq_0)
    moreover obtain f where "fuel = Suc f" using Suc.prems(6) by (cases fuel) auto
    moreover have "unat (of_nat ((0 + 255) div 2) :: u8) = 127" by simp
    moreover have "unat (- 1 :: u8) = 255" by (simp add: unsigned_minus_1_eq_mask mask_eq_exp_minus_1)
    ultimately show ?thesis using Suc.prems(2) unfolding step by (simp add: Let_def rd_def)
  next
    case False
    then have "unat (m - 1) = unat m - 1" by (intro unat_u8_dec) simp
    then show ?thesis unfolding step using m lt Suc.prems False by (intro Suc.IH) simp_all
  qed
qed simp

lemma canid_search:
  assumes "sorted_wrt (<) (map can_id ms)" "length ms \<le> 127" "ms \<noteq> []"
  shows "i < can_id (ms ! 0) \<Longrightarrow> motor_get_by_canid ms i = Inl OutOfBounds"
    and "n < length ms \<Longrightarrow> can_id (ms ! n) = i \<Longrightarrow> motor_get_by_canid ms i = Inr (Some n)"
    and "can_id (ms ! 0) \<le> i \<Longrightarrow> i \<notin> set (map can_id ms) \<Longrightarrow> motor_get_by_canid ms i = Inr None"
proof -
  have r: "unat (of_nat (length ms) - 1 :: u8) = length ms - 1"
    using unat_u8_of_nat [of "length ms"] unat_u8_dec [of "of_nat (length ms)"] assms by simp
  have rl: "unat (of_nat (length ms) - 1 :: u8) < length ms" using r assms(3) by simp
  show "i < can_id (ms ! 0) \<Longrightarrow> motor_get_by_canid ms i = Inl OutOfBounds"
    unfolding motor_get_by_canid_def using rl assms(2) by (intro canid_loop_low [OF assms]) simp_all
  have *: "\<exists>p. motor_get_by_canid ms i = Inr p \<and>
    (case p of None \<Rightarrow> i \<notin> set (map can_id ms) | Some k \<Rightarrow> k < length ms \<and> can_id (ms ! k) = i)" if "can_id (ms ! 0) \<le> i"
    unfolding motor_get_by_canid_def using rl r assms(2,3) that by (intro canid_loop_correct [OF assms]) simp_all
  show "can_id (ms ! 0) \<le> i \<Longrightarrow> i \<notin> set (map can_id ms) \<Longrightarrow> motor_get_by_canid ms i = Inr None"
  proof -
    assume "can_id (ms ! 0) \<le> i" "i \<notin> set (map can_id ms)"
    with * show ?thesis by (fastforce split: option.splits simp: in_set_conv_nth)
  qed
  show "n < length ms \<Longrightarrow> can_id (ms ! n) = i \<Longrightarrow> motor_get_by_canid ms i = Inr (Some n)"
  proof -
    assume n: "n < length ms" "can_id (ms ! n) = i"
    have "can_id (ms ! 0) \<le> i" using sorted_canids [OF assms(1) n(1), of 0] n by (simp add: not_less [symmetric] assms(3))
    with * obtain p where p: "motor_get_by_canid ms i = Inr p"
      "case p of None \<Rightarrow> i \<notin> set (map can_id ms) | Some k \<Rightarrow> k < length ms \<and> can_id (ms ! k) = i" by blast
    have "i \<in> set (map can_id ms)" using n by (metis length_map nth_map nth_mem)
    then obtain k where "p = Some k" "k < length ms" "can_id (ms ! k) = i" using p(2) by (cases p) auto
    moreover from this have "k = n"
      using sorted_canids [OF assms(1), of k n] sorted_canids [OF assms(1), of n k] n by (auto simp: not_less_iff_gr_or_eq)
    ultimately show ?thesis using p(1) by simp
  qed
qed

section \<open>The unwrapped angle\<close>

text \<open>The measurement after a list of angles.\<close>

fun measure_all :: "motor_measure \<Rightarrow> u16 list \<Rightarrow> motor_measure cres" where
  "measure_all m [] = Inr m"
| "measure_all m (a # as) = cbind (measure_angle m a) (\<lambda>m. measure_all m as)"

text \<open>The encoder's angle at a position counted over all turns, and positions less than half a turn apart.\<close>

definition enc :: "int \<Rightarrow> u16" where "enc P = of_int (P mod 8192)"

fun steps_ok :: "int \<Rightarrow> int list \<Rightarrow> bool" where
  "steps_ok P [] \<longleftrightarrow> True"
| "steps_ok P (Q # Qs) \<longleftrightarrow> \<bar>Q - P\<bar> < 4096 \<and> \<bar>Q\<bar> \<le> 2 ^ 29 \<and> steps_ok Q Qs"

lemma uint_enc [simp]: "uint (enc P) = P mod 8192"
proof -
  have "0 \<le> P mod 8192" "P mod 8192 < 2 ^ 16" by (simp, rule order_less_trans [of _ 8192]) simp_all
  then show ?thesis by (simp add: enc_def unsigned_of_int take_bit_int_eq_self)
qed

lemma wrap_detect:
  fixes P Q :: int
  assumes "\<bar>Q - P\<bar> < 4096"
  shows "Q mod 8192 - P mod 8192 > 4096 \<Longrightarrow> Q div 8192 = P div 8192 - 1"
    and "Q mod 8192 - P mod 8192 < - 4096 \<Longrightarrow> Q div 8192 = P div 8192 + 1"
    and "\<not> Q mod 8192 - P mod 8192 > 4096 \<Longrightarrow> \<not> Q mod 8192 - P mod 8192 < - 4096 \<Longrightarrow> Q div 8192 = P div 8192"
proof -
  define p q a b where "p = P div 8192" "q = Q div 8192" "a = P mod 8192" "b = Q mod 8192"
  have "P = 8192 * p + a" "Q = 8192 * q + b" "0 \<le> a" "a < 8192" "0 \<le> b" "b < 8192" by (simp_all add: p_q_a_b_def)
  then show "Q mod 8192 - P mod 8192 > 4096 \<Longrightarrow> Q div 8192 = P div 8192 - 1"
    "Q mod 8192 - P mod 8192 < - 4096 \<Longrightarrow> Q div 8192 = P div 8192 + 1"
    "\<not> Q mod 8192 - P mod 8192 > 4096 \<Longrightarrow> \<not> Q mod 8192 - P mod 8192 < - 4096 \<Longrightarrow> Q div 8192 = P div 8192"
    using assms unfolding p_q_a_b_def [symmetric] by arith+
qed

lemma div_bound: "\<bar>P\<bar> \<le> 2 ^ 29 \<Longrightarrow> \<bar>P div 8192\<bar> \<le> 65536" for P :: int
proof -
  assume "\<bar>P\<bar> \<le> 2 ^ 29"
  then have "- 536870912 \<le> P" "P \<le> 536870912" by simp_all
  then have "(- 536870912) div 8192 \<le> P div 8192" "P div 8192 \<le> 536870912 div 8192" by (intro zdiv_mono1; simp)+
  then show ?thesis by simp
qed

lemma total_fits:
  fixes d R a u :: int
  assumes "\<bar>d\<bar> \<le> 65536" "\<bar>R\<bar> \<le> 65536" "0 \<le> a" "a < 65536" "0 \<le> u" "u < 65536"
  shows "chk32 ((d - R) * 8191) = Inr ((d - R) * 8191) \<and> chk32 ((d - R) * 8191 + a) = Inr ((d - R) * 8191 + a) \<and>
    chk32 ((d - R) * 8191 + a - u) = Inr ((d - R) * 8191 + a - u)"
proof -
  define e where "e = (d - R) * 8191"
  have "d \<le> 65536" "- 65536 \<le> d" "R \<le> 65536" "- 65536 \<le> R" using assms(1,2) by (simp_all add: abs_le_iff)
  then have "- 1073610752 \<le> e" "e \<le> 1073610752" unfolding e_def by simp_all
  then show ?thesis unfolding e_def [symmetric] using assms(3-6) by (simp add: chk32_def)
qed

lemma measure_step:
  assumes "50 \<le> msg_cnt m" "angle m = enc P" "round_cnt m = P div 8192 - R" "\<bar>Q - P\<bar> < 4096"
    "\<bar>P\<bar> \<le> 2 ^ 29" "\<bar>Q\<bar> \<le> 2 ^ 29" "\<bar>R\<bar> \<le> 65536"
  shows "measure_angle m (enc Q) = Inr (m\<lparr>last_angle := enc P, angle := enc Q, round_cnt := Q div 8192 - R, msg_cnt := 0xff,
     total_angle := (Q div 8192 - R) * 8191 + Q mod 8192 - uint (offset_angle m)\<rparr>)"
proof -
  have b: "\<bar>P div 8192\<bar> \<le> 65536" "\<bar>Q div 8192\<bar> \<le> 65536" using div_bound assms(5,6) by blast+
  have q: "0 \<le> Q mod 8192" "Q mod 8192 < 65536" by (simp, rule order_less_trans [of _ 8192]) simp_all
  have o: "0 \<le> uint (offset_angle m)" "uint (offset_angle m) < 65536"
    using uint_lt2p [of "offset_angle m"] by simp_all
  define x where "x = Q div 8192 - R"
  have small: "chk32 (x * 8191) = Inr (x * 8191)" "chk32 (x * 8191 + Q mod 8192) = Inr (x * 8191 + Q mod 8192)"
    "chk32 (x * 8191 + Q mod 8192 - uint (offset_angle m)) = Inr (x * 8191 + Q mod 8192 - uint (offset_angle m))"
    using total_fits [OF b(2) assms(7) q o] unfolding x_def by blast+
  have "- 131072 \<le> x" "x \<le> 131072" using b(2) assms(7) by (simp_all add: abs_le_iff x_def)
  then have x: "chk32 x = Inr x" by (intro chk32_ok) simp_all
  have c: "\<not> msg_cnt m < 50" using assms(1) by simp
  consider "Q mod 8192 - P mod 8192 > 4096" | "Q mod 8192 - P mod 8192 < - 4096"
    | "\<not> Q mod 8192 - P mod 8192 > 4096" "\<not> Q mod 8192 - P mod 8192 < - 4096" by linarith
  then show ?thesis
  proof cases
    case 1
    then have "round_cnt m - 1 = x" using wrap_detect(1) [OF assms(4)] assms(3) by (simp add: x_def)
    then show ?thesis using 1 c x small assms(2) by (simp add: measure_angle_def Let_def x_def [symmetric])
  next
    case 2
    then have "round_cnt m + 1 = x" using wrap_detect(2) [OF assms(4)] assms(3) by (simp add: x_def)
    then show ?thesis using 2 c x small assms(2) by (simp add: measure_angle_def Let_def x_def [symmetric])
  next
    case 3
    then have "round_cnt m = x" using wrap_detect(3) [OF assms(4)] assms(3) by (simp add: x_def)
    then show ?thesis using 3 c x small assms(2) by (simp add: measure_angle_def Let_def x_def [symmetric])
  qed
qed

lemma measure_all_correct:
  assumes "50 \<le> msg_cnt m" "angle m = enc P" "round_cnt m = P div 8192 - R" "\<bar>P\<bar> \<le> 2 ^ 29" "\<bar>R\<bar> \<le> 65536" "steps_ok P Qs" "Qs \<noteq> []"
  shows "\<exists>m'. measure_all m (map enc Qs) = Inr m' \<and> round_cnt m' = last Qs div 8192 - R \<and> angle m' = enc (last Qs) \<and>
    total_angle m' = (last Qs div 8192 - R) * 8191 + last Qs mod 8192 - uint (offset_angle m) \<and> offset_angle m' = offset_angle m \<and> can_id m' = can_id m"
  using assms
proof (induction Qs arbitrary: m P)
  case (Cons Q Qs)
  let ?m = "m\<lparr>last_angle := enc P, angle := enc Q, round_cnt := Q div 8192 - R, msg_cnt := 0xff,
     total_angle := (Q div 8192 - R) * 8191 + Q mod 8192 - uint (offset_angle m)\<rparr>"
  have step: "measure_angle m (enc Q) = Inr ?m" using Cons.prems by (intro measure_step) simp_all
  show ?case
  proof (cases "Qs = []")
    case True
    then show ?thesis using step by simp
  next
    case False
    have "\<exists>m'. measure_all ?m (map enc Qs) = Inr m' \<and> round_cnt m' = last Qs div 8192 - R \<and> angle m' = enc (last Qs) \<and>
      total_angle m' = (last Qs div 8192 - R) * 8191 + last Qs mod 8192 - uint (offset_angle ?m) \<and> offset_angle m' = offset_angle ?m \<and> can_id m' = can_id ?m"
      using Cons.prems False by (intro Cons.IH [of ?m Q]) simp_all
    then show ?thesis using step False by simp
  qed
qed simp

section \<open>The drivers keep the contract\<close>

text \<open>
  What the drivers rely on: the arrays of currents, the entries of the motors they wait for, and for a
  CAN motor an entry whose identifier is not below the first motor's; \<open>q\<close> is the content of the ring buffer.
\<close>

definition cfg_ok :: "dj_cfg \<Rightarrow> nat \<Rightarrow> bool" where
  "cfg_ok cfg n \<longleftrightarrow> (\<forall>k \<in> set (high_all cfg) \<union> set (low_rest cfg) \<union> set_option (low_first cfg). k < n)"

definition bot_ok :: "dj_cfg \<Rightarrow> u8 list \<Rightarrow> motor_dev \<Rightarrow> can \<Rightarrow> bool" where
  "bot_ok cfg q e c \<longleftrightarrow> length (iq1_low c) = 4 \<and> length (iq1_high c) = 4 \<and> cfg_ok cfg (length (dj_motors c)) \<and> ring_holds (dj_m_ringfifo c) 4096 q \<and>
     (case e of Dj n \<Rightarrow> n < length (dj_motors c) \<and> 0x201 \<le> can_id (dj_motors c ! n) | Emm n \<Rightarrow> True)"

lemma can_write_frame [simp]:
  "dj_motors (snd (can_write c i xs)) = dj_motors c" "iq1_low (snd (can_write c i xs)) = iq1_low c"
  "iq1_high (snd (can_write c i xs)) = iq1_high c" "dj_m_ringfifo (snd (can_write c i xs)) = dj_m_ringfifo c"
  by (simp_all add: can_write_def split: list.splits)

lemma bot_ok_frame:
  "length (iq1_low c') = length (iq1_low c) \<Longrightarrow> length (iq1_high c') = length (iq1_high c) \<Longrightarrow>
     map can_id (dj_motors c') = map can_id (dj_motors c) \<Longrightarrow> dj_m_ringfifo c' = dj_m_ringfifo c \<Longrightarrow> bot_ok cfg q e c \<Longrightarrow> bot_ok cfg q e c'"
proof -
  assume *: "length (iq1_low c') = length (iq1_low c)" "length (iq1_high c') = length (iq1_high c)"
    "map can_id (dj_motors c') = map can_id (dj_motors c)" "dj_m_ringfifo c' = dj_m_ringfifo c" "bot_ok cfg q e c"
  have len: "length (dj_motors c') = length (dj_motors c)" using *(3) by (rule map_eq_imp_length_eq)
  have "can_id (dj_motors c' ! n) = can_id (dj_motors c ! n)" if "n < length (dj_motors c)" for n
    using arg_cong [OF *(3), of "\<lambda>xs. xs ! n"] that len by simp
  then show ?thesis using *(1,2,4,5) len by (auto simp: bot_ok_def split: motor_dev.splits)
qed

lemma iq_index_bound: "0 \<le> r \<Longrightarrow> iq_index r < 4"
  by (simp add: iq_index_def nat_less_iff)

lemma all_fresh_ok: "\<forall>n \<in> set ns. n < length ms \<Longrightarrow> \<exists>b. all_fresh ms ns = Inr b"
  by (induction ns) auto

lemma fresh_ok: "cfg_ok cfg (length ms) \<Longrightarrow> \<exists>b. high_fresh cfg ms = Inr b" "cfg_ok cfg (length ms) \<Longrightarrow> \<exists>b. low_fresh cfg ms = Inr b"
  using all_fresh_ok [of "high_all cfg" ms] all_fresh_ok [of "low_rest cfg" ms]
  by (auto simp: cfg_ok_def high_fresh_def low_fresh_def split: option.splits)

lemma send_torque_ok:
  assumes "length (iq1_low c) = 4" "length (iq1_high c) = 4" "cfg_ok cfg (length (dj_motors c))" "0x201 \<le> can_id mm"
  obtains c' where "send_torque cfg c mm t = Inr c'" "length (iq1_low c') = length (iq1_low c)" "length (iq1_high c') = length (iq1_high c)"
    "map can_id (dj_motors c') = map can_id (dj_motors c)" "dj_m_ringfifo c' = dj_m_ringfifo c"
proof -
  let ?r = "uint (can_id mm) - 0x201" let ?tt = "iq_index ?r"
  have "uint (0x201 :: u16) \<le> uint (can_id mm)" using assms(4) by (simp only: word_le_def)
  then have "?tt < 4" by (intro iq_index_bound) simp
  then have w: "wr (iq1_low c) ?tt t = Inr ((iq1_low c)[?tt := t])" "wr (iq1_high c) ?tt t = Inr ((iq1_high c)[?tt := t])"
    using assms(1,2) by simp_all
  obtain h l where f: "high_fresh cfg (dj_motors c) = Inr h" "low_fresh cfg (dj_motors c) = Inr l"
    using fresh_ok [OF assms(3)] by blast
  let ?hi = "c\<lparr>iq1_high := (iq1_high c)[?tt := t]\<rparr>" and ?lo = "c\<lparr>iq1_low := (iq1_low c)[?tt := t]\<rparr>"
  consider "?r \<ge> 8" | "\<not> ?r \<ge> 8" "?r \<ge> 4" | "\<not> ?r \<ge> 8" "\<not> ?r \<ge> 4" l | "\<not> ?r \<ge> 8" "\<not> ?r \<ge> 4" "\<not> l" by blast
  then show ?thesis
  proof cases
    case 1
    then show ?thesis by (intro that [of c]) (simp_all add: send_torque_def)
  next
    case 2
    then show ?thesis using w(2) f(1)
      by (intro that [of "if h then snd (can_write ?hi 0x1FF (current_bytes (iq1_high ?hi))) else ?hi"])
        (simp_all add: send_torque_def send_high_def Let_def)
  next
    case 3
    let ?w = "can_write ?lo 0x200 (current_bytes (iq1_low ?lo))"
    show ?thesis using 3 w(1) f(2)
      by (intro that [of "if fst ?w then snd ?w else (snd ?w)\<lparr>dj_motors := map (\<lambda>m. m\<lparr>msg_cnt := 50\<rparr>) (dj_motors (snd ?w))\<rparr>"])
        (simp_all add: send_torque_def send_low_def Let_def case_prod_beta o_def)
  next
    case 4
    then show ?thesis using f(2) by (intro that [of c]) (simp_all add: send_torque_def send_low_def)
  qed
qed

lemma to_int16_cases: "to_int16 v = Inl BadCast \<or> (\<exists>t. to_int16 v = Inr t)"
  unfolding to_int16_def by (cases v) auto

lemma on_motor_valid [simp]: "k < length (motor_list s) \<Longrightarrow> on_motor s (int k) f = f k (motor_list s ! k)"
  by (simp add: on_motor_def)

lemma asserted_valid [simp]: "k < length (motor_list s) \<Longrightarrow> asserted s (int k) f = f k (motor_list s ! k)"
  by (simp add: asserted_def)

lemma bot_backend: "motor_backend (bot_drivers cfg) (bot_ok cfg q)"
proof
  fix k mode v and s :: "'p bot" and d
  assume k: "k < length (motor_list s)" "ops (motor_list s ! k) = Some d" and ok: "bot_ok cfg q (driver d) (dev s)"
  show "drive (bot_drivers cfg) (driver d) (int k) mode v s = Inl BadCast \<or>
      (\<exists>w. drive (bot_drivers cfg) (driver d) (int k) mode v s = Inr (s\<lparr>dev := w\<rparr>) \<and> (\<forall>e. bot_ok cfg q e (dev s) \<longrightarrow> bot_ok cfg q e w))"
  proof (cases "to_int16 v")
    case (Inl e)
    then show ?thesis using to_int16_cases [of v] k
      by (cases "driver d") (simp_all add: bot_drivers_def motor_dj_driver_def motor_emm_v5_driver_def)
  next
    case (Inr t)
    show ?thesis
    proof (cases "driver d")
      case (Dj n)
      then have n: "n < length (dj_motors (dev s))" "length (iq1_low (dev s)) = 4" "length (iq1_high (dev s)) = 4" "cfg_ok cfg (length (dj_motors (dev s)))"
        "0x201 \<le> can_id (dj_motors (dev s) ! n)"
        using ok by (auto simp: bot_ok_def)
      obtain c' where c': "send_torque cfg (dev s) (dj_motors (dev s) ! n) (of_int t) = Inr c'" "length (iq1_low c') = length (iq1_low (dev s))"
        "length (iq1_high c') = length (iq1_high (dev s))" "map can_id (dj_motors c') = map can_id (dj_motors (dev s))"
        "dj_m_ringfifo c' = dj_m_ringfifo (dev s)"
        by (rule send_torque_ok [OF n(2-5)])
      have keep: "bot_ok cfg q e (dev s) \<Longrightarrow> bot_ok cfg q e c'" for e by (rule bot_ok_frame [OF c'(2-5)])
      have "drive (bot_drivers cfg) (driver d) (int k) mode v s = Inr (s\<lparr>dev := if mode = 1 then c' else dev s\<rparr>)"
        using Dj Inr k n(1) c'(1) by (simp add: bot_drivers_def motor_dj_driver_def)
      then show ?thesis using keep by (intro disjI2 exI [of _ "if mode = 1 then c' else dev s"] conjI) auto
    next
      case (Emm n)
      then have "drive (bot_drivers cfg) (driver d) (int k) mode v s = Inr (s\<lparr>dev := dev s\<rparr>)"
        using Inr k by (simp add: bot_drivers_def motor_emm_v5_driver_def)
      then show ?thesis by blast
    qed
  qed
next
  fix k mode v and s :: "'p bot" and d
  assume "k < length (motor_list s)" "ops (motor_list s ! k) = Some d" "mode = (1 :: u16) \<or> mode = 2 \<or> mode = 3"
  then have "control (bot_drivers cfg) (driver d) (int k) mode v s = Inr (v, s\<lparr>dev := dev s\<rparr>)"
    by (cases "driver d") (auto simp: bot_drivers_def motor_dj_ctr_def motor_emm_v5_ctr_def)
  then show "\<exists>u w. control (bot_drivers cfg) (driver d) (int k) mode v s = Inr (u, s\<lparr>dev := w\<rparr>) \<and> (\<forall>e. bot_ok cfg q e (dev s) \<longrightarrow> bot_ok cfg q e w)"
    by blast
qed

interpretation bot: motor_backend "bot_drivers cfg" "bot_ok cfg q" for cfg q
  by (rule bot_backend)

section \<open>Properties\<close>

text \<open>
  With a table sorted by identifier a frame is attributed to the motor that has its identifier;
  a frame whose identifier is below the first one makes the search run out of the table, and one with any
  other unknown identifier makes the callback follow the null pointer. The receive filter lets sixteen
  identifiers through, of which the configured table has one.
\<close>
theorem dj_frame_attribution:
  fixes s :: "'p bot" and rx_id :: u32 and data :: "u8 list"
  assumes "sorted_wrt (<) (map can_id (dj_motors (dev s)))" "length (dj_motors (dev s)) \<le> 127" "dj_motors (dev s) \<noteq> []"
  shows "if ucast rx_id \<in> set (map can_id (dj_motors (dev s)))
    then \<exists>n < length (dj_motors (dev s)). motor_get_by_canid (dj_motors (dev s)) (ucast rx_id) = Inr (Some n) \<and>
           can_id (dj_motors (dev s) ! n) = ucast rx_id
    else ind_dj_can_motor_callback s rx_id data =
           Inl (if ucast rx_id < can_id (dj_motors (dev s) ! 0) then OutOfBounds else NullDeref)"
proof -
  let ?ms = "dj_motors (dev s)" and ?i = "ucast rx_id :: u16"
  have known: "\<exists>n < length ?ms. motor_get_by_canid ?ms ?i = Inr (Some n) \<and> can_id (?ms ! n) = ?i" if mem: "?i \<in> set (map can_id ?ms)"
  proof -
    obtain n where "n < length (map can_id ?ms)" "map can_id ?ms ! n = ?i" using mem unfolding in_set_conv_nth by blast
    then have n: "n < length ?ms" "can_id (?ms ! n) = ?i" by simp_all
    then show ?thesis using canid_search(2) [OF assms n] by blast
  qed
  have unknown: "ind_dj_can_motor_callback s rx_id data = Inl (if ?i < can_id (?ms ! 0) then OutOfBounds else NullDeref)"
    if "?i \<notin> set (map can_id ?ms)"
  proof (cases "?i < can_id (?ms ! 0)")
    case True
    have "motor_get_by_canid ?ms ?i = Inl OutOfBounds" by (rule canid_search(1) [OF assms True])
    then show ?thesis using True by (simp add: ind_dj_can_motor_callback_def)
  next
    case False
    have "motor_get_by_canid ?ms ?i = Inr None" by (rule canid_search(3) [OF assms _ that]) (use False in simp)
    then show ?thesis using False by (simp add: ind_dj_can_motor_callback_def)
  qed
  show ?thesis
  proof (cases "?i \<in> set (map can_id ?ms)")
    case True
    show ?thesis unfolding if_P [OF True] by (rule known [OF True])
  next
    case False
    show ?thesis unfolding if_not_P [OF False] by (rule unknown [OF False])
  qed
qed

definition one_measure :: motor_measure where
  "one_measure = \<lparr>mm_id = 0, can_id = 0x201, angle = 100, msg_cnt = 0xff, last_angle = 100, offset_angle = 100, round_cnt = 0, total_angle = 0\<rparr>"

text \<open>The configured robot after its set-up: an M3508 that is told torques, and a stepper motor.\<close>

definition m3508 :: "(fl, motor_dev) motor" where
  "m3508 = (blank_motor (Dj 0) 1 (Some (Fin 0)))\<lparr>ratio_pos := 2, ratio_speed := 1, flag_run_mode := 1, flag_out_mode := 1,
     flag_passive_feedback := True, behaver := Some motor_behiver_2, tar_torque := Fin 1000\<rparr>"

definition stepper :: "(fl, motor_dev) motor" where
  "stepper = (blank_motor (Emm 0) 3 None)\<lparr>id_of := 1, ratio_pos := 1, ratio_speed := 1, flag_out_mode := 3, behaver := Some motor_behiver_4\<rparr>"

definition ring_of :: "u8 list \<Rightarrow> rt_ringbuffer" where
  "ring_of q = \<lparr>buffer_ptr = q @ replicate 4096 0, read_mirror = False, read_index = 0, write_mirror = False, write_index = int (length q),
     buffer_size = 4096\<rparr>"

lemma ring_of_holds: "length q < 4096 \<Longrightarrow> ring_holds (ring_of q) 4096 q"
  unfolding ring_holds_def by (intro conjI exI [of _ 0]) (simp_all add: ring_of_def win_flat)

definition the_bot :: "u8 list \<Rightarrow> fl bot" where
  "the_bot q = \<lparr>motor_list = [m3508, stepper], is_init = True, dev =
     \<lparr>dj_motors = [one_measure], iq1_low = [0, 0, 0, 0], iq1_high = [0, 0, 0, 0], can_sent = [], write_ok = [], dj_m_ringfifo = ring_of q\<rparr>\<rparr>"

theorem dj_frame_attribution_witness:
  "ind_dj_can_motor_callback (the_bot []) 0x202 (replicate 8 0) = Inl NullDeref \<and>
   ind_dj_can_motor_callback (the_bot []) 0x200 (replicate 8 0) = Inl OutOfBounds"
  using dj_frame_attribution [of "the_bot []" "0x202" "replicate 8 0"] dj_frame_attribution [of "the_bot []" "0x200" "replicate 8 0"]
  by (simp add: the_bot_def one_measure_def)

text \<open>
  C16: the turn counter follows the encoder. If the positions of a calibrated motor are less than
  half a turn apart from frame to frame, the counter ends with the number of turns between the first and the last
  position, and the total angle is their distance less one count for each of these turns: a turn counts
  8191 although the encoder has 8192 positions.
\<close>
theorem dj_encoder_drift:
  assumes "50 \<le> msg_cnt m" "angle m = enc P" "offset_angle m = enc P" "round_cnt m = 0" "\<bar>P\<bar> \<le> 2 ^ 29"
    "steps_ok P Qs" "Qs \<noteq> []"
  shows "\<exists>m'. measure_all m (map enc Qs) = Inr m' \<and> round_cnt m' = last Qs div 8192 - P div 8192 \<and>
    total_angle m' = (last Qs - P) - (last Qs div 8192 - P div 8192)"
proof -
  have "\<bar>P div 8192\<bar> \<le> 65536" by (rule div_bound [OF assms(5)])
  then obtain m' where m': "measure_all m (map enc Qs) = Inr m'" "round_cnt m' = last Qs div 8192 - P div 8192"
    "total_angle m' = (last Qs div 8192 - P div 8192) * 8191 + last Qs mod 8192 - uint (offset_angle m)"
    using measure_all_correct [of m P "P div 8192" Qs] assms by auto
  have "total_angle m' = (last Qs - P) - (last Qs div 8192 - P div 8192)"
    using m'(3) assms(3) by (simp add: minus_div_mult_eq_mod [symmetric] algebra_simps)
  then show ?thesis using m' by blast
qed

theorem dj_encoder_drift_witness:
  "\<exists>m'. measure_all one_measure (map enc [4000, 8000, 12000, 16000, 16484]) = Inr m' \<and> round_cnt m' = 2 \<and> total_angle m' = 16384 - 2"
  using dj_encoder_drift [of one_measure 100 "[4000, 8000, 12000, 16000, 16484]"]
  by (simp add: one_measure_def enc_def del: measure_all.simps list.map)

text \<open>
  The receiving thread for \<open>n\<close> received frames.
\<close>

fun can_rx_run :: "dj_cfg \<Rightarrow> 'p apid \<Rightarrow> (fl \<Rightarrow> fl) \<Rightarrow> nat \<Rightarrow> 'p bot \<Rightarrow> 'p bot cres" where
  "can_rx_run cfg L expf 0 s = Inr s"
| "can_rx_run cfg L expf (Suc n) s = cbind (can_rx_step cfg L expf s) (can_rx_run cfg L expf n)"

text \<open>
  C29: while the handler serves a motor that is set up, it follows no null pointer, calls through
  none and divides by no zero, whatever the controllers, the run mode and the curve are: it can only
  stop at a cast to an integer. All motors stay ready, and the motor's tick counter goes up by one
  per call but sticks at \<open>2 ^ 24\<close>.
\<close>
theorem motor_handler_safe:
  fixes s :: "'p bot"
  assumes "ready (bot_ok cfg (replicate n (of_nat k) @ q)) s" "ring_holds (dj_m_ringfifo (dev s)) 4096 (replicate n (of_nat k) @ q)"
    "k < length (motor_list s)" "k < 256" "0 \<le> time (motor_list s ! k)" "time (motor_list s ! k) \<le> 2 ^ 24"
  shows "can_rx_run cfg L expf n s = Inl BadCast \<or>
    (\<exists>s'. can_rx_run cfg L expf n s = Inr s' \<and> ready (bot_ok cfg q) s' \<and>
       time (motor_list s' ! k) = min (time (motor_list s ! k) + int n) (2 ^ 24))"
  using assms
proof (induction n arbitrary: s)
  case (Suc n)
  let ?q = "replicate n (of_nat k) @ q"
  obtain rb where rb: "rt_ringbuffer_getchar (dj_m_ringfifo (dev s)) = Inr (Some (of_nat k), rb)" "ring_holds rb 4096 ?q"
    using Suc.prems(2) by (rule ring_getchar) simp
  let ?s = "s\<lparr>dev := (dev s)\<lparr>dj_m_ringfifo := rb\<rparr>\<rparr>"
  have rs: "ready (bot_ok cfg ?q) ?s"
    using Suc.prems(1) by (rule ready_dev) (simp add: bot_ok_def rb(2) split: motor_dev.splits)
  have "uint (of_nat k :: u8) = int k" using Suc.prems(4) unat_u8_of_nat [of k] by (simp del: unat_u8_of_nat add: uint_nat)
  then have step: "can_rx_step cfg L expf s = motor_handle L (bot_drivers cfg) expf ?s (int k) (Fin 1)"
    using rb(1) by (simp add: can_rx_step_def)
  have k: "k < length (motor_list ?s)" using Suc.prems(3) by simp
  from bot.handle_ready [OF rs k, of L expf "Fin 1"]
  consider "can_rx_step cfg L expf s = Inl BadCast"
    | s1 where "can_rx_step cfg L expf s = Inr s1" "ready (bot_ok cfg ?q) s1" "length (motor_list s1) = length (motor_list s)"
      "add_time (time (motor_list s ! k)) (Fin 1) = Inr (time (motor_list s1 ! k))"
    unfolding step by auto
  then show ?case
  proof cases
    case 2
    have t: "time (motor_list s1 ! k) = min (time (motor_list s ! k) + 1) (2 ^ 24)"
      using 2(4) add_time_one [OF Suc.prems(5,6)] by simp
    have "ring_holds (dj_m_ringfifo (dev s1)) 4096 ?q"
      using readyD [OF 2(2), of k] 2(3) Suc.prems(3) by (auto simp: motor_ready_def ops_ok_def bot_ok_def)
    from Suc.IH [OF 2(2) this] have "can_rx_run cfg L expf n s1 = Inl BadCast \<or>
      (\<exists>s'. can_rx_run cfg L expf n s1 = Inr s' \<and> ready (bot_ok cfg q) s' \<and> time (motor_list s' ! k) = min (time (motor_list s1 ! k) + int n) (2 ^ 24))"
      using 2(3) Suc.prems(3-5) t by simp
    then show ?thesis using 2(1) t by auto
  qed simp
qed simp

lemma the_bot_ready: "length q < 4096 \<Longrightarrow> ready (bot_ok built_cfg q) (the_bot q)"
  by (auto simp: ring_of_holds ready_def the_bot_def m3508_def stepper_def blank_motor_def one_measure_def motor_ready_def ops_ok_def bot_ok_def
    cfg_ok_def built_cfg_def less_Suc_eq)

theorem motor_handler_safe_witness:
  "can_rx_run built_cfg plain_pid (\<lambda>x. x) 3 (the_bot [0, 0, 0]) = Inl BadCast \<or>
    (\<exists>s'. can_rx_run built_cfg plain_pid (\<lambda>x. x) 3 (the_bot [0, 0, 0]) = Inr s' \<and> ready (bot_ok built_cfg []) s' \<and> time (motor_list s' ! 0) = 3)"
  using motor_handler_safe [of built_cfg 3 0 "[]" "the_bot [0, 0, 0]" plain_pid "\<lambda>x. x"] the_bot_ready [of "[0, 0, 0]"] ring_of_holds [of "[0, 0, 0]"]
  by (simp add: the_bot_def m3508_def blank_motor_def numeral_3_eq_3)

lemma measure_total:
  assumes "50 \<le> msg_cnt m" "\<bar>round_cnt m\<bar> \<le> 65535"
  obtains m' where "measure_angle m a = Inr m'" "msg_cnt m' = 0xff" "mm_id m' = mm_id m" "can_id m' = can_id m"
proof -
  have u: "0 \<le> uint a" "uint a < 65536" "0 \<le> uint (offset_angle m)" "uint (offset_angle m) < 65536"
    using uint_lt2p [of a] uint_lt2p [of "offset_angle m"] by simp_all
  define d where "d = uint a - uint (angle m)"
  define r where "r = (if d > 4096 then round_cnt m - 1 else if d < - 4096 then round_cnt m + 1 else round_cnt m)"
  have "- 65536 \<le> r" "r \<le> 65536" using assms(2) by (auto simp: r_def abs_le_iff)
  then have r: "chk32 r = Inr r" "\<bar>r\<bar> \<le> 65536" by (simp_all add: chk32_def)
  have new: "\<not> msg_cnt m < 50" using assms(1) by simp
  define e where "e = r * 8191"
  from total_fits [OF r(2) _ u, of 0] have e: "chk32 e = Inr e" "chk32 (e + uint a) = Inr (e + uint a)"
    "chk32 (e + uint a - uint (offset_angle m)) = Inr (e + uint a - uint (offset_angle m))" by (simp_all add: e_def)
  have "measure_angle m a = Inr (m\<lparr>last_angle := angle m, angle := a, round_cnt := r, msg_cnt := 0xff, total_angle := e + uint a - uint (offset_angle m)\<rparr>)"
  proof -
    consider "d > 4096" | "\<not> d > 4096" "d < - 4096" | "\<not> d > 4096" "\<not> d < - 4096" by linarith
    then show ?thesis
    proof cases
      case 1
      then have "round_cnt m - 1 = r" by (simp add: r_def)
      then show ?thesis using 1 new r(1) e by (simp add: measure_angle_def Let_def d_def e_def)
    next
      case 2
      then have "round_cnt m + 1 = r" by (simp add: r_def)
      then show ?thesis using 2 new r(1) e by (simp add: measure_angle_def Let_def d_def e_def)
    next
      case 3
      then have "round_cnt m = r" by (simp add: r_def)
      then show ?thesis using 3 new r(1) e by (simp add: measure_angle_def Let_def d_def e_def)
    qed
  qed
  then show ?thesis by (rule that) simp_all
qed

lemma f32_sint [simp]: "f32_int (sint (w :: u16)) = Fin (of_int (sint w))"
proof -
  have "- 32768 \<le> sint w" "sint w < 32768" using sint_ge [of w] sint_lt [of w] by simp_all
  then have "\<bar>sint w\<bar> < 2 ^ 24" by simp
  then show ?thesis unfolding f32_int_def by (rule f32_of_int)
qed

lemma to_int16_int [simp]: "- 32768 \<le> t \<Longrightarrow> t < 32768 \<Longrightarrow> to_int16 (Fin (of_int t)) = Inr t"
  by (simp add: to_int16_def)

lemma motor_get_first: "motor_list s \<noteq> [] \<Longrightarrow> motor_get s 0 = Inr (Some 0)"
  using motor_get_valid [of 0 s] by simp

text \<open>What the callback does with a frame of a calibrated motor.\<close>

lemma callback_one:
  fixes s :: "'p bot"
  assumes "motor_list s = m # ms" "dj_motors (dev s) = [mm]" "can_id mm = 0x201" "mm_id mm = 0" "50 \<le> msg_cnt mm"
    "\<bar>round_cnt mm\<bar> \<le> 65535" "ring_holds (dj_m_ringfifo (dev s)) 4096 []"
  obtains mm' pos rb where
    "ind_dj_can_motor_callback s 0x201 [d0, d1, d2, d3, d4, d5, d6, d7] = Inr (s\<lparr>
       motor_list := m\<lparr>cur_speed := Fin (of_int (sint (mk16 d2 d3))), cur_torque := Fin (of_int (sint (mk16 d4 d5))), cur_pos := pos\<rparr> # ms,
       dev := (dev s)\<lparr>dj_motors := [mm'], dj_m_ringfifo := rb\<rparr>\<rparr>)"
    "msg_cnt mm' = 0xff" "can_id mm' = 0x201" "ring_holds rb 4096 [0]"
proof -
  obtain rb where rb: "rt_ringbuffer_putchar_force (dj_m_ringfifo (dev s)) 0 = Inr (1, rb)" "ring_holds rb 4096 [0]"
    using assms(7) by (rule ring_putchar_force) simp
  obtain mm' where mm': "measure_angle mm (mk16 d0 d1) = Inr mm'" "msg_cnt mm' = 0xff" "mm_id mm' = 0" "can_id mm' = 0x201"
    using measure_total [OF assms(5,6)] assms(3,4) by metis
  have get: "motor_get_by_canid [mm] 0x201 = Inr (Some 0)"
    using canid_search(2) [of "[mm]" 0 "0x201"] assms(3) by simp
  show ?thesis
    by (rule that [where mm' = mm' and rb = rb])
      (simp_all add: rb ind_dj_can_motor_callback_def assms get mm' Let_def motor_feedback_speed_def motor_feedback_torque_def
        motor_feedback_pos_def feedback_def motor_get_first put_def)
qed

text \<open>What the driver does with a torque.\<close>

lemma send_torque_first:
  assumes "dj_motors c = [mm]" "can_id mm = 0x201" "msg_cnt mm = 0xff" "iq1_low c = [i0, i1, i2, i3]" "write_ok c = []"
  shows "send_torque built_cfg c mm v = Inr (c\<lparr>iq1_low := [v, i1, i2, i3],
    can_sent := can_sent c @ [(0x200, [hi8 v, lo8 v, hi8 i1, lo8 i1, hi8 i2, lo8 i2, hi8 i3, lo8 i3])]\<rparr>)"
  using assms by (simp add: send_torque_def send_low_def low_fresh_def built_cfg_def iq_index_def can_write_def current_bytes_def Let_def)

text \<open>
  C10: the torque loop is closed. When the configured motor, calibrated and in torque mode, receives a
  frame, the callback and one round of the thread take over the frame's speed and current as feedback
  and answer with one frame to identifier 0x200 whose first two bytes are the target torque, or zero
  if the motor is stopped; the other motors' currents are repeated.
\<close>
theorem dj_torque_loop:
  fixes s :: "'p bot"
  assumes "motor_list s = m # ms" "ops m = Some \<lparr>driver = Dj 0, curve = c\<rparr>" "\<And>x. c = Some x \<Longrightarrow> maxTimes x = 0"
    "behaver m = Some motor_behiver_2" "flag_run_mode m = 1" "flag_out_mode m = 1" "flag_passive_feedback m"
    "0 \<le> time m" "time m \<le> 2 ^ 24" "tar_torque m = Fin (of_int t)" "- 32768 \<le> t" "t < 32768"
    "dj_motors (dev s) = [mm]" "can_id mm = 0x201" "mm_id mm = 0" "50 \<le> msg_cnt mm" "\<bar>round_cnt mm\<bar> \<le> 65535"
    "iq1_low (dev s) = [i0, i1, i2, i3]" "write_ok (dev s) = []" "ring_holds (dj_m_ringfifo (dev s)) 4096 []"
  shows "\<exists>s1 s2. ind_dj_can_motor_callback s 0x201 [d0, d1, d2, d3, d4, d5, d6, d7] = Inr s1 \<and> can_rx_step built_cfg L expf s1 = Inr s2 \<and>
    cur_speed (motor_list s2 ! 0) = Fin (of_int (sint (mk16 d2 d3))) \<and> cur_torque (motor_list s2 ! 0) = Fin (of_int (sint (mk16 d4 d5))) \<and>
    can_sent (dev s2) = can_sent (dev s) @ [(0x200,
      [hi8 (if flag_is_stop m then 0 else of_int t), lo8 (if flag_is_stop m then 0 else of_int t), hi8 i1, lo8 i1, hi8 i2, lo8 i2, hi8 i3, lo8 i3])]"
proof -
  let ?m1 = "\<lambda>pos. m\<lparr>cur_speed := Fin (of_int (sint (mk16 d2 d3))), cur_torque := Fin (of_int (sint (mk16 d4 d5))), cur_pos := pos\<rparr>"
  obtain mm' pos rb where cb: "ind_dj_can_motor_callback s 0x201 [d0, d1, d2, d3, d4, d5, d6, d7] =
      Inr (s\<lparr>motor_list := ?m1 pos # ms, dev := (dev s)\<lparr>dj_motors := [mm'], dj_m_ringfifo := rb\<rparr>\<rparr>)"
    "msg_cnt mm' = 0xff" "can_id mm' = 0x201" "ring_holds rb 4096 [0]"
    by (rule callback_one [OF assms(1,13-17,20), of d0 d1 d2 d3 d4 d5 d6 d7])
  let ?s1 = "s\<lparr>motor_list := ?m1 pos # ms, dev := (dev s)\<lparr>dj_motors := [mm'], dj_m_ringfifo := rb\<rparr>\<rparr>"
  obtain rb' where rb': "rt_ringbuffer_getchar rb = Inr (Some 0, rb')" using cb(4) by (rule ring_getchar) simp
  let ?v = "if flag_is_stop m then 0 else of_int t :: u16"
  let ?c = "(dev s)\<lparr>dj_motors := [mm'], dj_m_ringfifo := rb'\<rparr>"
  define m2 where "m2 = (?m1 pos)\<lparr>time := min (time m + 1) (2 ^ 24), acc_out := if flag_is_stop m then Fin 0 else tar_torque m\<rparr>"
  have send: "send_torque built_cfg ?c mm' ?v = Inr (?c\<lparr>iq1_low := [?v, i1, i2, i3],
    can_sent := can_sent ?c @ [(0x200, [hi8 ?v, lo8 ?v, hi8 i1, lo8 i1, hi8 i2, lo8 i2, hi8 i3, lo8 i3])]\<rparr>)"
    by (rule send_torque_first) (simp_all add: assms cb(2,3))
  have curve: "follow_curve expf x = Inr x" if "ops x = ops m" for x :: "('p, motor_dev) motor"
    using that assms(2,3) by (simp add: follow_curve_def split: option.splits)
  have drive: "motor_dj_driver built_cfg (s\<lparr>dev := ?c, motor_list := m2 # ms\<rparr>) 0 1 (acc_out m2) =
      Inr (s\<lparr>motor_list := m2 # ms, dev := ?c\<lparr>iq1_low := [?v, i1, i2, i3],
        can_sent := can_sent ?c @ [(0x200, [hi8 ?v, lo8 ?v, hi8 i1, lo8 i1, hi8 i2, lo8 i2, hi8 i3, lo8 i3])]\<rparr>\<rparr>)"
    using send assms(2,10-12) to_int16_int [of 0]
    by (cases "flag_is_stop m") (simp_all add: motor_dj_driver_def on_motor_def motor_get_first m2_def)
  have "can_rx_step built_cfg L expf ?s1 = motor_dj_driver built_cfg (s\<lparr>dev := ?c, motor_list := m2 # ms\<rparr>) 0 1 (acc_out m2)"
    using assms(2,4-7) add_time_one [OF assms(8,9)] rb'
    by (simp add: can_rx_step_def motor_handle_def asserted_def motor_get_first put_def Let_def curve behiver_takes_torque_def
      bot_drivers_def m2_def)
  then show ?thesis using cb(1) drive by (simp add: m2_def)
qed

theorem dj_torque_loop_witness:
  "\<exists>s1 s2. ind_dj_can_motor_callback (the_bot []) 0x201 [0, 101, 0, 50, 0, 7, 30, 0] = Inr s1 \<and>
     can_rx_step built_cfg plain_pid (\<lambda>x. x) s1 = Inr s2 \<and> cur_speed (motor_list s2 ! 0) = Fin 50 \<and>
     can_sent (dev s2) = [(0x200, [0x03, 0xE8, 0, 0, 0, 0, 0, 0])]"
proof -
  have s: "sint (mk16 0 50) = 50" by (simp add: mk16_def)
  have b: "hi8 1000 = 0x03" "lo8 1000 = 0xE8" "hi8 0 = 0" "lo8 0 = 0" by (simp_all add: hi8_def lo8_def)
  have m: "motor_list (the_bot []) = m3508 # [stepper]" "ops m3508 = Some \<lparr>driver = Dj 0, curve = None\<rparr>"
    "behaver m3508 = Some motor_behiver_2" "flag_run_mode m3508 = 1" "flag_out_mode m3508 = 1" "flag_passive_feedback m3508"
    "time m3508 = 0" "tar_torque m3508 = Fin (of_int 1000)" "\<not> flag_is_stop m3508"
    by (simp_all add: the_bot_def m3508_def blank_motor_def)
  have d: "dj_motors (dev (the_bot [])) = [one_measure]" "can_id one_measure = 0x201" "mm_id one_measure = 0" "50 \<le> msg_cnt one_measure"
    "\<bar>round_cnt one_measure\<bar> \<le> 65535" "iq1_low (dev (the_bot [])) = [0, 0, 0, 0]" "write_ok (dev (the_bot [])) = []"
    "ring_holds (dj_m_ringfifo (dev (the_bot []))) 4096 []" "can_sent (dev (the_bot [])) = []"
    by (simp_all add: the_bot_def one_measure_def ring_of_holds)
  have "\<exists>s1 s2. ind_dj_can_motor_callback (the_bot []) 0x201 [0, 101, 0, 50, 0, 7, 30, 0] = Inr s1 \<and> can_rx_step built_cfg plain_pid (\<lambda>x. x) s1 = Inr s2 \<and>
    cur_speed (motor_list s2 ! 0) = Fin (of_int (sint (mk16 0 50))) \<and> cur_torque (motor_list s2 ! 0) = Fin (of_int (sint (mk16 0 7))) \<and>
    can_sent (dev s2) = can_sent (dev (the_bot [])) @ [(0x200,
      [hi8 (if flag_is_stop m3508 then 0 else of_int 1000), lo8 (if flag_is_stop m3508 then 0 else of_int 1000), hi8 0, lo8 0, hi8 0, lo8 0, hi8 0, lo8 0])]"
    by (rule dj_torque_loop [OF m(1,2) _ m(3-6) _ _ m(8) _ _ d(1-8)]) (simp_all add: m(7))
  then show ?thesis using s b m(9) d(9) by auto
qed

end
