(* ===== verification/Rounding.thy ===== *)
theory Rounding
  imports Floats
begin

text \<open>
  Rounding errors. A float is \<open>near\<close> a real number when it is finite and within a given distance of it;
  the locale gives the error of each operation for any format that rounds with a relative error, and
  it is interpreted for \<^verbatim>\<open>float\<close> and \<^verbatim>\<open>double\<close>.
\<close>

definition near :: "fl \<Rightarrow> real \<Rightarrow> real \<Rightarrow> bool" where
  "near a x e \<longleftrightarrow> (\<exists>r. a = Fin r \<and> \<bar>r - x\<bar> \<le> e)"

lemma nearI [intro]: "\<bar>r - x\<bar> \<le> e \<Longrightarrow> near (Fin r) x e"
  by (simp add: near_def)

lemma nearE [elim?]:
  assumes "near a x e"
  obtains r where "a = Fin r" "\<bar>r - x\<bar> \<le> e"
  using assms by (auto simp: near_def)

lemma near_mono: "near a x d \<Longrightarrow> d \<le> e \<Longrightarrow> near a x e"
  by (auto simp: near_def)

lemma near_nonneg: "near a x e \<Longrightarrow> 0 \<le> e"
  by (auto simp: near_def)

lemma near_neg: "near a x e \<Longrightarrow> near (fneg a) (- x) e"
  by (auto simp: near_def)

lemma near_Fin [simp]: "near (Fin r) x e \<longleftrightarrow> \<bar>r - x\<bar> \<le> e"
  by (simp add: near_def)

lemma near_exact: "near (Fin r) r 0"
  by simp

lemma near_range:
  assumes "near a x e" "lo < x - e" "x + e < hi"
  obtains r where "a = Fin r" "lo < r" "r < hi"
proof -
  from assms(1) obtain r where "a = Fin r" "\<bar>r - x\<bar> \<le> e" by (auto simp: near_def)
  then have "lo < r" "r < hi" using assms(2,3) by linarith+
  then show ?thesis using that \<open>a = Fin r\<close> by blast
qed

lemma abs_scale: "\<bar>a\<bar> \<le> A \<Longrightarrow> 0 \<le> c \<Longrightarrow> \<bar>a * c\<bar> \<le> A * c" for a :: real
  by (simp add: abs_mult mult_right_mono)

lemma abs_sums:
  fixes a b c M :: real
  assumes "\<bar>a\<bar> \<le> M" "\<bar>b\<bar> \<le> M" "\<bar>c\<bar> \<le> M"
  shows "\<bar>a - b\<bar> \<le> 2 * M" "\<bar>a + b\<bar> \<le> 2 * M" "\<bar>2 * c\<bar> \<le> 2 * M" "\<bar>a + b - 2 * c\<bar> \<le> 4 * M" "\<bar>a + b + c\<bar> \<le> 3 * M"
proof -
  show 1: "\<bar>a - b\<bar> \<le> 2 * M" using abs_triangle_ineq4 [of a b] assms(1,2) by simp
  show 2: "\<bar>a + b\<bar> \<le> 2 * M" using abs_triangle_ineq [of a b] assms(1,2) by simp
  show 3: "\<bar>2 * c\<bar> \<le> 2 * M" using assms(3) by (simp add: abs_mult)
  show "\<bar>a + b - 2 * c\<bar> \<le> 4 * M" using abs_triangle_ineq4 [of "a + b" "2 * c"] 2 3 by simp
  show "\<bar>a + b + c\<bar> \<le> 3 * M" using abs_triangle_ineq [of "a + b" c] 2 assms(3) by simp
qed
section \<open>Errors of the operations\<close>

text \<open>\<open>B\<close> bounds the result before rounding; numbers below \<open>2 ^ -100\<close> need not be told apart.\<close>

locale rounding =
  fixes fmt :: "real \<Rightarrow> fl" and u :: real
  assumes round: "\<bar>q\<bar> \<le> B \<Longrightarrow> 1 / 2 ^ 100 \<le> B \<Longrightarrow> B \<le> 2 ^ 100 \<Longrightarrow> near (fmt q) q (B * u)"
begin

lemma near_round:
  assumes "\<bar>r - x\<bar> \<le> e" "\<bar>x\<bar> + e \<le> B" "1 / 2 ^ 100 \<le> B" "B \<le> 2 ^ 100" "e + B * u \<le> c"
  shows "near (fmt r) x c"
proof -
  have "near (fmt r) r (B * u)" using assms by (intro round) linarith+
  then show ?thesis using assms(1,5) by (auto simp: near_def)
qed

lemma near_add:
  assumes "near a x e" "near b y d" "\<bar>x + y\<bar> + e + d \<le> B" "1 / 2 ^ 100 \<le> B" "B \<le> 2 ^ 100" "e + d + B * u \<le> c"
  shows "near (fadd fmt a b) (x + y) c"
proof -
  from assms(1,2) obtain r s where "a = Fin r" "\<bar>r - x\<bar> \<le> e" "b = Fin s" "\<bar>s - y\<bar> \<le> d" by (auto simp: near_def)
  then show ?thesis using assms(3-6) near_round [of "r + s" "x + y" "e + d" B c] by simp
qed

lemma near_sub:
  assumes "near a x e" "near b y d" "\<bar>x - y\<bar> + e + d \<le> B" "1 / 2 ^ 100 \<le> B" "B \<le> 2 ^ 100" "e + d + B * u \<le> c"
  shows "near (fsub fmt a b) (x - y) c"
  using near_add [OF assms(1) near_neg [OF assms(2)], of B c] assms(3-6) by (simp add: fsub_def)

lemma near_mul:
  assumes "near a x e" "near b y d" "\<bar>x\<bar> \<le> X" "\<bar>y\<bar> \<le> Y" "(X + e) * (Y + d) \<le> B" "1 / 2 ^ 100 \<le> B" "B \<le> 2 ^ 100"
    "e * Y + X * d + e * d + B * u \<le> c"
  shows "near (fmul fmt a b) (x * y) c"
proof -
  from assms(1,2) obtain r s where ab: "a = Fin r" "\<bar>r - x\<bar> \<le> e" "b = Fin s" "\<bar>s - y\<bar> \<le> d" by (auto simp: near_def)
  have e: "0 \<le> e" "0 \<le> d" using assms(1,2) near_nonneg by blast+
  have "r * s - x * y = (r - x) * y + x * (s - y) + (r - x) * (s - y)" by (simp add: algebra_simps)
  then have "\<bar>r * s - x * y\<bar> \<le> \<bar>r - x\<bar> * \<bar>y\<bar> + \<bar>x\<bar> * \<bar>s - y\<bar> + \<bar>r - x\<bar> * \<bar>s - y\<bar>"
    unfolding abs_mult [symmetric] by linarith
  also have "\<dots> \<le> e * Y + X * d + e * d"
    using ab assms(3,4) e by (intro add_mono mult_mono) simp_all
  finally have err: "\<bar>r * s - x * y\<bar> \<le> e * Y + X * d + e * d" .
  have "\<bar>r * s\<bar> \<le> (X + e) * (Y + d)"
    unfolding abs_mult using ab assms(3,4) e by (intro mult_mono) simp_all
  then have "near (fmt (r * s)) (r * s) (B * u)" using assms(5-7) by (intro round) linarith+
  then show ?thesis using ab err assms(8) by (auto simp: near_def)
qed

lemma near_div:
  assumes "near a x e" "near b y d" "\<bar>x\<bar> \<le> X" "m \<le> \<bar>y\<bar>" "0 < m" "2 * d \<le> m" "2 * (X + e) / m \<le> B" "1 / 2 ^ 100 \<le> B" "B \<le> 2 ^ 100"
    "2 * e / m + 2 * X * d / m\<^sup>2 + B * u \<le> c"
  shows "near (fdiv fmt a b) (x / y) c"
proof -
  from assms(1,2) obtain r s where ab: "a = Fin r" "\<bar>r - x\<bar> \<le> e" "b = Fin s" "\<bar>s - y\<bar> \<le> d" by (auto simp: near_def)
  have e: "0 \<le> e" "0 \<le> d" using assms(1,2) near_nonneg by blast+
  have s: "m / 2 \<le> \<bar>s\<bar>" "0 < \<bar>s\<bar>" "s \<noteq> 0" "y \<noteq> 0" using ab assms(4-6) by auto
  have "r / s - x / y = (r - x) / s - x * (s - y) / (s * y)" using s by (simp add: field_simps)
  then have "\<bar>r / s - x / y\<bar> \<le> \<bar>r - x\<bar> / \<bar>s\<bar> + \<bar>x\<bar> * \<bar>s - y\<bar> / (\<bar>s\<bar> * \<bar>y\<bar>)"
    using abs_triangle_ineq4 [of "(r - x) / s" "x * (s - y) / (s * y)"] by (simp only: abs_mult abs_divide)
  also have "\<dots> \<le> e / (m / 2) + X * d / (m / 2 * m)"
    using ab assms(3-5) e s by (intro add_mono frac_le mult_mono) auto
  also have "\<dots> = 2 * e / m + 2 * X * d / m\<^sup>2" by (simp add: power2_eq_square ac_simps)
  finally have err: "\<bar>r / s - x / y\<bar> \<le> 2 * e / m + 2 * X * d / m\<^sup>2" .
  have "\<bar>r / s\<bar> \<le> (X + e) / (m / 2)"
    unfolding abs_divide using ab assms(3,5) e s by (intro frac_le) linarith+
  then have "near (fmt (r / s)) (r / s) (B * u)" using assms(7-9) by (intro round) (simp_all add: field_simps)
  then show ?thesis using ab err s assms(10) by (auto simp: near_def)
qed

text \<open>Multiplication and division by a number that is exact.\<close>

lemma near_mul_exact:
  assumes "near a x e" "\<bar>x\<bar> \<le> X" "\<bar>y\<bar> \<le> Y" "(X + e) * Y \<le> B" "1 / 2 ^ 100 \<le> B" "B \<le> 2 ^ 100" "e * Y + B * u \<le> c"
  shows "near (fmul fmt a (Fin y)) (x * y) c"
  by (rule near_mul [OF assms(1) near_exact assms(2,3), where B = B]) (use assms(4-7) in simp_all)

lemma near_div_exact:
  assumes "near a x e" "\<bar>x\<bar> \<le> X" "m \<le> \<bar>y\<bar>" "0 < m" "(X + e) / m \<le> B" "1 / 2 ^ 100 \<le> B" "B \<le> 2 ^ 100" "e / m + B * u \<le> c"
  shows "near (fdiv fmt a (Fin y)) (x / y) c"
proof -
  from assms(1) obtain r where a: "a = Fin r" "\<bar>r - x\<bar> \<le> e" by (auto simp: near_def)
  have y: "y \<noteq> 0" using assms(3,4) by auto
  have "\<bar>r / y - x / y\<bar> = \<bar>r - x\<bar> / \<bar>y\<bar>" by (simp only: diff_divide_distrib [symmetric] abs_divide)
  also have "\<dots> \<le> e / m" using a assms(3,4) near_nonneg [OF assms(1)] by (intro frac_le) simp_all
  finally have err: "\<bar>r / y - x / y\<bar> \<le> e / m" .
  have "\<bar>r / y\<bar> \<le> (X + e) / m" unfolding abs_divide using a assms(2-4) near_nonneg [OF assms(1)] by (intro frac_le) linarith+
  then have "near (fmt (r / y)) (r / y) (B * u)" using assms(5-7) by (intro round) simp_all
  then show ?thesis using a y err assms(8) by (auto simp: near_def)
qed

end

section \<open>The two formats\<close>

lemma rnd_near:
  assumes "\<bar>q\<bar> \<le> B" "1 / 2 ^ 100 \<le> B" "emin \<le> - 101" "0 < p"
  shows "\<bar>rnd p emin q - q\<bar> \<le> B / 2 ^ p"
proof (cases "2 powi emin \<le> \<bar>q\<bar>")
  case True
  then have "\<bar>rnd p emin q - q\<bar> \<le> \<bar>q\<bar> / 2 ^ p" by (rule rnd_relative)
  also have "\<dots> \<le> B / 2 ^ p" using assms(1) by (intro divide_right_mono) simp_all
  finally show ?thesis .
next
  case False
  have "max (expo \<bar>q\<bar>) emin = emin \<or> q = 0"
    using powi_less [of "expo \<bar>q\<bar>" emin] expo_bounds(1) [of "\<bar>q\<bar>"] False by fastforce
  then have "spacing p emin q = 2 powi (emin - int p + 1) \<or> q = 0" by (auto simp: spacing_def)
  then have "\<bar>rnd p emin q - q\<bar> \<le> 2 powi (emin + 1 - int p) / 2"
    using rnd_error [of p emin q] by (auto simp: algebra_simps)
  also have "\<dots> = 2 powi emin / 2 ^ p" by (simp add: power_int_add power_int_diff)
  also have "\<dots> \<le> B / 2 ^ p"
  proof (rule divide_right_mono)
    have "(2::real) powi emin \<le> 2 powi - 100" using assms(3) by (intro power_int_increasing) simp_all
    also have "\<dots> = 1 / 2 ^ 100" by (simp add: power_int_def power_divide)
    finally show "2 powi emin \<le> B" using assms(2) by linarith
  qed simp
  finally show ?thesis .
qed

interpretation float: rounding f32 "1 / 2 ^ 24"
proof
  fix q B :: real assume q: "\<bar>q\<bar> \<le> B" "1 / 2 ^ 100 \<le> B" "B \<le> 2 ^ 100"
  have err: "\<bar>rnd 24 (- 126) q - q\<bar> \<le> B / 2 ^ 24" using q by (intro rnd_near) simp_all
  have "B / 2 ^ 24 \<le> B" using q by (simp add: field_simps)
  then have "\<bar>rnd 24 (- 126) q\<bar> \<le> 2 * 2 ^ 100" using err q by linarith
  then have "\<bar>rnd 24 (- 126) q\<bar> < 2 ^ 128" by (rule order_le_less_trans) simp
  then show "near (f32 q) q (B * (1 / 2 ^ 24))" using err by (simp add: f32_def Let_def)
qed

interpretation double: rounding f64 "1 / 2 ^ 53"
proof
  fix q B :: real assume q: "\<bar>q\<bar> \<le> B" "1 / 2 ^ 100 \<le> B" "B \<le> 2 ^ 100"
  have err: "\<bar>rnd 53 (- 1022) q - q\<bar> \<le> B / 2 ^ 53" using q by (intro rnd_near) simp_all
  have "B / 2 ^ 53 \<le> B" using q by (simp add: field_simps)
  then have "\<bar>rnd 53 (- 1022) q\<bar> \<le> 2 * 2 ^ 100" using err q by linarith
  then have "\<bar>rnd 53 (- 1022) q\<bar> < 2 ^ 1024" by (rule order_le_less_trans) simp
  then show "near (f64 q) q (B * (1 / 2 ^ 53))" using err by (simp add: f64_def Let_def)
qed

text \<open>A number multiplied by a ratio and divided by it again.\<close>

lemma ratio_back:
  assumes "\<bar>a\<bar> \<le> 2 ^ 15" "1 / 2 ^ 10 \<le> \<bar>r\<bar>" "\<bar>r\<bar> \<le> 2 ^ 20"
  shows "near (fdiv f32 (fmul f32 (Fin a) (Fin r)) (Fin r)) a (1 / 200)"
proof -
  have r: "r \<noteq> 0" using assms(2) by auto
  have "\<bar>a * r\<bar> \<le> 2 ^ 15 * \<bar>r\<bar>" unfolding abs_mult using assms(1) by (intro mult_right_mono) simp_all
  then have "near (f32 (a * r)) (a * r) (2 ^ 15 * \<bar>r\<bar> * (1 / 2 ^ 24))" using assms by (intro float.round) simp_all
  then obtain t where t: "f32 (a * r) = Fin t" "\<bar>t - a * r\<bar> \<le> \<bar>r\<bar> / 512" by (auto simp: near_def)
  have "\<bar>t / r - a\<bar> = \<bar>t - a * r\<bar> / \<bar>r\<bar>" using r by (simp add: abs_divide [symmetric] diff_divide_distrib)
  also have "\<dots> \<le> (\<bar>r\<bar> / 512) / \<bar>r\<bar>" using t(2) by (intro divide_right_mono) simp_all
  finally have q: "\<bar>t / r - a\<bar> \<le> 1 / 512" using r by simp
  then have "\<bar>t / r\<bar> \<le> 2 ^ 15 + 1" using assms(1) by linarith
  then have "near (f32 (t / r)) (t / r) ((2 ^ 15 + 1) * (1 / 2 ^ 24))" by (intro float.round) simp_all
  then obtain s where s: "f32 (t / r) = Fin s" "\<bar>s - t / r\<bar> \<le> (2 ^ 15 + 1) * (1 / 2 ^ 24)" by (auto simp: near_def)
  have "\<bar>s - a\<bar> \<le> 1 / 512 + (2 ^ 15 + 1) * (1 / 2 ^ 24)" using q s(2) by linarith
  also have "\<dots> \<le> 1 / 200" by simp
  finally show ?thesis using r t(1) s(1) by simp
qed

lemma near_to_f32:
  assumes "near a x e" "\<bar>x\<bar> + e \<le> B" "1 / 2 ^ 100 \<le> B" "B \<le> 2 ^ 100" "e + B / 2 ^ 24 \<le> c"
  shows "near (to_f32 a) x c"
  using assms float.near_round [of _ x e B c] by (auto simp: near_def)

section \<open>Numbers that are floats\<close>

text \<open>Numbers of at most 24 bits that are not finer than the finest \<^verbatim>\<open>float\<close>.\<close>

definition is_float :: "real \<Rightarrow> bool" where
  "is_float r \<longleftrightarrow> (\<exists>m k. r = of_int m * 2 powi k \<and> \<bar>m\<bar> < 2 ^ 24 \<and> - 149 \<le> k)"

lemma is_float_minus: "is_float r \<Longrightarrow> is_float (- r)"
proof -
  assume "is_float r"
  then obtain m k where r: "r = of_int m * 2 powi k" "\<bar>m\<bar> < 2 ^ 24" "- 149 \<le> k" by (auto simp: is_float_def)
  then have "- r = of_int (- m) * 2 powi k" "\<bar>- m\<bar> < 2 ^ 24" by simp_all
  then show ?thesis unfolding is_float_def using r(3) by blast
qed

lemma is_float_double: "is_float r \<Longrightarrow> is_float (2 * r)"
proof -
  assume "is_float r"
  then obtain m k where r: "r = of_int m * 2 powi k" "\<bar>m\<bar> < 2 ^ 24" "- 149 \<le> k" by (auto simp: is_float_def)
  moreover have "2 * r = of_int m * 2 powi (k + 1)" by (simp add: r(1) power_int_add)
  ultimately show ?thesis unfolding is_float_def by (intro exI [of _ m] exI [of _ "k + 1"]) simp
qed

lemma is_float_rnd: "is_float (rnd 24 (- 126) q)"
proof -
  define s where "s = max (expo \<bar>q\<bar>) (- 126) - 23"
  have sp: "spacing 24 (- 126) q = 2 powi s" by (simp add: spacing_def s_def)
  let ?n = "nearest (q / 2 powi s)"
  have n: "rnd 24 (- 126) q = of_int ?n * 2 powi s" by (simp add: rnd_def sp)
  have "\<bar>q\<bar> \<le> 2 powi (s + 24)"
  proof (cases "q = 0")
    case False
    then have "\<bar>q\<bar> < 2 powi (expo \<bar>q\<bar> + 1)" by (intro expo_bounds) simp
    also have "\<dots> \<le> 2 powi (s + 24)" unfolding s_def by (intro power_int_increasing) simp_all
    finally show ?thesis by simp
  qed simp
  then have "\<bar>q / 2 powi s\<bar> \<le> 16777216" by (simp add: power_int_add field_simps)
  then have "q / 2 powi s \<le> of_int (2 ^ 24)" "of_int (- (2 ^ 24)) \<le> q / 2 powi s" unfolding abs_le_iff by simp_all
  from nearest_mono [OF this(1)] nearest_mono [OF this(2)]
  have "?n \<le> 2 ^ 24" "- (2 ^ 24) \<le> ?n" by (simp_all only: nearest_of_int)
  then have "\<bar>?n\<bar> \<le> 2 ^ 24" by linarith
  then consider "\<bar>?n\<bar> < 2 ^ 24" | "?n = 2 ^ 24" | "?n = - (2 ^ 24)" by linarith
  then show ?thesis
  proof cases
    case 1
    then show ?thesis unfolding is_float_def n by (intro exI [of _ ?n] exI [of _ s]) (simp add: s_def)
  next
    case 2
    then have "rnd 24 (- 126) q = of_int 1 * 2 powi (s + 24)" unfolding n by (simp add: power_int_add)
    then show ?thesis unfolding is_float_def by (intro exI [of _ 1] exI [of _ "s + 24"]) (simp add: s_def)
  next
    case 3
    then have "rnd 24 (- 126) q = of_int (- 1) * 2 powi (s + 24)" unfolding n by (simp add: power_int_add)
    then show ?thesis unfolding is_float_def by (intro exI [of _ "- 1"] exI [of _ "s + 24"]) (simp add: s_def)
  qed
qed

lemma f32_is_float: "f32 q = Fin r \<Longrightarrow> is_float r \<and> \<bar>r\<bar> < 2 ^ 128"
  using is_float_rnd by (auto simp: f32_def Let_def split: if_splits)

lemma is_float_f32: "is_float r \<Longrightarrow> \<bar>r\<bar> < 2 ^ 128 \<Longrightarrow> f32 r = Fin r"
  by (auto simp: is_float_def f32_def Let_def rnd_exact)

lemma fdiv_is_float: "fdiv f32 a b = Fin r \<Longrightarrow> is_float r \<and> \<bar>r\<bar> < 2 ^ 128"
proof -
  have "is_float 0" unfolding is_float_def by (intro exI [of _ 0] exI [of _ 0]) simp
  then show "fdiv f32 a b = Fin r \<Longrightarrow> ?thesis"
    by (cases "(f32, a, b)" rule: fdiv.cases) (auto dest: f32_is_float split: if_splits)
qed

lemma to_f32_minus: "to_f32 (fneg a) = fneg (to_f32 a)"
  by (cases a) (auto simp: f32_def Let_def)

end
