(* ===== verification/Filters.thy ===== *)
theory Filters
  imports Rounding Trajectory
begin

text \<open>
  The four filters of \<^verbatim>\<open>filters/filter.c\<close> behind one interface: sliding window, low pass, block mean and
  notch. A pointer into a memory block is the list of the numbers that are left of the block from it on,
  so that every access past the block is a fault. \<^verbatim>\<open>malloc\<close> is a parameter, which requests it serves, and so
  are the sine and the cosine of the C library.
\<close>

section \<open>Data\<close>

record SlidingWindowFilter =
  window :: "fl list"
  win_size :: int
  win_index :: int
  win_sum :: fl

record LowPassFilter =
  parame :: fl
  last_in :: fl

record MeanFilter =
  data :: "fl list"
  mean_size :: int
  mean_index :: int
  mean_sum :: fl

record NotchFilter =
  previousInputs :: "fl list"
  previousOutputs :: "fl list"
  FILTER_FREQUENCY :: fl
  Q_FACTOR :: fl

text \<open>The kinds of object \<^verbatim>\<open>params\<close> points to. The initialisations set it with the function that works on it; an
  object of another kind read as this one is taken as a fault.\<close>

datatype filter_params = Slide SlidingWindowFilter | LowPass LowPassFilter | Mean MeanFilter | Notch NotchFilter

datatype filter_function = filter_slide | filter_lowpass | filter_mean | filter_notch

record filter_t =
  FilterFunction :: "filter_function option"
  params :: "filter_params option"
  name :: string

section \<open>Filtering\<close>

text \<open>An array access with an index that may be negative.\<close>

definition rd_at :: "fl list \<Rightarrow> int \<Rightarrow> fl cres" where
  "rd_at xs i = (if i < 0 then Inl OutOfBounds else rd xs (nat i))"

definition wr_at :: "fl list \<Rightarrow> int \<Rightarrow> fl \<Rightarrow> fl list cres" where
  "wr_at xs i v = (if i < 0 then Inl OutOfBounds else wr xs (nat i) v)"

text \<open>The index is not negative here, so the remainder of C is the modulus by the absolute value.\<close>

definition slide :: "SlidingWindowFilter \<Rightarrow> fl \<Rightarrow> (fl \<times> SlidingWindowFilter) cres" where
  "slide f x =
     cbind (rd_at (window f) (win_index f)) (\<lambda>old.
     let f = f\<lparr>win_sum := fadd f32 (fsub f32 (win_sum f) old) x\<rparr> in
     cbind (wr_at (window f) (win_index f) x) (\<lambda>w.
     let f = f\<lparr>window := w\<rparr> in
     cbind (chk32 (win_index f + 1)) (\<lambda>i.
     if win_size f = 0 then Inl DivByZero
     else let f = f\<lparr>win_index := i mod \<bar>win_size f\<bar>\<rparr> in
          Inr (fdiv f32 (win_sum f) (f32_int (win_size f)), f))))"

definition lowpass :: "LowPassFilter \<Rightarrow> fl \<Rightarrow> fl \<times> LowPassFilter" where
  "lowpass f x =
     (let out = fadd f32 (fmul f32 (fsub f32 (Fin 1) (parame f)) (last_in f)) (fmul f32 (parame f) x)
      in (out, f\<lparr>last_in := x\<rparr>))"

definition mean :: "MeanFilter \<Rightarrow> fl \<Rightarrow> (fl \<times> MeanFilter) cres" where
  "mean f x =
     cbind (chk32 (mean_index f + 1)) (\<lambda>i.
     let f = f\<lparr>mean_index := i\<rparr> in
     cbind (wr_at (data f) (mean_index f) x) (\<lambda>d.
     let f = f\<lparr>data := d, mean_sum := fadd f32 (mean_sum f) x\<rparr> in
     cbind (chk32 (mean_size f - 1)) (\<lambda>n.
     if mean_index f = n
     then let f = f\<lparr>mean_index := 0, mean_sum := Fin 0\<rparr> in Inr (fdiv f32 (mean_sum f) (f32_int (mean_size f)), f)
     else Inr (Fin 0, f))))"

definition PI_d :: fl where "PI_d = f64 (3141592653589793 / 1000000000000000)"

definition notch :: "(fl \<Rightarrow> fl) \<Rightarrow> (fl \<Rightarrow> fl) \<Rightarrow> NotchFilter \<Rightarrow> fl \<Rightarrow> (fl \<times> NotchFilter) cres" where
  "notch sin_d cos_d f x =
     (let omega = to_f32 (fmul f64 (fmul f64 (Fin 2) PI_d) (FILTER_FREQUENCY f));
          alpha = to_f32 (fdiv f64 (sin_d omega) (fmul f64 (Fin 2) (Q_FACTOR f)));
          a1 = to_f32 (fmul f64 (Fin (- 2)) (cos_d omega));
          a2 = to_f32 (fsub f64 (Fin 1) alpha);
          b0 = Fin 1;
          b1 = to_f32 (fmul f64 (Fin (- 2)) (cos_d omega));
          b2 = Fin 1 in
      cbind (rd (previousInputs f) 0) (\<lambda>x0.
      cbind (rd (previousInputs f) 1) (\<lambda>x1.
      cbind (rd (previousOutputs f) 0) (\<lambda>y0.
      cbind (rd (previousOutputs f) 1) (\<lambda>y1.
      let out = fsub f32 (fsub f32 (fadd f32 (fadd f32 (fmul f32 b0 x) (fmul f32 b1 x0)) (fmul f32 b2 x1)) (fmul f32 a1 y0)) (fmul f32 a2 y1) in
      cbind (wr (previousInputs f) 1 x0) (\<lambda>pi.
      cbind (wr pi 0 x) (\<lambda>pi.
      cbind (wr (previousOutputs f) 1 y0) (\<lambda>po.
      cbind (wr po 0 out) (\<lambda>po.
      Inr (out, f\<lparr>previousInputs := pi, previousOutputs := po\<rparr>))))))))))"

definition filter_run :: "(fl \<Rightarrow> fl) \<Rightarrow> (fl \<Rightarrow> fl) \<Rightarrow> filter_t \<Rightarrow> fl \<Rightarrow> (fl \<times> filter_t) cres" where
  "filter_run sin_d cos_d f x =
     (case (FilterFunction f, params f) of
        (None, _) \<Rightarrow> Inl NullCall
      | (Some _, None) \<Rightarrow> Inl NullDeref
      | (Some filter_slide, Some (Slide s)) \<Rightarrow> cbind (slide s x) (\<lambda>(y, s). Inr (y, f\<lparr>params := Some (Slide s)\<rparr>))
      | (Some filter_lowpass, Some (LowPass s)) \<Rightarrow> (let (y, s) = lowpass s x in Inr (y, f\<lparr>params := Some (LowPass s)\<rparr>))
      | (Some filter_mean, Some (Mean s)) \<Rightarrow> cbind (mean s x) (\<lambda>(y, s). Inr (y, f\<lparr>params := Some (Mean s)\<rparr>))
      | (Some filter_notch, Some (Notch s)) \<Rightarrow> cbind (notch sin_d cos_d s x) (\<lambda>(y, s). Inr (y, f\<lparr>params := Some (Notch s)\<rparr>))
      | _ \<Rightarrow> Inl OutOfBounds)"

definition filter_free :: "filter_t \<Rightarrow> filter_t" where
  "filter_free f = f\<lparr>FilterFunction := None, params := None\<rparr>"

section \<open>Initialisation\<close>

text \<open>
  The parameter structures with an array have 16 bytes, of pointers, integers and floats with 4 bytes each. Their
  array is meant to follow them in the same block, but \<^verbatim>\<open>(T *)p + sizeof(T)\<close> counts in structures: the
  pointer is 16 structures, 256 bytes, past the start of the block.
\<close>

definition words_from :: "nat \<Rightarrow> nat \<Rightarrow> nat" where
  "words_from n k = (n - k) div 4"

text \<open>\<^verbatim>\<open>memset(p, 0, n)\<close> on the array of \<open>k\<close> numbers at \<^verbatim>\<open>p\<close>, for a size \<open>n\<close> in bytes that is a multiple of 4.\<close>

definition zeroed :: "nat \<Rightarrow> nat \<Rightarrow> fl list cres" where
  "zeroed k n = (if n \<le> 4 * k then Inr (replicate k (Fin 0)) else Inl OutOfBounds)"

definition bytes32 :: "int \<Rightarrow> nat" where
  "bytes32 n = nat (n mod 2 ^ 32)"

definition filter_init_sliding_window :: "(nat \<Rightarrow> bool) \<Rightarrow> filter_t \<Rightarrow> int \<Rightarrow> filter_t cres" where
  "filter_init_sliding_window malloc f sz =
     (let f = f\<lparr>FilterFunction := Some filter_slide, name := ''slide''\<rparr>; n = bytes32 (16 + 4 * sz) in
      if \<not> malloc n then Inl NullDeref
      else cbind (zeroed (words_from n 256) (bytes32 (4 * sz))) (\<lambda>w.
           Inr (f\<lparr>params := Some (Slide \<lparr>window = w, win_size = sz, win_index = 0, win_sum = Fin 0\<rparr>)\<rparr>)))"

definition filter_init_lowpass :: "(nat \<Rightarrow> bool) \<Rightarrow> filter_t \<Rightarrow> fl \<Rightarrow> filter_t cres" where
  "filter_init_lowpass malloc f p =
     (let f = f\<lparr>FilterFunction := Some filter_lowpass, name := ''lowpass''\<rparr> in
      if \<not> malloc 8 then Inl NullDeref
      else Inr (f\<lparr>params := Some (LowPass \<lparr>parame = p, last_in = Fin 0\<rparr>)\<rparr>))"

definition filter_init_mean :: "(nat \<Rightarrow> bool) \<Rightarrow> filter_t \<Rightarrow> int \<Rightarrow> filter_t cres" where
  "filter_init_mean malloc f sz =
     (let f = f\<lparr>FilterFunction := Some filter_mean, name := ''mean''\<rparr>; n = bytes32 (16 + 4 * sz) in
      if \<not> malloc n then Inl NullDeref
      else cbind (zeroed (words_from n 256) (bytes32 (4 * sz))) (\<lambda>w.
           Inr (f\<lparr>params := Some (Mean \<lparr>data = w, mean_size = sz, mean_index = 0, mean_sum = Fin 0\<rparr>)\<rparr>)))"

text \<open>The second array of the notch filter is 8 more structures away.\<close>

definition filter_init_notch :: "(nat \<Rightarrow> bool) \<Rightarrow> filter_t \<Rightarrow> fl \<Rightarrow> fl \<Rightarrow> filter_t cres" where
  "filter_init_notch malloc f freq q =
     (let f = f\<lparr>FilterFunction := Some filter_notch, name := ''notch''\<rparr> in
      if \<not> malloc 32 then Inl NullDeref
      else cbind (zeroed (words_from 32 256) 8) (\<lambda>pi. cbind (zeroed (words_from 32 384) 8) (\<lambda>po.
           Inr (f\<lparr>params := Some (Notch \<lparr>previousInputs = pi, previousOutputs = po, FILTER_FREQUENCY = freq, Q_FACTOR = q\<rparr>)\<rparr>))))"

text \<open>
  The size is stored before it is compared with itself, so the branch that makes room is never taken; it would
  reallocate a pointer that \<^verbatim>\<open>malloc\<close> did not return, which is a fault. A filter of another kind has no
  window size to set.
\<close>

definition filter_set_sliding_window :: "filter_t \<Rightarrow> int \<Rightarrow> filter_t cres" where
  "filter_set_sliding_window f sz =
     (case params f of
        None \<Rightarrow> Inl NullDeref
      | Some (Slide s) \<Rightarrow>
          (let s = s\<lparr>win_size := sz\<rparr> in
           if sz > win_size s then Inl OutOfBounds else Inr (f\<lparr>params := Some (Slide s)\<rparr>))
      | Some _ \<Rightarrow> Inl OutOfBounds)"

text \<open>A sequence of samples through one filter.\<close>

fun filter_runs :: "(fl \<Rightarrow> fl) \<Rightarrow> (fl \<Rightarrow> fl) \<Rightarrow> filter_t \<Rightarrow> fl list \<Rightarrow> (fl list \<times> filter_t) cres" where
  "filter_runs sin_d cos_d f [] = Inr ([], f)"
| "filter_runs sin_d cos_d f (x # xs) =
     cbind (filter_run sin_d cos_d f x) (\<lambda>(y, f). cbind (filter_runs sin_d cos_d f xs) (\<lambda>(ys, f). Inr (y # ys, f)))"

section \<open>The blocks\<close>

lemma size_wraps: "bytes32 (4 * sz) = 0 \<longleftrightarrow> sz mod 2 ^ 30 = 0"
proof -
  have "(4 * sz) mod (4 * 2 ^ 30) = 4 * (sz mod 2 ^ 30)" by (rule mult_mod_right [symmetric])
  then have "(4 * sz) mod 2 ^ 32 = 4 * (sz mod 2 ^ 30)" by simp
  moreover have "0 \<le> sz mod 1073741824" by simp
  then have "sz mod 1073741824 \<le> 0 \<longleftrightarrow> sz mod 1073741824 = 0" by linarith
  ultimately show ?thesis unfolding bytes32_def by simp
qed

lemma block_size: "bytes32 (16 + 4 * sz) \<le> 16 + bytes32 (4 * sz)"
proof -
  let ?a = "(4 * sz) mod 2 ^ 32"
  have a: "0 \<le> ?a" by simp
  have "(16 + 4 * sz) mod 2 ^ 32 = (16 + ?a) mod 2 ^ 32" by (simp add: mod_simps)
  also have "\<dots> \<le> 16 + ?a" using a by (intro zmod_le_nonneg_dividend) simp
  finally show ?thesis unfolding bytes32_def using a by linarith
qed

lemma window_zeroed:
  "zeroed (words_from (bytes32 (16 + 4 * sz)) 256) (bytes32 (4 * sz)) = (if sz mod 2 ^ 30 = 0 then Inr [] else Inl OutOfBounds)"
proof (cases "bytes32 (4 * sz) = 0")
  case True
  then show ?thesis using block_size [of sz] size_wraps [of sz] by (simp add: zeroed_def words_from_def)
next
  case False
  then have "4 * words_from (bytes32 (16 + 4 * sz)) 256 < bytes32 (4 * sz)" using block_size [of sz] unfolding words_from_def by linarith
  then show ?thesis using False size_wraps [of sz] by (simp add: zeroed_def)
qed

text \<open>
  C37: no filter with an array works, whatever its size. Without memory the initialisation follows the null pointer. With memory a
  sliding window and a block mean clear an array that leaves its block, unless the size is a multiple of \<open>2 ^ 30\<close>, with 0 the only
  sensible one, when nothing is cleared and the first sample is read or written outside the block; the
  notch filter fails to be initialised always. Only the low pass filter, which has no array, is initialised.
\<close>
theorem filter_arrays_outside:
  "(if \<not> malloc (bytes32 (16 + 4 * sz))
    then filter_init_sliding_window malloc f sz = Inl NullDeref \<and> filter_init_mean malloc f sz = Inl NullDeref
    else if sz mod 2 ^ 30 \<noteq> 0
    then filter_init_sliding_window malloc f sz = Inl OutOfBounds \<and> filter_init_mean malloc f sz = Inl OutOfBounds
    else \<exists>fs fm. filter_init_sliding_window malloc f sz = Inr fs \<and> filter_init_mean malloc f sz = Inr fm \<and>
      (\<forall>sin_d cos_d x. filter_run sin_d cos_d fs x = Inl OutOfBounds \<and> filter_run sin_d cos_d fm x = Inl OutOfBounds)) \<and>
   filter_init_notch malloc f freq q = Inl (if malloc 32 then OutOfBounds else NullDeref) \<and>
   (if malloc 8 then \<exists>f'. filter_init_lowpass malloc f p = Inr f' \<and> params f' = Some (LowPass \<lparr>parame = p, last_in = Fin 0\<rparr>)
    else filter_init_lowpass malloc f p = Inl NullDeref)"
proof -
  have "zeroed (words_from 32 256) 8 = Inl OutOfBounds" by (simp add: zeroed_def words_from_def)
  then show ?thesis
    by (simp add: filter_init_sliding_window_def filter_init_mean_def filter_init_notch_def filter_init_lowpass_def window_zeroed
        filter_run_def slide_def mean_def rd_at_def wr_at_def rd_def wr_def chk32_def Let_def)
qed

theorem filter_arrays_outside_witness:
  "filter_init_sliding_window (\<lambda>n. n < 4096) \<lparr>FilterFunction = None, params = None, name = []\<rparr> 10 = Inl OutOfBounds \<and>
   (\<exists>fs. filter_init_sliding_window (\<lambda>n. n < 4096) \<lparr>FilterFunction = None, params = None, name = []\<rparr> 0 = Inr fs \<and>
      filter_run (\<lambda>x. x) (\<lambda>x. x) fs (Fin 1) = Inl OutOfBounds)"
  using filter_arrays_outside [of "\<lambda>n. n < 4096" 10 "\<lparr>FilterFunction = None, params = None, name = []\<rparr>"]
    filter_arrays_outside [of "\<lambda>n. n < 4096" 0 "\<lparr>FilterFunction = None, params = None, name = []\<rparr>"] by (simp add: bytes32_def) blast

section \<open>The sliding window\<close>

text \<open>
  A window in order: its \<open>n\<close> places hold the numbers \<open>r\<close>, oldest first from the index on, all bounded by \<open>M\<close>, and the sum
  is within \<open>e\<close> of theirs.
\<close>

definition win_state :: "nat \<Rightarrow> real \<Rightarrow> SlidingWindowFilter \<Rightarrow> real list \<Rightarrow> real \<Rightarrow> bool" where
  "win_state n M s r e \<longleftrightarrow> (\<exists>i < n. \<exists>ws. window s = map Fin ws \<and> length ws = n \<and> r = drop i ws @ take i ws \<and>
     win_size s = int n \<and> win_index s = int i \<and> (\<forall>w \<in> set ws. \<bar>w\<bar> \<le> M) \<and> near (win_sum s) (sum_list r) e)"

lemma sum_list_bound: "(\<forall>w \<in> set ws. \<bar>w\<bar> \<le> M) \<Longrightarrow> \<bar>sum_list ws\<bar> \<le> real (length ws) * M" for ws :: "real list" and M :: real
  by (induction ws) (auto simp: algebra_simps)

text \<open>One sample: the oldest number leaves, the sample enters.\<close>

lemma slide_step:
  assumes "win_state n M s r e" "\<bar>x\<bar> \<le> M" "1 \<le> M" "real n * M \<le> 2 ^ 30" "n \<le> 2 ^ 20" "d = 2 * (real n + 2) * M / 2 ^ 24" "e + d \<le> M"
  obtains y s' where "slide s (Fin x) = Inr (y, s')" "win_state n M s' (tl r @ [x]) (e + d)"
    "near y (sum_list (tl r @ [x]) / real n) ((e + d) / real n + 4 * M / 2 ^ 24)"
proof -
  obtain i ws where s: "i < n" "window s = map Fin ws" "length ws = n" "r = drop i ws @ take i ws" "win_size s = int n" "win_index s = int i"
    "\<forall>w \<in> set ws. \<bar>w\<bar> \<le> M" "near (win_sum s) (sum_list r) e" using assms(1) by (auto simp: win_state_def)
  have e: "0 \<le> e" using near_nonneg [OF s(8)] .
  have r: "r = ws ! i # tl r" using s(1,3,4) by (simp add: Cons_nth_drop_Suc [symmetric])
  have len: "length r = n" using s(1,3,4) by simp
  have rM: "\<forall>w \<in> set r. \<bar>w\<bar> \<le> M" using s(4,7) by (auto dest: in_set_dropD in_set_takeD)
  then have tM: "\<forall>w \<in> set (tl r). \<bar>w\<bar> \<le> M" by (metis r set_ConsD list.set_intros(2))
  have n: "0 < real n" using s(1) by simp
  have "\<bar>sum_list (tl r)\<bar> \<le> real (length (tl r)) * M" using tM by (rule sum_list_bound)
  also have "\<dots> \<le> real n * M" using len assms(3) by (intro mult_right_mono) simp_all
  finally have t: "\<bar>sum_list (tl r)\<bar> \<le> real n * M" .
  define B where "B = (real n + 2) * M"
  have B: "real n * M + 2 * M = B" "1 \<le> B" "B \<le> 1099511627776"
  proof -
    show B3: "real n * M + 2 * M = B" by (simp add: B_def algebra_simps)
    have "1 * 1 \<le> B" unfolding B_def using n assms(3) by (intro mult_mono) simp_all
    then show "1 \<le> B" by simp
    have "1 * M \<le> real n * M" using s(1) assms(3) by (intro mult_right_mono) simp_all
    moreover have "real n * M \<le> 1073741824" using assms(4) by simp
    ultimately show "B \<le> 1099511627776" using B3 by linarith
  qed
  have Bp: "1 / 2 ^ 100 \<le> B" "B \<le> 2 ^ 100" using B(2,3) by simp_all
  have dB: "d = B / 16777216 + B / 16777216" unfolding assms(6) B_def by (simp add: field_simps)
  have "sum_list r = ws ! i + sum_list (tl r)" by (subst r) simp
  then have sr: "sum_list r - ws ! i = sum_list (tl r)" by simp
  have "\<bar>sum_list r - ws ! i\<bar> + e + 0 \<le> B" unfolding sr using t B dB assms(3,7) by linarith
  from float.near_sub [OF s(8) near_exact this Bp, of "e + B / 16777216"]
  have 1: "near (fsub f32 (win_sum s) (Fin (ws ! i))) (sum_list (tl r)) (e + B / 16777216)" by (simp add: sr)
  have tx: "\<bar>sum_list (tl r) + x\<bar> \<le> real n * M + M" using t assms(2) by linarith
  have "\<bar>sum_list (tl r) + x\<bar> + (e + B / 16777216) + 0 \<le> B" using tx B dB assms(3,7) by linarith
  from float.near_add [OF 1 near_exact this Bp, of "e + d"]
  have 2: "near (fadd f32 (fsub f32 (win_sum s) (Fin (ws ! i))) (Fin x)) (sum_list (tl r) + x) (e + d)" by (simp add: dB)
  let ?ws = "ws[i := x]" and ?j = "if Suc i = n then 0 else Suc i"
  have "Suc i mod n = ?j" using s(1) by simp
  moreover have "(int i + 1) mod \<bar>int n\<bar> = int (Suc i mod n)" by (simp add: zmod_int add.commute)
  ultimately have j: "(int i + 1) mod \<bar>int n\<bar> = int ?j" by simp
  have rot: "drop ?j ?ws @ take ?j ?ws = tl r @ [x]"
  proof (cases "Suc i = n")
    case True
    then have "?ws = take i ws @ [x]" using s(3) by (intro full_update) simp
    moreover have "drop i ws = [ws ! i]" using True s(3) by (metis Cons_nth_drop_Suc drop_all le_refl lessI)
    ultimately show ?thesis using True s(4) by simp
  next
    case False
    then have "drop (Suc i) ?ws = drop (Suc i) ws" "take (Suc i) ?ws = take i ws @ [x]" using s(1,3) by simp_all
    moreover have "tl r = drop (Suc i) ws @ take i ws" using s(1,3,4) by (simp add: Cons_nth_drop_Suc [symmetric])
    ultimately show ?thesis using False by simp
  qed
  let ?s = "s\<lparr>win_sum := fadd f32 (fsub f32 (win_sum s) (Fin (ws ! i))) (Fin x), window := map Fin ?ws, win_index := int ?j\<rparr>"
  have ij: "- (2 ^ 31) \<le> int i + 1" "int i + 1 < 2 ^ 31" using s(1) assms(5) by simp_all
  have sl: "slide s (Fin x) = Inr (fdiv f32 (win_sum ?s) (f32_int (int n)), ?s)"
    using s(1-3,5,6) j chk32_ok [OF ij] by (simp add: slide_def rd_at_def wr_at_def Let_def map_update)
  have "near (win_sum ?s) (sum_list (tl r @ [x])) (e + d)" using 2 by simp
  moreover have "\<forall>w \<in> set ?ws. \<bar>w\<bar> \<le> M" using s(7) assms(2) set_update_subset_insert [of ws i x] by auto
  ultimately have st: "win_state n M ?s (tl r @ [x]) (e + d)"
    unfolding win_state_def using s(1,3,5) rot by (intro exI [of _ ?j] conjI exI [of _ ?ws]) auto
  have fi: "f32_int (int n) = Fin (real n)" using assms(5) f32_of_int [of "int n"] by (simp add: f32_int_def)
  have 3: "near (win_sum ?s) (sum_list (tl r @ [x])) (e + d)" using 2 by simp
  have X: "\<bar>sum_list (tl r @ [x])\<bar> \<le> real n * M + M" using tx by simp
  have "(real n * M + M + (e + d)) / real n \<le> 3 * M"
  proof -
    have "1 * M \<le> real n * M" using s(1) assms(3) by (intro mult_right_mono) simp_all
    then have "real n * M + M + (e + d) \<le> 3 * M * real n" using assms(7) by (simp add: algebra_simps)
    then show ?thesis using n by (simp add: pos_divide_le_eq)
  qed
  moreover have "M \<le> 1073741824"
  proof -
    have "1 * M \<le> real n * M" using s(1) assms(3) by (intro mult_right_mono) simp_all
    then show ?thesis using assms(4) by simp
  qed
  ultimately have "near (fdiv f32 (win_sum ?s) (Fin (real n))) (sum_list (tl r @ [x]) / real n) ((e + d) / real n + 4 * M / 2 ^ 24)"
    using n assms(3) by (intro float.near_div_exact [OF 3 X, where m = "real n" and B = "3 * M"]) simp_all
  then show ?thesis using sl st fi by (intro that) simp_all
qed

text \<open>The mean of the last \<open>n\<close> samples, with zeros before the first.\<close>

definition last_mean :: "nat \<Rightarrow> real list \<Rightarrow> real" where
  "last_mean n xs = sum_list (drop (length xs) (replicate n 0 @ xs)) / real n"

lemma slide_runs:
  assumes "win_state n M s r e" "\<forall>x \<in> set xs. \<bar>x\<bar> \<le> M" "1 \<le> M" "real n * M \<le> 2 ^ 30" "n \<le> 2 ^ 20" "d = 2 * (real n + 2) * M / 2 ^ 24"
    "e + real (length xs) * d \<le> M" "FilterFunction f = Some filter_slide" "params f = Some (Slide s)"
  shows "\<exists>ys f'. filter_runs sin_d cos_d f (map Fin xs) = Inr (ys, f') \<and> length ys = length xs \<and>
    (\<forall>j < length xs. near (ys ! j) (sum_list (drop (Suc j) (r @ take (Suc j) xs)) / real n) ((e + real (Suc j) * d) / real n + 4 * M / 2 ^ 24))"
  using assms(1,2,7-9)
proof (induction xs arbitrary: s r e f)
  case (Cons x xs)
  have d: "0 \<le> d" unfolding assms(6) using assms(3) by simp
  have "0 \<le> real (length xs) * d" using d by simp
  then have ed: "e + d \<le> M" using Cons.prems(3) by (simp add: algebra_simps)
  have len: "length r = n" "r \<noteq> []" using Cons.prems(1) by (auto simp: win_state_def)
  obtain y s' where st: "slide s (Fin x) = Inr (y, s')" "win_state n M s' (tl r @ [x]) (e + d)"
    "near y (sum_list (tl r @ [x]) / real n) ((e + d) / real n + 4 * M / 2 ^ 24)"
    by (rule slide_step [OF Cons.prems(1) _ assms(3-6) ed, of x]) (use Cons.prems(2) in simp)
  let ?f = "f\<lparr>params := Some (Slide s')\<rparr>"
  have run: "filter_run sin_d cos_d f (Fin x) = Inr (y, ?f)" using st(1) Cons.prems(4,5) by (simp add: filter_run_def)
  have "e + d + real (length xs) * d \<le> M" using Cons.prems(3) by (simp add: algebra_simps)
  from Cons.IH [OF st(2) _ this, of ?f] Cons.prems(2,4)
  obtain ys f' where ys: "filter_runs sin_d cos_d ?f (map Fin xs) = Inr (ys, f')" "length ys = length xs"
    "\<forall>j < length xs. near (ys ! j) (sum_list (drop (Suc j) ((tl r @ [x]) @ take (Suc j) xs)) / real n) ((e + d + real (Suc j) * d) / real n + 4 * M / 2 ^ 24)"
    by auto
  have "near ((y # ys) ! j) (sum_list (drop (Suc j) (r @ take (Suc j) (x # xs))) / real n) ((e + real (Suc j) * d) / real n + 4 * M / 2 ^ 24)"
    if "j < length (x # xs)" for j
  proof (cases j)
    case 0
    have "drop (Suc 0) (r @ [x]) = tl r @ [x]" using len(2) by (cases r) simp_all
    then show ?thesis using st(3) 0 by simp
  next
    case (Suc k)
    have "drop (Suc j) (r @ take (Suc j) (x # xs)) = drop (Suc k) ((tl r @ [x]) @ take (Suc k) xs)" using Suc len(2) by (cases r) simp_all
    moreover have "e + d + real (Suc k) * d = e + real (Suc j) * d" using Suc by (simp add: algebra_simps)
    ultimately show ?thesis using ys(3) that Suc by (metis Suc_less_eq length_Cons nth_Cons_Suc)
  qed
  then show ?case using run ys(1,2) by (intro exI [of _ "y # ys"] exI [of _ f']) simp
qed (simp add: assms)

text \<open>
  C15: a sliding window that starts with \<open>n\<close> zeros returns, for every sample of a sequence bounded by \<open>M\<close>, the mean of
  the last \<open>n\<close> samples. The running sum keeps the rounding errors of all samples, so the distance to the exact
  mean grows with the number \<open>j\<close> of samples, by at most \<open>M / 2 ^ 21\<close> for each.
\<close>
theorem slide_mean_drift:
  assumes "0 < n" "n \<le> 2 ^ 20" "1 \<le> M" "real n * M \<le> 2 ^ 30" "\<forall>x \<in> set xs. \<bar>x\<bar> \<le> M" "length xs * (n + 2) \<le> 2 ^ 23"
    "FilterFunction f = Some filter_slide"
    "params f = Some (Slide \<lparr>window = replicate n (Fin 0), win_size = int n, win_index = 0, win_sum = Fin 0\<rparr>)"
  shows "\<exists>ys f'. filter_runs sin_d cos_d f (map Fin xs) = Inr (ys, f') \<and> length ys = length xs \<and>
    (\<forall>j < length xs. near (ys ! j) (last_mean n (take (Suc j) xs)) (real (j + 2) * M / 2 ^ 21))"
proof -
  let ?s = "\<lparr>window = replicate n (Fin 0), win_size = int n, win_index = 0, win_sum = Fin 0\<rparr>"
  let ?r = "replicate n (0 :: real)"
  define d where "d = 2 * (real n + 2) * M / 2 ^ 24"
  have st: "win_state n M ?s ?r 0"
    unfolding win_state_def using assms(1,3)
    by (intro exI [of _ 0] conjI exI [of _ ?r]) (auto simp: sum_list_replicate)
  have "real (length xs * (n + 2)) \<le> 2 ^ 23" using assms(6) by (metis of_nat_le_iff of_nat_numeral of_nat_power)
  then have l: "real (length xs) * (real n + 2) \<le> 8388608" by (simp add: algebra_simps)
  have "0 + real (length xs) * d = real (length xs) * (real n + 2) * (M / 8388608)" by (simp add: d_def)
  also have "\<dots> \<le> 8388608 * (M / 8388608)" using l assms(3) by (intro mult_right_mono) simp_all
  finally have b: "0 + real (length xs) * d \<le> M" by simp
  obtain ys f' where ys: "filter_runs sin_d cos_d f (map Fin xs) = Inr (ys, f')" "length ys = length xs"
    "\<forall>j < length xs. near (ys ! j) (sum_list (drop (Suc j) (?r @ take (Suc j) xs)) / real n) ((0 + real (Suc j) * d) / real n + 4 * M / 2 ^ 24)"
    using slide_runs [OF st assms(5,3,4,2) d_def b assms(7,8)] by blast
  have "near (ys ! j) (last_mean n (take (Suc j) xs)) (real (j + 2) * M / 2 ^ 21)" if j: "j < length xs" for j
  proof -
    have "d / real n = 2 * M / 2 ^ 24 * ((real n + 2) / real n)" using assms(1) by (simp add: d_def field_simps)
    also have "\<dots> \<le> 2 * M / 2 ^ 24 * 3" using assms(1,3) by (intro mult_left_mono) (simp_all add: field_simps)
    finally have "real (Suc j) * (d / real n) \<le> real (Suc j) * (2 * M / 2 ^ 24 * 3)" by (intro mult_left_mono) simp_all
    then have "(0 + real (Suc j) * d) / real n + 4 * M / 2 ^ 24 \<le> real (Suc j) * (2 * M / 2 ^ 24 * 3) + 4 * M / 2 ^ 24" by simp
    also have "\<dots> \<le> real (j + 2) * M / 2 ^ 21"
    proof -
      have "0 \<le> real j * M" using assms(3) by simp
      moreover have l: "real (Suc j) * (2 * M / 2 ^ 24 * 3) + 4 * M / 2 ^ 24 = (6 * (real j * M) + 10 * M) / 16777216" by (simp add: field_simps)
      moreover have r: "real (j + 2) * M / 2 ^ 21 = (8 * (real j * M) + 16 * M) / 16777216" by (simp add: field_simps)
      ultimately show ?thesis unfolding l r using assms(3) by argo
    qed
    finally have le: "(0 + real (Suc j) * d) / real n + 4 * M / 2 ^ 24 \<le> real (j + 2) * M / 2 ^ 21" .
    have "last_mean n (take (Suc j) xs) = sum_list (drop (Suc j) (?r @ take (Suc j) xs)) / real n"
      using j by (simp add: last_mean_def)
    then show ?thesis using near_mono [OF ys(3) [rule_format, OF j] le] by simp
  qed
  then show ?thesis using ys by blast
qed

theorem slide_mean_drift_witness:
  "\<exists>ys f'. filter_runs (\<lambda>x. x) (\<lambda>x. x) \<lparr>FilterFunction = Some filter_slide,
       params = Some (Slide \<lparr>window = replicate 2 (Fin 0), win_size = 2, win_index = 0, win_sum = Fin 0\<rparr>), name = []\<rparr> (map Fin [1, 3]) = Inr (ys, f') \<and>
     near (ys ! 1) 2 (3 * 3 / 2 ^ 21)"
proof -
  let ?f = "\<lparr>FilterFunction = Some filter_slide,
       params = Some (Slide \<lparr>window = replicate 2 (Fin 0), win_size = 2, win_index = 0, win_sum = Fin 0\<rparr>), name = []\<rparr>"
  have "\<exists>ys f'. filter_runs (\<lambda>x. x) (\<lambda>x. x) ?f (map Fin [1, 3]) = Inr (ys, f') \<and> length ys = length [1, 3 :: real] \<and>
    (\<forall>j < length [1, 3 :: real]. near (ys ! j) (last_mean 2 (take (Suc j) [1, 3])) (real (j + 2) * 3 / 2 ^ 21))"
    by (rule slide_mean_drift) simp_all
  moreover have "last_mean 2 [1, 3] = 2" by (simp add: last_mean_def numeral_2_eq_2)
  ultimately show ?thesis by (auto dest!: spec [of _ 1])
qed

section \<open>The other filters\<close>

lemma mean_step:
  assumes "2 \<le> n" "n < 2 ^ 31" "length (data s) = nat n" "mean_size s = n" "0 \<le> mean_index s" "mean_index s \<le> n - 2"
  obtains s' where "mean s x = Inr (Fin 0, s')" "length (data s') = nat n" "mean_size s' = n" "0 \<le> mean_index s'" "mean_index s' \<le> n - 2"
proof -
  have c: "chk32 (mean_index s + 1) = Inr (mean_index s + 1)" "chk32 (n - 1) = Inr (n - 1)" using assms by (auto intro!: chk32_ok)
  have w: "nat (mean_index s + 1) < length (data s)" using assms by simp
  have z: "fdiv f32 (Fin 0) (f32_int n) = Fin 0"
  proof -
    have "1 \<le> rnd 24 (- 126) (real_of_int n)" using rnd_mono [of 24 1 "real_of_int n" "- 126"] assms(1) by simp
    then show ?thesis by (auto simp: f32_int_def f32_def Let_def)
  qed
  show ?thesis
    by (rule that [of "snd (case mean s x of Inr r \<Rightarrow> r)"]) (use assms c w z in \<open>auto simp: mean_def wr_at_def Let_def\<close>)
qed

text \<open>
  The block mean of two numbers or more returns 0 for every sample, also where a block is complete, because the
  sum is cleared before it is divided; it never leaves its array.
\<close>
theorem mean_is_zero:
  assumes "2 \<le> n" "n < 2 ^ 31" "length (data s) = nat n" "mean_size s = n" "0 \<le> mean_index s" "mean_index s \<le> n - 2"
    "FilterFunction f = Some filter_mean" "params f = Some (Mean s)"
  shows "\<exists>f'. filter_runs sin_d cos_d f xs = Inr (replicate (length xs) (Fin 0), f')"
  using assms(3-8)
proof (induction xs arbitrary: s f)
  case (Cons x xs)
  obtain s' where s': "mean s x = Inr (Fin 0, s')" "length (data s') = nat n" "mean_size s' = n" "0 \<le> mean_index s'" "mean_index s' \<le> n - 2"
    by (rule mean_step [OF assms(1,2) Cons.prems(1-4)])
  then show ?case using Cons.IH [of s' "f\<lparr>params := Some (Mean s')\<rparr>"] Cons.prems(5,6) by (auto simp: filter_run_def)
qed simp

theorem mean_is_zero_witness:
  "\<exists>f'. filter_runs (\<lambda>x. x) (\<lambda>x. x) \<lparr>FilterFunction = Some filter_mean,
      params = Some (Mean \<lparr>data = [Fin 0, Fin 0], mean_size = 2, mean_index = 0, mean_sum = Fin 0\<rparr>), name = []\<rparr> [Fin 7, Fin 9] = Inr ([Fin 0, Fin 0], f')"
  using mean_is_zero [of 2 "\<lparr>data = [Fin 0, Fin 0], mean_size = 2, mean_index = 0, mean_sum = Fin 0\<rparr>"
      "\<lparr>FilterFunction = Some filter_mean, params = Some (Mean \<lparr>data = [Fin 0, Fin 0], mean_size = 2, mean_index = 0, mean_sum = Fin 0\<rparr>), name = []\<rparr>"
      "\<lambda>x. x" "\<lambda>x. x" "[Fin 7, Fin 9]"] by (simp add: numeral_2_eq_2)

text \<open>
  The low pass filter keeps the last sample where it should keep its last output: the output depends on the
  last two samples only, whatever came before, so it has no memory beyond one sample.
\<close>
theorem lowpass_two_taps:
  assumes "FilterFunction f = Some filter_lowpass" "params f = Some (LowPass s)"
  shows "\<exists>ys f'. filter_runs sin_d cos_d f (xs @ [a, b]) = Inr (ys, f') \<and> length ys = length xs + 2 \<and>
    last ys = fadd f32 (fmul f32 (fsub f32 (Fin 1) (parame s)) a) (fmul f32 (parame s) b)"
  using assms
proof (induction xs arbitrary: f s)
  case Nil
  then show ?case by (simp add: filter_run_def lowpass_def Let_def)
next
  case (Cons x xs)
  let ?s = "s\<lparr>last_in := x\<rparr>"
  from Cons.IH [of "f\<lparr>params := Some (LowPass ?s)\<rparr>" ?s] Cons.prems
  obtain ys f' where "filter_runs sin_d cos_d (f\<lparr>params := Some (LowPass ?s)\<rparr>) (xs @ [a, b]) = Inr (ys, f')" "length ys = length xs + 2"
    "last ys = fadd f32 (fmul f32 (fsub f32 (Fin 1) (parame s)) a) (fmul f32 (parame s) b)" by auto
  moreover have "ys \<noteq> []" using calculation(2) by auto
  ultimately show ?case using Cons.prems by (auto simp: filter_run_def lowpass_def Let_def)
qed

theorem lowpass_two_taps_witness:
  "\<exists>ys f'. filter_runs (\<lambda>x. x) (\<lambda>x. x) \<lparr>FilterFunction = Some filter_lowpass, params = Some (LowPass \<lparr>parame = Fin 1, last_in = Fin 0\<rparr>), name = []\<rparr>
     ([Fin 5] @ [Fin 2, Fin 3]) = Inr (ys, f') \<and> length ys = 3"
  using lowpass_two_taps [of "\<lparr>FilterFunction = Some filter_lowpass, params = Some (LowPass \<lparr>parame = Fin 1, last_in = Fin 0\<rparr>), name = []\<rparr>"
      "\<lparr>parame = Fin 1, last_in = Fin 0\<rparr>" "\<lambda>x. x" "\<lambda>x. x" "[Fin 5]" "Fin 2" "Fin 3"] by fastforce

end
