(* ===== verification/Echo.thy ===== *)
theory Echo
  imports Prelude "HOL-Library.Sublist"
begin

text \<open>
  The printer of published data, \<^verbatim>\<open>abus_v3/src/abus_echo.c\<close>. It takes the text of a structure's declaration, which the
  macro \<^verbatim>\<open>ABUS_DATA_TYPE_CREATE\<close> makes, and the bytes of a packed object, and prints every field. Texts are lists of
  characters without the final zero; what is printed is the result. Whether \<^verbatim>\<open>strdup\<close> gets memory is an argument.
\<close>

section \<open>Texts\<close>

fun strstr :: "string \<Rightarrow> string \<Rightarrow> bool" where
  "strstr [] p \<longleftrightarrow> p = []"
| "strstr (c # cs) p \<longleftrightarrow> take (length p) (c # cs) = p \<or> strstr cs p"

text \<open>The count \<^verbatim>\<open>format\<close> limits how many of the patterns are looked at.\<close>

definition find_any_substring :: "string \<Rightarrow> nat \<Rightarrow> string list \<Rightarrow> bool" where
  "find_any_substring str format ps \<longleftrightarrow> list_ex (strstr str) (take format ps)"

text \<open>The text from the first opening brace on, or the whole text.\<close>

definition find_struct_start :: "string \<Rightarrow> string" where
  "find_struct_start str = (if CHR ''{'' \<in> set str then dropWhile (\<lambda>c. c \<noteq> CHR ''{'') str else str)"

text \<open>
  The text before and after the last closing brace. Without one \<^verbatim>\<open>find_struct_end\<close> returns the start of the
  text, and there is nothing before it.
\<close>

fun find_struct_end :: "string \<Rightarrow> (string \<times> string) option" where
  "find_struct_end [] = None"
| "find_struct_end (c # cs) =
     (case find_struct_end cs of
        Some (pre, post) \<Rightarrow> Some (c # pre, post)
      | None \<Rightarrow> if c = CHR ''}'' then Some ([], cs) else None)"

definition isspace :: "char \<Rightarrow> bool" where
  "isspace c \<longleftrightarrow> c \<in> {CHR '' '', CHR 0x09, CHR 0x0A, CHR 0x0B, CHR 0x0C, CHR 0x0D}"

definition skip_whitespace :: "string \<Rightarrow> string" where
  "skip_whitespace = dropWhile isspace"

definition replace_char_in_place :: "string \<Rightarrow> char \<Rightarrow> char \<Rightarrow> string" where
  "replace_char_in_place src to_replace new_char = map (\<lambda>c. if c = to_replace then new_char else c) src"

text \<open>The tokens that repeated calls of \<^verbatim>\<open>strtok_r\<close> return: the parts between delimiters that are not empty.\<close>

function strtok_r :: "char \<Rightarrow> string \<Rightarrow> string list" where
  "strtok_r d s =
     (let t = dropWhile (\<lambda>c. c = d) s in
      if t = [] then [] else takeWhile (\<lambda>c. c \<noteq> d) t # strtok_r d (dropWhile (\<lambda>c. c \<noteq> d) t))"
  by pat_completeness auto

termination
proof (relation "measure (\<lambda>(d, s). length s)")
  fix d s and t :: string assume t: "t = dropWhile (\<lambda>c. c = d) s" "t \<noteq> []"
  obtain c cs where c: "t = c # cs" using t(2) by (cases t) simp_all
  have "hd t \<noteq> d" using hd_dropWhile [of "\<lambda>c. c = d" s] t by simp
  then have "c \<noteq> d" using c by simp
  note c = c this
  then have "length (dropWhile (\<lambda>c. c \<noteq> d) t) < length t" using length_dropWhile_le [of "\<lambda>c. c \<noteq> d" cs] by simp
  also have "\<dots> \<le> length s" unfolding t(1) by (rule length_dropWhile_le)
  finally show "((d, dropWhile (\<lambda>c. c \<noteq> d) t), d, s) \<in> measure (\<lambda>(d, s). length s)" by simp
qed simp

section \<open>Values\<close>

text \<open>An unsigned number of \<open>k\<close> bytes in memory, lowest byte first.\<close>

fun le_val :: "u8 list \<Rightarrow> int" where
  "le_val [] = 0"
| "le_val (b # bs) = uint b + 256 * le_val bs"

fun le_bytes :: "nat \<Rightarrow> int \<Rightarrow> u8 list" where
  "le_bytes 0 x = []"
| "le_bytes (Suc k) x = word_of_int x # le_bytes k (x div 256)"

text \<open>What is printed for a field: a whole number, or a floating point number given by its bits.\<close>

datatype printed = Num int | F32 int | F64 int

definition signed32 :: "int \<Rightarrow> int" where
  "signed32 x = (if x \<ge> 2 ^ 31 then x - 2 ^ 32 else x)"

text \<open>Reads \<open>k\<close> bytes at the pointer, prints them after the text of the field, and moves the pointer.\<close>

definition print_next :: "string \<Rightarrow> nat \<Rightarrow> (int \<Rightarrow> printed) \<Rightarrow> u8 list \<Rightarrow> ((string \<times> printed) option \<times> u8 list) cres" where
  "print_next str k f buf =
     (if length buf < k then Inl OutOfBounds else Inr (Some (str, f (le_val (take k buf))), drop k buf))"

text \<open>
  The numbers of 8 and 16 bits are printed through the unsigned member of the union, the second number of 64 bits too. The third
  patterns of two of the calls are never looked at.
\<close>

definition printf_data :: "string \<Rightarrow> u8 list \<Rightarrow> ((string \<times> printed) option \<times> u8 list) cres" where
  "printf_data str buf =
     (if find_any_substring str 2 [''int32_t '', ''int ''] then print_next str 4 (\<lambda>x. Num (signed32 x)) buf
      else if find_any_substring str 2 [''int16_t '', ''short''] then print_next str 2 Num buf
      else if find_any_substring str 2 [''int8_t '', ''char''] then print_next str 1 Num buf
      else if find_any_substring str 2 [''uint64_t '', ''unsigned long long''] then print_next str 8 Num buf
      else if find_any_substring str 2 [''int64_t '', ''long long''] then print_next str 8 Num buf
      else if find_any_substring str 2 [''uint32_t '', ''unsigned int'', ''int''] then print_next str 4 Num buf
      else if find_any_substring str 2 [''uint16_t '', ''unsigned short'', ''short''] then print_next str 2 Num buf
      else if find_any_substring str 2 [''uint8_t'', ''unsigned char''] then print_next str 1 Num buf
      else if find_any_substring str 2 [''float'', ''f32''] then print_next str 4 F32 buf
      else if find_any_substring str 2 [''double'', ''f64''] then print_next str 8 F64 buf
      else Inr (None, buf))"

fun printf_tokens :: "string list \<Rightarrow> u8 list \<Rightarrow> (string \<times> printed) list cres" where
  "printf_tokens [] buf = Inr []"
| "printf_tokens (tok # toks) buf =
     cbind (printf_data (skip_whitespace tok) buf) (\<lambda>(out, buf).
     cbind (printf_tokens toks buf) (\<lambda>outs. Inr (case out of None \<Rightarrow> outs | Some x \<Rightarrow> x # outs)))"

text \<open>
  The text after the closing brace is printed first. An empty text has no character after its start; a text
  without a closing brace makes the function write before its copy.
\<close>

definition abus_echo_data_by_token :: "bool \<Rightarrow> string \<Rightarrow> u8 list \<Rightarrow> (string \<times> (string \<times> printed) list) cres" where
  "abus_echo_data_by_token alloc str buf =
     (case find_struct_start str of
        [] \<Rightarrow> Inl OutOfBounds
      | _ # start \<Rightarrow>
          (if \<not> alloc then Inl NullDeref
           else (case find_struct_end start of
                   None \<Rightarrow> Inl OutOfBounds
                 | Some (pre, post) \<Rightarrow>
                     cbind (printf_tokens (strtok_r (CHR '';'') pre) buf) (\<lambda>outs.
                     Inr (replace_char_in_place post (CHR '';'') (CHR '':''), outs)))))"

section \<open>Declarations\<close>

text \<open>
  The types of fields the printer has patterns for, with a value each: the number, or the bits of a floating point number. The bus's own
  structures use \<^verbatim>\<open>int\<close> and \<^verbatim>\<open>float\<close>. A plain \<^verbatim>\<open>char\<close> is unsigned on this processor.
\<close>

datatype field_value =
    Uint8 u8 | Int8 u8 | Uint16 u16 | Int16 u16 | Uint32 u32 | Int32 u32 | Uint64 u64 | Int64 u64 | Float u32 | Double u64
  | CInt u32 | CUInt u32 | CShort u16 | CUShort u16 | CChar u8 | CUChar u8 | CLongLong u64 | CULongLong u64 | F32_t u32 | F64_t u64

fun type_text :: "field_value \<Rightarrow> string" where
  "type_text (Uint8 w) = ''uint8_t''"
| "type_text (Int8 w) = ''int8_t''"
| "type_text (Uint16 w) = ''uint16_t''"
| "type_text (Int16 w) = ''int16_t''"
| "type_text (Uint32 w) = ''uint32_t''"
| "type_text (Int32 w) = ''int32_t''"
| "type_text (Uint64 w) = ''uint64_t''"
| "type_text (Int64 w) = ''int64_t''"
| "type_text (Float w) = ''float''"
| "type_text (Double w) = ''double''"
| "type_text (CInt w) = ''int''"
| "type_text (CUInt w) = ''unsigned int''"
| "type_text (CShort w) = ''short''"
| "type_text (CUShort w) = ''unsigned short''"
| "type_text (CChar w) = ''char''"
| "type_text (CUChar w) = ''unsigned char''"
| "type_text (CLongLong w) = ''long long''"
| "type_text (CULongLong w) = ''unsigned long long''"
| "type_text (F32_t w) = ''f32''"
| "type_text (F64_t w) = ''f64''"

text \<open>The bytes of a field in a packed structure.\<close>

fun field_bytes :: "field_value \<Rightarrow> u8 list" where
  "field_bytes (Uint8 w) = le_bytes 1 (uint w)"
| "field_bytes (Int8 w) = le_bytes 1 (uint w)"
| "field_bytes (Uint16 w) = le_bytes 2 (uint w)"
| "field_bytes (Int16 w) = le_bytes 2 (uint w)"
| "field_bytes (Uint32 w) = le_bytes 4 (uint w)"
| "field_bytes (Int32 w) = le_bytes 4 (uint w)"
| "field_bytes (Uint64 w) = le_bytes 8 (uint w)"
| "field_bytes (Int64 w) = le_bytes 8 (uint w)"
| "field_bytes (Float w) = le_bytes 4 (uint w)"
| "field_bytes (Double w) = le_bytes 8 (uint w)"
| "field_bytes (CInt w) = le_bytes 4 (uint w)"
| "field_bytes (CUInt w) = le_bytes 4 (uint w)"
| "field_bytes (CShort w) = le_bytes 2 (uint w)"
| "field_bytes (CUShort w) = le_bytes 2 (uint w)"
| "field_bytes (CChar w) = le_bytes 1 (uint w)"
| "field_bytes (CUChar w) = le_bytes 1 (uint w)"
| "field_bytes (CLongLong w) = le_bytes 8 (uint w)"
| "field_bytes (CULongLong w) = le_bytes 8 (uint w)"
| "field_bytes (F32_t w) = le_bytes 4 (uint w)"
| "field_bytes (F64_t w) = le_bytes 8 (uint w)"

text \<open>What the printer should print.\<close>

fun meant :: "field_value \<Rightarrow> printed" where
  "meant (Uint8 w) = Num (uint w)"
| "meant (Int8 w) = Num (sint w)"
| "meant (Uint16 w) = Num (uint w)"
| "meant (Int16 w) = Num (sint w)"
| "meant (Uint32 w) = Num (uint w)"
| "meant (Int32 w) = Num (sint w)"
| "meant (Uint64 w) = Num (uint w)"
| "meant (Int64 w) = Num (sint w)"
| "meant (Float w) = F32 (uint w)"
| "meant (Double w) = F64 (uint w)"
| "meant (CInt w) = Num (sint w)"
| "meant (CUInt w) = Num (uint w)"
| "meant (CShort w) = Num (sint w)"
| "meant (CUShort w) = Num (uint w)"
| "meant (CChar w) = Num (uint w)"
| "meant (CUChar w) = Num (uint w)"
| "meant (CLongLong w) = Num (sint w)"
| "meant (CULongLong w) = Num (uint w)"
| "meant (F32_t w) = F32 (uint w)"
| "meant (F64_t w) = F64 (uint w)"

text \<open>What it does print: the signed types of 8, 16 and 64 bits as unsigned, and the unsigned types of 32 bits as signed.\<close>

fun echoed :: "field_value \<Rightarrow> printed" where
  "echoed (Int8 w) = Num (uint w)"
| "echoed (Int16 w) = Num (uint w)"
| "echoed (CShort w) = Num (uint w)"
| "echoed (Uint32 w) = Num (sint w)"
| "echoed (CUInt w) = Num (sint w)"
| "echoed (Int64 w) = Num (uint w)"
| "echoed (CLongLong w) = Num (uint w)"
| "echoed v = meant v"

text \<open>A name that is no pattern of the printer and has no character that ends a token.\<close>

definition plain_name :: "string \<Rightarrow> bool" where
  "plain_name n \<longleftrightarrow> (\<forall>c \<in> set n. \<not> isspace c \<and> c \<noteq> CHR '';'' \<and> c \<noteq> CHR ''{'' \<and> c \<noteq> CHR ''}'') \<and>
     (\<forall>p \<in> set [''short'', ''char'', ''uint8_t'', ''float'', ''f32'', ''double'', ''f64'']. \<not> strstr n p)"

definition field_text :: "field_value \<times> string \<Rightarrow> string" where
  "field_text f = type_text (fst f) @ CHR '' '' # snd f"

text \<open>The text the macro makes of a structure with the fields \<open>fs\<close> and the name \<open>nm\<close>.\<close>

definition decl_text :: "(field_value \<times> string) list \<Rightarrow> string \<Rightarrow> string" where
  "decl_text fs nm = ''typedef struct{ '' @ concat (map (\<lambda>f. field_text f @ ''; '') fs) @ CHR ''}'' # nm @ '';''"

section \<open>Proofs\<close>

lemma le_val_bytes: "le_val (le_bytes k x) = x mod 256 ^ k"
proof (induction k arbitrary: x)
  case (Suc k)
  have "x mod (256 * 256 ^ k) = 256 * (x div 256 mod 256 ^ k) + x mod 256"
    by (rule zmod_zmult2_eq) simp
  then show ?case using Suc [of "x div 256"] by (simp add: unsigned_of_int take_bit_eq_mod)
qed simp

lemma length_le_bytes [simp]: "length (le_bytes k x) = k"
  by (induction k arbitrary: x) simp_all

lemma strstr_iff: "strstr s p \<longleftrightarrow> sublist p s"
proof (induction s)
  case (Cons c cs)
  have "take (length p) (c # cs) = p \<longleftrightarrow> prefix p (c # cs)"
    by (metis append_eq_conv_conj prefix_def)
  then show ?case using Cons by (simp add: sublist_Cons_right)
qed simp

text \<open>The patterns of the printer against a field.\<close>

lemma plain_nameD:
  assumes "plain_name n"
  shows "CHR '' '' \<notin> set n" "CHR '';'' \<notin> set n" "\<not> strstr n ''short''" "\<not> strstr n ''char''" "\<not> strstr n ''uint8_t''" "\<not> strstr n ''float''"
    "\<not> strstr n ''f32''" "\<not> strstr n ''double''" "\<not> strstr n ''f64''"
  using assms by (auto simp: plain_name_def isspace_def)

text \<open>A pattern with a blank is in no name.\<close>

lemma no_blank:
  assumes "CHR '' '' \<notin> set n" "CHR '' '' \<in> set p"
  shows "\<not> strstr n p"
  using assms by (auto simp: strstr_iff dest: set_mono_sublist)

lemma le_val_uint:
  "le_val (le_bytes (Suc 0) (uint (a :: u8))) = uint a" "le_val (le_bytes 2 (uint (b :: u16))) = uint b"
  "le_val (le_bytes 4 (uint (c :: u32))) = uint c" "le_val (le_bytes 8 (uint (d :: u64))) = uint d"
  using uint_bounded [of a] uint_bounded [of b] uint_bounded [of c] uint_bounded [of d] by (simp_all add: le_val_bytes)

text \<open>A number read as signed.\<close>

lemma sint_cases: "sint w = (if 2 ^ (LENGTH('a) - 1) \<le> uint w then uint w - 2 ^ LENGTH('a) else uint w)" for w :: "'a::len word"
proof -
  let ?m = "2 ^ (LENGTH('a) - 1) :: int"
  have m: "2 ^ LENGTH('a) = 2 * ?m" by (metis Suc_diff_1 len_gt_0 power_Suc)
  have w: "0 \<le> uint w" "uint w < 2 * ?m" using uint_bounded [of w] m by simp_all
  have s: "sint w = (uint w + ?m) mod (2 * ?m) - ?m"
    unfolding sint_uint signed_take_bit_eq_take_bit_shift take_bit_eq_mod using m by simp
  show ?thesis
  proof (cases "?m \<le> uint w")
    case True
    have "(uint w + ?m) mod (2 * ?m) = (uint w - ?m + 2 * ?m) mod (2 * ?m)" by (simp add: algebra_simps)
    also have "\<dots> = (uint w - ?m) mod (2 * ?m)" by (rule mod_add_self2)
    also have "\<dots> = uint w - ?m" using w True by (intro mod_pos_pos_trivial) simp_all
    finally show ?thesis unfolding s using True m by simp
  next
    case False
    then have "(uint w + ?m) mod (2 * ?m) = uint w + ?m" using w by (intro mod_pos_pos_trivial) simp_all
    then show ?thesis unfolding s using False by simp
  qed
qed

lemma signed32_uint: "signed32 (uint w) = sint (w :: u32)"
  by (simp add: signed32_def sint_cases)

lemma printf_data_field:
  assumes "plain_name n"
  shows "printf_data (field_text (v, n)) (field_bytes v @ buf) = Inr (Some (field_text (v, n), echoed v), buf)"
  using plain_nameD [OF assms]
  by (cases v) (simp_all add: printf_data_def find_any_substring_def field_text_def no_blank print_next_def le_val_uint signed32_uint
    numeral_2_eq_2 del: field_bytes.simps, simp_all add: le_val_uint signed32_uint)

section \<open>The printer\<close>

declare strtok_r.simps [simp del]

lemma strtok_skip: "strtok_r d (d # s) = strtok_r d s"
  by (simp add: strtok_r.simps [of d "d # s"] strtok_r.simps [of d s])

lemma strtok_token:
  assumes "a \<noteq> []" "d \<notin> set a"
  shows "strtok_r d (a @ d # s) = a # strtok_r d s" "strtok_r d a = [a]"
proof -
  have a: "\<And>x. x \<in> set a \<Longrightarrow> x \<noteq> d" using assms(2) by blast
  have 1: "dropWhile (\<lambda>c. c = d) (a @ t) = a @ t" for t using assms by (cases a) auto
  have 2: "takeWhile (\<lambda>c. c \<noteq> d) (a @ t) = a @ takeWhile (\<lambda>c. c \<noteq> d) t" for t using a by (rule takeWhile_append2)
  have 3: "dropWhile (\<lambda>c. c \<noteq> d) (a @ t) = dropWhile (\<lambda>c. c \<noteq> d) t" for t using a by (rule dropWhile_append2)
  show "strtok_r d (a @ d # s) = a # strtok_r d s"
    using assms(1) by (subst strtok_r.simps) (simp add: 1 2 3 strtok_skip Let_def)
  have "dropWhile (\<lambda>c. c = d) a = a" "takeWhile (\<lambda>c. c \<noteq> d) a = a" "dropWhile (\<lambda>c. c \<noteq> d) a = []"
    using 1 [of "[]"] 2 [of "[]"] 3 [of "[]"] by simp_all
  then show "strtok_r d a = [a]"
    using assms(1) by (subst strtok_r.simps) (simp add: strtok_r.simps [of d "[]"] Let_def del: takeWhile_eq_all_conv dropWhile_eq_Nil_conv)
qed

lemma struct_end: "CHR ''}'' \<notin> set post \<Longrightarrow> find_struct_end (pre @ CHR ''}'' # post) = Some (pre, post)"
proof (induction pre)
  case Nil
  then have "find_struct_end post = None" by (induction post) auto
  then show ?case by simp
qed simp

lemma field_chars:
  assumes "plain_name n"
  shows "CHR '';'' \<notin> set (field_text (v, n))"
  using plain_nameD [OF assms] by (cases v) (simp_all add: field_text_def)

lemma field_skip: "skip_whitespace (CHR '' '' # field_text f) = field_text f"
  by (cases f; cases "fst f") (simp_all add: skip_whitespace_def isspace_def field_text_def)

lemma decl_tokens:
  assumes "\<forall>f \<in> set fs. plain_name (snd f)"
  shows "strtok_r CHR '';'' (CHR '' '' # concat (map (\<lambda>f. field_text f @ ''; '') fs)) = map (\<lambda>f. CHR '' '' # field_text f) fs @ ['' '']"
  using assms
proof (induction fs)
  case (Cons f fs)
  then have "CHR '';'' \<notin> set (CHR '' '' # field_text f)" using field_chars [of "snd f" "fst f"] by simp
  from strtok_token(1) [OF _ this, of "CHR '' '' # concat (map (\<lambda>f. field_text f @ ''; '') fs)"] Cons show ?case by simp
qed (simp add: strtok_token)

lemma print_fields:
  assumes "\<forall>f \<in> set fs. plain_name (snd f)"
  shows "printf_tokens (map (\<lambda>f. CHR '' '' # field_text f) fs @ ['' '']) (concat (map (\<lambda>f. field_bytes (fst f)) fs) @ buf) =
    Inr (map (\<lambda>f. (field_text f, echoed (fst f))) fs)"
  using assms
proof (induction fs)
  case Nil
  have "skip_whitespace '' '' = []" by (simp add: skip_whitespace_def isspace_def)
  then show ?case by (simp add: printf_data_def find_any_substring_def)
next
  case (Cons f fs)
  have "printf_data (field_text f) (field_bytes (fst f) @ concat (map (\<lambda>f. field_bytes (fst f)) fs) @ buf) =
      Inr (Some (field_text f, echoed (fst f)), concat (map (\<lambda>f. field_bytes (fst f)) fs) @ buf)"
    using printf_data_field [of "snd f" "fst f"] Cons.prems by simp
  then show ?case using Cons by (simp add: field_skip)
qed

text \<open>A packed structure: its bytes, and what is printed for it.\<close>

definition packed :: "(field_value \<times> string) list \<Rightarrow> u8 list" where
  "packed fs = concat (map (\<lambda>f. field_bytes (fst f)) fs)"

lemma echo_struct:
  assumes "\<forall>f \<in> set fs. plain_name (snd f)" "CHR ''}'' \<notin> set nm" "CHR '';'' \<notin> set nm"
  shows "abus_echo_data_by_token True (decl_text fs nm) (packed fs @ buf) = Inr (nm @ '':'', map (\<lambda>f. (field_text f, echoed (fst f))) fs)"
proof -
  have "map (\<lambda>c. if c = CHR '';'' then CHR '':'' else c) nm = nm" using assms(3) by (auto intro: map_idI)
  then show ?thesis
    using struct_end [of "nm @ '';''" "CHR '' '' # concat (map (\<lambda>f. field_text f @ ''; '') fs)"] assms(2)
    by (simp add: abus_echo_data_by_token_def find_struct_start_def decl_text_def decl_tokens [OF assms(1)] print_fields [OF assms(1)]
        replace_char_in_place_def packed_def)
qed

text \<open>The values for which the number printed is the value.\<close>

definition prints_right :: "field_value \<Rightarrow> bool" where
  "prints_right v \<longleftrightarrow> (case v of Int8 w \<Rightarrow> uint w < 2 ^ 7 | Int16 w \<Rightarrow> uint w < 2 ^ 15 | CShort w \<Rightarrow> uint w < 2 ^ 15
     | Uint32 w \<Rightarrow> uint w < 2 ^ 31 | CUInt w \<Rightarrow> uint w < 2 ^ 31 | Int64 w \<Rightarrow> uint w < 2 ^ 63 | CLongLong w \<Rightarrow> uint w < 2 ^ 63 | _ \<Rightarrow> True)"

text \<open>The two structures of the bus, \<^verbatim>\<open>chassis_ctrl_t\<close> and \<^verbatim>\<open>chassis_state_t\<close> of \<^verbatim>\<open>chassis_port.h\<close>.\<close>

definition chassis_ctrl_fields :: "u32 \<Rightarrow> u32 \<Rightarrow> u32 \<Rightarrow> u32 \<Rightarrow> (field_value \<times> string) list" where
  "chassis_ctrl_fields type x y w = [(CInt type, ''type''), (Float x, ''x''), (Float y, ''y''), (Float w, ''w'')]"

definition chassis_state_fields :: "u32 \<Rightarrow> u32 \<Rightarrow> u32 \<Rightarrow> u32 \<Rightarrow> u32 \<Rightarrow> u32 \<Rightarrow> (field_value \<times> string) list" where
  "chassis_state_fields px py pw sx sy sw = [(Float px, ''pos_x''), (Float py, ''pos_y''), (Float pw, ''pos_w''),
     (Float sx, ''speed_x''), (Float sy, ''speed_y''), (Float sw, ''speed_w'')]"

text \<open>
  C31: for a packed structure of fields with the types the printer has patterns for, with plain names, it prints the name of the
  structure and then, for each field in order, its text and a number made of the field's own bytes. The number is the value of the field
  except for negative values of the signed types of 8, 16 and 64 bits, which are printed as unsigned, and values from \<open>2 ^ 31\<close> on of the
  unsigned types of 32 bits, which are printed as signed. The two structures of the bus are always printed as they are.
\<close>
theorem echo_prints:
  assumes "\<forall>f \<in> set fs. plain_name (snd f)" "CHR ''}'' \<notin> set nm" "CHR '';'' \<notin> set nm"
  shows "abus_echo_data_by_token True (decl_text fs nm) (packed fs @ buf) = Inr (nm @ '':'', map (\<lambda>f. (field_text f, echoed (fst f))) fs) \<and>
    (\<forall>v. echoed v = meant v \<longleftrightarrow> prints_right v) \<and>
    (\<forall>type x y w. abus_echo_data_by_token True (decl_text (chassis_ctrl_fields type x y w) ''chassis_ctrl_t'') (packed (chassis_ctrl_fields type x y w)) =
      Inr (''chassis_ctrl_t:'', [(''int type'', Num (sint type)), (''float x'', F32 (uint x)), (''float y'', F32 (uint y)), (''float w'', F32 (uint w))])) \<and>
    (\<forall>px py pw sx sy sw. abus_echo_data_by_token True (decl_text (chassis_state_fields px py pw sx sy sw) ''chassis_state_t'')
        (packed (chassis_state_fields px py pw sx sy sw)) =
      Inr (''chassis_state_t:'', [(''float pos_x'', F32 (uint px)), (''float pos_y'', F32 (uint py)), (''float pos_w'', F32 (uint pw)),
        (''float speed_x'', F32 (uint sx)), (''float speed_y'', F32 (uint sy)), (''float speed_w'', F32 (uint sw))]))"
proof (intro conjI allI)
  show "abus_echo_data_by_token True (decl_text fs nm) (packed fs @ buf) = Inr (nm @ '':'', map (\<lambda>f. (field_text f, echoed (fst f))) fs)"
    by (rule echo_struct [OF assms])
  show "echoed v = meant v \<longleftrightarrow> prints_right v" for v by (cases v) (simp_all add: prints_right_def sint_cases)
  show "abus_echo_data_by_token True (decl_text (chassis_ctrl_fields type x y w) ''chassis_ctrl_t'') (packed (chassis_ctrl_fields type x y w)) =
      Inr (''chassis_ctrl_t:'', [(''int type'', Num (sint type)), (''float x'', F32 (uint x)), (''float y'', F32 (uint y)), (''float w'', F32 (uint w))])"
    for type x y w
  proof -
    have "\<forall>f \<in> set (chassis_ctrl_fields type x y w). plain_name (snd f)" by (simp add: chassis_ctrl_fields_def plain_name_def isspace_def)
    from echo_struct [OF this, of "''chassis_ctrl_t''" "[]"] show ?thesis by (simp add: chassis_ctrl_fields_def field_text_def)
  qed
  show "abus_echo_data_by_token True (decl_text (chassis_state_fields px py pw sx sy sw) ''chassis_state_t'')
        (packed (chassis_state_fields px py pw sx sy sw)) =
      Inr (''chassis_state_t:'', [(''float pos_x'', F32 (uint px)), (''float pos_y'', F32 (uint py)), (''float pos_w'', F32 (uint pw)),
        (''float speed_x'', F32 (uint sx)), (''float speed_y'', F32 (uint sy)), (''float speed_w'', F32 (uint sw))])"
    for px py pw sx sy sw
  proof -
    have "\<forall>f \<in> set (chassis_state_fields px py pw sx sy sw). plain_name (snd f)" by (simp add: chassis_state_fields_def plain_name_def isspace_def)
    from echo_struct [OF this, of "''chassis_state_t''" "[]"] show ?thesis by (simp add: chassis_state_fields_def field_text_def)
  qed
qed

theorem echo_prints_witness:
  "abus_echo_data_by_token True (decl_text [(Int8 0xFF, ''f''), (Uint32 7, ''d''), (Float 0x41273333, ''j'')] ''t'') [0xFF, 7, 0, 0, 0, 0x33, 0x33, 0x27, 0x41] =
     Inr (''t:'', [(''int8_t f'', Num 255), (''uint32_t d'', Num 7), (''float j'', F32 0x41273333)])"
proof -
  let ?fs = "[(Int8 0xFF, ''f''), (Uint32 7, ''d''), (Float 0x41273333, ''j'')]"
  have n: "\<forall>f \<in> set ?fs. plain_name (snd f)" "CHR ''}'' \<notin> set ''t''" "CHR '';'' \<notin> set ''t''"
    by (simp_all add: plain_name_def isspace_def)
  have b: "packed ?fs @ [] = [0xFF, 7, 0, 0, 0, 0x33, 0x33, 0x27, 0x41]"
    by code_simp
  have o: "map (\<lambda>f. (field_text f, echoed (fst f))) ?fs = [(''int8_t f'', Num 255), (''uint32_t d'', Num 7), (''float j'', F32 0x41273333)]"
    by (simp add: field_text_def sint_cases)
  show ?thesis using echo_prints [OF n, of "[]", THEN conjunct1] unfolding b o by simp
qed

end
