(* ===== verification/Chassis.thy ===== *)
theory Chassis
  imports Motor Rounding
begin

text \<open>
  The chassis of \<^verbatim>\<open>chassis/\<close>: \<^verbatim>\<open>chassis.c\<close> with its three sets of operations, four mecanum wheels
  (\<^verbatim>\<open>chassis_module_mai.c\<close>), four mecanum wheels with an external odometer (\<^verbatim>\<open>chassis_module_mai_ops.c\<close>)
  and three omni wheels (\<^verbatim>\<open>chassis_module_omni3.c\<close>, of which \<^verbatim>\<open>chassis_module_omni4.c\<close> is a copy), on the motor
  abstraction of \<^verbatim>\<open>motor.c\<close>, and the commands of \<^verbatim>\<open>chassis_port.c\<close>. Every wheel speed and pose is computed with
  the rounding of the code's \<^verbatim>\<open>float\<close> and \<^verbatim>\<open>double\<close> operations.
\<close>

section \<open>Data\<close>

datatype chassis_status = CHASSIS_IDLE | CHASSIS_SPEED | CHASSIS_POS

record chassis_speed =
  x_m_s :: fl
  y_m_s :: fl
  z_rad_s :: fl

record chassis_pos =
  x_m :: fl
  y_m :: fl
  z_rad :: fl

record chassis_data =
  speed :: chassis_speed
  pos :: chassis_pos

text \<open>The operation tables of the program; the table pointed to is \<open>None\<close> until \<^verbatim>\<open>chassis_init\<close>.\<close>

datatype chassis_ops = ops_mai | ops_mai_ops | ops_omni3

record chassis =
  target :: chassis_data
  present :: chassis_data
  run_status :: chassis_status
  ch_ops :: "chassis_ops option"
  offset :: chassis_data

record chassis_mai_data =
  mai_type :: chassis_status
  motor1 :: fl
  motor2 :: fl
  motor3 :: fl
  motor4 :: fl

record chassis_omni3_data =
  omni_type :: chassis_status
  motora :: fl
  motorb :: fl
  motorc :: fl

text \<open>The motor numbers of \<^verbatim>\<open>chassis_cfg.h\<close>; as delivered all seven are 0.\<close>

record chassis_cfg =
  MOTOR_MAI_ID_1 :: int
  MOTOR_MAI_ID_2 :: int
  MOTOR_MAI_ID_3 :: int
  MOTOR_MAI_ID_4 :: int
  MOTOR_OMNI3_ID_1 :: int
  MOTOR_OMNI3_ID_2 :: int
  MOTOR_OMNI3_ID_3 :: int

definition delivered_cfg :: chassis_cfg where
  "delivered_cfg = \<lparr>MOTOR_MAI_ID_1 = 0, MOTOR_MAI_ID_2 = 0, MOTOR_MAI_ID_3 = 0, MOTOR_MAI_ID_4 = 0,
     MOTOR_OMNI3_ID_1 = 0, MOTOR_OMNI3_ID_2 = 0, MOTOR_OMNI3_ID_3 = 0\<rparr>"

text \<open>
  A chassis object, the data the operation tables point to, the motors, and the odometer's pose,
  three globals that the receiver of the odometer writes.
\<close>

record ('p, 'd, 'w) base =
  car :: chassis
  mai_data :: chassis_mai_data
  mai_data1 :: chassis_mai_data
  omni3_data :: chassis_omni3_data
  motors :: "('p, 'd, 'w) robot"
  pos_x :: fl
  pos_y :: fl
  w_z :: fl

section \<open>Constants\<close>

text \<open>The wheel radius is 76 mm in one file of the mecanum wheels and 34.704 mm in the other.\<close>

definition WHELL_R_mai :: fl where "WHELL_R_mai = f32 (76 / 1000)"
definition WHELL_R_mai_ops :: fl where "WHELL_R_mai_ops = f32 (34704 / 1000000)"
definition PI_f :: fl where "PI_f = f32 (314159265359 / 100000000000)"

definition CHASSIS_HALF_A_B :: fl where
  "CHASSIS_HALF_A_B = fmul f64 (Fin (1 / 2)) (fadd f32 (f32 (129 / 1000)) (f32 (17906 / 100000)))"

definition CHASSIS_2PIR :: "fl \<Rightarrow> fl" where
  "CHASSIS_2PIR r = fmul f64 (f64 (628318530718 / 100000000000)) r"

definition conversion :: "fl \<Rightarrow> fl" where
  "conversion r = fdiv f32 (fdiv f32 (Fin 180) r) PI_f"

section \<open>Four mecanum wheels\<close>

text \<open>A component of a command: the target and the offset added as floats.\<close>

definition cmd :: "(chassis_data \<Rightarrow> fl) \<Rightarrow> chassis \<Rightarrow> fl" where
  "cmd f c = fadd f32 (f (target c)) (f (offset c))"

text \<open>The part of a wheel that turning contributes is subtracted from the part \<open>s\<close> of the translation.\<close>

definition less_turn :: "fl \<Rightarrow> fl \<Rightarrow> fl" where
  "less_turn s z = fsub f64 s (fmul f64 z CHASSIS_HALF_A_B)"

definition speed_wheel :: "fl \<Rightarrow> fl \<Rightarrow> fl" where
  "speed_wheel r v = to_f32 (fmul f64 (fdiv f64 v (CHASSIS_2PIR r)) (Fin 60))"

definition pos_wheel :: "fl \<Rightarrow> fl \<Rightarrow> fl" where
  "pos_wheel r v = to_f32 (fmul f64 v (conversion r))"

text \<open>\<^verbatim>\<open>module_mai\<close> with an output writes the wheel data, with an input the present speed or pose.\<close>

definition mai_output :: "chassis \<Rightarrow> chassis_mai_data \<Rightarrow> chassis_status \<Rightarrow> chassis_mai_data" where
  "mai_output c d req =
     (let d = d\<lparr>mai_type := req\<rparr> in
      case req of
        CHASSIS_SPEED \<Rightarrow>
          (let x = cmd (\<lambda>t. x_m_s (speed t)) c; y = cmd (\<lambda>t. y_m_s (speed t)) c; z = cmd (\<lambda>t. z_rad_s (speed t)) c in
           d\<lparr>motor1 := speed_wheel WHELL_R_mai (less_turn (fadd f32 x y) z),
             motor2 := speed_wheel WHELL_R_mai (less_turn (fsub f32 x y) z),
             motor3 := speed_wheel WHELL_R_mai (less_turn (fsub f32 (fneg x) y) z),
             motor4 := speed_wheel WHELL_R_mai (less_turn (fadd f32 (fneg x) y) z)\<rparr>)
      | CHASSIS_POS \<Rightarrow>
          (let x = cmd (\<lambda>t. x_m (pos t)) c; y = cmd (\<lambda>t. y_m (pos t)) c; z = cmd (\<lambda>t. z_rad (pos t)) c in
           d\<lparr>motor1 := pos_wheel WHELL_R_mai (less_turn (fadd f32 x y) z),
             motor2 := pos_wheel WHELL_R_mai (less_turn (fsub f32 x y) z),
             motor3 := pos_wheel WHELL_R_mai (less_turn (fsub f32 (fneg x) y) z),
             motor4 := pos_wheel WHELL_R_mai (less_turn (fadd f32 (fneg x) y) z)\<rparr>)
      | CHASSIS_IDLE \<Rightarrow> d)"

text \<open>The speeds read back: \<^verbatim>\<open>v / CHASSIS_2PIR * 60.f\<close> for a sum of wheel speeds \<open>v\<close>, divided by \<open>w\<close>, on top of the offset.\<close>

definition speed_back :: "fl \<Rightarrow> fl \<Rightarrow> fl \<Rightarrow> fl \<Rightarrow> fl" where
  "speed_back r off v w = to_f32 (fadd f64 off (fdiv f64 (fmul f64 (fdiv f64 v (CHASSIS_2PIR r)) (Fin 60)) w))"

definition mai_speed_input :: "fl \<Rightarrow> chassis \<Rightarrow> chassis_mai_data \<Rightarrow> chassis" where
  "mai_speed_input r c d =
     (let off = speed (offset c) in
      c\<lparr>present := (present c)\<lparr>speed :=
        \<lparr>x_m_s = speed_back r (x_m_s off) (fsub f32 (motor1 d) (motor2 d)) (Fin 2),
         y_m_s = speed_back r (y_m_s off) (fadd f32 (fneg (motor2 d)) (motor4 d)) (Fin 2),
         z_rad_s = speed_back r (z_rad_s off) (fneg (fadd f32 (motor3 d) (motor2 d))) (fmul f64 (Fin 2) CHASSIS_HALF_A_B)\<rparr>\<rparr>\<rparr>)"

text \<open>The pose read back; \<^verbatim>\<open>a + b - c - d\<close> and its like from left to right.\<close>

definition pos_back :: "fl \<Rightarrow> fl \<Rightarrow> fl \<Rightarrow> fl" where
  "pos_back r off v = fadd f32 off (fdiv f32 (fdiv f32 v (Fin 4)) (conversion r))"

definition turn_back :: "fl \<Rightarrow> fl \<Rightarrow> fl \<Rightarrow> fl" where
  "turn_back r off v = to_f32 (fsub f64 off (fdiv f64 (fdiv f64 (fdiv f64 v CHASSIS_HALF_A_B) (Fin 4)) (conversion r)))"

definition mai_pos_input :: "chassis \<Rightarrow> chassis_mai_data \<Rightarrow> chassis" where
  "mai_pos_input c d =
     (let off = pos (offset c); m1 = motor1 d; m2 = motor2 d; m3 = motor3 d; m4 = motor4 d in
      c\<lparr>present := (present c)\<lparr>pos :=
        \<lparr>x_m = pos_back WHELL_R_mai (x_m off) (fsub f32 (fsub f32 (fadd f32 m1 m2) m3) m4),
         y_m = pos_back WHELL_R_mai (y_m off) (fadd f32 (fsub f32 (fsub f32 m1 m2) m3) m4),
         z_rad = turn_back WHELL_R_mai (z_rad off) (fadd f32 (fadd f32 (fadd f32 m1 m2) m3) m4)\<rparr>\<rparr>\<rparr>)"

definition module_mai :: "chassis \<Rightarrow> bool \<Rightarrow> bool \<Rightarrow> chassis_status \<Rightarrow> chassis_mai_data \<Rightarrow> chassis \<times> chassis_mai_data" where
  "module_mai c outp inp req d =
     (let d = (if outp then mai_output c d req else d);
          c = (if inp then (case req of CHASSIS_SPEED \<Rightarrow> mai_speed_input WHELL_R_mai c d | CHASSIS_POS \<Rightarrow> mai_pos_input c d | CHASSIS_IDLE \<Rightarrow> c) else c)
      in (c, d))"

text \<open>One read of four motors into the wheel data, and one command to four motors from it.\<close>

definition read_four ::
  "(('p, 'd, 'w) robot \<Rightarrow> int \<Rightarrow> fl cres) \<Rightarrow> chassis_cfg \<Rightarrow> ('p, 'd, 'w) robot \<Rightarrow> chassis_mai_data \<Rightarrow> chassis_mai_data cres" where
  "read_four g cfg s d =
     cbind (g s (MOTOR_MAI_ID_1 cfg)) (\<lambda>v. let d = d\<lparr>motor1 := v\<rparr> in
     cbind (g s (MOTOR_MAI_ID_2 cfg)) (\<lambda>v. let d = d\<lparr>motor2 := v\<rparr> in
     cbind (g s (MOTOR_MAI_ID_3 cfg)) (\<lambda>v. let d = d\<lparr>motor3 := v\<rparr> in
     cbind (g s (MOTOR_MAI_ID_4 cfg)) (\<lambda>v. Inr (d\<lparr>motor4 := v\<rparr>)))))"

definition set_four ::
  "(('p, 'd, 'w) robot \<Rightarrow> int \<Rightarrow> fl \<Rightarrow> ('p, 'd, 'w) robot cres) \<Rightarrow> chassis_cfg \<Rightarrow> chassis_mai_data \<Rightarrow>
     ('p, 'd, 'w) robot \<Rightarrow> ('p, 'd, 'w) robot cres" where
  "set_four f cfg d s =
     cbind (f s (MOTOR_MAI_ID_1 cfg) (motor1 d)) (\<lambda>s.
     cbind (f s (MOTOR_MAI_ID_2 cfg) (motor2 d)) (\<lambda>s.
     cbind (f s (MOTOR_MAI_ID_3 cfg) (motor3 d)) (\<lambda>s.
     f s (MOTOR_MAI_ID_4 cfg) (motor4 d))))"

definition driver_mai ::
  "chassis_cfg \<Rightarrow> bool \<Rightarrow> bool \<Rightarrow> chassis_status \<Rightarrow> ('p, 'd, 'w) robot \<Rightarrow> chassis_mai_data \<Rightarrow> (('p, 'd, 'w) robot \<times> chassis_mai_data) cres" where
  "driver_mai cfg outp inp req s d =
     cbind (if inp then (case req of CHASSIS_SPEED \<Rightarrow> read_four motor_get_speed cfg s d
                         | CHASSIS_POS \<Rightarrow> read_four motor_get_pos cfg s d | CHASSIS_IDLE \<Rightarrow> Inr d) else Inr d) (\<lambda>d.
     cbind (if outp then (case req of CHASSIS_SPEED \<Rightarrow> set_four motor_set_speed cfg d s
                          | CHASSIS_POS \<Rightarrow> set_four motor_set_pos cfg d s | CHASSIS_IDLE \<Rightarrow> Inr s) else Inr s) (\<lambda>s.
     Inr (s, d)))"

section \<open>Four mecanum wheels and the odometer\<close>

text \<open>The first expression of \<^verbatim>\<open>module_mai_ops\<close> negates the wheel's speed before it divides.\<close>

definition mai_ops_output :: "chassis \<Rightarrow> chassis_mai_data \<Rightarrow> chassis_status \<Rightarrow> chassis_mai_data" where
  "mai_ops_output c d req =
     (let d = d\<lparr>mai_type := req\<rparr> in
      case req of
        CHASSIS_SPEED \<Rightarrow>
          (let x = cmd (\<lambda>t. x_m_s (speed t)) c; y = cmd (\<lambda>t. y_m_s (speed t)) c; z = cmd (\<lambda>t. z_rad_s (speed t)) c in
           d\<lparr>motor1 := speed_wheel WHELL_R_mai_ops (fneg (less_turn (fsub f32 x y) z)),
             motor2 := speed_wheel WHELL_R_mai_ops (fneg (less_turn (fadd f32 x y) z)),
             motor3 := speed_wheel WHELL_R_mai_ops (fneg (less_turn (fadd f32 x y) z)),
             motor4 := speed_wheel WHELL_R_mai_ops (fneg (less_turn (fsub f32 x y) z))\<rparr>)
      | CHASSIS_POS \<Rightarrow>
          (let x = cmd (\<lambda>t. x_m (pos t)) c; y = cmd (\<lambda>t. y_m (pos t)) c; z = cmd (\<lambda>t. z_rad (pos t)) c in
           d\<lparr>motor1 := pos_wheel WHELL_R_mai_ops (less_turn (fadd f32 x y) z),
             motor2 := pos_wheel WHELL_R_mai_ops (less_turn (fsub f32 x y) z),
             motor3 := pos_wheel WHELL_R_mai_ops (less_turn (fsub f32 (fneg x) y) z),
             motor4 := pos_wheel WHELL_R_mai_ops (less_turn (fadd f32 (fneg x) y) z)\<rparr>)
      | CHASSIS_IDLE \<Rightarrow> d)"

text \<open>The odometer's pose \<open>(px, py, wz)\<close> is the present pose.\<close>

definition module_mai_ops ::
  "fl \<times> fl \<times> fl \<Rightarrow> chassis \<Rightarrow> bool \<Rightarrow> bool \<Rightarrow> chassis_status \<Rightarrow> chassis_mai_data \<Rightarrow> chassis \<times> chassis_mai_data" where
  "module_mai_ops od c outp inp req d =
     (let d = (if outp then mai_ops_output c d req else d);
          c = (if inp then (case req of CHASSIS_SPEED \<Rightarrow> mai_speed_input WHELL_R_mai_ops c d
                 | CHASSIS_POS \<Rightarrow> c\<lparr>present := (present c)\<lparr>pos := \<lparr>x_m = fst od, y_m = fst (snd od), z_rad = snd (snd od)\<rparr>\<rparr>\<rparr>
                 | CHASSIS_IDLE \<Rightarrow> c) else c)
      in (c, d))"

definition driver_mai_ops ::
  "chassis_cfg \<Rightarrow> bool \<Rightarrow> bool \<Rightarrow> chassis_status \<Rightarrow> ('p, 'd, 'w) robot \<Rightarrow> chassis_mai_data \<Rightarrow> (('p, 'd, 'w) robot \<times> chassis_mai_data) cres" where
  "driver_mai_ops cfg outp inp req s d =
     cbind (if inp then (case req of CHASSIS_SPEED \<Rightarrow> read_four motor_get_speed cfg s d
                         | CHASSIS_POS \<Rightarrow> Inr (d\<lparr>motor1 := Fin 0, motor2 := Fin 0, motor3 := Fin 0, motor4 := Fin 0\<rparr>)
                         | CHASSIS_IDLE \<Rightarrow> Inr d) else Inr d) (\<lambda>d.
     cbind (if outp then (case req of CHASSIS_SPEED \<Rightarrow> set_four motor_set_speed cfg d s
                          | CHASSIS_POS \<Rightarrow> set_four motor_set_speed cfg d s | CHASSIS_IDLE \<Rightarrow> Inr s) else Inr s) (\<lambda>s.
     Inr (s, d)))"

section \<open>Three omni wheels\<close>

definition GEN3 :: fl where "GEN3 = f64 (173205 / 100000)"
definition M_PI :: fl where "M_PI = f64 (3141592653589793238462643383279502884 / 10 ^ 36)"
definition omni_L :: fl where "omni_L = f64 (171 / 100)"

text \<open>\<^verbatim>\<open>2*M_PI*R\<close> for the wheel radius \<^verbatim>\<open>R\<close>, half a metre.\<close>

definition two_pi_R :: fl where "two_pi_R = fmul f64 (fmul f64 (Fin 2) M_PI) (Fin (1 / 2))"

definition M2W_SPEED :: "fl \<Rightarrow> fl" where
  "M2W_SPEED v = fdiv f64 (fmul f64 two_pi_R v) (Fin 60)"

definition M2W_POS :: "fl \<Rightarrow> fl" where
  "M2W_POS v = M2W_SPEED v"

definition W2M_SPEED :: "fl \<Rightarrow> fl" where
  "W2M_SPEED v = fdiv f64 (fmul f64 v (Fin 60)) two_pi_R"

definition W2M_POS :: "fl \<Rightarrow> fl" where
  "W2M_POS v = M2W_SPEED v"

text \<open>The speed of the three wheels for the command \<open>(x, y, z)\<close>, before it is converted.\<close>

definition wheel_a :: "fl \<Rightarrow> fl \<Rightarrow> fl \<Rightarrow> fl" where
  "wheel_a x y z = fadd f64 (fmul f64 (Fin (- 1 / 2)) (fsub f64 x (fmul f64 GEN3 y))) (fmul f64 omni_L z)"

definition wheel_b :: "fl \<Rightarrow> fl \<Rightarrow> fl \<Rightarrow> fl" where
  "wheel_b x y z = fadd f64 (fmul f64 (Fin (- 1 / 2)) (fadd f64 x (fmul f64 GEN3 y))) (fmul f64 omni_L z)"

definition wheel_c :: "fl \<Rightarrow> fl \<Rightarrow> fl" where
  "wheel_c x z = fadd f64 x (fmul f64 omni_L z)"

definition omni3_output :: "chassis \<Rightarrow> chassis_omni3_data \<Rightarrow> chassis_status \<Rightarrow> chassis_omni3_data" where
  "omni3_output c d req =
     (let d = d\<lparr>omni_type := req\<rparr> in
      case req of
        CHASSIS_SPEED \<Rightarrow>
          (let x = cmd (\<lambda>t. x_m_s (speed t)) c; y = cmd (\<lambda>t. y_m_s (speed t)) c; z = cmd (\<lambda>t. z_rad_s (speed t)) c in
           d\<lparr>motora := to_f32 (W2M_SPEED (wheel_a x y z)), motorb := to_f32 (W2M_SPEED (wheel_b x y z)),
             motorc := to_f32 (W2M_SPEED (wheel_c x z))\<rparr>)
      | CHASSIS_POS \<Rightarrow>
          (let x = cmd (\<lambda>t. x_m (pos t)) c; y = cmd (\<lambda>t. y_m (pos t)) c; z = cmd (\<lambda>t. z_rad (pos t)) c in
           d\<lparr>motora := to_f32 (W2M_POS (wheel_a x y z)), motorb := to_f32 (W2M_POS (wheel_b x y z)),
             motorc := to_f32 (W2M_POS (wheel_c x z))\<rparr>)
      | CHASSIS_IDLE \<Rightarrow> d)"

text \<open>What is read back, for the conversion \<open>m\<close>. The pose is put on top of the offset of the speed.\<close>

definition omni3_back :: "(fl \<Rightarrow> fl) \<Rightarrow> chassis_speed \<Rightarrow> chassis_omni3_data \<Rightarrow> fl \<times> fl \<times> fl" where
  "omni3_back m off d =
     (to_f32 (fadd f64 (x_m_s off) (fdiv f64 (fmul f64 GEN3 (m (fsub f32 (motora d) (motorb d)))) (Fin 3))),
      to_f32 (fadd f64 (y_m_s off) (fdiv f64 (m (fsub f32 (fadd f32 (motora d) (motorb d)) (fmul f32 (Fin 2) (motorc d)))) (Fin 3))),
      to_f32 (fadd f64 (z_rad_s off) (fdiv f64 (m (fadd f32 (fadd f32 (motora d) (motorb d)) (motorc d))) (fmul f64 (Fin 3) omni_L))))"

definition omni3_input :: "chassis \<Rightarrow> chassis_omni3_data \<Rightarrow> chassis_status \<Rightarrow> chassis" where
  "omni3_input c d req =
     (case req of
        CHASSIS_SPEED \<Rightarrow> (let (x, y, z) = omni3_back M2W_SPEED (speed (offset c)) d in
          c\<lparr>present := (present c)\<lparr>speed := \<lparr>x_m_s = x, y_m_s = y, z_rad_s = z\<rparr>\<rparr>\<rparr>)
      | CHASSIS_POS \<Rightarrow> (let (x, y, z) = omni3_back M2W_POS (speed (offset c)) d in
          c\<lparr>present := (present c)\<lparr>pos := \<lparr>x_m = x, y_m = y, z_rad = z\<rparr>\<rparr>\<rparr>)
      | CHASSIS_IDLE \<Rightarrow> c)"

definition module_omni3 :: "chassis \<Rightarrow> bool \<Rightarrow> bool \<Rightarrow> chassis_status \<Rightarrow> chassis_omni3_data \<Rightarrow> chassis \<times> chassis_omni3_data" where
  "module_omni3 c outp inp req d =
     (let d = (if outp then omni3_output c d req else d);
          c = (if inp then omni3_input c d req else c)
      in (c, d))"

definition read_three ::
  "(('p, 'd, 'w) robot \<Rightarrow> int \<Rightarrow> fl cres) \<Rightarrow> chassis_cfg \<Rightarrow> ('p, 'd, 'w) robot \<Rightarrow> chassis_omni3_data \<Rightarrow> chassis_omni3_data cres" where
  "read_three g cfg s d =
     cbind (g s (MOTOR_OMNI3_ID_1 cfg)) (\<lambda>v. let d = d\<lparr>motora := v\<rparr> in
     cbind (g s (MOTOR_OMNI3_ID_2 cfg)) (\<lambda>v. let d = d\<lparr>motorb := v\<rparr> in
     cbind (g s (MOTOR_OMNI3_ID_3 cfg)) (\<lambda>v. Inr (d\<lparr>motorc := v\<rparr>))))"

text \<open>The commands go to the motors of the mecanum wheels.\<close>

definition set_three ::
  "(('p, 'd, 'w) robot \<Rightarrow> int \<Rightarrow> fl \<Rightarrow> ('p, 'd, 'w) robot cres) \<Rightarrow> chassis_cfg \<Rightarrow> chassis_omni3_data \<Rightarrow>
     ('p, 'd, 'w) robot \<Rightarrow> ('p, 'd, 'w) robot cres" where
  "set_three f cfg d s =
     cbind (f s (MOTOR_MAI_ID_1 cfg) (motora d)) (\<lambda>s.
     cbind (f s (MOTOR_MAI_ID_2 cfg) (motorb d)) (\<lambda>s.
     f s (MOTOR_MAI_ID_3 cfg) (motorc d)))"

definition driver_omni3 ::
  "chassis_cfg \<Rightarrow> bool \<Rightarrow> bool \<Rightarrow> chassis_status \<Rightarrow> ('p, 'd, 'w) robot \<Rightarrow> chassis_omni3_data \<Rightarrow> (('p, 'd, 'w) robot \<times> chassis_omni3_data) cres" where
  "driver_omni3 cfg outp inp req s d =
     cbind (if inp then (case req of CHASSIS_SPEED \<Rightarrow> read_three motor_get_speed cfg s d
                         | CHASSIS_POS \<Rightarrow> read_three motor_get_pos cfg s d | CHASSIS_IDLE \<Rightarrow> Inr d) else Inr d) (\<lambda>d.
     cbind (if outp then (case req of CHASSIS_SPEED \<Rightarrow> set_three motor_set_speed cfg d s
                          | CHASSIS_POS \<Rightarrow> set_three motor_set_pos cfg d s | CHASSIS_IDLE \<Rightarrow> Inr s) else Inr s) (\<lambda>s.
     Inr (s, d)))"

section \<open>The chassis\<close>

text \<open>The calls through the operation table, with the data of that table.\<close>

definition call_module :: "bool \<Rightarrow> bool \<Rightarrow> chassis_status \<Rightarrow> ('p, 'd, 'w) base \<Rightarrow> ('p, 'd, 'w) base cres" where
  "call_module outp inp req b =
     (case ch_ops (car b) of
        None \<Rightarrow> Inl NullDeref
      | Some ops_mai \<Rightarrow> (let (c, d) = module_mai (car b) outp inp req (mai_data b) in Inr (b\<lparr>car := c, mai_data := d\<rparr>))
      | Some ops_mai_ops \<Rightarrow> (let (c, d) = module_mai_ops (pos_x b, pos_y b, w_z b) (car b) outp inp req (mai_data1 b)
                             in Inr (b\<lparr>car := c, mai_data1 := d\<rparr>))
      | Some ops_omni3 \<Rightarrow> (let (c, d) = module_omni3 (car b) outp inp req (omni3_data b) in Inr (b\<lparr>car := c, omni3_data := d\<rparr>)))"

definition call_driver :: "chassis_cfg \<Rightarrow> bool \<Rightarrow> bool \<Rightarrow> chassis_status \<Rightarrow> ('p, 'd, 'w) base \<Rightarrow> ('p, 'd, 'w) base cres" where
  "call_driver cfg outp inp req b =
     (case ch_ops (car b) of
        None \<Rightarrow> Inl NullDeref
      | Some ops_mai \<Rightarrow> cbind (driver_mai cfg outp inp req (motors b) (mai_data b)) (\<lambda>(s, d). Inr (b\<lparr>motors := s, mai_data := d\<rparr>))
      | Some ops_mai_ops \<Rightarrow> cbind (driver_mai_ops cfg outp inp req (motors b) (mai_data1 b)) (\<lambda>(s, d). Inr (b\<lparr>motors := s, mai_data1 := d\<rparr>))
      | Some ops_omni3 \<Rightarrow> cbind (driver_omni3 cfg outp inp req (motors b) (omni3_data b)) (\<lambda>(s, d). Inr (b\<lparr>motors := s, omni3_data := d\<rparr>)))"

definition chassis_init :: "chassis \<Rightarrow> chassis_ops \<Rightarrow> chassis" where
  "chassis_init c t = c\<lparr>ch_ops := Some t, run_status := CHASSIS_IDLE\<rparr>"

definition chassis_set_pos :: "chassis \<Rightarrow> chassis_pos \<Rightarrow> chassis" where
  "chassis_set_pos c p = c\<lparr>target := (target c)\<lparr>pos := p\<rparr>, run_status := CHASSIS_POS\<rparr>"

definition chassis_set_speed :: "chassis \<Rightarrow> chassis_speed \<Rightarrow> chassis" where
  "chassis_set_speed c v = c\<lparr>target := (target c)\<lparr>speed := v\<rparr>, run_status := CHASSIS_SPEED\<rparr>"

definition chassis_get_pos :: "chassis \<Rightarrow> chassis_pos" where
  "chassis_get_pos c = pos (present c)"

definition chassis_pos_clean :: "chassis \<Rightarrow> chassis" where
  "chassis_pos_clean c = c\<lparr>present := (present c)\<lparr>pos := pos (target c)\<rparr>\<rparr>"

definition chassis_get_speed :: "chassis \<Rightarrow> chassis_speed" where
  "chassis_get_speed c = speed (present c)"

definition chassis_updata :: "chassis_status \<Rightarrow> chassis_cfg \<Rightarrow> ('p, 'd, 'w) base \<Rightarrow> ('p, 'd, 'w) base cres" where
  "chassis_updata req cfg b = cbind (call_driver cfg False True req b) (call_module False True req)"

definition chassis_updata_speed :: "chassis_cfg \<Rightarrow> ('p, 'd, 'w) base \<Rightarrow> ('p, 'd, 'w) base cres" where
  "chassis_updata_speed = chassis_updata CHASSIS_SPEED"

definition chassis_updata_pos :: "chassis_cfg \<Rightarrow> ('p, 'd, 'w) base \<Rightarrow> ('p, 'd, 'w) base cres" where
  "chassis_updata_pos = chassis_updata CHASSIS_POS"

definition chassis_drv_set :: "chassis_status \<Rightarrow> chassis_cfg \<Rightarrow> ('p, 'd, 'w) base \<Rightarrow> ('p, 'd, 'w) base cres" where
  "chassis_drv_set req cfg b = cbind (call_module True False req b) (call_driver cfg True False req)"

definition chassis_drv_set_speed :: "chassis_cfg \<Rightarrow> ('p, 'd, 'w) base \<Rightarrow> ('p, 'd, 'w) base cres" where
  "chassis_drv_set_speed = chassis_drv_set CHASSIS_SPEED"

definition chassis_drv_set_pos :: "chassis_cfg \<Rightarrow> ('p, 'd, 'w) base \<Rightarrow> ('p, 'd, 'w) base cres" where
  "chassis_drv_set_pos = chassis_drv_set CHASSIS_POS"

definition chassis_updata_offset :: "chassis \<Rightarrow> chassis" where
  "chassis_updata_offset c = c\<lparr>offset := (offset c)\<lparr>pos := \<lparr>x_m = Fin 0, y_m = Fin 0, z_rad = Fin 0\<rparr>\<rparr>\<rparr>"

text \<open>The handler returns -1 for a null pointer and 0 otherwise.\<close>

fun chassis_handle :: "chassis_cfg \<Rightarrow> ('p, 'd, 'w) base option \<Rightarrow> (int \<times> ('p, 'd, 'w) base option) cres" where
  "chassis_handle cfg None = Inr (- 1, None)"
| "chassis_handle cfg (Some b) =
     cbind (chassis_updata_speed cfg b) (\<lambda>b.
     cbind (chassis_updata_pos cfg b) (\<lambda>b.
     let b = b\<lparr>car := chassis_updata_offset (car b)\<rparr> in
     cbind (case run_status (car b) of CHASSIS_IDLE \<Rightarrow> Inr b
            | CHASSIS_SPEED \<Rightarrow> chassis_drv_set_speed cfg b | CHASSIS_POS \<Rightarrow> chassis_drv_set_pos cfg b) (\<lambda>b.
     Inr (0, Some b))))"

definition chassis_get_runstate :: "chassis \<Rightarrow> chassis_status" where
  "chassis_get_runstate c = run_status c"

section \<open>The bus side\<close>

record chassis_ctrl =
  ctrl_type :: int
  ctrl_x :: fl
  ctrl_y :: fl
  ctrl_w :: fl

definition abus_subcribe_cb22 :: "chassis_ctrl \<Rightarrow> chassis \<Rightarrow> int \<times> chassis" where
  "abus_subcribe_cb22 ctrl c =
     (let c = (if ctrl_type ctrl = 0
               then chassis_set_speed c \<lparr>x_m_s = ctrl_x ctrl, y_m_s = ctrl_y ctrl, z_rad_s = ctrl_w ctrl\<rparr> else c);
          c = (if ctrl_type ctrl = 1
               then chassis_set_pos c \<lparr>x_m = ctrl_x ctrl, y_m = ctrl_y ctrl, z_rad = ctrl_w ctrl\<rparr> else c)
      in (0, c))"

record chassis_state =
  st_pos_x :: fl
  st_pos_y :: fl
  st_pos_w :: fl
  st_speed_x :: fl
  st_speed_y :: fl
  st_speed_w :: fl

text \<open>The thread first commands the pose 0, then publishes the present state every 50 ms.\<close>

definition port_start :: "chassis \<Rightarrow> chassis" where
  "port_start c = chassis_set_pos c \<lparr>x_m = Fin 0, y_m = Fin 0, z_rad = Fin 0\<rparr>"

definition port_state :: "chassis \<Rightarrow> chassis_state" where
  "port_state c = \<lparr>st_pos_x = x_m (pos (present c)), st_pos_y = y_m (pos (present c)), st_pos_w = z_rad (pos (present c)),
     st_speed_x = x_m_s (speed (present c)), st_speed_y = y_m_s (speed (present c)), st_speed_w = z_rad_s (speed (present c))\<rparr>"

section \<open>The constants\<close>

lemma f64_zero [simp]: "f64 0 = Fin 0"
  by (simp add: f64_def)

lemma near_half_a_b: "near CHASSIS_HALF_A_B (15403 / 100000) (1 / 10 ^ 6)"
proof -
  have "near (f32 (129 / 1000)) (129 / 1000) (1 / 10 ^ 7)"
    by (rule near_mono [OF float.round [where B = "129 / 1000"]]) simp_all
  moreover have "near (f32 (17906 / 100000)) (17906 / 100000) (1 / 10 ^ 7)"
    by (rule near_mono [OF float.round [where B = "17906 / 100000"]]) simp_all
  ultimately have "near (fadd f32 (f32 (129 / 1000)) (f32 (17906 / 100000))) (129 / 1000 + 17906 / 100000) (1 / 10 ^ 6)"
    by (rule float.near_add [where B = 1]) simp_all
  then have "near CHASSIS_HALF_A_B (1 / 2 * (129 / 1000 + 17906 / 100000)) (1 / 10 ^ 6)"
    unfolding CHASSIS_HALF_A_B_def by (rule double.near_mul [OF near_exact, where X = "1 / 2" and Y = 1 and B = 1]) simp_all
  then show ?thesis by simp
qed

lemma half_a_b: obtains h where "CHASSIS_HALF_A_B = Fin h" "154 / 1000 < h" "h < 155 / 1000"
  by (rule near_range [OF near_half_a_b, of "154 / 1000" "155 / 1000"]) simp_all

lemma near_radius: "near WHELL_R_mai (76 / 1000) (1 / 10 ^ 8)"
  unfolding WHELL_R_mai_def by (rule near_mono [OF float.round [where B = "76 / 1000"]]) simp_all

lemma two_pi_r: obtains p where "CHASSIS_2PIR WHELL_R_mai = Fin p" "477 / 1000 < p" "p < 478 / 1000"
proof -
  have "near (f64 (628318530718 / 100000000000)) (628318530718 / 100000000000) (1 / 10 ^ 9)"
    by (rule near_mono [OF double.round [where B = 7]]) simp_all
  then have "near (CHASSIS_2PIR WHELL_R_mai) (628318530718 / 100000000000 * (76 / 1000)) (1 / 10 ^ 6)"
    unfolding CHASSIS_2PIR_def using near_radius by (rule double.near_mul [where X = 7 and Y = 1 and B = 8]) simp_all
  then show ?thesis by (rule near_range [where lo = "477 / 1000" and hi = "478 / 1000"]) (simp, simp, rule that)
qed

lemma conversion_mai: obtains k where "conversion WHELL_R_mai = Fin k" "753 < k" "k < 755"
proof -
  have "near (Fin 180) 180 0" by simp
  then have a: "near (fdiv f32 (Fin 180) WHELL_R_mai) (180 / (76 / 1000)) (1 / 100)"
    using near_radius by (rule float.near_div [where X = 180 and m = "7 / 100" and B = 6000]) (simp_all add: power2_eq_square)
  have "near PI_f (314159265359 / 100000000000) (1 / 10 ^ 6)"
    unfolding PI_f_def by (rule near_mono [OF float.round [where B = 4]]) simp_all
  with a have "near (conversion WHELL_R_mai) (180 / (76 / 1000) / (314159265359 / 100000000000)) (1 / 10)"
    unfolding conversion_def by (rule float.near_div [where X = 2400 and m = 3 and B = 6000]) (simp_all add: power2_eq_square)
  then show ?thesis by (rule near_range [where lo = "753" and hi = "755"]) (simp, simp, rule that)
qed

lemma gen3: obtains g where "GEN3 = Fin g" "\<bar>g - 173205 / 100000\<bar> \<le> 1 / 10 ^ 9"
proof -
  have "near GEN3 (173205 / 100000) (1 / 10 ^ 9)"
    unfolding GEN3_def by (rule near_mono [OF double.round [where B = 2]]) simp_all
  then show ?thesis using that by (auto simp: near_def)
qed

lemma omni_l: obtains l where "omni_L = Fin l" "17 / 10 < l" "l < 172 / 100"
proof -
  have "near omni_L (171 / 100) (1 / 10 ^ 9)"
    unfolding omni_L_def by (rule near_mono [OF double.round [where B = 2]]) simp_all
  then show ?thesis by (rule near_range [where lo = "17 / 10" and hi = "172 / 100"]) (simp, simp, rule that)
qed

lemma omni_2pi_r: obtains p where "two_pi_R = Fin p" "314 / 100 < p" "p < 315 / 100"
proof -
  let ?pi = "3141592653589793238462643383279502884 / 10 ^ 36 :: real"
  have "near M_PI ?pi (1 / 10 ^ 9)"
    unfolding M_PI_def by (rule near_mono [OF double.round [where B = 4]]) simp_all
  then have "near (fmul f64 (Fin 2) M_PI) (2 * ?pi) (1 / 10 ^ 8)"
    by (rule double.near_mul [OF near_exact, where X = 2 and Y = 4 and B = 9]) simp_all
  then have "near two_pi_R (2 * ?pi * (1 / 2)) (1 / 10 ^ 7)"
    unfolding two_pi_R_def by (rule double.near_mul [where X = 7 and Y = "1 / 2" and B = 9 and d = 0]) simp_all
  then show ?thesis by (rule near_range [where lo = "314 / 100" and hi = "315 / 100"]) (simp, simp, rule that)
qed

section \<open>The handler\<close>

definition valid :: "('p, 'd, 'w) robot \<Rightarrow> int \<Rightarrow> bool" where
  "valid s i \<longleftrightarrow> 0 \<le> i \<and> i < int (length (motor_list s))"

text \<open>The motors a table reads, and the motors it commands, in order.\<close>

definition reader_ids :: "chassis_cfg \<Rightarrow> chassis_ops \<Rightarrow> int list" where
  "reader_ids cfg t = (if t = ops_omni3 then [MOTOR_OMNI3_ID_1 cfg, MOTOR_OMNI3_ID_2 cfg, MOTOR_OMNI3_ID_3 cfg]
     else [MOTOR_MAI_ID_1 cfg, MOTOR_MAI_ID_2 cfg, MOTOR_MAI_ID_3 cfg, MOTOR_MAI_ID_4 cfg])"

definition wheel_ids :: "chassis_cfg \<Rightarrow> chassis_ops \<Rightarrow> int list" where
  "wheel_ids cfg t = [MOTOR_MAI_ID_1 cfg, MOTOR_MAI_ID_2 cfg, MOTOR_MAI_ID_3 cfg] @ (if t = ops_omni3 then [] else [MOTOR_MAI_ID_4 cfg])"

definition set_ids :: "chassis_cfg \<Rightarrow> chassis_ops \<Rightarrow> int set" where
  "set_ids cfg t = {MOTOR_MAI_ID_1 cfg, MOTOR_MAI_ID_2 cfg, MOTOR_MAI_ID_3 cfg} \<union> (if t = ops_omni3 then {} else {MOTOR_MAI_ID_4 cfg})"

definition motor_at :: "('p, 'd, 'w) robot \<Rightarrow> int \<Rightarrow> ('p, 'd) motor" where
  "motor_at s i = motor_list s ! nat i"

lemma asserted_at [simp]: "valid s i \<Longrightarrow> asserted s i f = f (nat i) (motor_at s i)"
  by (auto simp: valid_def asserted_def motor_get_def motor_at_def)

lemma valid_put [simp]: "valid (put k m s) i = valid s i"
  by (simp add: valid_def)

definition pos_of :: "('p, 'd, 'w) robot \<Rightarrow> int \<Rightarrow> fl" where
  "pos_of s i = fdiv f32 (cur_pos (motor_at s i)) (ratio (motor_at s i))"

definition speed_of :: "('p, 'd, 'w) robot \<Rightarrow> int \<Rightarrow> fl" where
  "speed_of s i = fdiv f32 (cur_speed (motor_at s i)) (ratio (motor_at s i))"

lemma get_valid [simp]: "valid s i \<Longrightarrow> motor_get_pos s i = Inr (pos_of s i)" "valid s i \<Longrightarrow> motor_get_speed s i = Inr (speed_of s i)"
  by (simp_all add: motor_get_pos_def motor_get_speed_def pos_of_def speed_of_def)

text \<open>Everything of a motor but its mode and its targets.\<close>

definition same_but_target :: "('p, 'd) motor \<Rightarrow> ('p, 'd) motor \<Rightarrow> bool" where
  "same_but_target m m' \<longleftrightarrow> m' = m\<lparr>flag_run_mode := flag_run_mode m', tar_speed := tar_speed m', tar_pos := tar_pos m'\<rparr>"

lemma same_but_target_refl [simp]: "same_but_target m m"
  by (simp add: same_but_target_def)

lemma same_but_target_set [simp]:
  "same_but_target m m' \<Longrightarrow> same_but_target m (m'\<lparr>flag_run_mode := r, tar_speed := v\<rparr>)"
  "same_but_target m m' \<Longrightarrow> same_but_target m (m'\<lparr>flag_run_mode := r, tar_pos := v\<rparr>)"
  by (cases m; cases m'; simp add: same_but_target_def)+

text \<open>The motors \<open>I\<close> have been commanded in mode \<open>r\<close>, and nothing else has changed.\<close>

definition commanded :: "int set \<Rightarrow> 2 word \<Rightarrow> ('p, 'd, 'w) robot \<Rightarrow> ('p, 'd, 'w) robot \<Rightarrow> bool" where
  "commanded I r s s' \<longleftrightarrow> length (motor_list s') = length (motor_list s) \<and> dev s' = dev s \<and> is_init s' = is_init s \<and>
     (\<forall>k < length (motor_list s). if int k \<in> I then same_but_target (motor_list s ! k) (motor_list s' ! k) \<and> flag_run_mode (motor_list s' ! k) = r
        else motor_list s' ! k = motor_list s ! k)"

text \<open>
  The motors have been commanded the values \<open>ws\<close>, one after the other, as speeds in mode 2 and as positions in mode 3; a motor named twice
  has the last one. Nothing else has changed.
\<close>

definition commanded_to :: "(int \<times> fl) list \<Rightarrow> 2 word \<Rightarrow> ('p, 'd, 'w) robot \<Rightarrow> ('p, 'd, 'w) robot \<Rightarrow> bool" where
  "commanded_to ws r s s' \<longleftrightarrow> length (motor_list s') = length (motor_list s) \<and> dev s' = dev s \<and> is_init s' = is_init s \<and>
     (\<forall>k < length (motor_list s). let m = motor_list s ! k in motor_list s' ! k =
        (case map_of (rev ws) (int k) of
           None \<Rightarrow> m
         | Some v \<Rightarrow> if r = 2 then m\<lparr>flag_run_mode := 2, tar_speed := fmul f32 v (ratio m)\<rparr>
             else m\<lparr>flag_run_mode := 3, tar_pos := fmul f32 v (ratio m)\<rparr>))"

lemma commanded_to_none: "commanded_to [] r s s"
  by (simp add: commanded_to_def)

lemma commanded_to_valid: "commanded_to ws r s s' \<Longrightarrow> valid s' i = valid s i"
  by (simp add: commanded_to_def valid_def)

lemma commanded_to_commanded: "commanded_to ws r s s' \<Longrightarrow> r = 2 \<or> r = 3 \<Longrightarrow> commanded (fst ` set ws) r s s'"
proof -
  assume c: "commanded_to ws r s s'" "r = 2 \<or> r = 3"
  have none: "map_of (rev ws) i = None \<longleftrightarrow> i \<notin> fst ` set ws" for i using map_of_eq_None_iff [of "rev ws" i] by simp
  have "if int k \<in> fst ` set ws then same_but_target (motor_list s ! k) (motor_list s' ! k) \<and> flag_run_mode (motor_list s' ! k) = r
        else motor_list s' ! k = motor_list s ! k" if k: "k < length (motor_list s)" for k
  proof (cases "map_of (rev ws) (int k)")
    case None
    then show ?thesis using c(1) k none [of "int k"] by (simp add: commanded_to_def Let_def)
  next
    case (Some v)
    then show ?thesis using c k none [of "int k"] by (auto simp: commanded_to_def Let_def)
  qed
  then show "commanded (fst ` set ws) r s s'" using c(1) by (simp add: commanded_def commanded_to_def)
qed

text \<open>One motor command after others.\<close>

lemma commanded_toD:
  assumes "commanded_to ws r s s'" "k < length (motor_list s)"
  shows "motor_list s' ! k = (let m = motor_list s ! k in
     case map_of (rev ws) (int k) of
       None \<Rightarrow> m
     | Some v \<Rightarrow> if r = 2 then m\<lparr>flag_run_mode := 2, tar_speed := fmul f32 v (ratio m)\<rparr>
         else m\<lparr>flag_run_mode := 3, tar_pos := fmul f32 v (ratio m)\<rparr>)"
  using assms by (simp add: commanded_to_def Let_def)

lemma commanded_to_put:
  assumes "commanded_to ws r s s'" "valid s i"
    "m = (if r = 2 then (motor_at s i)\<lparr>flag_run_mode := 2, tar_speed := fmul f32 v (ratio (motor_at s i))\<rparr>
      else (motor_at s i)\<lparr>flag_run_mode := 3, tar_pos := fmul f32 v (ratio (motor_at s i))\<rparr>)"
  shows "commanded_to (ws @ [(i, v)]) r s (put (nat i) m s')"
proof -
  have len: "length (motor_list s') = length (motor_list s)" and keep: "dev s' = dev s" "is_init s' = is_init s"
    using assms(1) by (simp_all add: commanded_to_def)
  have "motor_list (put (nat i) m s') ! k = (let m = motor_list s ! k in
     case map_of (rev (ws @ [(i, v)])) (int k) of
       None \<Rightarrow> m
     | Some v \<Rightarrow> if r = 2 then m\<lparr>flag_run_mode := 2, tar_speed := fmul f32 v (ratio m)\<rparr>
         else m\<lparr>flag_run_mode := 3, tar_pos := fmul f32 v (ratio m)\<rparr>)" if k: "k < length (motor_list s)" for k
  proof (cases "int k = i")
    case True
    then have "k = nat i" by simp
    then show ?thesis using k len True by (simp add: put_def assms(3) motor_at_def Let_def)
  next
    case False
    then have "k \<noteq> nat i" using assms(2) by (auto simp: valid_def)
    then show ?thesis using commanded_toD [OF assms(1) k] False by (simp add: put_def)
  qed
  then show ?thesis using len keep by (simp add: commanded_to_def put_def)
qed

lemma set_motor:
  assumes "commanded_to ws r s s'" "valid s i"
  shows "r = 2 \<Longrightarrow> \<exists>t. motor_set_speed s' i v = Inr t \<and> commanded_to (ws @ [(i, v)]) r s t"
    "r = 3 \<Longrightarrow> \<exists>t. motor_set_pos s' i v = Inr t \<and> commanded_to (ws @ [(i, v)]) r s t"
proof -
  have v: "valid s' i" using assms commanded_to_valid by blast
  have k: "nat i < length (motor_list s)" "int (nat i) = i" using assms(2) by (auto simp: valid_def)
  note at = commanded_toD [OF assms(1) k(1), unfolded k(2), folded motor_at_def]
  have "r = 2 \<Longrightarrow> (motor_at s' i)\<lparr>flag_run_mode := 2, tar_speed := fmul f32 v (ratio (motor_at s' i))\<rparr> =
      (motor_at s i)\<lparr>flag_run_mode := 2, tar_speed := fmul f32 v (ratio (motor_at s i))\<rparr>"
    "r = 3 \<Longrightarrow> (motor_at s' i)\<lparr>flag_run_mode := 3, tar_pos := fmul f32 v (ratio (motor_at s' i))\<rparr> =
      (motor_at s i)\<lparr>flag_run_mode := 3, tar_pos := fmul f32 v (ratio (motor_at s i))\<rparr>"
    unfolding at by (simp_all add: Let_def split: option.split)
  then show "r = 2 \<Longrightarrow> \<exists>t. motor_set_speed s' i v = Inr t \<and> commanded_to (ws @ [(i, v)]) r s t"
    "r = 3 \<Longrightarrow> \<exists>t. motor_set_pos s' i v = Inr t \<and> commanded_to (ws @ [(i, v)]) r s t"
    using commanded_to_put [OF assms, of _ v] v by (simp_all add: motor_set_speed_def motor_set_pos_def)
qed

definition all_valid :: "chassis_cfg \<Rightarrow> ('p, 'd, 'w) robot \<Rightarrow> bool" where
  "all_valid cfg s \<longleftrightarrow> valid s (MOTOR_MAI_ID_1 cfg) \<and> valid s (MOTOR_MAI_ID_2 cfg) \<and> valid s (MOTOR_MAI_ID_3 cfg) \<and> valid s (MOTOR_MAI_ID_4 cfg) \<and>
     valid s (MOTOR_OMNI3_ID_1 cfg) \<and> valid s (MOTOR_OMNI3_ID_2 cfg) \<and> valid s (MOTOR_OMNI3_ID_3 cfg)"

lemma read_valid:
  assumes "all_valid cfg s"
  shows "read_four motor_get_pos cfg s d = Inr (d\<lparr>motor1 := pos_of s (MOTOR_MAI_ID_1 cfg), motor2 := pos_of s (MOTOR_MAI_ID_2 cfg),
      motor3 := pos_of s (MOTOR_MAI_ID_3 cfg), motor4 := pos_of s (MOTOR_MAI_ID_4 cfg)\<rparr>)"
    "read_four motor_get_speed cfg s d = Inr (d\<lparr>motor1 := speed_of s (MOTOR_MAI_ID_1 cfg), motor2 := speed_of s (MOTOR_MAI_ID_2 cfg),
      motor3 := speed_of s (MOTOR_MAI_ID_3 cfg), motor4 := speed_of s (MOTOR_MAI_ID_4 cfg)\<rparr>)"
    "read_three motor_get_pos cfg s e = Inr (e\<lparr>motora := pos_of s (MOTOR_OMNI3_ID_1 cfg), motorb := pos_of s (MOTOR_OMNI3_ID_2 cfg),
      motorc := pos_of s (MOTOR_OMNI3_ID_3 cfg)\<rparr>)"
    "read_three motor_get_speed cfg s e = Inr (e\<lparr>motora := speed_of s (MOTOR_OMNI3_ID_1 cfg), motorb := speed_of s (MOTOR_OMNI3_ID_2 cfg),
      motorc := speed_of s (MOTOR_OMNI3_ID_3 cfg)\<rparr>)"
  using assms by (simp_all add: read_four_def read_three_def all_valid_def Let_def)

lemma set_four_ok:
  assumes "all_valid cfg s" "(r = 2 \<and> f = motor_set_speed) \<or> (r = 3 \<and> f = motor_set_pos)"
  obtains t where "set_four f cfg d s = Inr t"
    "commanded_to (zip [MOTOR_MAI_ID_1 cfg, MOTOR_MAI_ID_2 cfg, MOTOR_MAI_ID_3 cfg, MOTOR_MAI_ID_4 cfg] [motor1 d, motor2 d, motor3 d, motor4 d]) r s t"
proof -
  have f: "\<exists>t. f s' i v = Inr t \<and> commanded_to (ws @ [(i, v)]) r s t" if "commanded_to ws r s s'" "valid s i" for ws s' i v
    using assms(2) set_motor [OF that] by blast
  have v: "valid s (MOTOR_MAI_ID_1 cfg)" "valid s (MOTOR_MAI_ID_2 cfg)" "valid s (MOTOR_MAI_ID_3 cfg)" "valid s (MOTOR_MAI_ID_4 cfg)"
    using assms(1) by (simp_all add: all_valid_def)
  obtain t1 where 1: "f s (MOTOR_MAI_ID_1 cfg) (motor1 d) = Inr t1" "commanded_to ([] @ [(MOTOR_MAI_ID_1 cfg, motor1 d)]) r s t1"
    using f [OF commanded_to_none v(1)] by blast
  obtain t2 where 2: "f t1 (MOTOR_MAI_ID_2 cfg) (motor2 d) = Inr t2"
    "commanded_to (([] @ [(MOTOR_MAI_ID_1 cfg, motor1 d)]) @ [(MOTOR_MAI_ID_2 cfg, motor2 d)]) r s t2" using f [OF 1(2) v(2)] by blast
  obtain t3 where 3: "f t2 (MOTOR_MAI_ID_3 cfg) (motor3 d) = Inr t3"
    "commanded_to ((([] @ [(MOTOR_MAI_ID_1 cfg, motor1 d)]) @ [(MOTOR_MAI_ID_2 cfg, motor2 d)]) @ [(MOTOR_MAI_ID_3 cfg, motor3 d)]) r s t3"
    using f [OF 2(2) v(3)] by blast
  obtain t4 where 4: "f t3 (MOTOR_MAI_ID_4 cfg) (motor4 d) = Inr t4"
    "commanded_to (((([] @ [(MOTOR_MAI_ID_1 cfg, motor1 d)]) @ [(MOTOR_MAI_ID_2 cfg, motor2 d)]) @ [(MOTOR_MAI_ID_3 cfg, motor3 d)]) @ [(MOTOR_MAI_ID_4 cfg, motor4 d)]) r s t4"
    using f [OF 3(2) v(4)] by blast
  show ?thesis using 1(1) 2(1) 3(1) 4 by (intro that [of t4]) (simp_all add: set_four_def)
qed

lemma set_three_ok:
  assumes "all_valid cfg s" "(r = 2 \<and> f = motor_set_speed) \<or> (r = 3 \<and> f = motor_set_pos)"
  obtains t where "set_three f cfg d s = Inr t"
    "commanded_to (zip [MOTOR_MAI_ID_1 cfg, MOTOR_MAI_ID_2 cfg, MOTOR_MAI_ID_3 cfg] [motora d, motorb d, motorc d]) r s t"
proof -
  have f: "\<exists>t. f s' i v = Inr t \<and> commanded_to (ws @ [(i, v)]) r s t" if "commanded_to ws r s s'" "valid s i" for ws s' i v
    using assms(2) set_motor [OF that] by blast
  have v: "valid s (MOTOR_MAI_ID_1 cfg)" "valid s (MOTOR_MAI_ID_2 cfg)" "valid s (MOTOR_MAI_ID_3 cfg)" using assms(1) by (simp_all add: all_valid_def)
  obtain t1 where 1: "f s (MOTOR_MAI_ID_1 cfg) (motora d) = Inr t1" "commanded_to ([] @ [(MOTOR_MAI_ID_1 cfg, motora d)]) r s t1"
    using f [OF commanded_to_none v(1)] by blast
  obtain t2 where 2: "f t1 (MOTOR_MAI_ID_2 cfg) (motorb d) = Inr t2"
    "commanded_to (([] @ [(MOTOR_MAI_ID_1 cfg, motora d)]) @ [(MOTOR_MAI_ID_2 cfg, motorb d)]) r s t2" using f [OF 1(2) v(2)] by blast
  obtain t3 where 3: "f t2 (MOTOR_MAI_ID_3 cfg) (motorc d) = Inr t3"
    "commanded_to ((([] @ [(MOTOR_MAI_ID_1 cfg, motora d)]) @ [(MOTOR_MAI_ID_2 cfg, motorb d)]) @ [(MOTOR_MAI_ID_3 cfg, motorc d)]) r s t3"
    using f [OF 2(2) v(3)] by blast
  show ?thesis using 1(1) 2(1) 3 by (intro that [of t3]) (simp_all add: set_three_def)
qed

text \<open>What reading leaves alone: the command, the table and the motors.\<close>

definition same_command :: "('p, 'd, 'w) base \<Rightarrow> ('p, 'd, 'w) base \<Rightarrow> bool" where
  "same_command b b' \<longleftrightarrow> target (car b') = target (car b) \<and> run_status (car b') = run_status (car b) \<and> ch_ops (car b') = ch_ops (car b) \<and>
     offset (car b') = offset (car b) \<and> motors b' = motors b \<and> pos_x b' = pos_x b \<and> pos_y b' = pos_y b \<and> w_z b' = w_z b"

lemma module_input_same:
  "fst (module_mai c False True req d) = c\<lparr>present := present (fst (module_mai c False True req d))\<rparr>"
  "fst (module_mai_ops od c False True req d) = c\<lparr>present := present (fst (module_mai_ops od c False True req d))\<rparr>"
  "fst (module_omni3 c False True req e) = c\<lparr>present := present (fst (module_omni3 c False True req e))\<rparr>"
  by (simp_all add: module_mai_def module_mai_ops_def module_omni3_def mai_speed_input_def mai_pos_input_def omni3_input_def
      omni3_back_def Let_def split: chassis_status.split)

lemma updata_ok:
  assumes "ch_ops (car b) = Some t" "all_valid cfg (motors b)"
  obtains b' where "chassis_updata req cfg b = Inr b'" "same_command b b'"
proof -
  have "\<exists>d. driver_mai cfg False True req (motors b) (mai_data b) = Inr (motors b, d)"
    "\<exists>d. driver_mai_ops cfg False True req (motors b) (mai_data1 b) = Inr (motors b, d)"
    "\<exists>d. driver_omni3 cfg False True req (motors b) (omni3_data b) = Inr (motors b, d)"
    by (cases req; simp add: driver_mai_def driver_mai_ops_def driver_omni3_def read_valid [OF assms(2)])+
  then obtain d d1 e where d: "driver_mai cfg False True req (motors b) (mai_data b) = Inr (motors b, d)"
    "driver_mai_ops cfg False True req (motors b) (mai_data1 b) = Inr (motors b, d1)"
    "driver_omni3 cfg False True req (motors b) (omni3_data b) = Inr (motors b, e)" by blast
  define b1 where "b1 = (case t of ops_mai \<Rightarrow> b\<lparr>mai_data := d\<rparr> | ops_mai_ops \<Rightarrow> b\<lparr>mai_data1 := d1\<rparr> | ops_omni3 \<Rightarrow> b\<lparr>omni3_data := e\<rparr>)"
  have c: "call_driver cfg False True req b = Inr b1" using assms(1) d by (cases t) (simp_all add: call_driver_def b1_def)
  have same: "same_command b b1" by (cases t) (simp_all add: b1_def same_command_def)
  have t: "ch_ops (car b1) = Some t" using same assms(1) by (simp add: same_command_def)
  have "\<exists>b'. call_module False True req b1 = Inr b' \<and> same_command b1 b'"
  proof (cases t)
    case ops_mai
    have "same_command b1 (b1\<lparr>car := fst (module_mai (car b1) False True req (mai_data b1)), mai_data := snd (module_mai (car b1) False True req (mai_data b1))\<rparr>)"
      by (subst module_input_same) (simp add: same_command_def)
    then show ?thesis using ops_mai t by (simp add: call_module_def case_prod_beta Let_def)
  next
    case ops_mai_ops
    let ?m = "module_mai_ops (pos_x b1, pos_y b1, w_z b1) (car b1) False True req (mai_data1 b1)"
    have "same_command b1 (b1\<lparr>car := fst ?m, mai_data1 := snd ?m\<rparr>)"
      by (subst module_input_same) (simp add: same_command_def)
    then show ?thesis using ops_mai_ops t by (simp add: call_module_def case_prod_beta Let_def)
  next
    case ops_omni3
    have "same_command b1 (b1\<lparr>car := fst (module_omni3 (car b1) False True req (omni3_data b1)), omni3_data := snd (module_omni3 (car b1) False True req (omni3_data b1))\<rparr>)"
      by (subst module_input_same) (simp add: same_command_def)
    then show ?thesis using ops_omni3 t by (simp add: call_module_def case_prod_beta Let_def)
  qed
  then obtain b' where "call_module False True req b1 = Inr b'" "same_command b1 b'" by blast
  then show ?thesis using c same by (intro that [of b']) (simp_all add: chassis_updata_def same_command_def)
qed

text \<open>
  What the present speed and pose should be for the speeds and positions \<open>v\<close> of the wheels, with the offset \<open>off\<close> and the odometer's
  pose \<open>od\<close>: the sums of the wheels and their scales, for every table.
\<close>

definition wheel_radius :: "chassis_ops \<Rightarrow> fl" where
  "wheel_radius t = (if t = ops_mai_ops then WHELL_R_mai_ops else WHELL_R_mai)"

definition present_speed :: "chassis_ops \<Rightarrow> chassis_data \<Rightarrow> fl list \<Rightarrow> chassis_speed" where
  "present_speed t off v =
     (if t = ops_omni3
      then \<lparr>x_m_s = to_f32 (fadd f64 (x_m_s (speed off)) (fdiv f64 (fmul f64 GEN3 (M2W_SPEED (fsub f32 (v ! 0) (v ! 1)))) (Fin 3))),
            y_m_s = to_f32 (fadd f64 (y_m_s (speed off)) (fdiv f64 (M2W_SPEED (fsub f32 (fadd f32 (v ! 0) (v ! 1)) (fmul f32 (Fin 2) (v ! 2)))) (Fin 3))),
            z_rad_s = to_f32 (fadd f64 (z_rad_s (speed off)) (fdiv f64 (M2W_SPEED (fadd f32 (fadd f32 (v ! 0) (v ! 1)) (v ! 2))) (fmul f64 (Fin 3) omni_L)))\<rparr>
      else let back = speed_back (wheel_radius t) in
           \<lparr>x_m_s = back (x_m_s (speed off)) (fsub f32 (v ! 0) (v ! 1)) (Fin 2),
            y_m_s = back (y_m_s (speed off)) (fadd f32 (fneg (v ! 1)) (v ! 3)) (Fin 2),
            z_rad_s = back (z_rad_s (speed off)) (fneg (fadd f32 (v ! 2) (v ! 1))) (fmul f64 (Fin 2) CHASSIS_HALF_A_B)\<rparr>)"

definition present_pos :: "chassis_ops \<Rightarrow> chassis_data \<Rightarrow> fl \<times> fl \<times> fl \<Rightarrow> fl list \<Rightarrow> chassis_pos" where
  "present_pos t off od v =
     (case t of
        ops_mai \<Rightarrow>
          \<lparr>x_m = pos_back WHELL_R_mai (x_m (pos off)) (fsub f32 (fsub f32 (fadd f32 (v ! 0) (v ! 1)) (v ! 2)) (v ! 3)),
           y_m = pos_back WHELL_R_mai (y_m (pos off)) (fadd f32 (fsub f32 (fsub f32 (v ! 0) (v ! 1)) (v ! 2)) (v ! 3)),
           z_rad = turn_back WHELL_R_mai (z_rad (pos off)) (fadd f32 (fadd f32 (fadd f32 (v ! 0) (v ! 1)) (v ! 2)) (v ! 3))\<rparr>
      | ops_mai_ops \<Rightarrow> \<lparr>x_m = fst od, y_m = fst (snd od), z_rad = snd (snd od)\<rparr>
      | ops_omni3 \<Rightarrow>
          \<lparr>x_m = to_f32 (fadd f64 (x_m_s (speed off)) (fdiv f64 (fmul f64 GEN3 (M2W_POS (fsub f32 (v ! 0) (v ! 1)))) (Fin 3))),
           y_m = to_f32 (fadd f64 (y_m_s (speed off)) (fdiv f64 (M2W_POS (fsub f32 (fadd f32 (v ! 0) (v ! 1)) (fmul f32 (Fin 2) (v ! 2)))) (Fin 3))),
           z_rad = to_f32 (fadd f64 (z_rad_s (speed off)) (fdiv f64 (M2W_POS (fadd f32 (fadd f32 (v ! 0) (v ! 1)) (v ! 2))) (fmul f64 (Fin 3) omni_L)))\<rparr>)"

text \<open>
  The values the wheels should be commanded for a command \<open>(x, y, z)\<close>, wheel by wheel; a command is the target with the offset of the
  speed, and for a pose with the offset 0. The mode: the table with the odometer always commands speeds.
\<close>

definition wheel_targets :: "chassis_ops \<Rightarrow> chassis_status \<Rightarrow> fl \<times> fl \<times> fl \<Rightarrow> fl list" where
  "wheel_targets t req xyz =
     (let (x, y, z) = xyz in
      if t = ops_omni3 then map (\<lambda>s. to_f32 (if req = CHASSIS_SPEED then W2M_SPEED s else W2M_POS s)) [wheel_a x y z, wheel_b x y z, wheel_c x z]
      else if t = ops_mai_ops \<and> req = CHASSIS_SPEED
      then map (\<lambda>s. speed_wheel WHELL_R_mai_ops (fneg (less_turn s z))) [fsub f32 x y, fadd f32 x y, fadd f32 x y, fsub f32 x y]
      else map (\<lambda>s. (if req = CHASSIS_SPEED then speed_wheel else pos_wheel) (wheel_radius t) (less_turn s z))
             [fadd f32 x y, fsub f32 x y, fsub f32 (fneg x) y, fadd f32 (fneg x) y])"

definition chassis_command :: "chassis \<Rightarrow> fl \<times> fl \<times> fl" where
  "chassis_command c =
     (let v = speed (target c); o' = speed (offset c); p = pos (target c) in
      if run_status c = CHASSIS_SPEED then (fadd f32 (x_m_s v) (x_m_s o'), fadd f32 (y_m_s v) (y_m_s o'), fadd f32 (z_rad_s v) (z_rad_s o'))
      else (fadd f32 (x_m p) (Fin 0), fadd f32 (y_m p) (Fin 0), fadd f32 (z_rad p) (Fin 0)))"

definition wheel_mode :: "chassis_ops \<Rightarrow> chassis_status \<Rightarrow> 2 word" where
  "wheel_mode t req = (if req = CHASSIS_POS \<and> t \<noteq> ops_mai_ops then 3 else 2)"

lemma updata_present:
  assumes "ch_ops (car b) = Some t" "all_valid cfg (motors b)"
  shows "chassis_updata_speed cfg b = Inr b' \<Longrightarrow>
      car b' = (car b)\<lparr>present := (present (car b))\<lparr>speed := present_speed t (offset (car b)) (map (speed_of (motors b)) (reader_ids cfg t))\<rparr>\<rparr>"
    "chassis_updata_pos cfg b = Inr b' \<Longrightarrow>
      car b' = (car b)\<lparr>present := (present (car b))\<lparr>pos := present_pos t (offset (car b)) (pos_x b, pos_y b, w_z b) (map (pos_of (motors b)) (reader_ids cfg t))\<rparr>\<rparr>"
  using assms by (cases t; simp add: chassis_updata_speed_def chassis_updata_pos_def chassis_updata_def call_driver_def call_module_def
      driver_mai_def driver_mai_ops_def driver_omni3_def module_mai_def module_mai_ops_def module_omni3_def read_valid
      mai_speed_input_def mai_pos_input_def omni3_input_def omni3_back_def present_speed_def present_pos_def reader_ids_def wheel_radius_def Let_def;
      clarsimp)+

lemma drv_set_ok:
  assumes "ch_ops (car b) = Some t" "all_valid cfg (motors b)" "req = run_status (car b)" "req \<noteq> CHASSIS_IDLE"
    "pos (offset (car b)) = \<lparr>x_m = Fin 0, y_m = Fin 0, z_rad = Fin 0\<rparr>"
  obtains b' where "chassis_drv_set req cfg b = Inr b'" "car b' = car b"
    "commanded_to (zip (wheel_ids cfg t) (wheel_targets t req (chassis_command (car b)))) (wheel_mode t req) (motors b) (motors b')"
proof (cases t)
  case ops_mai
  let ?f = "if req = CHASSIS_SPEED then motor_set_speed else motor_set_pos"
  let ?d = "mai_output (car b) (mai_data b) req"
  obtain s where s: "set_four ?f cfg ?d (motors b) = Inr s"
    "commanded_to (zip [MOTOR_MAI_ID_1 cfg, MOTOR_MAI_ID_2 cfg, MOTOR_MAI_ID_3 cfg, MOTOR_MAI_ID_4 cfg] [motor1 ?d, motor2 ?d, motor3 ?d, motor4 ?d])
       (wheel_mode t req) (motors b) s"
    by (rule set_four_ok [OF assms(2), of "wheel_mode t req" ?f ?d])
      (use assms(4) ops_mai in \<open>cases req; simp add: wheel_mode_def\<close>, blast)
  have d: "chassis_drv_set req cfg b = Inr (b\<lparr>mai_data := ?d, motors := s\<rparr>)"
    using assms(1,4) ops_mai s(1) by (cases req) (simp_all add: chassis_drv_set_def call_module_def call_driver_def module_mai_def driver_mai_def)
  have w: "[motor1 ?d, motor2 ?d, motor3 ?d, motor4 ?d] = wheel_targets t req (chassis_command (car b))"
    using assms(3-5) ops_mai by (cases req) (simp_all add: mai_output_def wheel_targets_def chassis_command_def cmd_def wheel_radius_def Let_def)
  show ?thesis by (rule that [OF d]) (use s(2) [unfolded w] ops_mai in \<open>simp_all add: wheel_ids_def\<close>)
next
  case ops_mai_ops
  let ?d = "mai_ops_output (car b) (mai_data1 b) req"
  obtain s where s: "set_four motor_set_speed cfg ?d (motors b) = Inr s"
    "commanded_to (zip [MOTOR_MAI_ID_1 cfg, MOTOR_MAI_ID_2 cfg, MOTOR_MAI_ID_3 cfg, MOTOR_MAI_ID_4 cfg] [motor1 ?d, motor2 ?d, motor3 ?d, motor4 ?d])
       (wheel_mode t req) (motors b) s"
    by (rule set_four_ok [OF assms(2), of "wheel_mode t req" motor_set_speed ?d]) (use ops_mai_ops in \<open>simp add: wheel_mode_def\<close>, blast)
  have d: "chassis_drv_set req cfg b = Inr (b\<lparr>mai_data1 := ?d, motors := s\<rparr>)"
    using assms(1,4) ops_mai_ops s(1) by (cases req) (simp_all add: chassis_drv_set_def call_module_def call_driver_def module_mai_ops_def driver_mai_ops_def)
  have w: "[motor1 ?d, motor2 ?d, motor3 ?d, motor4 ?d] = wheel_targets t req (chassis_command (car b))"
    using assms(3-5) ops_mai_ops by (cases req) (simp_all add: mai_ops_output_def wheel_targets_def chassis_command_def cmd_def wheel_radius_def Let_def)
  show ?thesis by (rule that [OF d]) (use s(2) [unfolded w] ops_mai_ops in \<open>simp_all add: wheel_ids_def\<close>)
next
  case ops_omni3
  let ?f = "if req = CHASSIS_SPEED then motor_set_speed else motor_set_pos"
  let ?d = "omni3_output (car b) (omni3_data b) req"
  obtain s where s: "set_three ?f cfg ?d (motors b) = Inr s"
    "commanded_to (zip [MOTOR_MAI_ID_1 cfg, MOTOR_MAI_ID_2 cfg, MOTOR_MAI_ID_3 cfg] [motora ?d, motorb ?d, motorc ?d]) (wheel_mode t req) (motors b) s"
    by (rule set_three_ok [OF assms(2), of "wheel_mode t req" ?f ?d])
      (use assms(4) ops_omni3 in \<open>cases req; simp add: wheel_mode_def\<close>, blast)
  have d: "chassis_drv_set req cfg b = Inr (b\<lparr>omni3_data := ?d, motors := s\<rparr>)"
    using assms(1,4) ops_omni3 s(1) by (cases req) (simp_all add: chassis_drv_set_def call_module_def call_driver_def module_omni3_def driver_omni3_def)
  have w: "[motora ?d, motorb ?d, motorc ?d] = wheel_targets t req (chassis_command (car b))"
    using assms(3-5) ops_omni3 by (cases req) (simp_all add: omni3_output_def wheel_targets_def chassis_command_def cmd_def Let_def)
  show ?thesis by (rule that [OF d]) (use s(2) [unfolded w] ops_omni3 in \<open>simp_all add: wheel_ids_def\<close>)
qed

declare chassis_handle.simps [simp del]

text \<open>The calls of the handler up to the command.\<close>

lemma handle_steps:
  assumes "ch_ops (car b) = Some t" "all_valid cfg (motors b)"
  obtains b1 b2 b3 where "chassis_updata_speed cfg b = Inr b1" "same_command b b1" "chassis_updata_pos cfg b1 = Inr b2" "same_command b1 b2"
    "b3 = b2\<lparr>car := chassis_updata_offset (car b2)\<rparr>" "ch_ops (car b3) = Some t" "all_valid cfg (motors b3)" "motors b3 = motors b"
    "run_status (car b3) = run_status (car b)" "target (car b3) = target (car b)" "speed (offset (car b3)) = speed (offset (car b))"
    "pos (offset (car b3)) = \<lparr>x_m = Fin 0, y_m = Fin 0, z_rad = Fin 0\<rparr>"
    "chassis_handle cfg (Some b) = cbind (if run_status (car b) = CHASSIS_IDLE then Inr b3
       else chassis_drv_set (run_status (car b)) cfg b3) (\<lambda>b. Inr (0, Some b))"
proof -
  obtain b1 where 1: "chassis_updata_speed cfg b = Inr b1" "same_command b b1"
    using updata_ok [OF assms, of CHASSIS_SPEED] by (auto simp: chassis_updata_speed_def)
  then have v: "ch_ops (car b1) = Some t" "all_valid cfg (motors b1)" using assms by (simp_all add: same_command_def)
  obtain b2 where 2: "chassis_updata_pos cfg b1 = Inr b2" "same_command b1 b2"
    using updata_ok [OF v, of CHASSIS_POS] by (auto simp: chassis_updata_pos_def)
  let ?b = "b2\<lparr>car := chassis_updata_offset (car b2)\<rparr>"
  have keep: "motors ?b = motors b" "ch_ops (car ?b) = Some t" "all_valid cfg (motors ?b)" "run_status (car ?b) = run_status (car b)" "target (car ?b) = target (car b)"
    "speed (offset (car ?b)) = speed (offset (car b))" "pos (offset (car ?b)) = \<lparr>x_m = Fin 0, y_m = Fin 0, z_rad = Fin 0\<rparr>"
    using 1(2) 2(2) assms by (simp_all add: same_command_def chassis_updata_offset_def)
  have "chassis_handle cfg (Some b) = cbind (if run_status (car b) = CHASSIS_IDLE then Inr ?b
       else chassis_drv_set (run_status (car b)) cfg ?b) (\<lambda>b. Inr (0, Some b))"
    using 1(1) 2(1) keep(4) by (cases "run_status (car b)") (simp_all add: chassis_handle.simps chassis_drv_set_speed_def chassis_drv_set_pos_def)
  then show ?thesis using 1 2 keep by (intro that [of b1 b2 ?b]) simp_all
qed

section \<open>Properties\<close>

text \<open>
  C8: with motor numbers that exist, one call of the handler succeeds with any table. It reads the wheels: the present speed and the present
  pose are those of the speeds and positions of exactly the table's motors (with the odometer's table the pose is the odometer's), with the
  offset before it clears the offset of the pose; command, status and table are kept. Then it commands the wheels: none when idle, else
  every motor of the table, in order, gets the value of its own wheel for the command as its target, as a speed or a position, and all else
  of the motors stays. A null pointer gives -1, a chassis without table is a null pointer, and with mecanum wheels a first motor number
  past the end of the motor list stops the program.
\<close>
theorem chassis_handle_contract:
  "chassis_handle cfg None = Inr (- 1, None) \<and>
   (ch_ops (car b) = None \<longrightarrow> chassis_handle cfg (Some b) = Inl NullDeref) \<and>
   (ch_ops (car b) = Some ops_mai \<and> int (length (motor_list (motors b))) \<le> MOTOR_MAI_ID_1 cfg \<longrightarrow> chassis_handle cfg (Some b) = Inl Stuck) \<and>
   (ch_ops (car b) = Some t \<and> all_valid cfg (motors b) \<longrightarrow>
     (\<exists>b'. chassis_handle cfg (Some b) = Inr (0, Some b') \<and>
        car b' = (car b)\<lparr>present := \<lparr>speed = present_speed t (offset (car b)) (map (speed_of (motors b)) (reader_ids cfg t)),
            pos = present_pos t (offset (car b)) (pos_x b, pos_y b, w_z b) (map (pos_of (motors b)) (reader_ids cfg t))\<rparr>,
          offset := (offset (car b))\<lparr>pos := \<lparr>x_m = Fin 0, y_m = Fin 0, z_rad = Fin 0\<rparr>\<rparr>\<rparr> \<and>
        (if run_status (car b) = CHASSIS_IDLE then motors b' = motors b
         else commanded_to (zip (wheel_ids cfg t) (wheel_targets t (run_status (car b)) (chassis_command (car b))))
           (wheel_mode t (run_status (car b))) (motors b) (motors b'))))"
proof (intro conjI impI)
  assume a: "ch_ops (car b) = Some t \<and> all_valid cfg (motors b)"
  obtain b1 b2 b3 where steps: "chassis_updata_speed cfg b = Inr b1" "same_command b b1" "chassis_updata_pos cfg b1 = Inr b2"
    "b3 = b2\<lparr>car := chassis_updata_offset (car b2)\<rparr>" "ch_ops (car b3) = Some t" "all_valid cfg (motors b3)" "motors b3 = motors b"
    "run_status (car b3) = run_status (car b)" "target (car b3) = target (car b)" "speed (offset (car b3)) = speed (offset (car b))"
    "pos (offset (car b3)) = \<lparr>x_m = Fin 0, y_m = Fin 0, z_rad = Fin 0\<rparr>"
    "chassis_handle cfg (Some b) = cbind (if run_status (car b) = CHASSIS_IDLE then Inr b3
       else chassis_drv_set (run_status (car b)) cfg b3) (\<lambda>b. Inr (0, Some b))"
    by (rule handle_steps [OF conjunct1 [OF a] conjunct2 [OF a]]) (rule that; assumption)
  have b1: "ch_ops (car b1) = Some t" "all_valid cfg (motors b1)" "motors b1 = motors b" "offset (car b1) = offset (car b)"
    "pos_x b1 = pos_x b" "pos_y b1 = pos_y b" "w_z b1 = w_z b" using a steps(2) by (simp_all add: same_command_def)
  note car1 = updata_present(1) [OF conjunct1 [OF a] conjunct2 [OF a] steps(1)] and car2 = updata_present(2) [OF b1(1,2) steps(3)]
  have car: "car b3 = (car b)\<lparr>present := \<lparr>speed = present_speed t (offset (car b)) (map (speed_of (motors b)) (reader_ids cfg t)),
            pos = present_pos t (offset (car b)) (pos_x b, pos_y b, w_z b) (map (pos_of (motors b)) (reader_ids cfg t))\<rparr>,
          offset := (offset (car b))\<lparr>pos := \<lparr>x_m = Fin 0, y_m = Fin 0, z_rad = Fin 0\<rparr>\<rparr>\<rparr>"
    unfolding steps(4) using car1 car2 b1(3-7) by (simp add: chassis_updata_offset_def)
  have cmd: "chassis_command (car b3) = chassis_command (car b)" using steps(8-10) by (simp add: chassis_command_def)
  obtain b' where b': "(if run_status (car b) = CHASSIS_IDLE then Inr b3 else chassis_drv_set (run_status (car b)) cfg b3) = Inr b'" "car b' = car b3"
    "if run_status (car b) = CHASSIS_IDLE then motors b' = motors b
     else commanded_to (zip (wheel_ids cfg t) (wheel_targets t (run_status (car b)) (chassis_command (car b)))) (wheel_mode t (run_status (car b))) (motors b) (motors b')"
  proof (cases "run_status (car b) = CHASSIS_IDLE")
    case True
    then show ?thesis using that [of b3] steps(7) by simp
  next
    case False
    show ?thesis by (rule drv_set_ok [OF steps(5,6) steps(8) [symmetric] False steps(11)]) (rule that; use False steps(7) cmd in simp)
  qed
  then show "\<exists>b'. chassis_handle cfg (Some b) = Inr (0, Some b') \<and>
        car b' = (car b)\<lparr>present := \<lparr>speed = present_speed t (offset (car b)) (map (speed_of (motors b)) (reader_ids cfg t)),
            pos = present_pos t (offset (car b)) (pos_x b, pos_y b, w_z b) (map (pos_of (motors b)) (reader_ids cfg t))\<rparr>,
          offset := (offset (car b))\<lparr>pos := \<lparr>x_m = Fin 0, y_m = Fin 0, z_rad = Fin 0\<rparr>\<rparr>\<rparr> \<and>
        (if run_status (car b) = CHASSIS_IDLE then motors b' = motors b
         else commanded_to (zip (wheel_ids cfg t) (wheel_targets t (run_status (car b)) (chassis_command (car b))))
           (wheel_mode t (run_status (car b))) (motors b) (motors b'))"
    using car unfolding steps(12) by (intro exI [of _ b']) simp
qed (simp_all add: chassis_handle.simps chassis_updata_speed_def chassis_updata_def call_driver_def driver_mai_def read_four_def motor_get_speed_def asserted_def motor_get_def)

text \<open>The wheel angles of a pose.\<close>

lemma near_less_turn:
  assumes "near s x (4 / 1000000)" "\<bar>x\<bar> \<le> 32" "near z w (1 / 1000000)" "\<bar>w\<bar> \<le> 16" "CHASSIS_HALF_A_B = Fin h" "154 / 1000 < h" "h < 155 / 1000"
  shows "near (less_turn s z) (x - w * h) (5 / 1000000)" "\<bar>x - w * h\<bar> \<le> 35"
proof -
  have t: "near (fmul f64 z CHASSIS_HALF_A_B) (w * h) (2 / 10000000)"
    unfolding assms(5) by (rule double.near_mul_exact [OF assms(3), where X = 16 and Y = "155 / 1000" and B = 3]) (use assms in simp_all)
  have "\<bar>w * h\<bar> \<le> 16 * (155 / 1000)" unfolding abs_mult using assms by (intro mult_mono) simp_all
  then have wh: "\<bar>w * h\<bar> \<le> 3" by simp
  then show "\<bar>x - w * h\<bar> \<le> 35" using assms(2) by linarith
  then have "\<bar>x - w * h\<bar> + 4 / 1000000 + 2 / 10000000 \<le> 36" by linarith
  then show "near (less_turn s z) (x - w * h) (5 / 1000000)"
    unfolding less_turn_def by (rule double.near_sub [OF assms(1) t]) simp_all
qed

lemma near_pos_wheel:
  assumes "near s x (5 / 1000000)" "\<bar>x\<bar> \<le> 35" "conversion WHELL_R_mai = Fin k" "753 < k" "k < 755"
  shows "near (pos_wheel WHELL_R_mai s) (x * k) (6 / 1000)" "\<bar>x * k\<bar> \<le> 26425"
proof -
  have a: "near (fmul f64 s (Fin k)) (x * k) (4 / 1000)"
    by (rule double.near_mul_exact [OF assms(1), where X = 35 and Y = 755 and B = 27000]) (use assms in simp_all)
  have "\<bar>x * k\<bar> \<le> 35 * 755" unfolding abs_mult using assms by (intro mult_mono) simp_all
  then show b: "\<bar>x * k\<bar> \<le> 26425" by simp
  show "near (pos_wheel WHELL_R_mai s) (x * k) (6 / 1000)"
    unfolding pos_wheel_def assms(3) by (rule near_to_f32 [OF a, where B = 27000]) (use b in simp_all)
qed

text \<open>The translations of the four wheels.\<close>

lemma near_translations:
  assumes "near X x (1 / 1000000)" "near Y y (1 / 1000000)" "\<bar>x\<bar> \<le> 16" "\<bar>y\<bar> \<le> 16"
  shows "near (fadd f32 X Y) (x + y) (4 / 1000000)" "near (fsub f32 X Y) (x - y) (4 / 1000000)"
    "near (fsub f32 (fneg X) Y) (- x - y) (4 / 1000000)" "near (fadd f32 (fneg X) Y) (- x + y) (4 / 1000000)"
proof -
  have b: "\<bar>x + y\<bar> + 1 / 1000000 + 1 / 1000000 \<le> 33" "\<bar>x - y\<bar> + 1 / 1000000 + 1 / 1000000 \<le> 33"
    "\<bar>- x - y\<bar> + 1 / 1000000 + 1 / 1000000 \<le> 33" "\<bar>- x + y\<bar> + 1 / 1000000 + 1 / 1000000 \<le> 33" using assms(3,4) by linarith+
  show "near (fadd f32 X Y) (x + y) (4 / 1000000)" by (rule float.near_add [OF assms(1,2) b(1)]) simp_all
  show "near (fsub f32 X Y) (x - y) (4 / 1000000)" by (rule float.near_sub [OF assms(1,2) b(2)]) simp_all
  show "near (fsub f32 (fneg X) Y) (- x - y) (4 / 1000000)" by (rule float.near_sub [OF near_neg [OF assms(1)] assms(2) b(3)]) simp_all
  show "near (fadd f32 (fneg X) Y) (- x + y) (4 / 1000000)" by (rule float.near_add [OF near_neg [OF assms(1)] assms(2) b(4)]) simp_all
qed

lemma near_cmd: "\<bar>x\<bar> \<le> 16 \<Longrightarrow> f (target c) = Fin x \<Longrightarrow> f (offset c) = Fin 0 \<Longrightarrow> near (cmd f c) x (1 / 1000000)"
  unfolding cmd_def using float.near_add [OF near_exact near_exact, of x 0 16 "1 / 1000000"] by simp

lemma near_wheel_angles:
  fixes d0 :: chassis_mai_data
  assumes "pos (target c) = \<lparr>x_m = Fin x, y_m = Fin y, z_rad = Fin z\<rparr>" "pos (offset c) = \<lparr>x_m = Fin 0, y_m = Fin 0, z_rad = Fin 0\<rparr>"
    "\<bar>x\<bar> \<le> 16" "\<bar>y\<bar> \<le> 16" "\<bar>z\<bar> \<le> 16"
    "CHASSIS_HALF_A_B = Fin h" "154 / 1000 < h" "h < 155 / 1000" "conversion WHELL_R_mai = Fin k" "753 < k" "k < 755"
  defines "d \<equiv> mai_output c d0 CHASSIS_POS"
  shows "near (motor1 d) ((x + y - z * h) * k) (6 / 1000)" "near (motor2 d) ((x - y - z * h) * k) (6 / 1000)"
    "near (motor3 d) ((- x - y - z * h) * k) (6 / 1000)" "near (motor4 d) ((- x + y - z * h) * k) (6 / 1000)"
    "\<bar>(x + y - z * h) * k\<bar> \<le> 26425" "\<bar>(x - y - z * h) * k\<bar> \<le> 26425" "\<bar>(- x - y - z * h) * k\<bar> \<le> 26425" "\<bar>(- x + y - z * h) * k\<bar> \<le> 26425"
proof -
  let ?X = "cmd (\<lambda>t. x_m (pos t)) c" and ?Y = "cmd (\<lambda>t. y_m (pos t)) c" and ?Z = "cmd (\<lambda>t. z_rad (pos t)) c"
  have n: "near ?X x (1 / 1000000)" "near ?Y y (1 / 1000000)" "near ?Z z (1 / 1000000)" 
    by (rule near_cmd; use assms(1-5) in simp)+
  note t = near_translations [OF n(1,2) assms(3,4)]
  have b: "\<bar>x + y\<bar> \<le> 32" "\<bar>x - y\<bar> \<le> 32" "\<bar>- x - y\<bar> \<le> 32" "\<bar>- x + y\<bar> \<le> 32" using assms(3,4) by linarith+
  note l = near_less_turn [OF t(1) b(1) n(3) assms(5-8)] near_less_turn [OF t(2) b(2) n(3) assms(5-8)]
    near_less_turn [OF t(3) b(3) n(3) assms(5-8)] near_less_turn [OF t(4) b(4) n(3) assms(5-8)]
  note w = near_pos_wheel [OF l(1,2) assms(9-11)] near_pos_wheel [OF l(3,4) assms(9-11)]
    near_pos_wheel [OF l(5,6) assms(9-11)] near_pos_wheel [OF l(7,8) assms(9-11)]
  have d: "motor1 d = pos_wheel WHELL_R_mai (less_turn (fadd f32 ?X ?Y) ?Z)" "motor2 d = pos_wheel WHELL_R_mai (less_turn (fsub f32 ?X ?Y) ?Z)"
    "motor3 d = pos_wheel WHELL_R_mai (less_turn (fsub f32 (fneg ?X) ?Y) ?Z)" "motor4 d = pos_wheel WHELL_R_mai (less_turn (fadd f32 (fneg ?X) ?Y) ?Z)"
    by (simp_all add: d_def mai_output_def Let_def)
  show "near (motor1 d) ((x + y - z * h) * k) (6 / 1000)" unfolding d by (rule w(1))
  show "near (motor2 d) ((x - y - z * h) * k) (6 / 1000)" unfolding d by (rule w(3))
  show "near (motor3 d) ((- x - y - z * h) * k) (6 / 1000)" unfolding d by (rule w(5))
  show "near (motor4 d) ((- x + y - z * h) * k) (6 / 1000)" unfolding d by (rule w(7))
  show "\<bar>(x + y - z * h) * k\<bar> \<le> 26425" by (rule w(2))
  show "\<bar>(x - y - z * h) * k\<bar> \<le> 26425" by (rule w(4))
  show "\<bar>(- x - y - z * h) * k\<bar> \<le> 26425" by (rule w(6))
  show "\<bar>(- x + y - z * h) * k\<bar> \<le> 26425" by (rule w(8))
qed

text \<open>Three sums of four wheel angles, and the pose computed from them.\<close>

lemma near_sums:
  assumes "near a p (11 / 1000)" "near b q (11 / 1000)" "near c r (11 / 1000)" "near d s (11 / 1000)"
    "\<bar>p\<bar> \<le> 26425" "\<bar>q\<bar> \<le> 26425" "\<bar>r\<bar> \<le> 26425" "\<bar>s\<bar> \<le> 26425"
  shows "near (fsub f32 (fsub f32 (fadd f32 a b) c) d) (p + q - r - s) (9 / 100)"
    "near (fadd f32 (fsub f32 (fsub f32 a b) c) d) (p - q - r + s) (9 / 100)"
    "near (fadd f32 (fadd f32 (fadd f32 a b) c) d) (p + q + r + s) (9 / 100)"
proof -
  have B: "\<bar>p + q\<bar> + 11 / 1000 + 11 / 1000 \<le> 53000" "\<bar>p - q\<bar> + 11 / 1000 + 11 / 1000 \<le> 53000"
    "\<bar>p + q - r\<bar> + 26 / 1000 + 11 / 1000 \<le> 80000" "\<bar>p - q - r\<bar> + 26 / 1000 + 11 / 1000 \<le> 80000" "\<bar>p + q + r\<bar> + 26 / 1000 + 11 / 1000 \<le> 80000"
    "\<bar>p + q - r - s\<bar> + 43 / 1000 + 11 / 1000 \<le> 106000" "\<bar>p - q - r + s\<bar> + 43 / 1000 + 11 / 1000 \<le> 106000"
    "\<bar>p + q + r + s\<bar> + 43 / 1000 + 11 / 1000 \<le> 106000" using assms(5-8) by linarith+
  have 1: "near (fadd f32 a b) (p + q) (26 / 1000)" by (rule float.near_add [OF assms(1,2) B(1)]) simp_all
  have 2: "near (fsub f32 a b) (p - q) (26 / 1000)" by (rule float.near_sub [OF assms(1,2) B(2)]) simp_all
  have 3: "near (fsub f32 (fadd f32 a b) c) (p + q - r) (43 / 1000)" by (rule float.near_sub [OF 1 assms(3) B(3)]) simp_all
  have 4: "near (fsub f32 (fsub f32 a b) c) (p - q - r) (43 / 1000)" by (rule float.near_sub [OF 2 assms(3) B(4)]) simp_all
  have 5: "near (fadd f32 (fadd f32 a b) c) (p + q + r) (43 / 1000)" by (rule float.near_add [OF 1 assms(3) B(5)]) simp_all
  show "near (fsub f32 (fsub f32 (fadd f32 a b) c) d) (p + q - r - s) (9 / 100)" by (rule float.near_sub [OF 3 assms(4) B(6)]) simp_all
  show "near (fadd f32 (fsub f32 (fsub f32 a b) c) d) (p - q - r + s) (9 / 100)" by (rule float.near_add [OF 4 assms(4) B(7)]) simp_all
  show "near (fadd f32 (fadd f32 (fadd f32 a b) c) d) (p + q + r + s) (9 / 100)" by (rule float.near_add [OF 5 assms(4) B(8)]) simp_all
qed

lemma near_pos_back:
  assumes "near a (4 * x * k) (9 / 100)" "\<bar>x\<bar> \<le> 16" "conversion WHELL_R_mai = Fin k" "753 < k" "k < 755"
  shows "near (pos_back WHELL_R_mai (Fin 0) a) x (1 / 1000)"
proof -
  have "\<bar>4 * x * k\<bar> \<le> 4 * 16 * 755" unfolding abs_mult using assms by (intro mult_mono) simp_all
  then have b: "\<bar>4 * x * k\<bar> \<le> 50000" by simp
  have 1: "near (fdiv f32 a (Fin 4)) (4 * x * k / 4) (3 / 100)"
    by (rule float.near_div_exact [OF assms(1) b, where m = 4 and B = 20000]) simp_all
  have b': "\<bar>4 * x * k / 4\<bar> \<le> 20000" using b by simp
  have 2: "near (fdiv f32 (fdiv f32 a (Fin 4)) (Fin k)) (4 * x * k / 4 / k) (1 / 10000)"
    by (rule float.near_div_exact [OF 1 b', where m = 753 and B = 30]) (use assms in simp_all)
  have "4 * x * k / 4 / k = x" using assms by simp
  then show ?thesis
    unfolding pos_back_def assms(3) using float.near_add [OF near_exact [of 0] 2, where B = 17 and c = "1 / 1000"] assms(2) by simp
qed

lemma near_turn_back:
  assumes "near a (- 4 * z * h * k) (9 / 100)" "\<bar>z\<bar> \<le> 16" "CHASSIS_HALF_A_B = Fin h" "154 / 1000 < h" "h < 155 / 1000"
    "conversion WHELL_R_mai = Fin k" "753 < k" "k < 755"
  shows "near (turn_back WHELL_R_mai (Fin 0) a) z (1 / 1000)"
proof -
  have "\<bar>- 4 * z * h * k\<bar> \<le> 4 * 16 * (155 / 1000) * 755" unfolding abs_mult using assms by (intro mult_mono) simp_all
  then have b: "\<bar>- 4 * z * h * k\<bar> \<le> 7500" by simp
  have 1: "near (fdiv f64 a (Fin h)) (- 4 * z * h * k / h) (6 / 10)"
    by (rule double.near_div_exact [OF assms(1) b, where m = "154 / 1000" and B = 50000]) (use assms in simp_all)
  have e: "- 4 * z * h * k / h = - 4 * z * k" using assms by simp
  have "\<bar>- 4 * z * k\<bar> \<le> 4 * 16 * 755" unfolding abs_mult using assms by (intro mult_mono) simp_all
  then have b: "\<bar>- 4 * z * k\<bar> \<le> 50000" by simp
  have 2: "near (fdiv f64 (fdiv f64 a (Fin h)) (Fin 4)) (- 4 * z * k / 4) (16 / 100)"
    by (rule double.near_div_exact [OF 1 [unfolded e] b, where m = 4 and B = 20000]) simp_all
  have b': "\<bar>- 4 * z * k / 4\<bar> \<le> 20000" using b by simp
  have 3: "near (fdiv f64 (fdiv f64 (fdiv f64 a (Fin h)) (Fin 4)) (Fin k)) (- 4 * z * k / 4 / k) (3 / 10000)"
    by (rule double.near_div_exact [OF 2 b', where m = 753 and B = 30]) (use assms in simp_all)
  have e: "- 4 * z * k / 4 / k = - z" using assms by simp
  have "near (fsub f64 (Fin 0) (fdiv f64 (fdiv f64 (fdiv f64 a (Fin h)) (Fin 4)) (Fin k))) (0 - (- z)) (4 / 10000)"
    by (rule double.near_sub [OF near_exact [of 0] 3 [unfolded e], where B = 17]) (use assms in simp_all)
  then have "near (turn_back WHELL_R_mai (Fin 0) a) (0 - (- z)) (1 / 1000)"
    unfolding turn_back_def assms(3,6) by (rule near_to_f32 [where B = 17]) (use assms in simp_all)
  then show ?thesis by simp
qed

section \<open>Poses reached\<close>

lemma motor_at_put [simp]: "valid s i \<Longrightarrow> valid s j \<Longrightarrow> motor_at (put (nat i) m s) j = (if i = j then m else motor_at s j)"
  by (auto simp: motor_at_def valid_def put_def)

text \<open>The motors \<open>s\<close> have reached the positions commanded to \<open>s'\<close>.\<close>

definition arrived :: "chassis_cfg \<Rightarrow> ('p, 'd, 'w) robot \<Rightarrow> ('p, 'd, 'w) robot \<Rightarrow> bool" where
  "arrived cfg s' s \<longleftrightarrow> length (motor_list s) = length (motor_list s') \<and>
     (\<forall>i \<in> set_ids cfg ops_mai. cur_pos (motor_at s i) = tar_pos (motor_at s' i) \<and> ratio (motor_at s i) = ratio (motor_at s' i))"

definition mai_distinct :: "chassis_cfg \<Rightarrow> bool" where
  "mai_distinct cfg \<longleftrightarrow> distinct [MOTOR_MAI_ID_1 cfg, MOTOR_MAI_ID_2 cfg, MOTOR_MAI_ID_3 cfg, MOTOR_MAI_ID_4 cfg]"

lemma set_pos_four:
  assumes "all_valid cfg s" "mai_distinct cfg"
  obtains t where "set_four motor_set_pos cfg d s = Inr t" "length (motor_list t) = length (motor_list s)"
    "\<forall>u. arrived cfg t u \<longrightarrow>
       pos_of u (MOTOR_MAI_ID_1 cfg) = fdiv f32 (fmul f32 (motor1 d) (ratio (motor_at s (MOTOR_MAI_ID_1 cfg)))) (ratio (motor_at s (MOTOR_MAI_ID_1 cfg))) \<and>
       pos_of u (MOTOR_MAI_ID_2 cfg) = fdiv f32 (fmul f32 (motor2 d) (ratio (motor_at s (MOTOR_MAI_ID_2 cfg)))) (ratio (motor_at s (MOTOR_MAI_ID_2 cfg))) \<and>
       pos_of u (MOTOR_MAI_ID_3 cfg) = fdiv f32 (fmul f32 (motor3 d) (ratio (motor_at s (MOTOR_MAI_ID_3 cfg)))) (ratio (motor_at s (MOTOR_MAI_ID_3 cfg))) \<and>
       pos_of u (MOTOR_MAI_ID_4 cfg) = fdiv f32 (fmul f32 (motor4 d) (ratio (motor_at s (MOTOR_MAI_ID_4 cfg)))) (ratio (motor_at s (MOTOR_MAI_ID_4 cfg)))"
proof -
  have v: "valid s (MOTOR_MAI_ID_1 cfg)" "valid s (MOTOR_MAI_ID_2 cfg)" "valid s (MOTOR_MAI_ID_3 cfg)" "valid s (MOTOR_MAI_ID_4 cfg)"
    using assms(1) by (simp_all add: all_valid_def)
  define f where "f i v u = put (nat i) ((motor_at u i)\<lparr>flag_run_mode := 3, tar_pos := fmul f32 v (ratio (motor_at u i))\<rparr>) u" for i v and u :: "('a, 'b, 'c) robot"
  have at: "motor_at (f i v u) j = (if i = j then (motor_at u i)\<lparr>flag_run_mode := 3, tar_pos := fmul f32 v (ratio (motor_at u i))\<rparr> else motor_at u j)"
    if "valid u i" "valid u j" for i j v and u :: "('a, 'b, 'c) robot" using that by (simp add: f_def)
  have vf: "valid (f i v u) j = valid u j" for i j v and u :: "('a, 'b, 'c) robot" by (simp add: f_def)
  have set: "motor_set_pos u i v = Inr (f i v u)" if "valid u i" for i v and u :: "('a, 'b, 'c) robot"
    using that by (simp add: motor_set_pos_def f_def)
  let ?t = "f (MOTOR_MAI_ID_4 cfg) (motor4 d) (f (MOTOR_MAI_ID_3 cfg) (motor3 d) (f (MOTOR_MAI_ID_2 cfg) (motor2 d) (f (MOTOR_MAI_ID_1 cfg) (motor1 d) s)))"
  have "set_four motor_set_pos cfg d s = Inr ?t" using v by (simp add: set_four_def set vf)
  moreover have "length (motor_list ?t) = length (motor_list s)" by (simp add: f_def)
  ultimately show ?thesis
    by (rule that) (use v assms(2) in \<open>simp add: arrived_def pos_of_def set_ids_def mai_distinct_def at vf\<close>)
qed

lemma near_at_motor:
  assumes "near m a (6 / 1000)" "\<bar>a\<bar> \<le> 26425" "1 / 2 ^ 10 \<le> \<bar>r\<bar>" "\<bar>r\<bar> \<le> 2 ^ 20"
  shows "near (fdiv f32 (fmul f32 m (Fin r)) (Fin r)) a (11 / 1000)"
proof -
  from assms(1) obtain q where q: "m = Fin q" "\<bar>q - a\<bar> \<le> 6 / 1000" by (auto simp: near_def)
  then have "\<bar>q\<bar> \<le> 26426" using assms(2) by linarith
  then have "\<bar>q\<bar> \<le> 2 ^ 15" by simp
  then have "near (fdiv f32 (fmul f32 (Fin q) (Fin r)) (Fin r)) q (1 / 200)" using assms(3,4) by (rule ratio_back)
  then obtain s where s: "fdiv f32 (fmul f32 (Fin q) (Fin r)) (Fin r) = Fin s" "\<bar>s - q\<bar> \<le> 1 / 200" by (auto simp: near_def)
  then have "\<bar>s - a\<bar> \<le> 11 / 1000" using q(2) by linarith
  then show ?thesis using s q(1) by simp
qed

lemma updata_mai:
  assumes "ch_ops (car b) = Some ops_mai" "all_valid cfg (motors b)"
  shows "chassis_updata_pos cfg b =
    (let d = (mai_data b)\<lparr>motor1 := pos_of (motors b) (MOTOR_MAI_ID_1 cfg), motor2 := pos_of (motors b) (MOTOR_MAI_ID_2 cfg),
       motor3 := pos_of (motors b) (MOTOR_MAI_ID_3 cfg), motor4 := pos_of (motors b) (MOTOR_MAI_ID_4 cfg)\<rparr>
     in Inr (b\<lparr>mai_data := d, car := mai_pos_input (car b) d\<rparr>))"
    "chassis_updata_speed cfg b =
    (let d = (mai_data b)\<lparr>motor1 := speed_of (motors b) (MOTOR_MAI_ID_1 cfg), motor2 := speed_of (motors b) (MOTOR_MAI_ID_2 cfg),
       motor3 := speed_of (motors b) (MOTOR_MAI_ID_3 cfg), motor4 := speed_of (motors b) (MOTOR_MAI_ID_4 cfg)\<rparr>
     in Inr (b\<lparr>mai_data := d, car := mai_speed_input WHELL_R_mai (car b) d\<rparr>))"
  using assms by (simp_all add: chassis_updata_pos_def chassis_updata_speed_def chassis_updata_def call_driver_def driver_mai_def
      read_valid Let_def call_module_def module_mai_def)

text \<open>
  C9: four mecanum wheels on four different motors reach a pose that is commanded. When the motors
  have arrived where the handler sent them, the pose read back is the commanded one within a
  millimetre and a milliradian, for commands up to 16 and gear ratios from \<open>2 ^ -10\<close> to \<open>2 ^ 20\<close>, with every
  operation rounded as in the code.
\<close>
theorem mai_pose_reached:
  fixes b :: "('p, 'd, 'w) base"
  assumes "ch_ops (car b) = Some ops_mai" "run_status (car b) = CHASSIS_POS" "all_valid cfg (motors b)" "mai_distinct cfg"
    "pos (target (car b)) = \<lparr>x_m = Fin x, y_m = Fin y, z_rad = Fin z\<rparr>" "\<bar>x\<bar> \<le> 16" "\<bar>y\<bar> \<le> 16" "\<bar>z\<bar> \<le> 16"
    "\<And>i. i \<in> set_ids cfg ops_mai \<Longrightarrow> \<exists>r. ratio (motor_at (motors b) i) = Fin r \<and> 1 / 2 ^ 10 \<le> \<bar>r\<bar> \<and> \<bar>r\<bar> \<le> 2 ^ 20"
  shows "\<exists>b'. chassis_handle cfg (Some b) = Inr (0, Some b') \<and>
    (\<forall>s. arrived cfg (motors b') s \<longrightarrow> (\<exists>b''. chassis_updata_pos cfg (b'\<lparr>motors := s\<rparr>) = Inr b'' \<and>
       near (x_m (chassis_get_pos (car b''))) x (1 / 1000) \<and> near (y_m (chassis_get_pos (car b''))) y (1 / 1000) \<and>
       near (z_rad (chassis_get_pos (car b''))) z (1 / 1000)))"
proof -
  obtain b1 b2 b3 where st: "ch_ops (car b3) = Some ops_mai" "motors b3 = motors b"
    "target (car b3) = target (car b)" "pos (offset (car b3)) = \<lparr>x_m = Fin 0, y_m = Fin 0, z_rad = Fin 0\<rparr>"
    "chassis_handle cfg (Some b) = cbind (if run_status (car b) = CHASSIS_IDLE then Inr b3
       else chassis_drv_set (run_status (car b)) cfg b3) (\<lambda>b. Inr (0, Some b))"
    by (rule handle_steps [OF assms(1,3)]) (rule that; assumption)
  let ?d = "mai_output (car b3) (mai_data b3) CHASSIS_POS"
  let ?i = "MOTOR_MAI_ID_1 cfg" and ?j = "MOTOR_MAI_ID_2 cfg" and ?k = "MOTOR_MAI_ID_3 cfg" and ?l = "MOTOR_MAI_ID_4 cfg"
  obtain t where t: "set_four motor_set_pos cfg ?d (motors b) = Inr t" "length (motor_list t) = length (motor_list (motors b))"
    "\<forall>u. arrived cfg t u \<longrightarrow>
       pos_of u ?i = fdiv f32 (fmul f32 (motor1 ?d) (ratio (motor_at (motors b) ?i))) (ratio (motor_at (motors b) ?i)) \<and>
       pos_of u ?j = fdiv f32 (fmul f32 (motor2 ?d) (ratio (motor_at (motors b) ?j))) (ratio (motor_at (motors b) ?j)) \<and>
       pos_of u ?k = fdiv f32 (fmul f32 (motor3 ?d) (ratio (motor_at (motors b) ?k))) (ratio (motor_at (motors b) ?k)) \<and>
       pos_of u ?l = fdiv f32 (fmul f32 (motor4 ?d) (ratio (motor_at (motors b) ?l))) (ratio (motor_at (motors b) ?l))"
    by (rule set_pos_four [OF assms(3,4), of ?d])
  let ?b = "b3\<lparr>mai_data := ?d, motors := t\<rparr>"
  have h: "chassis_handle cfg (Some b) = Inr (0, Some ?b)"
    using st(1,2) t(1) assms(2) unfolding st(5)
    by (simp add: chassis_drv_set_def call_module_def call_driver_def module_mai_def driver_mai_def)
  obtain a where a: "CHASSIS_HALF_A_B = Fin a" "154 / 1000 < a" "a < 155 / 1000" by (rule half_a_b)
  obtain k where k: "conversion WHELL_R_mai = Fin k" "753 < k" "k < 755" by (rule conversion_mai)
  have tgt: "pos (target (car b3)) = \<lparr>x_m = Fin x, y_m = Fin y, z_rad = Fin z\<rparr>" using assms(5) st(3) by simp
  note w = near_wheel_angles(1-4) [OF tgt st(4) assms(6-8) a k, of "mai_data b3"] near_wheel_angles(5-8) [OF tgt st(4) assms(6-8) a k]
  have "\<exists>b''. chassis_updata_pos cfg (?b\<lparr>motors := s\<rparr>) = Inr b'' \<and>
       near (x_m (chassis_get_pos (car b''))) x (1 / 1000) \<and> near (y_m (chassis_get_pos (car b''))) y (1 / 1000) \<and>
       near (z_rad (chassis_get_pos (car b''))) z (1 / 1000)" if s: "arrived cfg t s" for s
  proof -
    have v: "all_valid cfg s" using assms(3) s t(2) by (simp add: all_valid_def valid_def arrived_def)
    have i: "?i \<in> set_ids cfg ops_mai" "?j \<in> set_ids cfg ops_mai" "?k \<in> set_ids cfg ops_mai" "?l \<in> set_ids cfg ops_mai" by (simp_all add: set_ids_def)
    note p = t(3) [rule_format, OF s]
    have n: "near (pos_of s ?i) ((x + y - z * a) * k) (11 / 1000)" "near (pos_of s ?j) ((x - y - z * a) * k) (11 / 1000)"
      "near (pos_of s ?k) ((- x - y - z * a) * k) (11 / 1000)" "near (pos_of s ?l) ((- x + y - z * a) * k) (11 / 1000)"
      using p near_at_motor [OF w(1,5)] near_at_motor [OF w(2,6)] near_at_motor [OF w(3,7)] near_at_motor [OF w(4,8)]
        assms(9) [OF i(1)] assms(9) [OF i(2)] assms(9) [OF i(3)] assms(9) [OF i(4)] by auto
    note sums = near_sums [OF n w(5-8)]
    have e: "(x + y - z * a) * k + (x - y - z * a) * k - (- x - y - z * a) * k - (- x + y - z * a) * k = 4 * x * k"
      "(x + y - z * a) * k - (x - y - z * a) * k - (- x - y - z * a) * k + (- x + y - z * a) * k = 4 * y * k"
      "(x + y - z * a) * k + (x - y - z * a) * k + (- x - y - z * a) * k + (- x + y - z * a) * k = - 4 * z * a * k"
      by (simp_all add: algebra_simps)
    note sums' = sums [unfolded e]
    note reached = near_pos_back [OF sums'(1) assms(6) k] near_pos_back [OF sums'(2) assms(7) k] near_turn_back [OF sums'(3) assms(8) a k]
    show ?thesis using reached st(1,4) by (simp add: updata_mai v Let_def mai_pos_input_def chassis_get_pos_def)
  qed
  then show ?thesis using h by (intro exI [of _ ?b]) simp
qed

text \<open>An instance for the witnesses: four motors with the ratio 1.\<close>

definition four_cfg :: chassis_cfg where
  "four_cfg = \<lparr>MOTOR_MAI_ID_1 = 0, MOTOR_MAI_ID_2 = 1, MOTOR_MAI_ID_3 = 2, MOTOR_MAI_ID_4 = 3,
     MOTOR_OMNI3_ID_1 = 0, MOTOR_OMNI3_ID_2 = 1, MOTOR_OMNI3_ID_3 = 2\<rparr>"

lemma four_cfg_sel [simp]: "MOTOR_MAI_ID_1 four_cfg = 0" "MOTOR_MAI_ID_2 four_cfg = 1" "MOTOR_MAI_ID_3 four_cfg = 2"
  "MOTOR_MAI_ID_4 four_cfg = 3" "MOTOR_OMNI3_ID_1 four_cfg = 0" "MOTOR_OMNI3_ID_2 four_cfg = 1" "MOTOR_OMNI3_ID_3 four_cfg = 2"
  by (simp_all add: four_cfg_def)

definition no_motion :: chassis_data where
  "no_motion = \<lparr>speed = \<lparr>x_m_s = Fin 0, y_m_s = Fin 0, z_rad_s = Fin 0\<rparr>, pos = \<lparr>x_m = Fin 0, y_m = Fin 0, z_rad = Fin 0\<rparr>\<rparr>"

definition four_wheels :: "(fl, nat, unit) base" where
  "four_wheels = \<lparr>car = \<lparr>target = no_motion, present = no_motion, run_status = CHASSIS_POS, ch_ops = Some ops_mai, offset = no_motion\<rparr>,
     mai_data = \<lparr>mai_type = CHASSIS_IDLE, motor1 = Fin 0, motor2 = Fin 0, motor3 = Fin 0, motor4 = Fin 0\<rparr>,
     mai_data1 = \<lparr>mai_type = CHASSIS_IDLE, motor1 = Fin 0, motor2 = Fin 0, motor3 = Fin 0, motor4 = Fin 0\<rparr>,
     omni3_data = \<lparr>omni_type = CHASSIS_IDLE, motora = Fin 0, motorb = Fin 0, motorc = Fin 0\<rparr>,
     motors = \<lparr>motor_list = replicate 4 ((blank_motor 0 1 None)\<lparr>ratio := Fin 1\<rparr>), is_init = True, dev = ()\<rparr>,
     pos_x = Fin 0, pos_y = Fin 0, w_z = Fin 0\<rparr>"

lemma four_wheels_sel [simp]: "ch_ops (car four_wheels) = Some ops_mai" "run_status (car four_wheels) = CHASSIS_POS"
  "offset (car four_wheels) = no_motion" "target (car four_wheels) = no_motion" "length (motor_list (motors four_wheels)) = 4"
  by (simp_all add: four_wheels_def)

lemma four_wheels_at: "valid (motors four_wheels) i \<Longrightarrow> motor_at (motors four_wheels) i = (blank_motor 0 1 None)\<lparr>ratio := Fin 1\<rparr>"
  by (simp add: valid_def motor_at_def four_wheels_def nat_less_iff)

lemma four_wheels_valid: "all_valid four_cfg (motors four_wheels)" "all_valid delivered_cfg (motors four_wheels)"
  by (simp_all add: all_valid_def valid_def four_cfg_def delivered_cfg_def)

theorem chassis_handle_contract_witness:
  "\<exists>b'. chassis_handle four_cfg (Some four_wheels) = Inr (0, Some b') \<and>
     pos (present (car b')) = present_pos ops_mai no_motion (Fin 0, Fin 0, Fin 0) (map (pos_of (motors four_wheels)) [0, 1, 2, 3]) \<and>
     commanded_to (zip [0, 1, 2, 3] (wheel_targets ops_mai CHASSIS_POS (chassis_command (car four_wheels)))) 3 (motors four_wheels) (motors b')"
proof -
  have "pos_x four_wheels = Fin 0" "pos_y four_wheels = Fin 0" "w_z four_wheels = Fin 0" by (simp_all add: four_wheels_def)
  then show ?thesis
    using chassis_handle_contract [where b = four_wheels and cfg = four_cfg and t = ops_mai] four_wheels_valid
    by (auto simp: wheel_mode_def reader_ids_def wheel_ids_def)
qed

theorem mai_pose_reached_witness:
  "\<exists>b'. chassis_handle four_cfg (Some (four_wheels\<lparr>car := chassis_set_pos (car four_wheels) \<lparr>x_m = Fin 2, y_m = Fin 1, z_rad = Fin 3\<rparr>\<rparr>)) = Inr (0, Some b') \<and>
    (\<forall>s. arrived four_cfg (motors b') s \<longrightarrow> (\<exists>b''. chassis_updata_pos four_cfg (b'\<lparr>motors := s\<rparr>) = Inr b'' \<and>
       near (x_m (chassis_get_pos (car b''))) 2 (1 / 1000) \<and> near (y_m (chassis_get_pos (car b''))) 1 (1 / 1000) \<and>
       near (z_rad (chassis_get_pos (car b''))) 3 (1 / 1000)))"
proof (rule mai_pose_reached)
  let ?b = "four_wheels\<lparr>car := chassis_set_pos (car four_wheels) \<lparr>x_m = Fin 2, y_m = Fin 1, z_rad = Fin 3\<rparr>\<rparr>"
  show "\<exists>r. ratio (motor_at (motors ?b) i) = Fin r \<and> 1 / 2 ^ 10 \<le> \<bar>r\<bar> \<and> \<bar>r\<bar> \<le> 2 ^ 20" if "i \<in> set_ids four_cfg ops_mai" for i
  proof -
    have "valid (motors four_wheels) i" using that by (auto simp: set_ids_def four_cfg_def valid_def)
    then show ?thesis by (simp add: four_wheels_at)
  qed
qed (simp_all add: chassis_set_pos_def four_wheels_valid mai_distinct_def)

section \<open>One motor for every wheel\<close>

lemma delivered_cfg_sel [simp]: "MOTOR_MAI_ID_1 delivered_cfg = 0" "MOTOR_MAI_ID_2 delivered_cfg = 0" "MOTOR_MAI_ID_3 delivered_cfg = 0"
  "MOTOR_MAI_ID_4 delivered_cfg = 0" "MOTOR_OMNI3_ID_1 delivered_cfg = 0" "MOTOR_OMNI3_ID_2 delivered_cfg = 0" "MOTOR_OMNI3_ID_3 delivered_cfg = 0"
  by (simp_all add: delivered_cfg_def)

lemma updata_omni3:
  assumes "ch_ops (car b) = Some ops_omni3" "all_valid cfg (motors b)"
  shows "chassis_updata_pos cfg b =
    (let d = (omni3_data b)\<lparr>motora := pos_of (motors b) (MOTOR_OMNI3_ID_1 cfg), motorb := pos_of (motors b) (MOTOR_OMNI3_ID_2 cfg),
       motorc := pos_of (motors b) (MOTOR_OMNI3_ID_3 cfg)\<rparr>
     in Inr (b\<lparr>omni3_data := d, car := omni3_input (car b) d CHASSIS_POS\<rparr>))"
    "chassis_updata_speed cfg b =
    (let d = (omni3_data b)\<lparr>motora := speed_of (motors b) (MOTOR_OMNI3_ID_1 cfg), motorb := speed_of (motors b) (MOTOR_OMNI3_ID_2 cfg),
       motorc := speed_of (motors b) (MOTOR_OMNI3_ID_3 cfg)\<rparr>
     in Inr (b\<lparr>omni3_data := d, car := omni3_input (car b) d CHASSIS_SPEED\<rparr>))"
  using assms by (simp_all add: chassis_updata_pos_def chassis_updata_speed_def chassis_updata_def call_driver_def driver_omni3_def
      read_valid Let_def call_module_def module_omni3_def)

text \<open>A float, its negative and its double are not rounded.\<close>

lemma float_exact:
  assumes "is_float r" "\<bar>r\<bar> < 2 ^ 127"
  shows "f32 r = Fin r" "f32 (- r) = Fin (- r)" "f32 (2 * r) = Fin (2 * r)"
  using assms is_float_minus [OF assms(1)] is_float_double [OF assms(1)] by (simp_all add: is_float_f32)

lemma nothing_back:
  "pos_back WHELL_R_mai (Fin 0) (Fin 0) = Fin 0" "speed_back WHELL_R_mai (Fin 0) (Fin 0) (Fin 2) = Fin 0"
  "M2W_SPEED (Fin 0) = Fin 0" "M2W_POS (Fin 0) = Fin 0"
proof -
  obtain k where "conversion WHELL_R_mai = Fin k" "753 < k" by (rule conversion_mai)
  then show "pos_back WHELL_R_mai (Fin 0) (Fin 0) = Fin 0" by (simp add: pos_back_def)
  obtain q where "CHASSIS_2PIR WHELL_R_mai = Fin q" "477 / 1000 < q" by (rule two_pi_r)
  then show "speed_back WHELL_R_mai (Fin 0) (Fin 0) (Fin 2) = Fin 0" by (simp add: speed_back_def)
  obtain p where p: "two_pi_R = Fin p" by (rule omni_2pi_r)
  show "M2W_SPEED (Fin 0) = Fin 0" "M2W_POS (Fin 0) = Fin 0" by (simp_all add: M2W_SPEED_def M2W_POS_def p)
qed

text \<open>
  The configuration as delivered gives every wheel the same motor. Whatever this motor does,
  without an overflow, the handler reports no translation of the chassis, neither a speed nor a
  position in x or y, with either wheel geometry, and it commands no other motor.
\<close>
theorem delivered_chassis_blind:
  assumes "ch_ops (car b) = Some t" "t \<noteq> ops_mai_ops" "offset (car b) = no_motion"
    "motor_get_pos (motors b) 0 = Inr (Fin p)" "\<bar>p\<bar> < 2 ^ 127" "motor_get_speed (motors b) 0 = Inr (Fin v)" "\<bar>v\<bar> < 2 ^ 127"
  shows "\<exists>b'. chassis_handle delivered_cfg (Some b) = Inr (0, Some b') \<and> offset (car b') = no_motion \<and>
    x_m (chassis_get_pos (car b')) = Fin 0 \<and> y_m (chassis_get_pos (car b')) = Fin 0 \<and>
    x_m_s (chassis_get_speed (car b')) = Fin 0 \<and> y_m_s (chassis_get_speed (car b')) = Fin 0 \<and>
    (\<forall>k < length (motor_list (motors b)). k \<noteq> 0 \<longrightarrow> motor_list (motors b') ! k = motor_list (motors b) ! k)"
proof -
  have v0: "valid (motors b) 0" using assms(4) by (simp add: motor_get_pos_def asserted_def motor_get_def valid_def split: if_splits)
  then have av: "all_valid delivered_cfg (motors b)" by (simp add: all_valid_def delivered_cfg_def)
  have pv: "pos_of (motors b) 0 = Fin p" "speed_of (motors b) 0 = Fin v" using assms(4,6) v0 by simp_all
  then have fl: "is_float p" "is_float v" using fdiv_is_float by (auto simp: pos_of_def speed_of_def)
  obtain b1 b2 b3 where st: "chassis_updata_speed delivered_cfg b = Inr b1" "same_command b b1" "chassis_updata_pos delivered_cfg b1 = Inr b2" "same_command b1 b2"
    "b3 = b2\<lparr>car := chassis_updata_offset (car b2)\<rparr>" "ch_ops (car b3) = Some t" "all_valid delivered_cfg (motors b3)" "motors b3 = motors b"
    "run_status (car b3) = run_status (car b)" "chassis_handle delivered_cfg (Some b) = cbind (if run_status (car b) = CHASSIS_IDLE then Inr b3
       else chassis_drv_set (run_status (car b)) delivered_cfg b3) (\<lambda>b. Inr (0, Some b))"
    by (rule handle_steps [OF assms(1) av]) (rule that; assumption)
  have b1: "ch_ops (car b1) = Some t" "motors b1 = motors b" "offset (car b1) = no_motion" using st(2) assms(1,3) by (simp_all add: same_command_def)
  note cancel = float_exact [OF fl(1) assms(5)] float_exact [OF fl(2) assms(7)] nothing_back fsub_def
  have pres: "x_m_s (speed (present (car b2))) = Fin 0 \<and> y_m_s (speed (present (car b2))) = Fin 0 \<and>
      x_m (pos (present (car b2))) = Fin 0 \<and> y_m (pos (present (car b2))) = Fin 0"
  proof (cases t)
    case ops_mai
    have "speed (present (car b1)) = speed (present (mai_speed_input WHELL_R_mai (car b) ((mai_data b)\<lparr>motor1 := Fin v, motor2 := Fin v, motor3 := Fin v, motor4 := Fin v\<rparr>)))"
      using st(1) assms(1) ops_mai pv(2) by (auto simp: updata_mai av Let_def)
    moreover have "car b2 = mai_pos_input (car b1) ((mai_data b1)\<lparr>motor1 := Fin p, motor2 := Fin p, motor3 := Fin p, motor4 := Fin p\<rparr>)"
      using st(3) b1 ops_mai pv(1) av by (auto simp: updata_mai Let_def)
    ultimately show ?thesis using assms(3) b1(3) by (simp add: mai_speed_input_def mai_pos_input_def Let_def no_motion_def cancel)
  next
    case ops_omni3
    obtain g where g: "GEN3 = Fin g" by (rule gen3)
    have "speed (present (car b1)) = speed (present (omni3_input (car b) ((omni3_data b)\<lparr>motora := Fin v, motorb := Fin v, motorc := Fin v\<rparr>) CHASSIS_SPEED))"
      using st(1) assms(1) ops_omni3 pv(2) by (auto simp: updata_omni3 av Let_def)
    moreover have "car b2 = omni3_input (car b1) ((omni3_data b1)\<lparr>motora := Fin p, motorb := Fin p, motorc := Fin p\<rparr>) CHASSIS_POS"
      using st(3) b1 ops_omni3 pv(1) av by (auto simp: updata_omni3 Let_def)
    ultimately show ?thesis using assms(3) b1(3) by (simp add: omni3_input_def omni3_back_def Let_def no_motion_def cancel g)
  qed (use assms(2) in simp)
  have b3: "present (car b3) = present (car b2)" "offset (car b3) = no_motion"
    using st(2,4,5) assms(3) by (simp_all add: chassis_updata_offset_def same_command_def no_motion_def)
  show ?thesis
  proof (cases "run_status (car b) = CHASSIS_IDLE")
    case True
    then show ?thesis using st(8,10) b3 pres by (simp add: chassis_get_pos_def chassis_get_speed_def)
  next
    case False
    obtain b' where b': "chassis_drv_set (run_status (car b)) delivered_cfg b3 = Inr b'" "car b' = car b3"
      "commanded_to (zip (wheel_ids delivered_cfg t) (wheel_targets t (run_status (car b)) (chassis_command (car b3)))) (wheel_mode t (run_status (car b))) (motors b3) (motors b')"
      by (rule drv_set_ok [OF st(6,7) _ False]) (use st(9) b3(2) in \<open>simp_all add: no_motion_def\<close>)
    have "length (wheel_targets t (run_status (car b)) (chassis_command (car b3))) = length (wheel_ids delivered_cfg t)"
      by (simp add: wheel_targets_def wheel_ids_def case_prod_beta Let_def)
    then have "fst ` set (zip (wheel_ids delivered_cfg t) (wheel_targets t (run_status (car b)) (chassis_command (car b3)))) = {0}"
      unfolding set_map [symmetric] by (simp add: wheel_ids_def)
    then have "commanded {0} (wheel_mode t (run_status (car b))) (motors b3) (motors b')"
      using commanded_to_commanded [OF b'(3)] by (simp add: wheel_mode_def split: if_splits)
    then show ?thesis using False st(8,10) b' b3 pres
      by (intro exI [of _ b']) (simp add: chassis_get_pos_def chassis_get_speed_def commanded_def)
  qed
qed

theorem delivered_chassis_blind_witness:
  "\<exists>b'. chassis_handle delivered_cfg (Some four_wheels) = Inr (0, Some b') \<and> x_m (chassis_get_pos (car b')) = Fin 0"
proof -
  have v: "valid (motors four_wheels) 0" by (simp add: valid_def)
  have g: "motor_get_pos (motors four_wheels) 0 = Inr (Fin 0)" "motor_get_speed (motors four_wheels) 0 = Inr (Fin 0)"
    using v by (simp_all add: pos_of_def speed_of_def four_wheels_at blank_motor_def)
  show ?thesis using delivered_chassis_blind [of four_wheels ops_mai 0 0] g by auto
qed

section \<open>What the wheel speeds say\<close>

lemma near_speed_wheel:
  assumes "near s x (5 / 1000000)" "\<bar>x\<bar> \<le> 35" "CHASSIS_2PIR WHELL_R_mai = Fin q" "477 / 1000 < q" "q < 478 / 1000"
  shows "near (speed_wheel WHELL_R_mai s) (x / q * 60) (1 / 1000)" "\<bar>x / q * 60\<bar> \<le> 4440"
proof -
  have 1: "near (fdiv f64 s (Fin q)) (x / q) (11 / 1000000)"
    by (rule double.near_div_exact [OF assms(1), where X = 35 and m = "477 / 1000" and B = 100]) (use assms in simp_all)
  have "\<bar>x / q\<bar> \<le> 35 / (477 / 1000)" unfolding abs_divide using assms by (intro frac_le) simp_all
  also have "\<dots> \<le> 74" by simp
  finally have x: "\<bar>x / q\<bar> \<le> 74" .
  have 2: "near (fmul f64 (fdiv f64 s (Fin q)) (Fin 60)) (x / q * 60) (7 / 10000)"
    by (rule double.near_mul_exact [OF 1 x, where Y = 60 and B = 5000]) simp_all
  show v: "\<bar>x / q * 60\<bar> \<le> 4440" using abs_scale [OF x, of 60] by simp
  show "near (speed_wheel WHELL_R_mai s) (x / q * 60) (1 / 1000)"
    unfolding speed_wheel_def assms(3) by (rule near_to_f32 [OF 2, where B = 4441]) (use v in simp_all)
qed

lemma near_speed_back:
  assumes "near s x (3 / 1000)" "\<bar>x\<bar> \<le> 8880" "CHASSIS_2PIR WHELL_R_mai = Fin q" "477 / 1000 < q" "q < 478 / 1000"
    "near w m (1 / 1000000000000)" "3 / 10 \<le> m"
  shows "near (speed_back WHELL_R_mai (Fin 0) s w) (x / q * 60 / m) 4"
proof -
  have 1: "near (fdiv f64 s (Fin q)) (x / q) (7 / 1000)"
    by (rule double.near_div_exact [OF assms(1,2), where m = "477 / 1000" and B = 20000]) (use assms in simp_all)
  have "\<bar>x / q\<bar> \<le> 8880 / (477 / 1000)" unfolding abs_divide using assms by (intro frac_le) simp_all
  also have "\<dots> \<le> 18617" by simp
  finally have x: "\<bar>x / q\<bar> \<le> 18617" .
  have 2: "near (fmul f64 (fdiv f64 s (Fin q)) (Fin 60)) (x / q * 60) (43 / 100)"
    by (rule double.near_mul_exact [OF 1 x, where Y = 60 and B = 2000000]) simp_all
  have v: "\<bar>x / q * 60\<bar> \<le> 1117020" using abs_scale [OF x, of 60] by simp
  have 3: "near (fdiv f64 (fmul f64 (fdiv f64 s (Fin q)) (Fin 60)) w) (x / q * 60 / m) (29 / 10)"
    by (rule double.near_div [OF 2 assms(6) v, where m = "3 / 10" and B = 8000000]) (use assms(7) in \<open>simp_all add: power2_eq_square\<close>)
  have "\<bar>x / q * 60 / m\<bar> \<le> 1117020 / (3 / 10)" unfolding abs_divide [of "x / q * 60"] using v assms(7) by (intro frac_le) simp_all
  also have "\<dots> = 3723400" by simp
  finally have y: "\<bar>x / q * 60 / m\<bar> \<le> 3723400" .
  have 4: "near (fadd f64 (Fin 0) (fdiv f64 (fmul f64 (fdiv f64 s (Fin q)) (Fin 60)) w)) (0 + x / q * 60 / m) (3)"
    by (rule double.near_add [OF near_exact [of 0] 3, where B = 4000000]) (use y in simp_all)
  have "near (speed_back WHELL_R_mai (Fin 0) s w) (0 + x / q * 60 / m) 4"
    unfolding speed_back_def assms(3) by (rule near_to_f32 [OF 4, where B = 4000000]) (use y in simp_all)
  then show ?thesis by simp
qed

text \<open>
  The wheel speeds that four mecanum wheels are commanded, read back as they are, do not give
  the commanded speed: the reported x is the commanded y, the reported y is the commanded y less x, both magnified
  by the square of the wheel's revolutions per minute and metre per second, about 15800, and the
  reported turning has a part of y. The distances are those of the rounded code.
\<close>
theorem mai_speed_axes:
  assumes "speed (target c) = \<lparr>x_m_s = Fin x, y_m_s = Fin y, z_rad_s = Fin z\<rparr>" "speed (offset c) = \<lparr>x_m_s = Fin 0, y_m_s = Fin 0, z_rad_s = Fin 0\<rparr>"
    "\<bar>x\<bar> \<le> 16" "\<bar>y\<bar> \<le> 16" "\<bar>z\<bar> \<le> 16"
  shows "\<exists>k h. 15700 < k \<and> k < 15900 \<and> CHASSIS_HALF_A_B = Fin h \<and> 154 / 1000 < h \<and> h < 155 / 1000 \<and>
    (let d = snd (module_mai c True False CHASSIS_SPEED d0);
         v = chassis_get_speed (fst (module_mai c False True CHASSIS_SPEED d))
     in near (x_m_s v) (k * y) 4 \<and> near (y_m_s v) (k * (y - x)) 4 \<and> near (z_rad_s v) (k * (z + y / h)) 4)"
proof -
  obtain q where q: "CHASSIS_2PIR WHELL_R_mai = Fin q" "477 / 1000 < q" "q < 478 / 1000" by (rule two_pi_r)
  obtain h where h: "CHASSIS_HALF_A_B = Fin h" "154 / 1000 < h" "h < 155 / 1000" by (rule half_a_b)
  define k where "k = 60 / q * (60 / q)"
  have "60 / (478 / 1000) < 60 / q" "60 / q < 60 / (477 / 1000)" using q by (intro divide_strict_left_mono; simp)+
  then have kq: "125 < 60 / q" "60 / q < 126" by simp_all
  have k: "15700 < k" "k < 15900"
  proof -
    have "60 / (478 / 1000) * (60 / (478 / 1000)) < k" "k < 60 / (477 / 1000) * (60 / (477 / 1000))"
      unfolding k_def using q by (intro mult_strict_mono divide_strict_left_mono; simp)+
    then show "15700 < k" "k < 15900" by simp_all
  qed
  let ?X = "cmd (\<lambda>t. x_m_s (speed t)) c" and ?Y = "cmd (\<lambda>t. y_m_s (speed t)) c" and ?Z = "cmd (\<lambda>t. z_rad_s (speed t)) c"
  have n: "near ?X x (1 / 1000000)" "near ?Y y (1 / 1000000)" "near ?Z z (1 / 1000000)"
    by (rule near_cmd; use assms in simp)+
  note t = near_translations [OF n(1,2) assms(3,4)]
  have b: "\<bar>x + y\<bar> \<le> 32" "\<bar>x - y\<bar> \<le> 32" "\<bar>- x - y\<bar> \<le> 32" "\<bar>- x + y\<bar> \<le> 32" using assms(3,4) by linarith+
  note l = near_less_turn [OF t(1) b(1) n(3) assms(5) h] near_less_turn [OF t(2) b(2) n(3) assms(5) h]
    near_less_turn [OF t(3) b(3) n(3) assms(5) h] near_less_turn [OF t(4) b(4) n(3) assms(5) h]
  note w = near_speed_wheel [OF l(1,2) q] near_speed_wheel [OF l(3,4) q] near_speed_wheel [OF l(5,6) q] near_speed_wheel [OF l(7,8) q]
  let ?a = "(x + y - z * h) / q * 60" and ?b = "(x - y - z * h) / q * 60" and ?c = "(- x - y - z * h) / q * 60" and ?e = "(- x + y - z * h) / q * 60"
  define d where "d = snd (module_mai c True False CHASSIS_SPEED d0)"
  have d: "near (motor1 d) ?a (1 / 1000)" "near (motor2 d) ?b (1 / 1000)" "near (motor3 d) ?c (1 / 1000)" "near (motor4 d) ?e (1 / 1000)"
    using w by (simp_all add: d_def module_mai_def mai_output_def Let_def)
  have two: "\<bar>u - v\<bar> \<le> 8880 \<and> \<bar>- v + u\<bar> \<le> 8880 \<and> \<bar>u + v\<bar> \<le> 8880" if "\<bar>u\<bar> \<le> 4440" "\<bar>v\<bar> \<le> 4440" for u v :: real
    using that by linarith
  have B: "\<bar>?a - ?b\<bar> \<le> 8880" "\<bar>- ?b + ?e\<bar> \<le> 8880" "\<bar>?c + ?b\<bar> \<le> 8880"
    using two [OF w(2,4)] two [OF w(8,4)] two [OF w(6,4)] by simp_all
  have s: "near (fsub f32 (motor1 d) (motor2 d)) (?a - ?b) (3 / 1000)" "near (fadd f32 (fneg (motor2 d)) (motor4 d)) (- ?b + ?e) (3 / 1000)"
    "near (fneg (fadd f32 (motor3 d) (motor2 d))) (- (?c + ?b)) (3 / 1000)"
  proof -
    show "near (fsub f32 (motor1 d) (motor2 d)) (?a - ?b) (3 / 1000)" by (rule float.near_sub [OF d(1,2), where B = 8900]) (use B in simp_all)
    show "near (fadd f32 (fneg (motor2 d)) (motor4 d)) (- ?b + ?e) (3 / 1000)"
      by (rule float.near_add [OF near_neg [OF d(2)] d(4), where B = 8900]) (use B in simp_all)
    show "near (fneg (fadd f32 (motor3 d) (motor2 d))) (- (?c + ?b)) (3 / 1000)"
      by (rule near_neg, rule float.near_add [OF d(3,2), where B = 8900]) (use B in simp_all)
  qed
  have w2: "near (fmul f64 (Fin 2) CHASSIS_HALF_A_B) (2 * h) (1 / 1000000000000)"
    unfolding h(1) by (rule double.near_mul_exact [OF near_exact, where X = 2 and Y = 1 and B = 2]) (use h in simp_all)
  have v: "near (speed_back WHELL_R_mai (Fin 0) (fsub f32 (motor1 d) (motor2 d)) (Fin 2)) ((?a - ?b) / q * 60 / 2) 4"
    "near (speed_back WHELL_R_mai (Fin 0) (fadd f32 (fneg (motor2 d)) (motor4 d)) (Fin 2)) ((- ?b + ?e) / q * 60 / 2) 4"
    "near (speed_back WHELL_R_mai (Fin 0) (fneg (fadd f32 (motor3 d) (motor2 d))) (fmul f64 (Fin 2) CHASSIS_HALF_A_B)) (- (?c + ?b) / q * 60 / (2 * h)) 4"
    using near_speed_back [OF s(1) B(1) q, of "Fin 2" 2] near_speed_back [OF s(2) B(2) q, of "Fin 2" 2]
      near_speed_back [OF s(3) _ q w2] B(3) h by simp_all
  have e: "(?a - ?b) / q * 60 / 2 = k * y" "(- ?b + ?e) / q * 60 / 2 = k * (y - x)" "- (?c + ?b) / q * 60 / (2 * h) = k * (z + y / h)"
    using q h by (simp_all add: k_def field_simps)
  have "near (x_m_s (chassis_get_speed (fst (module_mai c False True CHASSIS_SPEED d)))) (k * y) 4 \<and>
    near (y_m_s (chassis_get_speed (fst (module_mai c False True CHASSIS_SPEED d)))) (k * (y - x)) 4 \<and>
    near (z_rad_s (chassis_get_speed (fst (module_mai c False True CHASSIS_SPEED d)))) (k * (z + y / h)) 4"
    using v unfolding e by (simp add: module_mai_def mai_speed_input_def Let_def chassis_get_speed_def assms(2))
  then show ?thesis using k h by (intro exI [of _ k] exI [of _ h]) (simp add: d_def Let_def)
qed

theorem mai_speed_axes_witness:
  "\<exists>k h. 15700 < k \<and> CHASSIS_HALF_A_B = Fin h \<and>
    (let c = chassis_set_speed (car four_wheels) \<lparr>x_m_s = Fin 1, y_m_s = Fin 0, z_rad_s = Fin 0\<rparr>;
         d = snd (module_mai c True False CHASSIS_SPEED (mai_data four_wheels));
         v = chassis_get_speed (fst (module_mai c False True CHASSIS_SPEED d))
     in near (x_m_s v) 0 4 \<and> near (y_m_s v) (- k) 4)"
proof -
  let ?c = "chassis_set_speed (car four_wheels) \<lparr>x_m_s = Fin 1, y_m_s = Fin 0, z_rad_s = Fin 0\<rparr>"
  have "speed (target ?c) = \<lparr>x_m_s = Fin 1, y_m_s = Fin 0, z_rad_s = Fin 0\<rparr>" "speed (offset ?c) = \<lparr>x_m_s = Fin 0, y_m_s = Fin 0, z_rad_s = Fin 0\<rparr>"
    by (simp_all add: chassis_set_speed_def no_motion_def)
  from mai_speed_axes [OF this, of "mai_data four_wheels"] show ?thesis by (auto simp: Let_def)
qed

text \<open>The three omni wheels.\<close>

lemma near_omni_wheels:
  assumes "near X x (1 / 1000000)" "near Y y (1 / 1000000)" "near Z z (1 / 1000000)" "\<bar>x\<bar> \<le> 16" "\<bar>y\<bar> \<le> 16" "\<bar>z\<bar> \<le> 16"
    "GEN3 = Fin g" "17 / 10 < g" "g < 174 / 100" "omni_L = Fin l" "17 / 10 < l" "l < 172 / 100"
  shows "near (wheel_a X Y Z) (- 1 / 2 * (x - g * y) + l * z) (7 / 1000000)" "\<bar>- 1 / 2 * (x - g * y) + l * z\<bar> \<le> 50"
    "near (wheel_b X Y Z) (- 1 / 2 * (x + g * y) + l * z) (7 / 1000000)" "\<bar>- 1 / 2 * (x + g * y) + l * z\<bar> \<le> 50"
    "near (wheel_c X Z) (x + l * z) (7 / 1000000)" "\<bar>x + l * z\<bar> \<le> 50"
proof -
  have "\<bar>g * y\<bar> \<le> 174 / 100 * 16" "\<bar>l * z\<bar> \<le> 172 / 100 * 16" unfolding abs_mult using assms by (intro mult_mono; simp)+
  then have b: "\<bar>g * y\<bar> \<le> 28" "\<bar>l * z\<bar> \<le> 28" by simp_all
  have gy: "near (fmul f64 GEN3 Y) (g * y) (3 / 1000000)"
    unfolding assms(7) by (rule double.near_mul [OF near_exact assms(2), where X = 2 and Y = 16 and B = 40]) (use assms in simp_all)
  have lz: "near (fmul f64 omni_L Z) (l * z) (3 / 1000000)"
    unfolding assms(10) by (rule double.near_mul [OF near_exact assms(3), where X = 2 and Y = 16 and B = 40]) (use assms in simp_all)
  have bd: "\<bar>x - g * y\<bar> \<le> 44" "\<bar>x + g * y\<bar> \<le> 44" using b assms(4) by linarith+
  have 1: "near (fsub f64 X (fmul f64 GEN3 Y)) (x - g * y) (5 / 1000000)"
    by (rule double.near_sub [OF assms(1) gy, where B = 50]) (use bd in simp_all)
  have 2: "near (fadd f64 X (fmul f64 GEN3 Y)) (x + g * y) (5 / 1000000)"
    by (rule double.near_add [OF assms(1) gy, where B = 50]) (use bd in simp_all)
  have 3: "near (fmul f64 (Fin (- 1 / 2)) (fsub f64 X (fmul f64 GEN3 Y))) (- 1 / 2 * (x - g * y)) (3 / 1000000)"
    by (rule double.near_mul [OF near_exact 1, where X = "1 / 2" and Y = 44 and B = 50]) (use bd in simp_all)
  have 4: "near (fmul f64 (Fin (- 1 / 2)) (fadd f64 X (fmul f64 GEN3 Y))) (- 1 / 2 * (x + g * y)) (3 / 1000000)"
    by (rule double.near_mul [OF near_exact 2, where X = "1 / 2" and Y = 44 and B = 50]) (use bd in simp_all)
  show v: "\<bar>- 1 / 2 * (x - g * y) + l * z\<bar> \<le> 50" "\<bar>- 1 / 2 * (x + g * y) + l * z\<bar> \<le> 50" "\<bar>x + l * z\<bar> \<le> 50"
  proof -
    have h: "\<bar>- 1 / 2 * (x - g * y)\<bar> \<le> 22" "\<bar>- 1 / 2 * (x + g * y)\<bar> \<le> 22" unfolding abs_mult using bd by simp_all
    have tri: "\<bar>u + v\<bar> \<le> 50" if "\<bar>u\<bar> \<le> 22" "\<bar>v\<bar> \<le> 28" for u v :: real using that by linarith
    show "\<bar>- 1 / 2 * (x - g * y) + l * z\<bar> \<le> 50" "\<bar>- 1 / 2 * (x + g * y) + l * z\<bar> \<le> 50" "\<bar>x + l * z\<bar> \<le> 50"
      using tri [OF h(1) b(2)] tri [OF h(2) b(2)] tri [of x, OF _ b(2)] assms(4) by linarith+
  qed
  show "near (wheel_a X Y Z) (- 1 / 2 * (x - g * y) + l * z) (7 / 1000000)"
    unfolding wheel_a_def by (rule double.near_add [OF 3 lz, where B = 51]) (use v in simp_all)
  show "near (wheel_b X Y Z) (- 1 / 2 * (x + g * y) + l * z) (7 / 1000000)"
    unfolding wheel_b_def by (rule double.near_add [OF 4 lz, where B = 51]) (use v in simp_all)
  show "near (wheel_c X Z) (x + l * z) (7 / 1000000)"
    unfolding wheel_c_def by (rule double.near_add [OF assms(1) lz, where B = 51]) (use v in simp_all)
qed

lemma near_w2m:
  assumes "near s x (7 / 1000000)" "\<bar>x\<bar> \<le> 50" "two_pi_R = Fin p" "314 / 100 < p" "p < 315 / 100"
  shows "near (to_f32 (W2M_SPEED s)) (x * 60 / p) (2 / 10000)" "\<bar>x * 60 / p\<bar> \<le> 1000"
    "near (to_f32 (W2M_POS s)) (p * x / 60) (6 / 10000000)" "\<bar>p * x / 60\<bar> \<le> 3"
proof -
  have x60: "\<bar>x * 60\<bar> \<le> 3000" using abs_scale [OF assms(2), of 60] by simp
  have 1: "near (fmul f64 s (Fin 60)) (x * 60) (43 / 100000)"
    by (rule double.near_mul_exact [OF assms(1,2), where Y = 60 and B = 4000]) simp_all
  have 2: "near (fdiv f64 (fmul f64 s (Fin 60)) (Fin p)) (x * 60 / p) (14 / 100000)"
    by (rule double.near_div_exact [OF 1 x60, where m = "314 / 100" and B = 1000]) (use assms in simp_all)
  have "\<bar>x * 60 / p\<bar> \<le> 3000 / (314 / 100)" unfolding abs_divide [of "x * 60"] using x60 assms by (intro frac_le) simp_all
  also have "\<dots> \<le> 1000" by simp
  finally show v: "\<bar>x * 60 / p\<bar> \<le> 1000" .
  show "near (to_f32 (W2M_SPEED s)) (x * 60 / p) (2 / 10000)"
    unfolding W2M_SPEED_def assms(3) by (rule near_to_f32 [OF 2, where B = 1001]) (use v in simp_all)
  have 3: "near (fmul f64 (Fin p) s) (p * x) (23 / 1000000)"
    by (rule double.near_mul [OF near_exact assms(1), where X = "315 / 100" and Y = 50 and B = 200]) (use assms in simp_all)
  have "\<bar>p * x\<bar> \<le> 315 / 100 * 50" unfolding abs_mult using assms by (intro mult_mono) simp_all
  then have px: "\<bar>p * x\<bar> \<le> 158" by simp
  have 4: "near (fdiv f64 (fmul f64 (Fin p) s) (Fin 60)) (p * x / 60) (4 / 10000000)"
    by (rule double.near_div_exact [OF 3 px, where m = 60 and B = 3]) simp_all
  show w: "\<bar>p * x / 60\<bar> \<le> 3" using px by simp
  show "near (to_f32 (W2M_POS s)) (p * x / 60) (6 / 10000000)"
    unfolding W2M_POS_def M2W_SPEED_def assms(3) by (rule near_to_f32 [OF 4, where B = "301 / 100"]) (use w in simp_all)
qed

text \<open>The readings: a sum of wheel speeds converted, scaled and added to no offset.\<close>

lemma near_m2w:
  assumes "near s x e" "\<bar>x\<bar> \<le> M" "e \<le> M" "1 / 1000 \<le> M" "M \<le> 1000000" "two_pi_R = Fin p" "314 / 100 < p" "p < 315 / 100"
  shows "near (M2W_SPEED s) (p * x / 60) (e / 10 + M / 2 ^ 40)" "\<bar>p * x / 60\<bar> \<le> M / 10"
proof -
  have e: "0 \<le> e" using near_nonneg [OF assms(1)] .
  have 1: "near (fmul f64 (Fin p) s) (p * x) (315 / 100 * e + M / 2 ^ 45)"
    by (rule double.near_mul [OF near_exact assms(1) _ assms(2), where X = "315 / 100" and B = "8 * M"]) (use assms e in \<open>simp_all add: field_simps\<close>)
  have "\<bar>p * x\<bar> \<le> 315 / 100 * M" unfolding abs_mult using assms by (intro mult_mono) simp_all
  note px = this
  show w: "\<bar>p * x / 60\<bar> \<le> M / 10" using px assms(4) by (simp add: abs_mult)
  show "near (M2W_SPEED s) (p * x / 60) (e / 10 + M / 2 ^ 40)"
    unfolding M2W_SPEED_def assms(6) by (rule double.near_div_exact [OF 1 px, where m = 60 and B = M]) (use assms e in \<open>simp_all add: field_simps\<close>)
qed

lemma near_reading:
  assumes "near v x c" "\<bar>x\<bar> \<le> M" "c \<le> M" "1 / 10000 \<le> M" "M \<le> 1000000"
  shows "near (to_f32 (fadd f64 (Fin 0) v)) x (c + M / 4000000)"
proof -
  have c: "0 \<le> c" using near_nonneg [OF assms(1)] .
  have "near (fadd f64 (Fin 0) v) (0 + x) (c + M / 2 ^ 50)"
    by (rule double.near_add [OF near_exact [of 0] assms(1), where B = "2 * M"]) (use assms c in simp_all)
  then have "near (to_f32 (fadd f64 (Fin 0) v)) (0 + x) (c + M / 4000000)"
    by (rule near_to_f32 [where B = "3 * M"]) (use assms c in \<open>simp_all add: field_simps\<close>)
  then show ?thesis by simp
qed

lemma near_omni_back:
  assumes "near (motora d) a e" "near (motorb d) b e" "near (motorc d) c e" "\<bar>a\<bar> \<le> M" "\<bar>b\<bar> \<le> M" "\<bar>c\<bar> \<le> M"
    "e \<le> M / 100" "1 / 100 \<le> M" "M \<le> 1000"
    "two_pi_R = Fin p" "314 / 100 < p" "p < 315 / 100" "GEN3 = Fin g" "17 / 10 < g" "g < 174 / 100" "omni_L = Fin l" "17 / 10 < l" "l < 172 / 100"
    "off = \<lparr>x_m_s = Fin 0, y_m_s = Fin 0, z_rad_s = Fin 0\<rparr>"
  shows "near (fst (omni3_back M2W_SPEED off d)) (g * (p * (a - b) / 60) / 3) (e + M / 1000000)"
    "near (fst (snd (omni3_back M2W_SPEED off d))) (p * (a + b - 2 * c) / 60 / 3) (e + M / 1000000)"
    "near (snd (snd (omni3_back M2W_SPEED off d))) (p * (a + b + c) / 60 / (3 * l)) (e + M / 1000000)"
proof -
  have e: "0 \<le> e" using near_nonneg [OF assms(1)] .
  note bd = abs_sums [OF assms(4-6)]
  have 1: "near (fsub f32 (motora d) (motorb d)) (a - b) (2 * e + M / 2000000)"
    by (rule float.near_sub [OF assms(1,2), where B = "3 * M"]) (use assms(7-9) bd(1) e in simp_all)
  have 2: "near (fadd f32 (motora d) (motorb d)) (a + b) (2 * e + M / 2000000)"
    by (rule float.near_add [OF assms(1,2), where B = "3 * M"]) (use assms(7-9) bd(2) e in simp_all)
  have 3: "near (fmul f32 (Fin 2) (motorc d)) (2 * c) (2 * e + M / 2000000)"
    by (rule float.near_mul [OF near_exact assms(3), where X = 2 and Y = M and B = "3 * M"]) (use assms(7-9) assms(6) e in simp_all)
  have 4: "near (fsub f32 (fadd f32 (motora d) (motorb d)) (fmul f32 (Fin 2) (motorc d))) (a + b - 2 * c) (4 * e + M / 500000)"
    by (rule float.near_sub [OF 2 3, where B = "5 * M"]) (use assms(7-9) bd(4) e in simp_all)
  have 5: "near (fadd f32 (fadd f32 (motora d) (motorb d)) (motorc d)) (a + b + c) (3 * e + M / 500000)"
    by (rule float.near_add [OF 2 assms(3), where B = "4 * M"]) (use assms(7-9) bd(5) e in simp_all)
  have m1: "near (M2W_SPEED (fsub f32 (motora d) (motorb d))) (p * (a - b) / 60) ((2 * e + M / 2000000) / 10 + 2 * M / 2 ^ 40)"
    "\<bar>p * (a - b) / 60\<bar> \<le> 2 * M / 10"
    by (rule near_m2w [OF 1 bd(1) _ _ _ assms(10-12)]; use assms(7-9) e in simp)+
  have m4: "near (M2W_SPEED (fsub f32 (fadd f32 (motora d) (motorb d)) (fmul f32 (Fin 2) (motorc d)))) (p * (a + b - 2 * c) / 60) ((4 * e + M / 500000) / 10 + 4 * M / 2 ^ 40)"
    "\<bar>p * (a + b - 2 * c) / 60\<bar> \<le> 4 * M / 10"
    by (rule near_m2w [OF 4 bd(4) _ _ _ assms(10-12)]; use assms(7-9) e in simp)+
  have m5: "near (M2W_SPEED (fadd f32 (fadd f32 (motora d) (motorb d)) (motorc d))) (p * (a + b + c) / 60) ((3 * e + M / 500000) / 10 + 3 * M / 2 ^ 40)"
    "\<bar>p * (a + b + c) / 60\<bar> \<le> 3 * M / 10"
    by (rule near_m2w [OF 5 bd(5) _ _ _ assms(10-12)]; use assms(7-9) e in simp)+
  have g: "near (fmul f64 GEN3 (M2W_SPEED (fsub f32 (motora d) (motorb d)))) (g * (p * (a - b) / 60)) (e / 2 + M / 5000000)"
    unfolding assms(13) by (rule double.near_mul [OF near_exact m1(1), where X = "174 / 100" and Y = "2 * M / 10" and B = M])
      (use assms(7-9,14,15) e m1(2) in \<open>simp_all add: field_simps\<close>)
  have "\<bar>g * (p * (a - b) / 60)\<bar> \<le> 174 / 100 * (2 * M / 10)" unfolding abs_mult [of g] using m1(2) assms by (intro mult_mono) simp_all
  then have gv: "\<bar>g * (p * (a - b) / 60)\<bar> \<le> M" using assms(8) by linarith
  have x: "near (fdiv f64 (fmul f64 GEN3 (M2W_SPEED (fsub f32 (motora d) (motorb d)))) (Fin 3)) (g * (p * (a - b) / 60) / 3) (e / 2 + M / 4000000)"
    by (rule double.near_div_exact [OF g gv, where m = 3 and B = M]) (use assms(7-9) e in \<open>simp_all add: field_simps\<close>)
  have y: "near (fdiv f64 (M2W_SPEED (fsub f32 (fadd f32 (motora d) (motorb d)) (fmul f32 (Fin 2) (motorc d)))) (Fin 3)) (p * (a + b - 2 * c) / 60 / 3) (e / 2 + M / 4000000)"
    by (rule double.near_div_exact [OF m4, where m = 3 and B = M]) (use assms(7-9) e in \<open>simp_all add: field_simps\<close>)
  have l3: "near (fmul f64 (Fin 3) omni_L) (3 * l) (1 / 1000000000)"
    unfolding assms(16) by (rule double.near_mul [OF near_exact near_exact, where X = 3 and Y = 2 and B = 10]) (use assms in simp_all)
  have z: "near (fdiv f64 (M2W_SPEED (fadd f32 (fadd f32 (motora d) (motorb d)) (motorc d))) (fmul f64 (Fin 3) omni_L)) (p * (a + b + c) / 60 / (3 * l)) (e / 2 + M / 4000000)"
    by (rule double.near_div [OF m5(1) l3 m5(2), where m = 5 and B = M]) (use assms(7-9,17,18) e in \<open>simp_all add: field_simps power2_eq_square\<close>)
  have v: "\<bar>g * (p * (a - b) / 60) / 3\<bar> \<le> M" "\<bar>p * (a + b - 2 * c) / 60 / 3\<bar> \<le> M" using gv m4(2) assms(8) by simp_all
  have "\<bar>p * (a + b + c) / 60 / (3 * l)\<bar> \<le> (3 * M / 10) / 5" unfolding abs_divide [of "p * (a + b + c) / 60"] using m5(2) assms by (intro frac_le) simp_all
  then have vz: "\<bar>p * (a + b + c) / 60 / (3 * l)\<bar> \<le> M" using assms(8) by linarith
  have em: "e / 2 + M / 4000000 \<le> M" "1 / 10000 \<le> M" "M \<le> 1000000" "e / 2 + M / 4000000 + M / 4000000 \<le> e + M / 1000000" using assms(7-9) e by simp_all
  show "near (fst (omni3_back M2W_SPEED off d)) (g * (p * (a - b) / 60) / 3) (e + M / 1000000)"
    using near_mono [OF near_reading [OF x v(1) em(1-3)] em(4)] by (simp add: omni3_back_def assms(19))
  show "near (fst (snd (omni3_back M2W_SPEED off d))) (p * (a + b - 2 * c) / 60 / 3) (e + M / 1000000)"
    using near_mono [OF near_reading [OF y v(2) em(1-3)] em(4)] by (simp add: omni3_back_def assms(19))
  show "near (snd (snd (omni3_back M2W_SPEED off d))) (p * (a + b + c) / 60 / (3 * l)) (e + M / 1000000)"
    using near_mono [OF near_reading [OF z vz em(1-3)] em(4)] by (simp add: omni3_back_def assms(19))
qed

text \<open>
  With three omni wheels the speed read back from the wheel speeds as they are commanded is the
  commanded one turned by a right angle: the reported x is the commanded y, the reported y the commanded
  -x, only the turning is right, each within a thousandth. A pose read back is turned in the same way and, because
  angles are converted as if they were distances, shrunk by the square of \<open>2 * pi * R / 60\<close>, to about \<open>1 / 365\<close>.
\<close>
theorem omni3_axes:
  assumes "speed (target c) = \<lparr>x_m_s = Fin x, y_m_s = Fin y, z_rad_s = Fin z\<rparr>" "speed (offset c) = \<lparr>x_m_s = Fin 0, y_m_s = Fin 0, z_rad_s = Fin 0\<rparr>"
    "pos (target c) = \<lparr>x_m = Fin x, y_m = Fin y, z_rad = Fin z\<rparr>" "pos (offset c) = \<lparr>x_m = Fin 0, y_m = Fin 0, z_rad = Fin 0\<rparr>"
    "\<bar>x\<bar> \<le> 16" "\<bar>y\<bar> \<le> 16" "\<bar>z\<bar> \<le> 16"
  shows "(let v = chassis_get_speed (fst (module_omni3 c False True CHASSIS_SPEED (snd (module_omni3 c True False CHASSIS_SPEED d0))))
      in near (x_m_s v) y (13 / 10000) \<and> near (y_m_s v) (- x) (13 / 10000) \<and> near (z_rad_s v) z (13 / 10000)) \<and>
    (let p = chassis_get_pos (fst (module_omni3 c False True CHASSIS_POS (snd (module_omni3 c True False CHASSIS_POS d0))))
      in \<exists>k. 1 / 366 < k \<and> k < 1 / 362 \<and> near (x_m p) (k * y) (1 / 100000) \<and> near (y_m p) (- k * x) (1 / 100000) \<and> near (z_rad p) (k * z) (1 / 100000))"
proof -
  obtain p where p: "two_pi_R = Fin p" "314 / 100 < p" "p < 315 / 100" by (rule omni_2pi_r)
  obtain g where g0: "GEN3 = Fin g" "\<bar>g - 173205 / 100000\<bar> \<le> 1 / 10 ^ 9" by (rule gen3)
  have "\<bar>g - 173205 / 100000\<bar> \<le> 1 / 1000000000" using g0(2) by simp
  then have g: "GEN3 = Fin g" "17 / 10 < g" "g < 174 / 100" using g0(1) by linarith+
  obtain l where l: "omni_L = Fin l" "17 / 10 < l" "l < 172 / 100" by (rule omni_l)
  define A where "A = - 1 / 2 * (x - g * y) + l * z" define B where "B = - 1 / 2 * (x + g * y) + l * z" define C where "C = x + l * z"
  have sums: "A - B = g * y" "A + B - 2 * C = - 3 * x" "A + B + C = 3 * l * z" by (simp_all add: A_def B_def C_def field_simps)
  have gg: "\<bar>g * g / 3 - 1\<bar> \<le> 1 / 500000"
  proof -
    have "17320499 / 10000000 \<le> g" "g \<le> 17320501 / 10000000" using \<open>\<bar>g - 173205 / 100000\<bar> \<le> 1 / 1000000000\<close> by linarith+
    then have "17320499 / 10000000 * (17320499 / 10000000) \<le> g * g" "g * g \<le> 17320501 / 10000000 * (17320501 / 10000000)"
      by (intro mult_mono; simp)+
    then show ?thesis by (simp add: abs_le_iff)
  qed
  have "\<bar>(g * g / 3 - 1) * y\<bar> \<le> 1 / 500000 * 16" unfolding abs_mult using gg assms(6) by (intro mult_mono) simp_all
  then have ggy: "\<bar>g * g / 3 * y - y\<bar> \<le> 1 / 31250" by (simp add: left_diff_distrib)
  define k where "k = p / 60 * (p / 60)"
  have "314 / 100 / 60 * (314 / 100 / 60) < k" "k < 315 / 100 / 60 * (315 / 100 / 60)"
    unfolding k_def using p(2,3) by (intro mult_strict_mono divide_strict_right_mono; simp)+
  then have k: "1 / 366 < k" "k < 1 / 362" "0 < k" "k < 1 / 300" by simp_all
  have "\<bar>k * (g * g / 3 * y - y)\<bar> \<le> 1 / 300 * (1 / 31250)" unfolding abs_mult using ggy k by (intro mult_mono) simp_all
  then have kggy: "\<bar>k * (g * g / 3 * y) - k * y\<bar> \<le> 1 / 1000000" by (simp add: right_diff_distrib)
  have shift: "near v y' c'" if "near v x' c" "\<bar>x' - y'\<bar> \<le> d" "c + d \<le> c'" for v x' y' c d c'
    using that by (auto simp: near_def)
  let ?s = "snd (module_omni3 c True False CHASSIS_SPEED d0)" and ?p = "snd (module_omni3 c True False CHASSIS_POS d0)"
  have n: "near (cmd (\<lambda>t. x_m_s (speed t)) c) x (1 / 1000000)" "near (cmd (\<lambda>t. y_m_s (speed t)) c) y (1 / 1000000)" "near (cmd (\<lambda>t. z_rad_s (speed t)) c) z (1 / 1000000)"
    "near (cmd (\<lambda>t. x_m (pos t)) c) x (1 / 1000000)" "near (cmd (\<lambda>t. y_m (pos t)) c) y (1 / 1000000)" "near (cmd (\<lambda>t. z_rad (pos t)) c) z (1 / 1000000)"
    by (rule near_cmd; use assms in simp)+
  note w = near_omni_wheels [OF n(1-3) assms(5-7) g l, folded A_def B_def C_def] and u = near_omni_wheels [OF n(4-6) assms(5-7) g l, folded A_def B_def C_def]
  have s: "near (motora ?s) (A * 60 / p) (2 / 10000)" "near (motorb ?s) (B * 60 / p) (2 / 10000)" "near (motorc ?s) (C * 60 / p) (2 / 10000)"
    using near_w2m(1) [OF w(1,2) p] near_w2m(1) [OF w(3,4) p] near_w2m(1) [OF w(5,6) p] by (simp_all add: module_omni3_def omni3_output_def Let_def)
  have q: "near (motora ?p) (p * A / 60) (6 / 10000000)" "near (motorb ?p) (p * B / 60) (6 / 10000000)" "near (motorc ?p) (p * C / 60) (6 / 10000000)"
    using near_w2m(3) [OF u(1,2) p] near_w2m(3) [OF u(3,4) p] near_w2m(3) [OF u(5,6) p] by (simp_all add: module_omni3_def omni3_output_def Let_def)
  have es: "g * (p * (A * 60 / p - B * 60 / p) / 60) / 3 = g * g / 3 * y" "p * (A * 60 / p + B * 60 / p - 2 * (C * 60 / p)) / 60 / 3 = - x"
    "p * (A * 60 / p + B * 60 / p + C * 60 / p) / 60 / (3 * l) = z"
  proof -
    have "p * (A * 60 / p - B * 60 / p) / 60 = A - B" "p * (A * 60 / p + B * 60 / p - 2 * (C * 60 / p)) / 60 = A + B - 2 * C"
      "p * (A * 60 / p + B * 60 / p + C * 60 / p) / 60 = A + B + C" using p by (simp_all add: field_simps)
    then show "g * (p * (A * 60 / p - B * 60 / p) / 60) / 3 = g * g / 3 * y" "p * (A * 60 / p + B * 60 / p - 2 * (C * 60 / p)) / 60 / 3 = - x"
      "p * (A * 60 / p + B * 60 / p + C * 60 / p) / 60 / (3 * l) = z" using l by (simp_all only: sums) (simp_all add: field_simps)
  qed
  have ep: "g * (p * (p * A / 60 - p * B / 60) / 60) / 3 = k * (g * g / 3 * y)" "p * (p * A / 60 + p * B / 60 - 2 * (p * C / 60)) / 60 / 3 = - k * x"
    "p * (p * A / 60 + p * B / 60 + p * C / 60) / 60 / (3 * l) = k * z"
  proof -
    have "p * (p * A / 60 - p * B / 60) / 60 = k * (A - B)" "p * (p * A / 60 + p * B / 60 - 2 * (p * C / 60)) / 60 = k * (A + B - 2 * C)"
      "p * (p * A / 60 + p * B / 60 + p * C / 60) / 60 = k * (A + B + C)" by (simp_all add: k_def field_simps)
    then show "g * (p * (p * A / 60 - p * B / 60) / 60) / 3 = k * (g * g / 3 * y)" "p * (p * A / 60 + p * B / 60 - 2 * (p * C / 60)) / 60 / 3 = - k * x"
      "p * (p * A / 60 + p * B / 60 + p * C / 60) / 60 / (3 * l) = k * z" using l by (simp_all only: sums) (simp_all add: field_simps)
  qed
  have ms: "2 / 10000 \<le> (1000 :: real) / 100" "1 / 100 \<le> (1000 :: real)" "1000 \<le> (1000 :: real)" by simp_all
  have mp: "6 / 10000000 \<le> (3 :: real) / 100" "1 / 100 \<le> (3 :: real)" "3 \<le> (1000 :: real)" by simp_all
  note rs = near_omni_back [OF s near_w2m(2) [OF w(1,2) p] near_w2m(2) [OF w(3,4) p] near_w2m(2) [OF w(5,6) p] ms p g l assms(2), unfolded es]
  note rp = near_omni_back [OF q near_w2m(4) [OF u(1,2) p] near_w2m(4) [OF u(3,4) p] near_w2m(4) [OF u(5,6) p] mp p g l assms(2), unfolded ep]
  have speeds: "near (fst (omni3_back M2W_SPEED (speed (offset c)) ?s)) y (13 / 10000)" "near (fst (snd (omni3_back M2W_SPEED (speed (offset c)) ?s))) (- x) (13 / 10000)"
    "near (snd (snd (omni3_back M2W_SPEED (speed (offset c)) ?s))) z (13 / 10000)"
    using shift [OF rs(1) ggy, of "13 / 10000"] near_mono [OF rs(2), of "13 / 10000"] near_mono [OF rs(3), of "13 / 10000"] by simp_all
  have poses: "near (fst (omni3_back M2W_SPEED (speed (offset c)) ?p)) (k * y) (1 / 100000)" "near (fst (snd (omni3_back M2W_SPEED (speed (offset c)) ?p))) (- k * x) (1 / 100000)"
    "near (snd (snd (omni3_back M2W_SPEED (speed (offset c)) ?p))) (k * z) (1 / 100000)"
    using shift [OF rp(1) kggy, of "1 / 100000"] near_mono [OF rp(2), of "1 / 100000"] near_mono [OF rp(3), of "1 / 100000"] by simp_all
  have m: "M2W_POS = M2W_SPEED" by (rule ext) (simp add: M2W_POS_def)
  have "fst (module_omni3 c False True req d) = omni3_input c d req" for req d by (simp add: module_omni3_def)
  then show ?thesis using speeds poses k(1,2) unfolding Let_def m
    by (auto simp: omni3_input_def m chassis_get_speed_def chassis_get_pos_def case_prod_beta Let_def)
qed

theorem omni3_axes_witness:
  "(let c = (chassis_set_speed (car four_wheels) \<lparr>x_m_s = Fin 1, y_m_s = Fin 0, z_rad_s = Fin 0\<rparr>)\<lparr>target := \<lparr>speed = \<lparr>x_m_s = Fin 1, y_m_s = Fin 0, z_rad_s = Fin 0\<rparr>,
         pos = \<lparr>x_m = Fin 1, y_m = Fin 0, z_rad = Fin 0\<rparr>\<rparr>\<rparr>;
       v = chassis_get_speed (fst (module_omni3 c False True CHASSIS_SPEED (snd (module_omni3 c True False CHASSIS_SPEED (omni3_data four_wheels)))))
    in near (x_m_s v) 0 (13 / 10000) \<and> near (y_m_s v) (- 1) (13 / 10000))"
proof -
  let ?c = "(chassis_set_speed (car four_wheels) \<lparr>x_m_s = Fin 1, y_m_s = Fin 0, z_rad_s = Fin 0\<rparr>)\<lparr>target := \<lparr>speed = \<lparr>x_m_s = Fin 1, y_m_s = Fin 0, z_rad_s = Fin 0\<rparr>,
         pos = \<lparr>x_m = Fin 1, y_m = Fin 0, z_rad = Fin 0\<rparr>\<rparr>\<rparr>"
  have "speed (target ?c) = \<lparr>x_m_s = Fin 1, y_m_s = Fin 0, z_rad_s = Fin 0\<rparr>" "speed (offset ?c) = \<lparr>x_m_s = Fin 0, y_m_s = Fin 0, z_rad_s = Fin 0\<rparr>"
    "pos (target ?c) = \<lparr>x_m = Fin 1, y_m = Fin 0, z_rad = Fin 0\<rparr>" "pos (offset ?c) = \<lparr>x_m = Fin 0, y_m = Fin 0, z_rad = Fin 0\<rparr>"
    by (simp_all add: chassis_set_speed_def no_motion_def)
  from omni3_axes [OF this, of "omni3_data four_wheels"] show ?thesis by (simp add: Let_def)
qed


end
