(* ===== verification/Guidance.thy ===== *)
theory Guidance
  imports Chassis
begin

text \<open>
  Steering the chassis: towards a ball the camera sees (\<^verbatim>\<open>carMove.c\<close>) and along a line with eight infrared
  sensors (\<^verbatim>\<open>follow_line.c\<close>). The pins are read through a parameter, the level of each pin.
\<close>

section \<open>Towards a ball\<close>

record cvdat =
  color :: int
  ball_id :: int
  posX :: fl
  posY :: fl

text \<open>0.500f and 0.0001f.\<close>

definition center :: fl where "center = Fin (1 / 2)"
definition deadZone :: fl where "deadZone = f32 (1 / 10000)"

text \<open>
  The condition \<^verbatim>\<open>myabs(err) < deadZone\<close> as the macro expands: \<^verbatim>\<open>((err) < 0) ? (0 - (err)) : ((err) - 0) < deadZone\<close>.
  The comparison belongs to the last operand alone; a number as a condition holds when it is not zero.
\<close>

definition in_dead_zone :: "fl \<Rightarrow> bool" where
  "in_dead_zone err = (if flt err (Fin 0) then fsub f32 (Fin 0) err \<noteq> Fin 0 else flt (fsub f32 err (Fin 0)) deadZone)"

definition steer :: "fl \<Rightarrow> fl \<Rightarrow> fl" where
  "steer p Kp = (let err = fsub f32 p center; err = (if in_dead_zone err then Fin 0 else err) in fmul f32 Kp err)"

definition SetcarmoveX :: "cvdat \<Rightarrow> fl \<Rightarrow> chassis_speed \<Rightarrow> chassis_speed" where
  "SetcarmoveX ball Kp v = v\<lparr>x_m_s := steer (posX ball) Kp\<rparr>"

definition SetcarmoveY :: "cvdat \<Rightarrow> fl \<Rightarrow> chassis_speed \<Rightarrow> chassis_speed" where
  "SetcarmoveY ball Kp v = v\<lparr>y_m_s := steer (posY ball) Kp\<rparr>"

definition SetCarmove :: "cvdat \<Rightarrow> fl \<Rightarrow> chassis_speed \<Rightarrow> fl \<Rightarrow> chassis \<Rightarrow> chassis_speed \<times> chassis" where
  "SetCarmove ball Kpx v Kpy c =
     (let v = SetcarmoveX ball Kpx v; v = SetcarmoveY ball Kpy v; v = v\<lparr>z_rad_s := Fin 0\<rparr>
      in (v, chassis_set_speed c v))"

section \<open>Along a line\<close>

datatype direction = front | left | right | rotate

record infrared =
  infrared_data :: "u8 list"
  is_spacial_point_flag :: u8
  move_direction :: direction

datatype infrared_pin = INFRARED0_PIN | INFRARED1_PIN | INFRARED2_PIN | INFRARED3_PIN | INFRARED4_PIN | INFRARED5_PIN | INFRARED6_PIN | INFRARED7_PIN

definition pins :: "infrared_pin list" where
  "pins = [INFRARED0_PIN, INFRARED1_PIN, INFRARED2_PIN, INFRARED3_PIN, INFRARED4_PIN, INFRARED5_PIN, INFRARED6_PIN, INFRARED7_PIN]"

text \<open>A low pin is a line seen.\<close>

definition TT :: "int \<Rightarrow> u8" where
  "TT x = (if x \<noteq> 0 then 0 else 1)"

definition GET_Infrared_Data :: "(infrared_pin \<Rightarrow> int) \<Rightarrow> infrared \<Rightarrow> infrared" where
  "GET_Infrared_Data rt_pin_read p = p\<lparr>infrared_data := map (\<lambda>i. TT (rt_pin_read i)) pins\<rparr>"

definition factor0 :: fl where "factor0 = f64 (4 / 10)"
definition factor1 :: fl where "factor1 = f64 (3 / 10)"
definition factor2 :: fl where "factor2 = f64 (2 / 10)"
definition factor3 :: fl where "factor3 = f64 (1 / 10)"

text \<open>A sensor byte converted to \<^verbatim>\<open>double\<close> and weighted.\<close>

definition weighted :: "int \<Rightarrow> fl \<Rightarrow> fl" where
  "weighted n f = fmul f64 (Fin (of_int n)) f"

text \<open>The sum of \<^verbatim>\<open>follow_line\<close> from left to right; \<^verbatim>\<open>-data[0] * factor0\<close> negates the byte as an \<^verbatim>\<open>int\<close>.\<close>

definition line_error :: "u8 list \<Rightarrow> fl" where
  "line_error d =
     (let a = (\<lambda>i. uint (d ! i));
          e = weighted (- a 0) factor0;
          e = fadd f64 e (weighted (a 7) factor0);
          e = fsub f64 e (weighted (a 1) factor1);
          e = fadd f64 e (weighted (a 6) factor1);
          e = fsub f64 e (weighted (a 2) factor2);
          e = fadd f64 e (weighted (a 5) factor2);
          e = fsub f64 e (weighted (a 3) factor3);
          e = fadd f64 e (weighted (a 4) factor3)
      in to_f32 e)"

text \<open>One round of the thread: it reads the sensors and computes the error.\<close>

definition follow_line_step :: "(infrared_pin \<Rightarrow> int) \<Rightarrow> infrared \<Rightarrow> infrared \<times> fl" where
  "follow_line_step rt_pin_read p = (let p = GET_Infrared_Data rt_pin_read p in (p, line_error (infrared_data p)))"

definition Is_Spacial_point :: "infrared \<Rightarrow> u8 \<times> infrared" where
  "Is_Spacial_point p =
     (let d = (\<lambda>i. infrared_data p ! i \<noteq> 0);
          flag = (case move_direction p of
                    front \<Rightarrow> (if ((d 0 \<and> d 1) \<or> (d 7 \<and> d 6)) \<and> (d 3 \<or> d 4) then 1 else 0)
                  | rotate \<Rightarrow> 0
                  | _ \<Rightarrow> 0);
          p = p\<lparr>is_spacial_point_flag := flag\<rparr>
      in (is_spacial_point_flag p, p))"

section \<open>Properties\<close>

lemma dead_zone: obtains q where "deadZone = Fin q" "0 < q" "q < 11 / 100000"
proof -
  have "near (f32 (1 / 10000)) (1 / 10000) (1 / 1000000)" by (rule near_mono [OF float.round [where B = "1 / 10000"]]) simp_all
  then have "near deadZone (1 / 10000) (1 / 1000000)" by (simp add: deadZone_def)
  then show ?thesis by (rule near_range [where lo = 0 and hi = "11 / 100000"]) (simp, simp, rule that)
qed

lemma steer_low:
  assumes "p \<le> 1 / 2"
  shows "steer (Fin p) (Fin k) = Fin 0"
proof -
  have neg: "rnd 24 (- 126) (p - 1 / 2) \<le> 0" using rnd_nonneg [of "1 / 2 - p" 24 "- 126"] assms rnd_minus [of 24 "- 126" "1 / 2 - p"] by simp
  obtain q where q: "deadZone = Fin q" "0 < q" by (rule dead_zone)
  show ?thesis
  proof (cases "f32 (p - 1 / 2)")
    case (Fin e)
    then have e: "e \<le> 0" "is_float e" "\<bar>e\<bar> < 2 ^ 128" using neg f32_is_float [of "p - 1 / 2" e] by (auto simp: f32_def Let_def split: if_splits)
    then have "f32 (- e) = Fin (- e)" by (intro is_float_f32 is_float_minus) simp_all
    then show ?thesis using Fin e(1) q by (simp add: steer_def in_dead_zone_def fsub_def center_def Let_def)
  qed (use neg in \<open>auto simp: steer_def in_dead_zone_def fsub_def center_def Let_def f32_def split: if_splits\<close>)
qed

lemma steer_high:
  assumes "1 / 2 + 1 / 5000 \<le> p"
  shows "steer (Fin p) (Fin k) = fmul f32 (Fin k) (f32 (p - 1 / 2))"
proof -
  obtain q where q: "deadZone = Fin q" "0 < q" "q < 11 / 100000" by (rule dead_zone)
  have "\<bar>rnd 24 (- 126) (1 / 5000) - 1 / 5000\<bar> \<le> (1 / 5000) / 2 ^ 24" by (rule rnd_near) simp_all
  then have "\<bar>rnd 24 (- 126) (1 / 5000) - 1 / 5000\<bar> \<le> 1 / 100000" by simp
  then have "11 / 100000 < rnd 24 (- 126) (1 / 5000)" by linarith
  moreover have "rnd 24 (- 126) (1 / 5000) \<le> rnd 24 (- 126) (p - 1 / 2)" using assms by (intro rnd_mono) simp_all
  ultimately have r: "q < rnd 24 (- 126) (p - 1 / 2)" "0 < rnd 24 (- 126) (p - 1 / 2)" using q(2,3) by linarith+
  show ?thesis
  proof (cases "f32 (p - 1 / 2)")
    case (Fin e)
    then have "f32 e = Fin e" using f32_is_float [of "p - 1 / 2" e] is_float_f32 by blast
    moreover have "e = rnd 24 (- 126) (p - 1 / 2)" using Fin by (auto simp: f32_def Let_def split: if_splits)
    ultimately have e: "q < e" "0 < e" "f32 e = Fin e" using r by simp_all
    then show ?thesis using Fin by (simp add: steer_def in_dead_zone_def fsub_def center_def Let_def q(1))
  next
    case (Inf s)
    then have "\<not> s" using r(2) by (auto simp: f32_def Let_def split: if_splits)
    then show ?thesis using Inf by (simp add: steer_def in_dead_zone_def fsub_def center_def Let_def q(1))
  qed (auto simp: f32_def Let_def split: if_splits)
qed

text \<open>
  The car follows a ball in one direction only. A ball left of the middle of the picture, or
  below it, gives the speed 0 on that axis, because the macro's conditional swallows the comparison with
  the dead zone; a ball beyond the dead zone on the other side gives the gain times its distance. The chassis is
  put into speed mode with this speed and no turning.
\<close>
theorem carmove_one_sided:
  assumes "posX ball = Fin p" "posY ball = Fin q"
  shows "let (v', c') = SetCarmove ball (Fin a) v (Fin b) c in
     chassis_get_runstate c' = CHASSIS_SPEED \<and> speed (target c') = v' \<and> z_rad_s v' = Fin 0 \<and>
     (p \<le> 1 / 2 \<longrightarrow> x_m_s v' = Fin 0) \<and> (1 / 2 + 1 / 5000 \<le> p \<longrightarrow> x_m_s v' = fmul f32 (Fin a) (f32 (p - 1 / 2))) \<and>
     (q \<le> 1 / 2 \<longrightarrow> y_m_s v' = Fin 0) \<and> (1 / 2 + 1 / 5000 \<le> q \<longrightarrow> y_m_s v' = fmul f32 (Fin b) (f32 (q - 1 / 2)))"
  using assms steer_low [of p a] steer_low [of q b] steer_high [of p a] steer_high [of q b]
  by (simp add: SetCarmove_def SetcarmoveX_def SetcarmoveY_def Let_def chassis_set_speed_def chassis_get_runstate_def)

theorem carmove_one_sided_witness:
  "x_m_s (fst (SetCarmove \<lparr>color = 0, ball_id = 1, posX = Fin (1 / 4), posY = Fin (3 / 4)\<rparr> (Fin 1) (speed no_motion) (Fin 1) (car four_wheels))) = Fin 0"
  using carmove_one_sided [of "\<lparr>color = 0, ball_id = 1, posX = Fin (1 / 4), posY = Fin (3 / 4)\<rparr>" "1 / 4" "3 / 4" 1 "speed no_motion" 1 "car four_wheels"]
  by (simp add: case_prod_beta)

lemma near_weighted:
  assumes "n = 0 \<or> n = 1" "\<bar>v\<bar> \<le> 1" "near f v (1 / 1000000000)"
  shows "near (weighted n f) (of_int n * v) (2 / 1000000000)" "near (weighted (- n) f) (- of_int n * v) (2 / 1000000000)"
proof -
  have n: "\<bar>real_of_int n\<bar> \<le> 1" "\<bar>real_of_int (- n)\<bar> \<le> 1" using assms(1) by auto
  show "near (weighted n f) (of_int n * v) (2 / 1000000000)"
    unfolding weighted_def by (rule double.near_mul [OF near_exact assms(3) n(1) assms(2), where B = 2]) simp_all
  have "near (weighted (- n) f) (of_int (- n) * v) (2 / 1000000000)"
    unfolding weighted_def by (rule double.near_mul [OF near_exact assms(3) n(2) assms(2), where B = 2]) simp_all
  then show "near (weighted (- n) f) (- of_int n * v) (2 / 1000000000)" by simp
qed

lemma near_factors:
  "near factor0 (4 / 10) (1 / 1000000000)" "near factor1 (3 / 10) (1 / 1000000000)" "near factor2 (2 / 10) (1 / 1000000000)" "near factor3 (1 / 10) (1 / 1000000000)"
  unfolding factor0_def factor1_def factor2_def factor3_def by (rule near_mono [OF double.round [where B = 1]]; simp)+

text \<open>One more term of the sum, which stays below 3.\<close>

lemma near_term:
  assumes "near e x (of_nat k / 100000000)" "near w y (2 / 1000000000)" "\<bar>x\<bar> \<le> 2" "\<bar>y\<bar> \<le> 1 / 2" "k \<le> 8"
  shows "near (fadd f64 e w) (x + y) (of_nat (Suc k) / 100000000)" "near (fsub f64 e w) (x - y) (of_nat (Suc k) / 100000000)"
proof -
  have k: "real k \<le> 8" using assms(5) by simp
  have b: "\<bar>x + y\<bar> + real k / 100000000 + 2 / 1000000000 \<le> 3" "\<bar>x - y\<bar> + real k / 100000000 + 2 / 1000000000 \<le> 3" using assms(3,4) k by linarith+
  show "near (fadd f64 e w) (x + y) (of_nat (Suc k) / 100000000)" by (rule double.near_add [OF assms(1,2) b(1)]) simp_all
  show "near (fsub f64 e w) (x - y) (of_nat (Suc k) / 100000000)" by (rule double.near_sub [OF assms(1,2) b(2)]) simp_all
qed

lemma near_line_error:
  assumes "length d = 8" "\<And>i. i < 8 \<Longrightarrow> d ! i = 0 \<or> d ! i = 1"
  defines "s \<equiv> \<lambda>i. real_of_int (uint (d ! i))"
  shows "near (line_error d) (4 / 10 * (s 7 - s 0) + 3 / 10 * (s 6 - s 1) + 2 / 10 * (s 5 - s 2) + 1 / 10 * (s 4 - s 3)) (1 / 1000000)"
proof -
  have u: "uint (d ! i) = 0 \<or> uint (d ! i) = 1" if "i < 8" for i using assms(2) [OF that] by auto
  have s: "0 \<le> s i \<and> s i \<le> 1" if "i < 8" for i
  proof -
    have "s i = 0 \<or> s i = 1" using u [OF that] by (metis s_def of_int_0 of_int_1)
    then show ?thesis by auto
  qed
  have b: "0 \<le> s 0" "s 0 \<le> 1" "0 \<le> s 1" "s 1 \<le> 1" "0 \<le> s 2" "s 2 \<le> 1" "0 \<le> s 3" "s 3 \<le> 1"
    "0 \<le> s 4" "s 4 \<le> 1" "0 \<le> s 5" "s 5 \<le> 1" "0 \<le> s 6" "s 6 \<le> 1" "0 \<le> s 7" "s 7 \<le> 1"
    using s [of 0] s [of 1] s [of 2] s [of 3] s [of 4] s [of 5] s [of 6] s [of 7] by simp_all
  have w: "near (weighted (uint (d ! i)) f) (s i * v) (2 / 1000000000)" if "i < 8" "near f v (1 / 1000000000)" "\<bar>v\<bar> \<le> 1" for i f v
    using near_weighted(1) [OF u [OF that(1)] that(3,2)] unfolding s_def .
  have w0: "near (weighted (- uint (d ! 0)) factor0) (- s 0 * (4 / 10)) (2 / 1000000000)"
    using near_weighted(2) [OF u [of 0] _ near_factors(1)] unfolding s_def by simp
  let ?a = "\<lambda>i. uint (d ! i)"
  let ?t1 = "weighted (- ?a 0) factor0" let ?t2 = "fadd f64 ?t1 (weighted (?a 7) factor0)" let ?t3 = "fsub f64 ?t2 (weighted (?a 1) factor1)"
  let ?t4 = "fadd f64 ?t3 (weighted (?a 6) factor1)" let ?t5 = "fsub f64 ?t4 (weighted (?a 2) factor2)" let ?t6 = "fadd f64 ?t5 (weighted (?a 5) factor2)"
  let ?t7 = "fsub f64 ?t6 (weighted (?a 3) factor3)" let ?t8 = "fadd f64 ?t7 (weighted (?a 4) factor3)"
  note W = w [of 7, OF _ near_factors(1)] w [of 1, OF _ near_factors(2)] w [of 6, OF _ near_factors(2)] w [of 2, OF _ near_factors(3)]
    w [of 5, OF _ near_factors(3)] w [of 3, OF _ near_factors(4)] w [of 4, OF _ near_factors(4)]
  have 1: "near ?t1 (- s 0 * (4 / 10)) (of_nat 1 / 100000000)" by (rule near_mono [OF w0]) simp
  have 2: "near ?t2 (- s 0 * (4 / 10) + s 7 * (4 / 10)) (of_nat (Suc 1) / 100000000)"
    by (rule near_term(1) [OF 1 W(1)]) (use b in \<open>simp_all add: abs_le_iff\<close>)
  have 3: "near ?t3 (- s 0 * (4 / 10) + s 7 * (4 / 10) - s 1 * (3 / 10)) (of_nat (Suc (Suc 1)) / 100000000)"
    by (rule near_term(2) [OF 2 W(2)]) (use b in \<open>simp_all add: abs_le_iff\<close>)
  have 4: "near ?t4 (- s 0 * (4 / 10) + s 7 * (4 / 10) - s 1 * (3 / 10) + s 6 * (3 / 10)) (of_nat (Suc (Suc (Suc 1))) / 100000000)"
    by (rule near_term(1) [OF 3 W(3)]) (use b in \<open>simp_all add: abs_le_iff\<close>)
  have 5: "near ?t5 (- s 0 * (4 / 10) + s 7 * (4 / 10) - s 1 * (3 / 10) + s 6 * (3 / 10) - s 2 * (2 / 10)) (of_nat (Suc (Suc (Suc (Suc 1)))) / 100000000)"
    by (rule near_term(2) [OF 4 W(4)]) (use b in \<open>simp_all add: abs_le_iff\<close>)
  have 6: "near ?t6 (- s 0 * (4 / 10) + s 7 * (4 / 10) - s 1 * (3 / 10) + s 6 * (3 / 10) - s 2 * (2 / 10) + s 5 * (2 / 10)) (of_nat (Suc (Suc (Suc (Suc (Suc 1))))) / 100000000)"
    by (rule near_term(1) [OF 5 W(5)]) (use b in \<open>simp_all add: abs_le_iff\<close>)
  have 7: "near ?t7 (- s 0 * (4 / 10) + s 7 * (4 / 10) - s 1 * (3 / 10) + s 6 * (3 / 10) - s 2 * (2 / 10) + s 5 * (2 / 10) - s 3 * (1 / 10))
      (of_nat (Suc (Suc (Suc (Suc (Suc (Suc 1)))))) / 100000000)"
    by (rule near_term(2) [OF 6 W(6)]) (use b in \<open>simp_all add: abs_le_iff\<close>)
  have 8: "near ?t8 (- s 0 * (4 / 10) + s 7 * (4 / 10) - s 1 * (3 / 10) + s 6 * (3 / 10) - s 2 * (2 / 10) + s 5 * (2 / 10) - s 3 * (1 / 10) + s 4 * (1 / 10))
      (of_nat (Suc (Suc (Suc (Suc (Suc (Suc (Suc 1))))))) / 100000000)"
    by (rule near_term(1) [OF 7 W(7)]) (use b in \<open>simp_all add: abs_le_iff\<close>)
  have "near (line_error d) (- s 0 * (4 / 10) + s 7 * (4 / 10) - s 1 * (3 / 10) + s 6 * (3 / 10) - s 2 * (2 / 10) + s 5 * (2 / 10) - s 3 * (1 / 10) + s 4 * (1 / 10))
      (1 / 1000000)"
    unfolding line_error_def Let_def by (rule near_to_f32 [OF 8, where B = 3]) (use b in \<open>simp_all add: abs_le_iff\<close>)
  moreover have "- s 0 * (4 / 10) + s 7 * (4 / 10) - s 1 * (3 / 10) + s 6 * (3 / 10) - s 2 * (2 / 10) + s 5 * (2 / 10) - s 3 * (1 / 10) + s 4 * (1 / 10) =
    4 / 10 * (s 7 - s 0) + 3 / 10 * (s 6 - s 1) + 2 / 10 * (s 5 - s 2) + 1 / 10 * (s 4 - s 3)" by (simp add: field_simps)
  ultimately show ?thesis by (simp only:)
qed

text \<open>
  A round of the line follower computes the weighted difference of the sensors that see the line,
  right less left, from 0.1 for the inner pair to 0.4 for the outer pair, up to rounding. A point is special
  exactly when the car moves to the front, one outer pair of sensors sees the line and so does an inner sensor.
\<close>
theorem line_error_weights:
  "let (p', e) = follow_line_step level p; s = (\<lambda>i. if level (pins ! i) = 0 then 1 else 0 :: real) in
     near e (4 / 10 * (s 7 - s 0) + 3 / 10 * (s 6 - s 1) + 2 / 10 * (s 5 - s 2) + 1 / 10 * (s 4 - s 3)) (1 / 1000000) \<and>
     (fst (Is_Spacial_point p') = 1 \<longleftrightarrow> move_direction p = front \<and>
        ((level INFRARED0_PIN = 0 \<and> level INFRARED1_PIN = 0) \<or> (level INFRARED7_PIN = 0 \<and> level INFRARED6_PIN = 0)) \<and>
        (level INFRARED3_PIN = 0 \<or> level INFRARED4_PIN = 0))"
proof -
  let ?d = "map (\<lambda>i. TT (level i)) pins"
  have l: "length pins = 8" by (simp add: pins_def)
  have d: "?d ! i = 0 \<or> ?d ! i = 1" if "i < 8" for i using that l by (simp add: TT_def)
  define s where "s = (\<lambda>i. if level (pins ! i) = 0 then 1 else 0 :: real)"
  have n: "real_of_int (uint (?d ! i)) = s i" if "i < 8" for i using that l by (simp add: TT_def s_def)
  have n8: "real_of_int (uint (?d ! 0)) = s 0" "real_of_int (uint (?d ! 1)) = s 1" "real_of_int (uint (?d ! 2)) = s 2" "real_of_int (uint (?d ! 3)) = s 3"
    "real_of_int (uint (?d ! 4)) = s 4" "real_of_int (uint (?d ! 5)) = s 5" "real_of_int (uint (?d ! 6)) = s 6" "real_of_int (uint (?d ! 7)) = s 7"
    by (rule n, simp)+
  have "length ?d = 8" using l by simp
  note near_line_error [OF this d, unfolded n8]
  moreover have "fst (Is_Spacial_point (p\<lparr>infrared_data := ?d\<rparr>)) = 1 \<longleftrightarrow> move_direction p = front \<and>
        ((level INFRARED0_PIN = 0 \<and> level INFRARED1_PIN = 0) \<or> (level INFRARED7_PIN = 0 \<and> level INFRARED6_PIN = 0)) \<and>
        (level INFRARED3_PIN = 0 \<or> level INFRARED4_PIN = 0)"
    by (cases "move_direction p") (auto simp: Is_Spacial_point_def Let_def pins_def TT_def)
  ultimately show ?thesis by (simp add: follow_line_step_def GET_Infrared_Data_def Let_def s_def [symmetric])
qed

end
