(* ===== verification/Vision.thy ===== *)
theory Vision
  imports Guidance
begin

text \<open>
  The receiver of the camera's text frames, \<^verbatim>\<open>drv_visual.c\<close>, and the power switches of \<^verbatim>\<open>aboard_power_switch.c\<close>. A frame is
  \<^verbatim>\<open>b\<close>, a text with four numbers, \<^verbatim>\<open>e\<close>. The conversion of the text by \<^verbatim>\<open>sscanf\<close> is a parameter: for a text
  and the ball as it was, how many numbers were converted and the ball with the converted fields.
\<close>

section \<open>The camera\<close>

type_synonym scanner = "u8 list \<Rightarrow> cvdat \<Rightarrow> int \<times> cvdat"

record visual =
  line_b :: "u8 list"
  line_count :: int
  line_state :: nat
  aball :: cvdat
  ball :: "cvdat list"

text \<open>The text ends at the first zero byte; a number \<^verbatim>\<open>id\<close> of a ball outside the table writes outside of it.\<close>

definition cvparse_data :: "scanner \<Rightarrow> int \<Rightarrow> visual \<Rightarrow> visual cres" where
  "cvparse_data sscanf n v =
     cbind (if n < 0 then Inl OutOfBounds else wr (line_b v) (nat n) 0) (\<lambda>buf.
     let (r, d) = sscanf (takeWhile (\<lambda>c. c \<noteq> 0) buf) (aball v); v = v\<lparr>line_b := buf, aball := d\<rparr> in
     if r \<noteq> 4 then Inr v
     else if ball_id d < 0 \<or> ball_id d \<ge> 10 then Inl OutOfBounds
     else Inr (v\<lparr>ball := (ball v)[nat (ball_id d) := d]\<rparr>))"

definition cvhandle :: "scanner \<Rightarrow> u8 \<Rightarrow> visual \<Rightarrow> visual cres" where
  "cvhandle sscanf dat v =
     (if dat = 0x62 then Inr (v\<lparr>line_state := 1\<rparr>)
      else
       let v = (if dat = 0x65 then v\<lparr>line_state := 2\<rparr> else v) in
       cbind (if line_state v = 1
              then cbind (if line_count v < 0 then Inl OutOfBounds else wr (line_b v) (nat (line_count v)) dat) (\<lambda>buf.
                   Inr (v\<lparr>line_b := buf, line_count := line_count v + 1\<rparr>))
              else Inr v) (\<lambda>v.
       if line_state v = 2 then cvparse_data sscanf (line_count v) (v\<lparr>line_count := 0\<rparr>) else Inr v))"

fun cv_run :: "scanner \<Rightarrow> u8 list \<Rightarrow> visual \<Rightarrow> visual cres" where
  "cv_run sscanf [] v = Inr v"
| "cv_run sscanf (dat # dats) v = cbind (cvhandle sscanf dat v) (cv_run sscanf dats)"

section \<open>The power switches\<close>

datatype power_pin = SWITCH_24V_1 | SWITCH_24V_2 | SWITCH_24V_3 | SWITCH_24V_4 | SWITCH_5V_1

record pins_state =
  is_output :: "power_pin \<Rightarrow> bool"
  pin_high :: "power_pin \<Rightarrow> bool"

definition power_on :: "power_pin \<Rightarrow> pins_state \<Rightarrow> int \<times> pins_state" where
  "power_on p s = (0, s\<lparr>pin_high := (pin_high s)(p := True)\<rparr>)"

definition power_off :: "power_pin \<Rightarrow> pins_state \<Rightarrow> int \<times> pins_state" where
  "power_off p s = (0, s\<lparr>pin_high := (pin_high s)(p := False)\<rparr>)"

definition power_pins :: "power_pin list" where
  "power_pins = [SWITCH_24V_1, SWITCH_24V_2, SWITCH_24V_3, SWITCH_24V_4, SWITCH_5V_1]"

text \<open>First every pin becomes an output, then every switch is opened.\<close>

definition power_init :: "pins_state \<Rightarrow> int \<times> pins_state" where
  "power_init s =
     (let s = foldl (\<lambda>s p. s\<lparr>is_output := (is_output s)(p := True)\<rparr>) s power_pins in
      (0, foldl (\<lambda>s p. snd (power_off p s)) s power_pins))"

lemma power_init_off: "is_output (snd (power_init s)) p \<and> \<not> pin_high (snd (power_init s)) p"
  by (cases p) (simp_all add: power_init_def power_pins_def power_off_def)

section \<open>Frames\<close>

text \<open>The bytes of a frame are stored one after another, a second \<^verbatim>\<open>b\<close> is not.\<close>

lemma cv_body:
  assumes "0x65 \<notin> set s" "line_state v = 1" "line_count v = int (length p)" "length (line_b v) = 200" "take (length p) (line_b v) = p" "length p \<le> 200"
  shows "if length p + length (filter (\<lambda>c. c \<noteq> 0x62) s) > 200 then cv_run sscanf s v = Inl OutOfBounds
    else \<exists>buf. cv_run sscanf s v = Inr (v\<lparr>line_b := buf, line_count := int (length p + length (filter (\<lambda>c. c \<noteq> 0x62) s))\<rparr>) \<and> length buf = 200 \<and>
      take (length p + length (filter (\<lambda>c. c \<noteq> 0x62) s)) buf = p @ filter (\<lambda>c. c \<noteq> 0x62) s"
  using assms
proof (induction s arbitrary: v p)
  case Nil
  have "v\<lparr>line_b := line_b v, line_count := line_count v\<rparr> = v" by simp
  then show ?case using Nil by (auto intro!: exI [of _ "line_b v"])
next
  case (Cons c s)
  show ?case
  proof (cases "c = 0x62")
    case True
    have "v\<lparr>line_state := 1\<rparr> = v" using Cons.prems(2) by simp
    then have run: "cv_run sscanf (c # s) v = cv_run sscanf s v" using True by (simp add: cvhandle_def)
    have f: "filter (\<lambda>c. c \<noteq> 0x62) (c # s) = filter (\<lambda>c. c \<noteq> 0x62) s" using True by simp
    show ?thesis unfolding run f by (rule Cons.IH) (use Cons.prems in simp_all)
  next
    case False
    show ?thesis
    proof (cases "length p < 200")
      case True
      let ?v = "v\<lparr>line_b := (line_b v)[length p := c], line_count := int (length p) + 1\<rparr>"
      have step: "cvhandle sscanf c v = Inr ?v" using Cons.prems False True by (simp add: cvhandle_def Let_def)
      have "take (Suc (length p)) ((line_b v)[length p := c]) = p @ [c]"
        using Cons.prems(4,5) True by (simp add: take_Suc_conv_app_nth)
      then have ih: "if length (p @ [c]) + length (filter (\<lambda>c. c \<noteq> 0x62) s) > 200 then cv_run sscanf s ?v = Inl OutOfBounds
        else \<exists>buf. cv_run sscanf s ?v = Inr (?v\<lparr>line_b := buf, line_count := int (length (p @ [c]) + length (filter (\<lambda>c. c \<noteq> 0x62) s))\<rparr>) \<and>
          length buf = 200 \<and> take (length (p @ [c]) + length (filter (\<lambda>c. c \<noteq> 0x62) s)) buf = (p @ [c]) @ filter (\<lambda>c. c \<noteq> 0x62) s"
        by (intro Cons.IH) (use Cons.prems True in simp_all)
      have f: "filter (\<lambda>c. c \<noteq> 0x62) (c # s) = c # filter (\<lambda>c. c \<noteq> 0x62) s" using False by simp
      have l: "length p + length (c # filter (\<lambda>c. c \<noteq> 0x62) s) = length (p @ [c]) + length (filter (\<lambda>c. c \<noteq> 0x62) s)" by simp
      have u: "?v\<lparr>line_b := buf, line_count := n\<rparr> = v\<lparr>line_b := buf, line_count := n\<rparr>" for buf n by simp
      have run: "cv_run sscanf (c # s) v = cv_run sscanf s ?v" by (simp add: step)
      have a: "p @ c # filter (\<lambda>c. c \<noteq> 0x62) s = (p @ [c]) @ filter (\<lambda>c. c \<noteq> 0x62) s" by simp
      show ?thesis using ih unfolding f l run u by (simp only: a)
    next
      case l: False
      then have "cvhandle sscanf c v = Inl OutOfBounds" using Cons.prems False by (simp add: cvhandle_def Let_def wr_def)
      then show ?thesis using l False by simp
    qed
  qed
qed

text \<open>
  C32: what a frame does, for every content without \<^verbatim>\<open>e\<close> and zero bytes. All bytes after the first \<^verbatim>\<open>b\<close> count, those
  of a frame that was broken off as well; from 200 bytes on the receiver leaves its buffer. Otherwise they are converted,
  a frame with fewer than four numbers leaves the table alone, one with a ball number outside 0 to 9 writes outside it, and
  any other stores the ball in its place and changes no other.
\<close>
theorem visual_frame:
  assumes "0x65 \<notin> set s" "0 \<notin> set s" "length (line_b v) = 200" "line_count v = 0"
    and t: "t = filter (\<lambda>c. c \<noteq> 0x62) s" and d: "sscanf t (aball v) = (r, d)"
  shows "if length t \<ge> 200 \<or> r = 4 \<and> \<not> (0 \<le> ball_id d \<and> ball_id d < 10)
    then cv_run sscanf (0x62 # s @ [0x65]) v = Inl OutOfBounds
    else \<exists>v'. cv_run sscanf (0x62 # s @ [0x65]) v = Inr v' \<and> length (line_b v') = 200 \<and> line_count v' = 0 \<and> aball v' = d \<and>
      ball v' = (if r = 4 then (ball v)[nat (ball_id d) := d] else ball v)"
proof -
  let ?v = "v\<lparr>line_state := 1\<rparr>"
  have app: "cv_run sscanf (xs @ ys) u = cbind (cv_run sscanf xs u) (cv_run sscanf ys)" for xs ys u
  proof (induction xs arbitrary: u)
    case (Cons a xs)
    then show ?case by (cases "cvhandle sscanf a u") simp_all
  qed simp
  have start: "cv_run sscanf (0x62 # s @ [0x65]) v = cbind (cv_run sscanf s ?v) (cvhandle sscanf 0x65)"
  proof -
    have "cvhandle sscanf 0x62 v = Inr ?v" by (simp add: cvhandle_def)
    have "cbind (cvhandle sscanf 0x65 u) (cv_run sscanf []) = cvhandle sscanf 0x65 u" for u by (cases "cvhandle sscanf 0x65 u") simp_all
    then have "cv_run sscanf [0x65] = cvhandle sscanf 0x65" by (simp add: fun_eq_iff comp_def)
    moreover have "cv_run sscanf [] = Inr" by (simp add: fun_eq_iff)
    ultimately show ?thesis using app [of s "[0x65]" ?v] \<open>cvhandle sscanf 0x62 v = Inr ?v\<close> by simp
  qed
  note body = cv_body [OF assms(1), of ?v "[]" sscanf, simplified, OF assms(4,3)]
  show ?thesis
  proof (cases "length t > 200")
    case True
    then show ?thesis using body start by (simp add: t)
  next
    case False
    then obtain buf where buf: "cv_run sscanf s ?v = Inr (?v\<lparr>line_b := buf, line_count := int (length t)\<rparr>)" "length buf = 200" "take (length t) buf = t"
      using body by (auto simp: t)
    show ?thesis
    proof (cases "length t = 200")
      case True
      then show ?thesis using buf start by (simp add: cvhandle_def Let_def cvparse_data_def wr_def)
    next
      case l: False
      have "0 \<notin> set t" using assms(2) by (auto simp: t)
      moreover have "buf[length t := 0] = t @ 0 # drop (Suc (length t)) buf"
        using upd_conv_take_nth_drop [of "length t" buf 0] False l buf(2,3) by simp
      ultimately have "takeWhile (\<lambda>c. c \<noteq> 0) (buf[length t := 0]) = t" by (auto simp: takeWhile_append)
      then show ?thesis using buf start False l d by (auto simp: cvhandle_def Let_def cvparse_data_def)
    qed
  qed
qed

theorem visual_frame_witness:
  "\<exists>v'. cv_run (\<lambda>t d. if t = [0x31] then (4, d\<lparr>ball_id := 3\<rparr>) else (0, d)) [0x62, 0x31, 0x65]
      \<lparr>line_b = replicate 200 0, line_count = 0, line_state = 0, aball = \<lparr>color = 0, ball_id = 0, posX = Fin 0, posY = Fin 0\<rparr>,
       ball = replicate 10 \<lparr>color = 0, ball_id = 0, posX = Fin 0, posY = Fin 0\<rparr>\<rparr> = Inr v' \<and> ball_id (ball v' ! 3) = 3"
proof -
  let ?d = "\<lparr>color = 0, ball_id = 0, posX = Fin 0, posY = Fin 0\<rparr>"
  let ?v = "\<lparr>line_b = replicate 200 0, line_count = 0, line_state = 0, aball = ?d, ball = replicate 10 ?d\<rparr>"
  let ?s = "\<lambda>t d :: cvdat. if t = [0x31 :: u8] then (4 :: int, d\<lparr>ball_id := 3\<rparr>) else (0, d)"
  show ?thesis using visual_frame [of "[0x31]" ?v "[0x31]" ?s 4 "?d\<lparr>ball_id := 3\<rparr>"] by auto
qed

end
