(* ===== verification/AbusHash.thy ===== *)
theory AbusHash
  imports Prelude "HOL-Library.List_Lexorder" "HOL-Library.Multiset"
begin

text \<open>
  The chained hash table of the topic bus, \<^verbatim>\<open>abus_v3/src/abus_hash.c\<close>. A key is the text a
  \<^verbatim>\<open>const char*\<close> points to, without its final zero; \<^verbatim>\<open>char\<close> is unsigned, as on the target. A stored
  pointer is an address, \<open>None\<close> is NULL. A chain is reached only through its array element, so an
  array element is modelled by the nodes from it along \<^verbatim>\<open>next\<close>: its own node first, then the
  allocated ones. Whether an allocation succeeds is an argument; a failed one is used by the
  \<^verbatim>\<open>memset\<close> that follows it.
\<close>

section \<open>Strings\<close>

type_synonym cstr = "u8 list"

fun strcmp :: "cstr \<Rightarrow> cstr \<Rightarrow> int" where
  "strcmp [] [] = 0"
| "strcmp [] (b # bs) = - uint b"
| "strcmp (a # as) [] = uint a"
| "strcmp (a # as) (b # bs) = (if a = b then strcmp as bs else uint a - uint b)"

text \<open>No byte of a C string is zero.\<close>

definition is_cstr :: "cstr \<Rightarrow> bool" where "is_cstr s = (0 \<notin> set s)"

lemma is_cstr_simps [simp]: "is_cstr []" "is_cstr (b # bs) \<longleftrightarrow> b \<noteq> 0 \<and> is_cstr bs"
  by (auto simp: is_cstr_def)

lemma uint_pos_iff [simp]: "0 < uint w \<longleftrightarrow> w \<noteq> 0" for w :: u8
  by (metis uint_0_iff uint_ge_0 order_le_less less_irrefl)

lemma strcmp_eq [simp]: "is_cstr s \<Longrightarrow> is_cstr t \<Longrightarrow> strcmp s t = 0 \<longleftrightarrow> s = t"
  by (induction s t rule: strcmp.induct) (auto simp: uint_0_iff dest: word_uint_eqI)

lemma strcmp_gt [simp]: "is_cstr s \<Longrightarrow> is_cstr t \<Longrightarrow> 0 < strcmp s t \<longleftrightarrow> t < s"
  by (induction s t rule: strcmp.induct) (auto simp: word_less_def)

section \<open>Nodes and tables\<close>

record LNode =
  nm :: "cstr option"
  data :: "nat option"

record hashTable =
  nodes :: "LNode list list"
  count :: int
  list_size :: int

definition MaxSize :: nat where "MaxSize = 10"

definition hashFunction :: "cstr \<Rightarrow> nat" where
  "hashFunction str = unat (foldl (\<lambda>hash c. hash + ucast c) (0 :: u32) str) mod MaxSize"

text \<open>The size of the list in bytes, 12 for a node, is computed in 32 bits; a list that wraps around is written past its block.\<close>

definition HashTableInit :: "int \<Rightarrow> bool \<Rightarrow> bool \<Rightarrow> hashTable cres" where
  "HashTableInit sz alloc_table alloc_list =
     (if \<not> alloc_table then Inl NullDeref
      else if \<not> alloc_list then Inl NullDeref
      else if 2 ^ 32 \<le> 12 * max (int MaxSize) sz then Inl OutOfBounds
      else Inr \<lparr>nodes = replicate (nat (max (int MaxSize) sz)) [\<lparr>nm = None, data = None\<rparr>],
                count = 0, list_size = max (int MaxSize) sz\<rparr>)"

text \<open>The array element of a row is its first node; the rest of the row are the allocated nodes.\<close>

definition HashTableInsert :: "hashTable \<Rightarrow> cstr \<Rightarrow> nat option \<Rightarrow> bool \<Rightarrow> hashTable cres" where
  "HashTableInsert H key d alloc =
     (let address = hashFunction key in
      cbind (rd (nodes H) address) (\<lambda>row.
      cbind (rd row 0) (\<lambda>head.
      if nm head = None
      then Inr (H\<lparr>nodes := (nodes H)[address := \<lparr>nm = Some key, data = d\<rparr> # tl row], count := count H + 1\<rparr>)
      else if \<not> alloc then Inl NullDeref
      else Inr (H\<lparr>nodes := (nodes H)[address := head # \<lparr>nm = Some key, data = d\<rparr> # tl row],
                  count := count H + 1\<rparr>))))"

fun search_chain :: "LNode list \<Rightarrow> cstr \<Rightarrow> nat option" where
  "search_chain [] key = None"
| "search_chain (p # ps) key =
     (case nm p of None \<Rightarrow> search_chain ps key
      | Some s \<Rightarrow> if strcmp s key \<noteq> 0 then search_chain ps key else data p)"

definition HashTableSearch :: "hashTable \<Rightarrow> cstr \<Rightarrow> nat option cres" where
  "HashTableSearch H key = cbind (rd (nodes H) (hashFunction key)) (\<lambda>row. Inr (search_chain row key))"

text \<open>
  The walk of \<^verbatim>\<open>HashTableRemove\<close>; \<open>seen\<close> are the nodes passed, the last of which is \<^verbatim>\<open>last_p\<close>. The
  comparison reads the name without a test for NULL.
\<close>

fun remove_chain :: "LNode list \<Rightarrow> LNode list \<Rightarrow> cstr \<Rightarrow> LNode list cres" where
  "remove_chain seen [] key = Inr seen"
| "remove_chain seen (p # ps) key =
     (case nm p of None \<Rightarrow> Inl NullDeref
      | Some s \<Rightarrow>
          if strcmp s key \<noteq> 0 then remove_chain (seen @ [p]) ps key
          else if seen = [] then Inl NullDeref else Inr (seen @ ps))"

definition HashTableRemove :: "hashTable \<Rightarrow> cstr \<Rightarrow> hashTable cres" where
  "HashTableRemove H key =
     (let address = hashFunction key in
      cbind (rd (nodes H) address) (\<lambda>row.
      cbind (remove_chain [] row key) (\<lambda>row'. Inr (H\<lparr>nodes := (nodes H)[address := row']\<rparr>))))"

text \<open>The callback of an iteration changes the caller's state \<open>w\<close>.\<close>

fun iterate_chain :: "('w \<Rightarrow> cstr \<Rightarrow> nat option \<Rightarrow> 'w) \<Rightarrow> 'w \<Rightarrow> LNode list \<Rightarrow> 'w cres" where
  "iterate_chain callback w [] = Inl NullDeref"
| "iterate_chain callback w (n # ns) =
     (case nm n of None \<Rightarrow> Inr w
      | Some s \<Rightarrow> if strcmp s [0x68, 0x65, 0x61, 0x70] \<noteq> 0
                  then iterate_chain callback (callback w s (data n)) ns else Inr w)"

fun iterate_rows :: "('w \<Rightarrow> cstr \<Rightarrow> nat option \<Rightarrow> 'w) \<Rightarrow> 'w \<Rightarrow> LNode list list \<Rightarrow> 'w cres" where
  "iterate_rows callback w [] = Inr w"
| "iterate_rows callback w (r # rs) = cbind (iterate_chain callback w r) (\<lambda>w'. iterate_rows callback w' rs)"

definition HashTableIterate ::
  "hashTable \<Rightarrow> ('w \<Rightarrow> cstr \<Rightarrow> nat option \<Rightarrow> 'w) \<Rightarrow> 'w \<Rightarrow> 'w cres" where
  "HashTableIterate H callback w =
     cbind (rd_n (nodes H) (nat (list_size H))) (iterate_rows callback w)"

section \<open>The sort of a chain\<close>

text \<open>\<^verbatim>\<open>swap\<close> exchanges the names and leaves the data where they are.\<close>

definition swap :: "LNode \<Rightarrow> LNode \<Rightarrow> LNode \<times> LNode" where
  "swap a b = (a\<lparr>nm := nm b\<rparr>, b\<lparr>nm := nm a\<rparr>)"

text \<open>One pass of the inner loop; \<open>m\<close> is the number of nodes before \<^verbatim>\<open>last\<close>.\<close>

fun bubble_pass :: "nat \<Rightarrow> LNode list \<Rightarrow> (LNode list \<times> bool) cres" where
  "bubble_pass (Suc (Suc m)) (a # b # ns) =
     (case (nm a, nm b) of
        (Some s, Some t) \<Rightarrow>
          let swapped = strcmp s t > 0; (a', b') = (if swapped then swap a b else (a, b))
          in cbind (bubble_pass (Suc m) (b' # ns)) (\<lambda>(r, sw). Inr (a' # r, swapped \<or> sw))
      | _ \<Rightarrow> Inl NullDeref)"
| "bubble_pass _ ns = Inr (ns, False)"

text \<open>After a pass \<^verbatim>\<open>last\<close> is the node the pass ended at, one before its previous place.\<close>

fun bubble_loop :: "nat \<Rightarrow> LNode list \<Rightarrow> LNode list cres" where
  "bubble_loop 0 ns = Inr ns"
| "bubble_loop (Suc m) ns =
     cbind (bubble_pass (Suc m) ns) (\<lambda>(r, swapped). if swapped then bubble_loop m r else Inr r)"

definition bubbleSort :: "LNode list \<Rightarrow> LNode list cres" where
  "bubbleSort head = (if length head < 2 then Inr head else bubble_loop (length head) head)"

section \<open>Well formed tables\<close>

definition named :: "LNode \<Rightarrow> bool" where
  "named n = (case nm n of None \<Rightarrow> False | Some s \<Rightarrow> is_cstr s)"

definition wf_row :: "LNode list \<Rightarrow> bool" where
  "wf_row r = (r = [\<lparr>nm = None, data = None\<rparr>] \<or> (r \<noteq> [] \<and> (\<forall>n\<in>set r. named n)))"

definition wf_table :: "hashTable \<Rightarrow> bool" where
  "wf_table H = (MaxSize \<le> length (nodes H) \<and> list_size H = int (length (nodes H)) \<and> (\<forall>r\<in>set (nodes H). wf_row r))"

definition bucket :: "hashTable \<Rightarrow> cstr \<Rightarrow> LNode list" where
  "bucket H key = nodes H ! hashFunction key"

definition names :: "LNode list \<Rightarrow> cstr set" where
  "names r = {s. \<exists>n\<in>set r. nm n = Some s}"

definition keys :: "hashTable \<Rightarrow> cstr set" where
  "keys H = (\<Union>r\<in>set (nodes H). names r)"

lemma names_simps [simp]: "names [] = {}" "names (n # ns) = set_option (nm n) \<union> names ns"
  by (auto simp: names_def elem_set)

lemma in_set_update: "x \<in> set (xs[i := y]) \<Longrightarrow> x = y \<or> x \<in> set xs"
  using set_update_subset_insert by fastforce

lemma union_update:
  assumes "i < length xs"
  shows "(\<Union>r\<in>set (xs[i := y]). f r) \<union> f (xs ! i) = (\<Union>r\<in>set xs. f r) \<union> f y"
  unfolding upd_conv_take_nth_drop [OF assms]
  by (subst (4) id_take_nth_drop [OF assms]) auto

lemma hash_less [simp]: "hashFunction key < MaxSize"
  by (simp add: hashFunction_def MaxSize_def)

lemma hash_in_table [simp]: "wf_table H \<Longrightarrow> hashFunction key < length (nodes H)"
  using hash_less [of key] unfolding wf_table_def by linarith

lemma wf_bucket: "wf_table H \<Longrightarrow> wf_row (bucket H key)"
  unfolding bucket_def using hash_in_table [of H key] nth_mem by (auto simp: wf_table_def)

lemma wf_row_cases:
  assumes "wf_row r"
  obtains "r = [\<lparr>nm = None, data = None\<rparr>]"
    | n ns s where "r = n # ns" "nm n = Some s" "is_cstr s" "\<forall>n\<in>set ns. named n"
  using assms by (cases r) (auto simp: wf_row_def named_def split: option.splits)

lemma rd_bucket [simp]: "wf_table H \<Longrightarrow> rd (nodes H) (hashFunction key) = Inr (bucket H key)"
  by (simp add: bucket_def)

lemma rd_head [simp]: "rd (n # ns) 0 = Inr n"
  by simp

lemma wf_update_row: "wf_table H \<Longrightarrow> wf_row r \<Longrightarrow> wf_table (H\<lparr>nodes := (nodes H)[i := r], count := c\<rparr>)"
  by (auto simp: wf_table_def dest!: in_set_update)

lemma wf_table_count [simp]: "wf_table (H\<lparr>count := c\<rparr>) = wf_table H"
  by (simp add: wf_table_def)

lemma wf_update_row': "wf_table H \<Longrightarrow> wf_row r \<Longrightarrow> wf_table (H\<lparr>nodes := (nodes H)[i := r]\<rparr>)"
  using wf_update_row [where c = "hashTable.count H" and r = r and i = i and H = H] by simp

lemma bucket_update:
  "wf_table H \<Longrightarrow> bucket (H\<lparr>nodes := (nodes H)[hashFunction key := r], count := c\<rparr>) key' =
     (if hashFunction key' = hashFunction key then r else bucket H key')"
  by (simp add: bucket_def nth_list_update)

lemma search_eq [simp]: "wf_table H \<Longrightarrow> HashTableSearch H key = Inr (search_chain (bucket H key) key)"
  by (simp add: HashTableSearch_def del: rd_ok)

lemma search_chain_absent: "(\<forall>n\<in>set ns. named n) \<or> ns = [\<lparr>nm = None, data = None\<rparr>] \<Longrightarrow> is_cstr key \<Longrightarrow>
    \<forall>n\<in>set ns. nm n \<noteq> Some key \<Longrightarrow> search_chain ns key = None"
  by (induction ns) (auto simp: named_def split: option.splits)

lemma names_bucket: "wf_table H \<Longrightarrow> names (bucket H key) \<subseteq> keys H"
  unfolding keys_def bucket_def using nth_mem [OF hash_in_table [of H key]] by blast

lemma search_absent: "wf_table H \<Longrightarrow> is_cstr key \<Longrightarrow> key \<notin> keys H \<Longrightarrow> search_chain (bucket H key) key = None"
  using wf_bucket [of H key] nth_mem [OF hash_in_table [of H key]]
  by (intro search_chain_absent) (auto simp: keys_def names_def bucket_def wf_row_def)

lemma init_table:
  "HashTableInit sz True True = Inr H \<Longrightarrow> wf_table H \<and> keys H = {}"
  by (auto simp: HashTableInit_def wf_table_def wf_row_def keys_def MaxSize_def split: if_splits)

text \<open>What an insertion does to the rows.\<close>

lemma insert_steps:
  assumes "wf_table H" "is_cstr key"
  obtains (empty) "bucket H key = [\<lparr>nm = None, data = None\<rparr>]"
      "HashTableInsert H key d True = Inr (H\<lparr>nodes := (nodes H)[hashFunction key := [\<lparr>nm = Some key, data = d\<rparr>]], count := count H + 1\<rparr>)"
    | (chain) n ns s where "bucket H key = n # ns" "nm n = Some s" "is_cstr s"
      "HashTableInsert H key d True = Inr (H\<lparr>nodes := (nodes H)[hashFunction key := n # \<lparr>nm = Some key, data = d\<rparr> # ns], count := count H + 1\<rparr>)"
  using wf_bucket [OF assms(1), of key]
  by (elim wf_row_cases) (auto simp: HashTableInsert_def assms(1) Let_def simp del: rd_ok hash_in_table) 

lemma keys_insert_row:
  assumes "wf_table H" "names r = insert key (names (bucket H key))"
  shows "keys (H\<lparr>nodes := (nodes H)[hashFunction key := r], count := c\<rparr>) = insert key (keys H)"
proof -
  have sub: "names (bucket H key) \<subseteq> keys H" by (rule names_bucket [OF assms(1)])
  have "keys (H\<lparr>nodes := (nodes H)[hashFunction key := r], count := c\<rparr>) \<union> names (bucket H key) = keys H \<union> names r"
    using union_update [OF hash_in_table [OF assms(1), of key], where y = r and f = names] by (simp add: keys_def bucket_def)
  moreover have "names r \<subseteq> keys (H\<lparr>nodes := (nodes H)[hashFunction key := r], count := c\<rparr>)"
    using set_update_memI [OF hash_in_table [OF assms(1), of key], of r] by (auto simp: keys_def)
  ultimately show ?thesis using sub assms(2) by auto
qed

text \<open>A fresh node is found unless the first node of the row has the same name.\<close>

lemma insert_search:
  assumes "wf_table H" "is_cstr key"
  obtains H' where "HashTableInsert H key d True = Inr H'" "wf_table H'" "keys H' = insert key (keys H)" "count H' = count H + 1"
    "\<And>key'. is_cstr key' \<Longrightarrow> search_chain (bucket H' key') key' =
      (if key' = key \<and> nm (hd (bucket H key)) \<noteq> Some key then d else search_chain (bucket H key') key')"
  using assms(1,2)
proof (cases rule: insert_steps [where d = d])
  case empty
  have same: "bucket H k = [\<lparr>nm = None, data = None\<rparr>]" if "hashFunction k = hashFunction key" for k
    using empty(1) that by (simp add: bucket_def)
  show ?thesis
    by (rule that [OF empty(2)]) (use empty(1) same assms in
      \<open>auto simp: bucket_update keys_insert_row wf_update_row' wf_row_def named_def\<close>)
next
  case (chain n ns s)
  have row: "wf_row (n # \<lparr>nm = Some key, data = d\<rparr> # ns)"
    using wf_bucket [OF assms(1), of key] chain(1,2) assms(2) by (auto simp: wf_row_def named_def)
  have same: "bucket H k = n # ns" if "hashFunction k = hashFunction key" for k
    using chain(1) that by (simp add: bucket_def)
  show ?thesis
    by (rule that [OF chain(4)]) (use chain same assms in
      \<open>auto simp: bucket_update keys_insert_row wf_update_row' [OF _ row]\<close>)
qed

section \<open>The interface of a dictionary\<close>

text \<open>
  What a client of the table relies on: a new table has no keys, and an insertion of a key the
  table does not have is found afterwards and changes no other key. Nothing is promised for a
  second insertion of a key.
\<close>

locale dict =
  fixes wf :: "'t \<Rightarrow> bool" and dom_of :: "'t \<Rightarrow> 'k set" and ok :: "'k \<Rightarrow> bool"
    and ins :: "'t \<Rightarrow> 'k \<Rightarrow> 'd option \<Rightarrow> 't cres" and find :: "'t \<Rightarrow> 'k \<Rightarrow> 'd option cres"
  assumes absent: "wf t \<Longrightarrow> ok k \<Longrightarrow> k \<notin> dom_of t \<Longrightarrow> find t k = Inr None"
    and fresh: "wf t \<Longrightarrow> ok k \<Longrightarrow> k \<notin> dom_of t \<Longrightarrow>
      \<exists>t'. ins t k d = Inr t' \<and> wf t' \<and> dom_of t' = insert k (dom_of t) \<and>
        (\<forall>k'. ok k' \<longrightarrow> find t' k' = (if k' = k then Inr d else find t k'))"
begin

fun ins_all :: "'t \<Rightarrow> ('k \<times> 'd option) list \<Rightarrow> 't cres" where
  "ins_all t [] = Inr t"
| "ins_all t ((k, d) # kds) = cbind (ins t k d) (\<lambda>t'. ins_all t' kds)"

lemma ins_all_find:
  assumes "wf t" "distinct (map fst kds)" "\<forall>k\<in>set (map fst kds). ok k \<and> k \<notin> dom_of t"
  shows "\<exists>t'. ins_all t kds = Inr t' \<and> wf t' \<and> dom_of t' = set (map fst kds) \<union> dom_of t \<and>
    (\<forall>k. ok k \<longrightarrow> find t' k = (case map_of kds k of Some d \<Rightarrow> Inr d | None \<Rightarrow> find t k))"
  using assms
proof (induction kds arbitrary: t)
  case (Cons kd kds)
  obtain k d where kd: "kd = (k, d)" by (cases kd)
  obtain t1 where t1: "ins t k d = Inr t1" "wf t1" "dom_of t1 = insert k (dom_of t)"
      "\<And>k'. ok k' \<Longrightarrow> find t1 k' = (if k' = k then Inr d else find t k')"
    using fresh [of t k d] Cons.prems by (auto simp: kd)
  obtain t2 where t2: "ins_all t1 kds = Inr t2" "wf t2" "dom_of t2 = set (map fst kds) \<union> dom_of t1"
      "\<And>k. ok k \<Longrightarrow> find t2 k = (case map_of kds k of Some d \<Rightarrow> Inr d | None \<Rightarrow> find t1 k)"
    using Cons.IH [of t1] Cons.prems t1(2,3) by (auto simp: kd)
  have "map_of kds k = None"
    using Cons.prems(2) by (auto simp: kd map_of_eq_None_iff)
  then show ?case
    using t1 t2 by (auto simp: kd split: option.splits)
qed auto

end

lemma table_dict: "dict wf_table keys is_cstr (\<lambda>H k d. HashTableInsert H k d True) HashTableSearch"
proof
  fix t and k :: cstr and d assume t: "wf_table t" "is_cstr k" "k \<notin> keys t"
  then have head: "nm (hd (bucket t k)) \<noteq> Some k"
    using wf_bucket [OF t(1), of k] names_bucket [OF t(1), of k] t(3)
    by (elim wf_row_cases [of "bucket t k"]) auto
  obtain H' where "HashTableInsert t k d True = Inr H'" "wf_table H'" "keys H' = insert k (keys t)" "hashTable.count H' = hashTable.count t + 1"
    "\<And>key'. is_cstr key' \<Longrightarrow> search_chain (bucket H' key') key' =
      (if key' = k \<and> nm (hd (bucket t k)) \<noteq> Some k then d else search_chain (bucket t key') key')"
    using insert_search [OF t(1,2)] by metis
  then show "\<exists>t'. HashTableInsert t k d True = Inr t' \<and> wf_table t' \<and> keys t' = insert k (keys t) \<and>
     (\<forall>k'. is_cstr k' \<longrightarrow> HashTableSearch t' k' = (if k' = k then Inr d else HashTableSearch t k'))"
    using head t(1) by (auto intro!: exI [of _ H'])
qed (simp add: search_absent)

interpretation table: dict wf_table keys is_cstr "\<lambda>H k d. HashTableInsert H k d True" HashTableSearch
  by (rule table_dict)

fun insert_all :: "hashTable \<Rightarrow> (cstr \<times> nat option) list \<Rightarrow> hashTable cres" where
  "insert_all H [] = Inr H"
| "insert_all H ((k, d) # kds) = cbind (HashTableInsert H k d True) (\<lambda>H'. insert_all H' kds)"

lemma insert_all_eq: "insert_all H kds = table.ins_all H kds"
  by (induction H kds rule: insert_all.induct) (auto intro!: arg_cong2 [where f = cbind])

section \<open>Removal\<close>

lemma remove_chain_ok:
  assumes "\<forall>n\<in>set ps. named n" "seen \<noteq> []" "is_cstr key"
  shows "\<exists>q. remove_chain seen ps key = Inr (seen @ q) \<and> set q \<subseteq> set ps \<and>
    (\<forall>k. is_cstr k \<longrightarrow> k \<noteq> key \<longrightarrow> search_chain q k = search_chain ps k)"
  using assms
proof (induction ps arbitrary: seen)
  case (Cons p ps)
  then obtain s where s: "nm p = Some s" "is_cstr s" by (auto simp: named_def split: option.splits)
  show ?case
  proof (cases "s = key")
    case False
    then obtain q where "remove_chain (seen @ [p]) ps key = Inr ((seen @ [p]) @ q)" "set q \<subseteq> set ps"
        "\<forall>k. is_cstr k \<longrightarrow> k \<noteq> key \<longrightarrow> search_chain q k = search_chain ps k"
      using Cons.IH [of "seen @ [p]"] Cons.prems by auto
    then show ?thesis using s False Cons.prems by (auto intro!: exI [of _ "p # q"])
  qed (use s Cons.prems in \<open>auto intro!: exI [of _ ps]\<close>)
qed simp

lemma search_chain_Cons: "search_chain (n # ns) k = (if \<exists>s. nm n = Some s \<and> strcmp s k = 0 then data n else search_chain ns k)"
  by (auto split: option.splits)

text \<open>A removal follows a null pointer exactly when the row is empty or starts with the key.\<close>

lemma remove_cases:
  assumes "wf_table H" "is_cstr key"
  shows "if nm (hd (bucket H key)) \<in> {None, Some key} then HashTableRemove H key = Inl NullDeref
    else \<exists>H'. HashTableRemove H key = Inr H' \<and> wf_table H' \<and> hashTable.count H' = hashTable.count H \<and>
      (\<forall>k. is_cstr k \<longrightarrow> k \<noteq> key \<longrightarrow> HashTableSearch H' k = HashTableSearch H k)"
  using wf_bucket [OF assms(1), of key]
proof (cases rule: wf_row_cases)
  case 1
  then show ?thesis by (simp add: HashTableRemove_def assms Let_def del: rd_ok)
next
  case (2 n ns s)
  show ?thesis
  proof (cases "s = key")
    case False
    obtain q where q: "remove_chain [n] ns key = Inr (n # q)" "set q \<subseteq> set ns"
        "\<And>k. is_cstr k \<Longrightarrow> k \<noteq> key \<Longrightarrow> search_chain q k = search_chain ns k"
      using remove_chain_ok [of ns "[n]" key] 2(4) assms(2) by auto
    let ?H = "H\<lparr>nodes := (nodes H)[hashFunction key := n # q]\<rparr>"
    have H: "HashTableRemove H key = Inr ?H" using 2 False q(1) by (simp add: HashTableRemove_def assms Let_def del: rd_ok)
    have wf: "wf_table ?H"
      by (rule wf_update_row' [OF assms(1)]) (use 2 q(2) in \<open>auto simp: wf_row_def named_def\<close>)
    have "bucket ?H k = (if hashFunction k = hashFunction key then n # q else bucket H k)" for k
      using bucket_update [OF assms(1), where c = "hashTable.count H"] by simp
    moreover have "bucket H k = n # ns" if "hashFunction k = hashFunction key" for k
      using 2(1) that by (simp add: bucket_def)
    ultimately show ?thesis using H wf 2 False q(3) assms
      by (auto simp: search_chain_Cons intro!: exI [of _ ?H])
  qed (use 2 in \<open>simp add: HashTableRemove_def assms Let_def del: rd_ok\<close>)
qed

text \<open>Removing what was inserted into a row in use puts the rows back.\<close>

lemma insert_remove:
  assumes "wf_table H" "is_cstr key" "nm (hd (bucket H key)) \<notin> {None, Some key}"
  shows "cbind (HashTableInsert H key d True) (\<lambda>H'. HashTableRemove H' key) = Inr (H\<lparr>hashTable.count := hashTable.count H + 1\<rparr>)"
  using assms(1,2)
proof (cases rule: insert_steps [where d = d])
  case (chain n ns s)
  let ?H = "H\<lparr>nodes := (nodes H)[hashFunction key := n # \<lparr>nm = Some key, data = d\<rparr> # ns], hashTable.count := hashTable.count H + 1\<rparr>"
  have "hashFunction key < length (nodes H)" using assms(1) by simp
  then have "rd (nodes ?H) (hashFunction key) = Inr (n # \<lparr>nm = Some key, data = d\<rparr> # ns)" by simp
  moreover have "nodes H = (nodes H)[hashFunction key := n # ns]" using chain(1) by (metis bucket_def list_update_id)
  ultimately show ?thesis using chain assms(2,3) by (simp add: HashTableRemove_def)
qed (use assms(3) in auto)

section \<open>Iteration\<close>

definition heap :: cstr where "heap = [0x68, 0x65, 0x61, 0x70]"

text \<open>
  The walk along a row stops at an empty array element or at the name \<open>heap\<close>; the end of the
  chain is not tested.
\<close>

lemma iterate_chain_fault:
  "\<forall>n\<in>set r. named n \<Longrightarrow> no_fault (iterate_chain f w r) \<longleftrightarrow> heap \<in> names r"
proof (induction r arbitrary: w)
  case (Cons n ns)
  then obtain s where "nm n = Some s" "is_cstr s" by (auto simp: named_def split: option.splits)
  moreover have "is_cstr heap" by (simp add: heap_def)
  ultimately show ?case using Cons by (simp flip: heap_def)
qed simp

lemma iterate_rows_fault: "no_fault (iterate_rows f w rs) \<Longrightarrow> r \<in> set rs \<Longrightarrow> \<exists>w. no_fault (iterate_chain f w r)"
  by (induction rs arbitrary: w) (auto simp: no_fault_iff)

lemma iterate_rows_ok: "\<forall>r\<in>set rs. \<forall>w. no_fault (iterate_chain f w r) \<Longrightarrow> no_fault (iterate_rows f w rs)"
  by (induction rs arbitrary: w) (auto simp: no_fault_iff, metis)

lemma iterate_fault_iff:
  assumes "wf_table H"
  shows "no_fault (HashTableIterate H f w) \<longleftrightarrow> (\<forall>r\<in>set (nodes H). names r = {} \<or> heap \<in> names r)"
proof -
  have row: "no_fault (iterate_chain f w r) \<longleftrightarrow> names r = {} \<or> heap \<in> names r" if "r \<in> set (nodes H)" for r w
  proof -
    have "wf_row r" using that assms by (auto simp: wf_table_def)
    then show ?thesis
    proof (cases rule: wf_row_cases)
      case (2 n ns s)
      then show ?thesis by (subst iterate_chain_fault) (auto simp: named_def)
    qed simp
  qed
  have "HashTableIterate H f w = iterate_rows f w (nodes H)"
    using assms by (simp add: HashTableIterate_def wf_table_def)
  then show ?thesis
    using row iterate_rows_fault [of f w "nodes H"] iterate_rows_ok [of "nodes H" f w] by auto
qed

section \<open>The sort\<close>

text \<open>Passes and loop on the names alone.\<close>

fun pass :: "nat \<Rightarrow> 'a::linorder list \<Rightarrow> 'a list \<times> bool" where
  "pass (Suc (Suc m)) (a # b # xs) =
     (let sw = b < a; (r, s) = pass (Suc m) ((if sw then a else b) # xs) in ((if sw then b else a) # r, sw \<or> s))"
| "pass _ xs = (xs, False)"

fun sort_loop :: "nat \<Rightarrow> 'a::linorder list \<Rightarrow> 'a list" where
  "sort_loop 0 xs = xs"
| "sort_loop (Suc m) xs = (let (r, s) = pass (Suc m) xs in if s then sort_loop m r else r)"

lemma length_pass [simp]: "length (fst (pass m xs)) = length xs"
  by (induction m xs rule: pass.induct) (auto simp: Let_def case_prod_beta)

lemma mset_pass: "mset (fst (pass m xs)) = mset xs"
  by (induction m xs rule: pass.induct) (auto simp: Let_def case_prod_beta)

lemma set_pass [simp]: "set (fst (pass m xs)) = set xs"
  by (rule mset_eq_setD [OF mset_pass])

lemma drop_pass: "drop m (fst (pass m xs)) = drop m xs"
  by (induction m xs rule: pass.induct) (auto simp: Let_def case_prod_beta)

lemma pass_still: "m \<le> length xs \<Longrightarrow> \<not> snd (pass m xs) \<Longrightarrow> fst (pass m xs) = xs \<and> sorted (take m xs)"
  by (induction m xs rule: pass.induct) (auto simp: Let_def case_prod_beta not_less split: if_splits intro!: sorted01)

lemma pass_last: "0 < m \<Longrightarrow> m \<le> length xs \<Longrightarrow> x \<in> set (take m (fst (pass m xs))) \<Longrightarrow> x \<le> fst (pass m xs) ! (m - 1)"
proof (induction m xs arbitrary: x rule: pass.induct)
  case (1 m a b xs)
  let ?p = "fst (pass (Suc m) ((if b < a then a else b) # xs))"
  have IH: "y \<le> ?p ! m" if "y \<in> set (take (Suc m) ?p)" for y
    using "1.IH" [of "b < a"] "1.prems" that by simp
  have "(if b < a then a else b) \<in> set (take (Suc m) ?p)"
  proof -
    have "mset (take (Suc m) ?p) = mset (take (Suc m) ((if b < a then a else b) # xs))"
      using mset_pass [of "Suc m"] drop_pass [of "Suc m"] append_take_drop_id
      by (metis (no_types, lifting) add_right_cancel mset_append)
    from mset_eq_setD [OF this] show ?thesis by simp
  qed
  then have "(if b < a then b else a) \<le> ?p ! m"
    using IH by (force split: if_splits)
  then show ?case using "1.prems" IH by (auto simp: Let_def case_prod_beta)
qed (auto simp: take_Suc_conv_app_nth Suc_le_eq)

lemma take_pass: "set (take m (fst (pass m xs))) = set (take m xs)"
proof -
  have "mset (take m (fst (pass m xs))) = mset (take m xs)"
    by (metis add_right_cancel append_take_drop_id drop_pass mset_append mset_pass)
  then show ?thesis by (rule mset_eq_setD)
qed

definition settled :: "nat \<Rightarrow> 'a::linorder list \<Rightarrow> bool" where
  "settled m xs = (m \<le> length xs \<and> sorted (drop m xs) \<and> (\<forall>x\<in>set (take m xs). \<forall>y\<in>set (drop m xs). x \<le> y))"

lemma settled_pass: "settled (Suc m) xs \<Longrightarrow> settled m (fst (pass (Suc m) xs))"
proof -
  assume s: "settled (Suc m) xs"
  let ?p = "fst (pass (Suc m) xs)"
  have m: "m < length ?p" using s by (simp add: settled_def)
  then have d: "drop m ?p = ?p ! m # drop (Suc m) xs"
    using drop_pass [of "Suc m" xs] by (simp flip: Cons_nth_drop_Suc)
  have t: "take (Suc m) ?p = take m ?p @ [?p ! m]" using m by (simp add: take_Suc_conv_app_nth)
  have "set (take m ?p) \<subseteq> set (take (Suc m) xs)" "?p ! m \<in> set (take (Suc m) xs)"
    using take_pass [of "Suc m" xs] t by auto
  moreover have "x \<le> ?p ! m" if "x \<in> set (take m ?p)" for x
    using pass_last [of "Suc m" xs x] s t that by (simp add: settled_def)
  ultimately show ?thesis using s m d by (auto simp: settled_def)
qed

lemma sort_loop_sorts: "settled m xs \<Longrightarrow> sorted (sort_loop m xs) \<and> mset (sort_loop m xs) = mset xs"
proof (induction m arbitrary: xs)
  case (Suc m)
  show ?case
  proof (cases "snd (pass (Suc m) xs)")
    case True
    then show ?thesis using Suc.IH [OF settled_pass [OF Suc.prems]] mset_pass [of "Suc m" xs]
      by (simp add: Let_def case_prod_beta)
  next
    case False
    then have "fst (pass (Suc m) xs) = xs" "sorted xs"
      using pass_still [of "Suc m" xs] Suc.prems sorted_append [of "take (Suc m) xs" "drop (Suc m) xs"]
      by (auto simp: settled_def)
    then show ?thesis using False by (simp add: Let_def case_prod_beta)
  qed
qed (simp add: settled_def)

text \<open>The code's passes do that to the names of the nodes and leave the data in place.\<close>

definition name_of :: "LNode \<Rightarrow> cstr" where "name_of n = the (nm n)"

lemma bubble_pass_names:
  "\<forall>n\<in>set ns. named n \<Longrightarrow> \<exists>r. bubble_pass m ns = Inr (r, snd (pass m (map name_of ns))) \<and>
     map name_of r = fst (pass m (map name_of ns)) \<and> map data r = map data ns \<and> (\<forall>n\<in>set r. named n)"
proof (induction m arbitrary: ns)
  case (Suc m)
  show ?case
  proof (cases "\<exists>m' a b ns'. m = Suc m' \<and> ns = a # b # ns'")
    case True
    then obtain m' a b ns' where ns: "m = Suc m'" "ns = a # b # ns'" by blast
    obtain s t where st: "nm a = Some s" "nm b = Some t" "is_cstr s" "is_cstr t"
      using Suc.prems by (auto simp: ns named_def split: option.splits)
    let ?b = "if t < s then snd (swap a b) else b" and ?a = "if t < s then fst (swap a b) else a"
    have b: "nm ?b = Some (if t < s then s else t)" "data ?b = data b" "nm ?a = Some (if t < s then t else s)" "data ?a = data a"
      using st by (simp_all add: swap_def)
    have "\<forall>n\<in>set (?b # ns'). named n" using Suc.prems b st by (auto simp: ns named_def)
    from Suc.IH [OF this] obtain r where r: "bubble_pass m (?b # ns') = Inr (r, snd (pass m (map name_of (?b # ns'))))"
        "map name_of r = fst (pass m (map name_of (?b # ns')))" "map data r = map data (?b # ns')" "\<forall>n\<in>set r. named n"
      by blast
    have "bubble_pass (Suc m) ns = cbind (bubble_pass m (?b # ns')) (\<lambda>(r, sw). Inr (?a # r, t < s \<or> sw))"
      using st by (simp add: ns Let_def case_prod_beta)
    then have "bubble_pass (Suc m) ns = Inr (?a # r, t < s \<or> snd (pass m (map name_of (?b # ns'))))"
      by (simp only: r cbind.simps prod.case)
    moreover have "name_of a = s" "name_of b = t" "named ?a" "name_of ?a = (if t < s then t else s)" "name_of ?b = (if t < s then s else t)"
      using b st by (simp_all add: named_def name_of_def)
    ultimately show ?thesis using r b st
      by (cases "t < s") (auto simp: ns Let_def case_prod_beta simp del: bubble_pass.simps)
  next
    case False
    then have "bubble_pass (Suc m) ns = Inr (ns, False)" "pass (Suc m) (map name_of ns) = (map name_of ns, False)"
      by (cases m; cases ns rule: remdups_adj.cases; simp)+
    then show ?thesis using Suc.prems by simp
  qed
qed simp

lemma bubble_loop_names:
  "\<forall>n\<in>set ns. named n \<Longrightarrow> \<exists>r. bubble_loop m ns = Inr r \<and> map name_of r = sort_loop m (map name_of ns) \<and> map data r = map data ns"
proof (induction m arbitrary: ns)
  case (Suc m)
  obtain r where r: "bubble_pass (Suc m) ns = Inr (r, snd (pass (Suc m) (map name_of ns)))"
      "map name_of r = fst (pass (Suc m) (map name_of ns))" "map data r = map data ns" "\<forall>n\<in>set r. named n"
    using bubble_pass_names [OF Suc.prems, of "Suc m"] by blast
  then show ?case using Suc.IH [OF r(4)] by (auto simp: Let_def case_prod_beta)
qed simp

lemma bubbleSort_names:
  assumes "\<forall>n\<in>set ns. named n"
  shows "\<exists>r. bubbleSort ns = Inr r \<and> sorted (map name_of r) \<and> mset (map name_of r) = mset (map name_of ns) \<and> map data r = map data ns"
proof (cases "length ns < 2")
  case True
  then show ?thesis by (auto simp: bubbleSort_def intro!: sorted01)
next
  case False
  have "settled (length ns) (map name_of ns)" by (simp add: settled_def)
  then show ?thesis
    using bubble_loop_names [OF assms, of "length ns"] sort_loop_sorts [of "length ns" "map name_of ns"] False
    by (auto simp: bubbleSort_def simp del: mset_map)
qed

section \<open>Properties\<close>

text \<open>
  C27: from a new table (any requested size, allocations succeeding), after inserting entries with
  pairwise different keys, a search returns for each key the pointer it was inserted with, and NULL
  for every other key, however the keys collide. Only a size whose bytes do not fit in 32 bits makes the initialisation leave its block.
\<close>

theorem hash_insert_search:
  assumes "distinct (map fst kds)" "\<forall>k\<in>set (map fst kds). is_cstr k"
  shows "if sz < 357913942
    then \<exists>H H'. HashTableInit sz True True = Inr H \<and> insert_all H kds = Inr H' \<and>
      (\<forall>k. is_cstr k \<longrightarrow> HashTableSearch H' k = Inr (case map_of kds k of Some d \<Rightarrow> d | None \<Rightarrow> None))
    else HashTableInit sz True True = Inl OutOfBounds"
proof (cases "sz < 357913942")
  case True
  then have "\<not> 2 ^ 32 \<le> 12 * max (int MaxSize) sz" by (simp add: MaxSize_def max_def)
  then obtain H where H: "HashTableInit sz True True = Inr H" by (simp add: HashTableInit_def)
  then have wf: "wf_table H" "keys H = {}" using init_table by auto
  obtain H' where H': "insert_all H kds = Inr H'"
      "\<And>k. is_cstr k \<Longrightarrow> HashTableSearch H' k = (case map_of kds k of Some d \<Rightarrow> Inr d | None \<Rightarrow> HashTableSearch H k)"
    using table.ins_all_find [OF wf(1) assms(1)] assms(2) wf(2) by (auto simp: insert_all_eq)
  have "HashTableSearch H k = Inr None" if "is_cstr k" for k
    using table.absent [OF wf(1) that] wf(2) by simp
  then show ?thesis using True H H' by (auto split: option.splits)
qed (simp add: HashTableInit_def MaxSize_def max_def)

theorem hash_insert_search_witness:
  "\<exists>H H'. HashTableInit 16 True True = Inr H \<and> insert_all H [([1], Some 7), ([11], Some 8), ([21], None)] = Inr H' \<and>
    HashTableSearch H' [11] = Inr (Some 8)"
  using hash_insert_search [of "[([1], Some 7), ([11], Some 8), ([21], None)]" 16] by fastforce

text \<open>
  An insertion of a key the table may already have: the count grows by one, other keys are
  not affected, and the key is found with the new pointer except when the array element of its row
  carries the key; that element then keeps hiding the new node.
\<close>
lemma hash_insert_again:
  assumes "wf_table H" "is_cstr key" "is_cstr k"
  shows "\<exists>H'. HashTableInsert H key d True = Inr H' \<and> wf_table H' \<and> hashTable.count H' = hashTable.count H + 1 \<and>
    HashTableSearch H' k = (if k = key \<and> nm (hd (bucket H key)) \<noteq> Some key then Inr d else HashTableSearch H k)"
proof -
  obtain H' where "HashTableInsert H key d True = Inr H'" "wf_table H'" "hashTable.count H' = hashTable.count H + 1"
    "search_chain (bucket H' k) k = (if k = key \<and> nm (hd (bucket H key)) \<noteq> Some key then d else search_chain (bucket H k) k)"
    using insert_search [OF assms(1,2), of d] assms(3) by metis
  then show ?thesis using assms(1) by auto
qed

definition one_key :: hashTable where
  "one_key = \<lparr>nodes = [\<lparr>nm = Some [10], data = Some 5\<rparr>] # replicate 9 [\<lparr>nm = None, data = None\<rparr>], count = 1, list_size = 10\<rparr>"

lemma wf_one_key: "wf_table one_key"
  by (simp add: one_key_def wf_table_def MaxSize_def wf_row_def named_def replicate_numeral_eq)

theorem hash_insert_again_witness:
  "\<exists>H'. HashTableInsert one_key [10] (Some 6) True = Inr H' \<and> HashTableSearch H' [10] = Inr (Some 5)"
proof -
  have "hashFunction [10] = 0" by (simp add: hashFunction_def MaxSize_def)
  then have "nm (hd (bucket one_key [10])) = Some [10]" "HashTableSearch one_key [10] = Inr (Some 5)"
    by (simp_all add: bucket_def one_key_def HashTableSearch_def rd_def)
  then show ?thesis using hash_insert_again [OF wf_one_key, of "[10]" "[10]" "Some 6"] by auto
qed

text \<open>
  A removal follows a null pointer when the row of the key is empty or its array element
  carries the key (there is no previous node to relink), and otherwise returns a table in which
  every other key is found as before; the count is not changed. In particular removing what was just
  inserted into such a row restores the rows.
\<close>

theorem hash_remove:
  assumes "wf_table H" "is_cstr key"
  shows "(nm (hd (bucket H key)) \<in> {None, Some key} \<longrightarrow> HashTableRemove H key = Inl NullDeref) \<and>
    (nm (hd (bucket H key)) \<notin> {None, Some key} \<longrightarrow>
      (\<exists>H'. HashTableRemove H key = Inr H' \<and> wf_table H' \<and> hashTable.count H' = hashTable.count H \<and>
        (\<forall>k. is_cstr k \<longrightarrow> k \<noteq> key \<longrightarrow> HashTableSearch H' k = HashTableSearch H k)) \<and>
      cbind (HashTableInsert H key d True) (\<lambda>H'. HashTableRemove H' key) = Inr (H\<lparr>hashTable.count := hashTable.count H + 1\<rparr>))"
  using remove_cases [OF assms] insert_remove [OF assms, of d] by auto

theorem hash_remove_witness:
  "HashTableRemove one_key [10] = Inl NullDeref \<and> HashTableRemove one_key [1] = Inl NullDeref \<and>
   cbind (HashTableInsert one_key [20] None True) (\<lambda>H'. HashTableRemove H' [20]) = Inr (one_key\<lparr>hashTable.count := 2\<rparr>)"
proof -
  have h: "hashFunction [10] = 0" "hashFunction [20] = 0" "hashFunction [1] = 1" by (simp_all add: hashFunction_def MaxSize_def)
  then have "nm (hd (bucket one_key [10])) = Some [10]" "nm (hd (bucket one_key [20])) = Some [10]" "nm (hd (bucket one_key [1])) = None"
    by (simp_all add: bucket_def one_key_def)
  then show ?thesis
    using hash_remove [OF wf_one_key, of "[10]" None] hash_remove [OF wf_one_key, of "[1]" None] hash_remove [OF wf_one_key, of "[20]" None]
    by (simp add: one_key_def)
qed

text \<open>
  Iterating over a table returns exactly when every row is empty or holds the name \<open>heap\<close>; any
  other row in use is walked past the end of its chain.
\<close>

theorem hash_iterate_faults:
  assumes "wf_table H"
  shows "no_fault (HashTableIterate H f w) \<longleftrightarrow> (\<forall>r\<in>set (nodes H). names r = {} \<or> heap \<in> names r)"
  using assms by (rule iterate_fault_iff)

theorem hash_iterate_faults_witness:
  "\<not> no_fault (HashTableIterate one_key (\<lambda>l k d. l @ [(k, d)]) [])"
  using hash_iterate_faults [OF wf_one_key] by (simp add: one_key_def heap_def)

text \<open>
  The bubble sort of a chain ends with the names in ascending order and no name lost or
  invented, but the data stay where they were: only the names move.
\<close>

theorem bubbleSort_sorts_names:
  assumes "\<forall>n\<in>set ns. named n"
  shows "\<exists>r. bubbleSort ns = Inr r \<and> sorted (map name_of r) \<and> mset (map name_of r) = mset (map name_of ns) \<and> map data r = map data ns"
  using assms by (rule bubbleSort_names)

theorem bubbleSort_sorts_names_witness:
  "\<exists>r. bubbleSort [\<lparr>nm = Some [2], data = Some 20\<rparr>, \<lparr>nm = Some [1], data = Some 10\<rparr>] = Inr r \<and>
     sorted (map name_of r) \<and> map data r = [Some 20, Some 10]"
  using bubbleSort_sorts_names [of "[\<lparr>nm = Some [2], data = Some 20\<rparr>, \<lparr>nm = Some [1], data = Some 10\<rparr>]"]
  by (auto simp: named_def)
end
