(* ===== verification/TopicBus.thy ===== *)
theory TopicBus
  imports AbusHash
begin

text \<open>
  The topic bus, \<^verbatim>\<open>abus_v3/src/abus_topic.c\<close> and \<^verbatim>\<open>abus_acc.c\<close> over the hash tables of \<^theory_text>\<open>AbusHash\<close>, with the semaphores of
  \<^verbatim>\<open>abus_osal.c\<close>. Topics and accounts live in two memories; a pointer is an address, \<open>None\<close> is NULL. The
  vector and ring buffer libraries are not part of the repository and are parameters, as are the callbacks of
  the application, which act on the application's world and do not call the bus.
\<close>

section \<open>Data\<close>

record abus_acc =
  acc_name :: cstr
  acc_filter :: "nat option"

text \<open>A callback is a function of the application, by its number, or the notification of the bus itself.\<close>

datatype subcribe_cb = user_callback nat | abus_cb_async_notify

record abus_subcriber =
  acc :: "nat option"
  fifo :: "nat option"
  sub_filter :: "nat option"
  cb :: "subcribe_cb option"
  sem :: "nat option"
  rx_cnt :: u32

record abus_subcribe_cfg =
  cfg_fifo :: "nat option"
  cfg_filter :: "nat option"
  cfg_cb :: "subcribe_cb option"
  cfg_is_async :: u8
  cfg_sem :: "nat option"

text \<open>The function that shows the data of a topic: one of the application, or the printer of \<^verbatim>\<open>abus_echo.c\<close>.\<close>

datatype abus_type_show_fun = user_show nat | echo_data_by_token

record abus_topic_cfg =
  hash_table_size :: u16
  topic_data_size :: u16

record 'v abus_topic =
  top_name :: cstr
  subcribers :: "'v option"
  sub_hash_table :: "hashTable option"
  top_cfg :: abus_topic_cfg
  desc :: cstr
  show_fun :: "abus_type_show_fun option"

text \<open>
  The bus: the static tables of the two files, the memories, the initialised semaphores with their counts, the world of
  the application, and the allocator. The allocator gives the next address, when it serves the request.
\<close>

record ('v, 'w) bus =
  topics_Table :: "hashTable option"
  topics_is_init :: bool
  accounters_Table :: "hashTable option"
  acc_is_init :: bool
  topic_mem :: "nat \<Rightarrow> 'v abus_topic option"
  acc_mem :: "nat \<Rightarrow> abus_acc option"
  sems :: "nat \<Rightarrow> nat option"
  world :: 'w
  serves :: "nat \<Rightarrow> bool"
  lim :: nat

text \<open>The vectors of subscribers, the ring buffers and the callbacks.\<close>

record ('v, 'd, 'w) bus_env =
  sub_create :: "'v option"
  sub_length :: "'v \<Rightarrow> nat"
  sub_at :: "'v \<Rightarrow> nat \<Rightarrow> abus_subcriber"
  sub_put :: "'v \<Rightarrow> nat \<Rightarrow> abus_subcriber \<Rightarrow> 'v"
  sub_pushback :: "'v \<Rightarrow> abus_subcriber \<Rightarrow> 'v"
  sub_end :: "'v \<Rightarrow> nat"
  afifo_in :: "nat \<Rightarrow> 'd \<Rightarrow> u16 \<Rightarrow> 'w \<Rightarrow> 'w"
  afifo_out :: "nat \<Rightarrow> u32 \<Rightarrow> 'w \<Rightarrow> u32 \<times> 'w"
  afifo_get_used :: "nat \<Rightarrow> 'w \<Rightarrow> u32"
  user_cb :: "nat \<Rightarrow> abus_subcriber \<Rightarrow> 'd \<Rightarrow> 'w \<Rightarrow> 'w"

section \<open>Memory\<close>

definition ABUS_MALLOC :: "('v, 'w) bus \<Rightarrow> nat option \<times> ('v, 'w) bus" where
  "ABUS_MALLOC b = (if serves b (lim b) then Some (lim b) else None, b\<lparr>lim := lim b + 1\<rparr>)"

text \<open>A pointer to nothing allocated is outside every block.\<close>

definition get_topic :: "('v, 'w) bus \<Rightarrow> nat option \<Rightarrow> 'v abus_topic cres" where
  "get_topic b p = (case p of None \<Rightarrow> Inl NullDeref | Some a \<Rightarrow> (case topic_mem b a of None \<Rightarrow> Inl OutOfBounds | Some t \<Rightarrow> Inr t))"

definition get_acc :: "('v, 'w) bus \<Rightarrow> nat option \<Rightarrow> abus_acc cres" where
  "get_acc b p = (case p of None \<Rightarrow> Inl NullDeref | Some a \<Rightarrow> (case acc_mem b a of None \<Rightarrow> Inl OutOfBounds | Some c \<Rightarrow> Inr c))"

definition put_topic :: "nat \<Rightarrow> 'v abus_topic \<Rightarrow> ('v, 'w) bus \<Rightarrow> ('v, 'w) bus" where
  "put_topic a t b = b\<lparr>topic_mem := (topic_mem b)(a \<mapsto> t)\<rparr>"

definition new_table :: "int \<Rightarrow> ('v, 'w) bus \<Rightarrow> (hashTable \<times> ('v, 'w) bus) cres" where
  "new_table n b =
     (let (p, b) = ABUS_MALLOC b; (q, b) = ABUS_MALLOC b in
      cbind (HashTableInit n (p \<noteq> None) (q \<noteq> None)) (\<lambda>H. Inr (H, b)))"

definition insert_new :: "hashTable \<Rightarrow> cstr \<Rightarrow> nat option \<Rightarrow> ('v, 'w) bus \<Rightarrow> (hashTable \<times> ('v, 'w) bus) cres" where
  "insert_new H key d b =
     (let (p, b) = ABUS_MALLOC b in cbind (HashTableInsert H key d (p \<noteq> None)) (\<lambda>H. Inr (H, b)))"

section \<open>Semaphores\<close>

text \<open>The operating system refuses a null pointer; \<^verbatim>\<open>abus_sem_init\<close> ignores what it returns.\<close>

definition abus_sem_init :: "nat option \<Rightarrow> nat \<Rightarrow> ('v, 'w) bus \<Rightarrow> int \<times> ('v, 'w) bus" where
  "abus_sem_init p n b = (0, case p of None \<Rightarrow> b | Some s \<Rightarrow> b\<lparr>sems := (sems b)(s \<mapsto> n)\<rparr>)"

definition abus_sem_post :: "nat \<Rightarrow> ('v, 'w) bus \<Rightarrow> (int \<times> ('v, 'w) bus) cres" where
  "abus_sem_post s b = (case sems b s of None \<Rightarrow> Inl OutOfBounds | Some n \<Rightarrow> Inr (0, b\<lparr>sems := (sems b)(s \<mapsto> n + 1)\<rparr>))"

text \<open>The wait has no limit, whatever the time given: \<open>None\<close> is a thread that waits for a post.\<close>

definition abus_sem_wait :: "nat \<Rightarrow> u32 \<Rightarrow> ('v, 'w) bus \<Rightarrow> (int \<times> ('v, 'w) bus) option cres" where
  "abus_sem_wait s max_time b =
     (case sems b s of None \<Rightarrow> Inl OutOfBounds
      | Some 0 \<Rightarrow> Inr None
      | Some (Suc n) \<Rightarrow> Inr (Some (0, b\<lparr>sems := (sems b)(s \<mapsto> n)\<rparr>)))"

section \<open>Accounts\<close>

definition abus_acc_init :: "('v, 'w) bus \<Rightarrow> ('v, 'w) bus cres" where
  "abus_acc_init b =
     (if acc_is_init b then Inr b
      else cbind (new_table 32 (b\<lparr>acc_is_init := True\<rparr>)) (\<lambda>(H, b). Inr (b\<lparr>accounters_Table := Some H\<rparr>)))"

text \<open>A failed assertion prints for ever.\<close>

definition abus_accounter_find_by_name :: "('v, 'w) bus \<Rightarrow> cstr option \<Rightarrow> nat option cres" where
  "abus_accounter_find_by_name b key =
     (case key of None \<Rightarrow> Inl Stuck | Some s \<Rightarrow> (case accounters_Table b of None \<Rightarrow> Inl Stuck | Some H \<Rightarrow> HashTableSearch H s))"

definition abus_accounter_create :: "('v, 'w) bus \<Rightarrow> cstr option \<Rightarrow> nat option \<Rightarrow> (nat option \<times> ('v, 'w) bus) cres" where
  "abus_accounter_create b key f =
     (case key of None \<Rightarrow> Inl Stuck
      | Some s \<Rightarrow> cbind (abus_acc_init b) (\<lambda>b.
          case accounters_Table b of None \<Rightarrow> Inl Stuck
          | Some H \<Rightarrow>
              (case ABUS_MALLOC b of
                 (None, b) \<Rightarrow> Inr (None, b)
               | (Some a, b) \<Rightarrow>
                   (let b = b\<lparr>acc_mem := (acc_mem b)(a \<mapsto> \<lparr>acc_name = s, acc_filter = f\<rparr>)\<rparr> in
                    cbind (insert_new H s (Some a) b) (\<lambda>(H, b). Inr (Some a, b\<lparr>accounters_Table := Some H\<rparr>))))))"

text \<open>The last line prints the name of the account that was just freed.\<close>

definition abus_accounter_destroy :: "('v, 'w) bus \<Rightarrow> nat option \<Rightarrow> ('v, 'w) bus cres" where
  "abus_accounter_destroy b p =
     (case p of None \<Rightarrow> Inl Stuck
      | Some a \<Rightarrow> (case accounters_Table b of None \<Rightarrow> Inl Stuck
          | Some H \<Rightarrow> cbind (get_acc b p) (\<lambda>c. cbind (HashTableRemove H (acc_name c)) (\<lambda>H.
              let b = b\<lparr>accounters_Table := Some H, acc_mem := (acc_mem b)(a := None)\<rparr> in
              cbind (get_acc b p) (\<lambda>_. Inr b)))))"

section \<open>Topics\<close>

definition abus_topic_init :: "('v, 'w) bus \<Rightarrow> ('v, 'w) bus cres" where
  "abus_topic_init b =
     (if topics_is_init b then Inr b
      else cbind (new_table 16 (b\<lparr>topics_is_init := True\<rparr>)) (\<lambda>(H, b). Inr (b\<lparr>topics_Table := Some H\<rparr>)))"

definition abus_topic_find_by_name :: "('v, 'w) bus \<Rightarrow> cstr option \<Rightarrow> nat option cres" where
  "abus_topic_find_by_name b key =
     (case key of None \<Rightarrow> Inl Stuck | Some s \<Rightarrow> (case topics_Table b of None \<Rightarrow> Inl Stuck | Some H \<Rightarrow> HashTableSearch H s))"

text \<open>
  The new block is cleared before it is compared with NULL. A topic whose vector cannot be made is freed, its table is not.
\<close>

definition abus_topic_create ::
  "('v, 'd, 'w) bus_env \<Rightarrow> ('v, 'w) bus \<Rightarrow> cstr \<Rightarrow> abus_topic_cfg \<Rightarrow> cstr \<Rightarrow> (nat option \<times> ('v, 'w) bus) cres" where
  "abus_topic_create E b key cfg dsc =
     cbind (abus_topic_init b) (\<lambda>b.
     case ABUS_MALLOC b of
       (None, b) \<Rightarrow> Inl NullDeref
     | (Some a, b) \<Rightarrow>
         cbind (if hash_table_size cfg \<noteq> 0
                then cbind (new_table (uint (hash_table_size cfg)) b) (\<lambda>(K, b). Inr (Some K, b)) else Inr (None, b)) (\<lambda>(K, b).
         case sub_create E of
           None \<Rightarrow> Inr (None, b)
         | Some v \<Rightarrow>
             (case topics_Table b of
                None \<Rightarrow> Inl NullDeref
              | Some H \<Rightarrow>
                  (let b = put_topic a \<lparr>top_name = key, subcribers = Some v, sub_hash_table = K, top_cfg = cfg, desc = dsc, show_fun = None\<rparr> b in
                   cbind (insert_new H key (Some a) b) (\<lambda>(H, b). Inr (Some a, b\<lparr>topics_Table := Some H\<rparr>))))))"

text \<open>\<^verbatim>\<open>HashTableDestroy\<close> reads the table it frees.\<close>

definition abus_topic_destroy :: "('v, 'w) bus \<Rightarrow> nat option \<Rightarrow> ('v, 'w) bus cres" where
  "abus_topic_destroy b p =
     (case p of None \<Rightarrow> Inl Stuck
      | Some a \<Rightarrow> cbind (get_topic b p) (\<lambda>t.
          case topics_Table b of None \<Rightarrow> Inl Stuck
          | Some H \<Rightarrow> cbind (HashTableRemove H (top_name t)) (\<lambda>H.
              if sub_hash_table t = None then Inl NullDeref
              else Inr (b\<lparr>topics_Table := Some H, topic_mem := (topic_mem b)(a := None)\<rparr>))))"

definition abus_topic_set_show_by_name :: "('v, 'w) bus \<Rightarrow> cstr option \<Rightarrow> abus_type_show_fun option \<Rightarrow> ('v, 'w) bus cres" where
  "abus_topic_set_show_by_name b key f =
     cbind (abus_topic_find_by_name b key) (\<lambda>tp.
     case tp of None \<Rightarrow> Inr b | Some a \<Rightarrow> cbind (get_topic b tp) (\<lambda>t. Inr (put_topic a (t\<lparr>show_fun := f\<rparr>) b)))"

text \<open>Echoing a topic only sets its printer; without a topic it loops for ever.\<close>

definition abus_echo :: "('v, 'w) bus \<Rightarrow> nat option \<Rightarrow> int \<Rightarrow> ('v, 'w) bus cres" where
  "abus_echo b tp rate =
     (case tp of None \<Rightarrow> Inl Stuck | Some a \<Rightarrow> cbind (get_topic b tp) (\<lambda>t. Inr (put_topic a (t\<lparr>show_fun := Some echo_data_by_token\<rparr>) b)))"

definition abus_echo_by_name :: "('v, 'w) bus \<Rightarrow> cstr option \<Rightarrow> int \<Rightarrow> ('v, 'w) bus cres" where
  "abus_echo_by_name b key rate = cbind (abus_topic_find_by_name b key) (\<lambda>tp. abus_echo b tp rate)"

section \<open>Subscribing\<close>

text \<open>
  The semaphore of the configuration is initialised and not stored in the subscriber. What is entered into the
  topic's own table is the end of the vector, the place of the next subscriber.
\<close>

definition abus_subcribe ::
  "('v, 'd, 'w) bus_env \<Rightarrow> ('v, 'w) bus \<Rightarrow> cstr option \<Rightarrow> cstr option \<Rightarrow> abus_subcribe_cfg \<Rightarrow> (int \<times> ('v, 'w) bus) cres" where
  "abus_subcribe E b topic accounter cfg =
     cbind (abus_topic_find_by_name b topic) (\<lambda>tp.
     cbind (abus_accounter_find_by_name b accounter) (\<lambda>ac.
     if topic = None then Inr (- 1, b)
     else if accounter = None then Inr (- 2, b)
     else if tp = None then Inr (- 3, b)
     else let s = \<lparr>acc = ac, fifo = cfg_fifo cfg, sub_filter = None, cb = cfg_cb cfg, sem = None, rx_cnt = 0\<rparr> in
       cbind (if cfg_is_async cfg = 1
              then cbind (get_acc b ac) (\<lambda>_. Inr (s\<lparr>cb := Some abus_cb_async_notify\<rparr>, snd (abus_sem_init (cfg_sem cfg) 0 b)))
              else Inr (s, b)) (\<lambda>(s, b).
       let s = (if cfg_filter cfg \<noteq> None then s\<lparr>sub_filter := cfg_filter cfg\<rparr> else s) in
       cbind (get_topic b tp) (\<lambda>t.
       case subcribers t of
         None \<Rightarrow> Inr (- 2, b)
       | Some v \<Rightarrow>
           (let v = sub_pushback E v s; t = t\<lparr>subcribers := Some v\<rparr>; b = put_topic (the tp) t b in
            case sub_hash_table t of
              None \<Rightarrow> Inr (0, b)
            | Some K \<Rightarrow> cbind (insert_new K (the accounter) (Some (sub_end E v)) b) (\<lambda>(K, b).
                Inr (0, put_topic (the tp) (t\<lparr>sub_hash_table := Some K\<rparr>) b)))))))"

definition abus_find_subcriber :: "('v, 'w) bus \<Rightarrow> nat option \<Rightarrow> cstr \<Rightarrow> nat option cres" where
  "abus_find_subcriber b tp s =
     cbind (get_topic b tp) (\<lambda>t. case sub_hash_table t of None \<Rightarrow> Inr None | Some K \<Rightarrow> HashTableSearch K s)"

definition abus_unsubcribe :: "('v, 'w) bus \<Rightarrow> cstr option \<Rightarrow> cstr \<Rightarrow> int cres" where
  "abus_unsubcribe b topic s =
     cbind (abus_topic_find_by_name b topic) (\<lambda>tp.
     cbind (abus_find_subcriber b tp s) (\<lambda>sub.
     if topic = None then Inr (- 1) else if sub = None then Inr (- 2) else Inr 0))"

section \<open>Publishing\<close>

definition async_notify :: "abus_subcriber \<Rightarrow> ('v, 'w) bus \<Rightarrow> (int \<times> ('v, 'w) bus) cres" where
  "async_notify s b = (case sem s of None \<Rightarrow> Inr (- 1, b) | Some p \<Rightarrow> abus_sem_post p b)"

text \<open>One round of the loop, for the subscriber with index \<open>i\<close>.\<close>

definition deliver :: "('v, 'd, 'w) bus_env \<Rightarrow> nat \<Rightarrow> 'd \<Rightarrow> nat \<Rightarrow> ('v, 'w) bus \<Rightarrow> ('v, 'w) bus cres" where
  "deliver E a msg i b =
     cbind (get_topic b (Some a)) (\<lambda>t.
     case subcribers t of
       None \<Rightarrow> Inl NullDeref
     | Some v \<Rightarrow>
         (let s = sub_at E v i;
              b = (case fifo s of None \<Rightarrow> b | Some f \<Rightarrow> b\<lparr>world := afifo_in E f msg (topic_data_size (top_cfg t)) (world b)\<rparr>) in
          cbind (case cb s of
                   Some (user_callback k) \<Rightarrow> Inr (b\<lparr>world := user_cb E k s msg (world b)\<rparr>)
                 | Some abus_cb_async_notify \<Rightarrow> cbind (async_notify s b) (\<lambda>(r, b). Inr b)
                 | None \<Rightarrow> cbind (get_acc b (acc s)) (\<lambda>_. Inr b)) (\<lambda>b.
          Inr (put_topic a (t\<lparr>subcribers := Some (sub_put E v i (s\<lparr>rx_cnt := rx_cnt s + 1\<rparr>))\<rparr>) b))))"

fun deliver_each :: "('v, 'd, 'w) bus_env \<Rightarrow> nat \<Rightarrow> 'd \<Rightarrow> nat list \<Rightarrow> ('v, 'w) bus \<Rightarrow> ('v, 'w) bus cres" where
  "deliver_each E a msg [] b = Inr b"
| "deliver_each E a msg (i # is) b = cbind (deliver E a msg i b) (deliver_each E a msg is)"

definition abus_publish :: "('v, 'd, 'w) bus_env \<Rightarrow> ('v, 'w) bus \<Rightarrow> cstr option \<Rightarrow> 'd \<Rightarrow> (int \<times> ('v, 'w) bus) cres" where
  "abus_publish E b topic msg =
     cbind (abus_topic_find_by_name b topic) (\<lambda>tp.
     if topic = None then Inr (- 1, b)
     else cbind (get_topic b tp) (\<lambda>t.
       case subcribers t of
         None \<Rightarrow> Inl NullDeref
       | Some v \<Rightarrow> cbind (deliver_each E (the tp) msg [0..<sub_length E v] b) (\<lambda>b. Inr (0, b))))"

definition abus_publish_to :: "('v, 'w) bus \<Rightarrow> cstr option \<Rightarrow> 'd \<Rightarrow> cstr option \<Rightarrow> int" where
  "abus_publish_to b topic msg s = 0"

section \<open>Reading\<close>

definition abus_get_data :: "('v, 'd, 'w) bus_env \<Rightarrow> ('v, 'w) bus \<Rightarrow> abus_subcriber option \<Rightarrow> u32 \<Rightarrow> (u32 \<times> ('v, 'w) bus) cres" where
  "abus_get_data E b s n =
     (case s of None \<Rightarrow> Inl Stuck
      | Some s \<Rightarrow> (case fifo s of None \<Rightarrow> Inr (0, b)
          | Some f \<Rightarrow> (let (r, w) = afifo_out E f n (world b) in Inr (r, b\<lparr>world := w\<rparr>))))"

definition abus_get_received :: "('v, 'd, 'w) bus_env \<Rightarrow> ('v, 'w) bus \<Rightarrow> abus_subcriber \<Rightarrow> u32" where
  "abus_get_received E b s = (case fifo s of None \<Rightarrow> 0 | Some f \<Rightarrow> afifo_get_used E f (world b))"

text \<open>The search through the vector, by the names of the accounts.\<close>

fun find_sub :: "('v, 'w) bus \<Rightarrow> cstr \<Rightarrow> abus_subcriber list \<Rightarrow> abus_subcriber option cres" where
  "find_sub b key [] = Inr None"
| "find_sub b key (s # ss) =
     cbind (get_acc b (acc s)) (\<lambda>c. if strcmp (acc_name c) key = 0 then Inr (Some s) else find_sub b key ss)"

text \<open>A subscriber found in the table is not returned.\<close>

definition abus_subcribe_find_by_name ::
  "('v, 'd, 'w) bus_env \<Rightarrow> ('v, 'w) bus \<Rightarrow> nat option \<Rightarrow> cstr \<Rightarrow> abus_subcriber option cres" where
  "abus_subcribe_find_by_name E b tp key =
     cbind (get_topic b tp) (\<lambda>t.
     let search = (case subcribers t of None \<Rightarrow> Inl NullDeref
                   | Some v \<Rightarrow> find_sub b key (map (sub_at E v) [0..<sub_length E v])) in
     case sub_hash_table t of
       None \<Rightarrow> search
     | Some K \<Rightarrow> cbind (HashTableSearch K key) (\<lambda>r. if r = None then search else Inr None))"

definition abus_get_data_by_name :: "('v, 'd, 'w) bus_env \<Rightarrow> ('v, 'w) bus \<Rightarrow> cstr option \<Rightarrow> cstr \<Rightarrow> u32 cres" where
  "abus_get_data_by_name E b topic key =
     cbind (abus_topic_find_by_name b topic) (\<lambda>tp.
     if tp = None then Inr 0
     else cbind (abus_subcribe_find_by_name E b tp key) (\<lambda>s.
       case s of None \<Rightarrow> Inr 0 | Some s \<Rightarrow> Inr (abus_get_received E b s)))"

definition abus_get_received_by_name :: "('v, 'd, 'w) bus_env \<Rightarrow> ('v, 'w) bus \<Rightarrow> cstr option \<Rightarrow> cstr \<Rightarrow> u32 cres" where
  "abus_get_received_by_name E b topic key =
     cbind (abus_topic_find_by_name b topic) (\<lambda>tp.
     if tp = None then Inr 0 else cbind (abus_subcribe_find_by_name E b tp key) (\<lambda>s. Inr 0))"

definition abus_subcriber_wait :: "('v, 'w) bus \<Rightarrow> abus_subcriber \<Rightarrow> u32 \<Rightarrow> (int \<times> ('v, 'w) bus) option cres" where
  "abus_subcriber_wait b s max_time = (case sem s of None \<Rightarrow> Inr (Some (- 1, b)) | Some p \<Rightarrow> abus_sem_wait p max_time b)"

definition abus_subcriber_wait_by_name ::
  "('v, 'd, 'w) bus_env \<Rightarrow> ('v, 'w) bus \<Rightarrow> cstr option \<Rightarrow> cstr \<Rightarrow> u32 \<Rightarrow> (int \<times> ('v, 'w) bus) option cres" where
  "abus_subcriber_wait_by_name E b topic key max_time =
     cbind (abus_topic_find_by_name b topic) (\<lambda>tp.
     if tp = None then Inr (Some (- 2, b))
     else cbind (abus_subcribe_find_by_name E b tp key) (\<lambda>s.
       case s of None \<Rightarrow> Inr (Some (- 2, b)) | Some s \<Rightarrow> abus_subcriber_wait b s max_time))"

section \<open>The interface of the vectors\<close>

definition sub_laws :: "('v, 'd, 'w) bus_env \<Rightarrow> ('v \<Rightarrow> abus_subcriber list) \<Rightarrow> bool" where
  "sub_laws E items \<longleftrightarrow>
     (\<exists>v. sub_create E = Some v \<and> items v = []) \<and>
     (\<forall>v. sub_length E v = length (items v)) \<and>
     (\<forall>v i. i < length (items v) \<longrightarrow> sub_at E v i = items v ! i) \<and>
     (\<forall>v s. items (sub_pushback E v s) = items v @ [s]) \<and>
     (\<forall>v i s. i < length (items v) \<longrightarrow> items (sub_put E v i s) = (items v)[i := s])"

locale sub_vector =
  fixes E :: "('v, 'd, 'w) bus_env" and items :: "'v \<Rightarrow> abus_subcriber list"
  assumes laws: "sub_laws E items"
begin

lemma create: obtains v where "sub_create E = Some v" "items v = []"
  using laws by (auto simp: sub_laws_def)

lemma ops [simp]:
  "sub_length E v = length (items v)" "i < length (items v) \<Longrightarrow> sub_at E v i = items v ! i"
  "items (sub_pushback E v s) = items v @ [s]" "i < length (items v) \<Longrightarrow> items (sub_put E v i s) = (items v)[i := s]"
  using laws by (simp_all add: sub_laws_def)

lemma elements [simp]: "map (sub_at E v) [0..<length (items v)] = items v"
  by (intro nth_equalityI) simp_all

end

section \<open>What the bus promises\<close>

text \<open>
  A topic is the list of its subscribers and the size of its data, an account is an address, and the rest is the
  world of the application. The four operations of a client, and what each means.
\<close>

record 'w bus_spec =
  topics :: "cstr \<Rightarrow> (abus_subcriber list \<times> u16) option"
  accounts :: "cstr \<Rightarrow> nat option"
  outside :: 'w

datatype 'd bus_op =
    Create cstr abus_topic_cfg cstr
  | Account cstr "nat option"
  | Subscribe cstr cstr abus_subcribe_cfg
  | Publish cstr 'd

definition new_sub :: "nat option \<Rightarrow> abus_subcribe_cfg \<Rightarrow> abus_subcriber" where
  "new_sub a cfg = \<lparr>acc = a, fifo = cfg_fifo cfg, sub_filter = cfg_filter cfg,
     cb = (if cfg_is_async cfg = 1 then Some abus_cb_async_notify else cfg_cb cfg), sem = None, rx_cnt = 0\<rparr>"

text \<open>A subscriber gets the data through its ring buffer and its callback; the notification of the bus has no effect.\<close>

definition receive :: "('v, 'd, 'w) bus_env \<Rightarrow> 'd \<Rightarrow> u16 \<Rightarrow> 'w \<Rightarrow> abus_subcriber \<Rightarrow> 'w" where
  "receive E msg z w s =
     (let w = (case fifo s of None \<Rightarrow> w | Some f \<Rightarrow> afifo_in E f msg z w) in
      case cb s of Some (user_callback k) \<Rightarrow> user_cb E k s msg w | _ \<Rightarrow> w)"

definition counted :: "abus_subcriber \<Rightarrow> abus_subcriber" where
  "counted s = s\<lparr>rx_cnt := rx_cnt s + 1\<rparr>"

fun spec_step :: "('v, 'd, 'w) bus_env \<Rightarrow> nat \<Rightarrow> 'd bus_op \<Rightarrow> 'w bus_spec \<Rightarrow> 'w bus_spec" where
  "spec_step E a (Create t cfg d) S = S\<lparr>topics := (topics S)(t \<mapsto> ([], topic_data_size cfg))\<rparr>"
| "spec_step E a (Account n f) S = S\<lparr>accounts := (accounts S)(n \<mapsto> a)\<rparr>"
| "spec_step E a (Subscribe t n cfg) S =
     (case topics S t of None \<Rightarrow> S | Some (ss, z) \<Rightarrow> S\<lparr>topics := (topics S)(t \<mapsto> (ss @ [new_sub (accounts S n) cfg], z))\<rparr>)"
| "spec_step E a (Publish t msg) S =
     (case topics S t of None \<Rightarrow> S
      | Some (ss, z) \<Rightarrow> S\<lparr>topics := (topics S)(t \<mapsto> (map counted ss, z)), outside := foldl (receive E msg z) (outside S) ss\<rparr>)"

text \<open>What the client has to take care of: names that are strings, new ones to create, known ones to use.\<close>

fun enabled :: "'w bus_spec \<Rightarrow> 'd bus_op \<Rightarrow> bool" where
  "enabled S (Create t cfg d) \<longleftrightarrow> is_cstr t \<and> topics S t = None"
| "enabled S (Account n f) \<longleftrightarrow> is_cstr n \<and> accounts S n = None"
| "enabled S (Subscribe t n cfg) \<longleftrightarrow> is_cstr t \<and> is_cstr n \<and> topics S t \<noteq> None \<and> accounts S n \<noteq> None"
| "enabled S (Publish t msg) \<longleftrightarrow> is_cstr t \<and> topics S t \<noteq> None"

text \<open>The operations of the code; the flag says that the call succeeded.\<close>

fun bus_step :: "('v, 'd, 'w) bus_env \<Rightarrow> ('v, 'w) bus \<Rightarrow> 'd bus_op \<Rightarrow> (bool \<times> ('v, 'w) bus) cres" where
  "bus_step E b (Create t cfg d) = cbind (abus_topic_create E b t cfg d) (\<lambda>(p, b). Inr (p \<noteq> None, b))"
| "bus_step E b (Account n f) = cbind (abus_accounter_create b (Some n) f) (\<lambda>(p, b). Inr (p \<noteq> None, b))"
| "bus_step E b (Subscribe t n cfg) = cbind (abus_subcribe E b (Some t) (Some n) cfg) (\<lambda>(r, b). Inr (r = 0, b))"
| "bus_step E b (Publish t msg) = cbind (abus_publish E b (Some t) msg) (\<lambda>(r, b). Inr (r = 0, b))"

section \<open>A bus in order\<close>

definition look :: "hashTable option \<Rightarrow> cstr \<Rightarrow> nat option" where
  "look T key = (case T of None \<Rightarrow> None | Some H \<Rightarrow> if is_cstr key then search_chain (bucket H key) key else None)"

definition table_ok :: "hashTable option \<Rightarrow> bool" where
  "table_ok T \<longleftrightarrow> (\<forall>H. T = Some H \<longrightarrow> wf_table H \<and> (\<forall>k \<in> keys H. is_cstr k \<longrightarrow> look T k \<noteq> None))"

definition sub_ok :: "('v, 'w) bus \<Rightarrow> abus_subcriber \<Rightarrow> bool" where
  "sub_ok b s \<longleftrightarrow> sem s = None \<and> (\<exists>a c. acc s = Some a \<and> acc_mem b a = Some c \<and> is_cstr (acc_name c))"

definition topic_ok :: "('v \<Rightarrow> abus_subcriber list) \<Rightarrow> ('v, 'w) bus \<Rightarrow> 'v abus_topic \<Rightarrow> bool" where
  "topic_ok items b t \<longleftrightarrow> (\<exists>v. subcribers t = Some v \<and> (\<forall>s \<in> set (items v). sub_ok b s)) \<and> table_ok (sub_hash_table t)"

definition bus_ok :: "('v \<Rightarrow> abus_subcriber list) \<Rightarrow> ('v, 'w) bus \<Rightarrow> bool" where
  "bus_ok items b \<longleftrightarrow>
     table_ok (topics_Table b) \<and> table_ok (accounters_Table b) \<and>
     (topics_is_init b \<longleftrightarrow> topics_Table b \<noteq> None) \<and> (acc_is_init b \<longleftrightarrow> accounters_Table b \<noteq> None) \<and>
     serves b = (\<lambda>_. True) \<and>
     (\<forall>k a. look (topics_Table b) k = Some a \<longrightarrow> (\<exists>t. topic_mem b a = Some t \<and> top_name t = k \<and> topic_ok items b t)) \<and>
     (\<forall>k a. look (accounters_Table b) k = Some a \<longrightarrow> (\<exists>c. acc_mem b a = Some c \<and> acc_name c = k)) \<and>
     (\<forall>a. lim b \<le> a \<longrightarrow> topic_mem b a = None \<and> acc_mem b a = None)"

definition abs_topic :: "('v \<Rightarrow> abus_subcriber list) \<Rightarrow> 'v abus_topic \<Rightarrow> abus_subcriber list \<times> u16" where
  "abs_topic items t = (case subcribers t of None \<Rightarrow> [] | Some v \<Rightarrow> items v, topic_data_size (top_cfg t))"

definition abs_bus :: "('v \<Rightarrow> abus_subcriber list) \<Rightarrow> ('v, 'w) bus \<Rightarrow> 'w bus_spec" where
  "abs_bus items b =
     \<lparr>topics = (\<lambda>k. case look (topics_Table b) k of None \<Rightarrow> None | Some a \<Rightarrow> map_option (abs_topic items) (topic_mem b a)),
      accounts = look (accounters_Table b), outside = world b\<rparr>"

lemma look_None [simp]: "look None = (\<lambda>_. None)"
  by (simp add: look_def fun_eq_iff)

lemma table_ok_None [simp]: "table_ok None"
  by (simp add: table_ok_def)

lemma look_search [simp]: "table_ok (Some H) \<Longrightarrow> is_cstr k \<Longrightarrow> HashTableSearch H k = Inr (look (Some H) k)"
  by (simp add: table_ok_def look_def)

lemma new_table_ok:
  assumes "serves b = (\<lambda>_. True)" "n < 65536"
  obtains H where "new_table n b = Inr (H, b\<lparr>lim := lim b + 2\<rparr>)" "table_ok (Some H)" "look (Some H) = (\<lambda>_. None)"
proof -
  have "\<not> 2 ^ 32 \<le> 12 * max (int MaxSize) n" using assms(2) by (simp add: MaxSize_def max_def)
  then obtain H where H: "HashTableInit n True True = Inr H" by (simp add: HashTableInit_def)
  have "wf_table H" "keys H = {}" using init_table [OF H] by auto
  then have "table_ok (Some H)" "look (Some H) = (\<lambda>_. None)"
    using search_absent [of H] by (auto simp: table_ok_def look_def fun_eq_iff)
  moreover have "new_table n b = Inr (H, b\<lparr>lim := lim b + 2\<rparr>)" using assms H by (simp add: new_table_def ABUS_MALLOC_def)
  ultimately show ?thesis using that by blast
qed

lemma insert_new_ok:
  assumes "serves b = (\<lambda>_. True)" "table_ok (Some H)" "is_cstr k"
  obtains H' where "insert_new H k (Some d) b = Inr (H', b\<lparr>lim := lim b + 1\<rparr>)" "table_ok (Some H')"
    "\<And>k'. k' \<noteq> k \<Longrightarrow> look (Some H') k' = look (Some H) k'" "look (Some H) k = None \<Longrightarrow> look (Some H') k = Some d"
    "look (Some H') k \<noteq> None"
proof -
  have wf: "wf_table H" and all: "\<forall>k \<in> keys H. is_cstr k \<longrightarrow> look (Some H) k \<noteq> None" using assms(2) by (auto simp: table_ok_def)
  obtain H' where H': "HashTableInsert H k (Some d) True = Inr H'" "wf_table H'" "keys H' = insert k (keys H)"
    "\<And>key'. is_cstr key' \<Longrightarrow> search_chain (bucket H' key') key' =
      (if key' = k \<and> nm (hd (bucket H k)) \<noteq> Some k then Some d else search_chain (bucket H key') key')"
    by (rule insert_search [OF wf assms(3), where d = "Some d"]) blast
  have look': "look (Some H') key' = (if key' = k \<and> nm (hd (bucket H k)) \<noteq> Some k then Some d else look (Some H) key')" for key'
    using H'(4) [of key'] assms(3) by (auto simp: look_def)
  have hd: "look (Some H) k \<noteq> None" if "nm (hd (bucket H k)) = Some k"
  proof -
    have "k \<in> names (bucket H k)" using that wf_bucket [OF wf, of k] by (elim wf_row_cases) auto
    then show ?thesis using names_bucket [OF wf, of k] all assms(3) by auto
  qed
  have "table_ok (Some H')" using H'(2,3) all hd look' by (auto simp: table_ok_def)
  moreover have "insert_new H k (Some d) b = Inr (H', b\<lparr>lim := lim b + 1\<rparr>)"
    using assms(1) H'(1) by (simp add: insert_new_def ABUS_MALLOC_def)
  moreover have "look (Some H') k \<noteq> None" using look' hd by (auto simp: look' [of k])
  moreover have "look (Some H) k = None \<Longrightarrow> look (Some H') k = Some d" using look' hd by auto
  ultimately show ?thesis using that look' by (metis (no_types))
qed

lemma bus_okD:
  assumes "bus_ok items b"
  shows "table_ok (topics_Table b)" "table_ok (accounters_Table b)" "topics_is_init b \<longleftrightarrow> topics_Table b \<noteq> None"
    "acc_is_init b \<longleftrightarrow> accounters_Table b \<noteq> None" "serves b = (\<lambda>_. True)"
    "look (topics_Table b) k = Some a \<Longrightarrow> \<exists>t. topic_mem b a = Some t \<and> top_name t = k \<and> topic_ok items b t"
    "look (accounters_Table b) k = Some a \<Longrightarrow> \<exists>c. acc_mem b a = Some c \<and> acc_name c = k"
    "lim b \<le> a \<Longrightarrow> topic_mem b a = None" "lim b \<le> a \<Longrightarrow> acc_mem b a = None"
  using assms unfolding bus_ok_def by blast+

lemma bus_okI:
  assumes "table_ok (topics_Table b)" "table_ok (accounters_Table b)" "topics_is_init b \<longleftrightarrow> topics_Table b \<noteq> None"
    "acc_is_init b \<longleftrightarrow> accounters_Table b \<noteq> None" "serves b = (\<lambda>_. True)"
    "\<And>k a. look (topics_Table b) k = Some a \<Longrightarrow> \<exists>t. topic_mem b a = Some t \<and> top_name t = k \<and> topic_ok items b t"
    "\<And>k a. look (accounters_Table b) k = Some a \<Longrightarrow> \<exists>c. acc_mem b a = Some c \<and> acc_name c = k"
    "\<And>a. lim b \<le> a \<Longrightarrow> topic_mem b a = None \<and> acc_mem b a = None"
  shows "bus_ok items b"
  unfolding bus_ok_def using assms by blast

section \<open>The operations\<close>

lemma find_topic: "bus_ok items b \<Longrightarrow> is_cstr k \<Longrightarrow> topics_Table b \<noteq> None \<Longrightarrow>
    abus_topic_find_by_name b (Some k) = Inr (look (topics_Table b) k)"
  using bus_okD(1) [of items b] by (auto simp: abus_topic_find_by_name_def)

lemma find_acc: "bus_ok items b \<Longrightarrow> is_cstr k \<Longrightarrow> accounters_Table b \<noteq> None \<Longrightarrow>
    abus_accounter_find_by_name b (Some k) = Inr (look (accounters_Table b) k)"
  using bus_okD(2) [of items b] by (auto simp: abus_accounter_find_by_name_def)

lemma topic_found:
  assumes "bus_ok items b" "is_cstr k" "topics (abs_bus items b) k = Some (ss, z)"
  obtains a t v where "abus_topic_find_by_name b (Some k) = Inr (Some a)" "look (topics_Table b) k = Some a" "topic_mem b a = Some t"
    "get_topic b (Some a) = Inr t" "top_name t = k" "topic_ok items b t" "subcribers t = Some v" "items v = ss" "topic_data_size (top_cfg t) = z"
proof -
  obtain a where a: "look (topics_Table b) k = Some a" using assms(3) by (auto simp: abs_bus_def split: option.splits)
  then obtain t where t: "topic_mem b a = Some t" "top_name t = k" "topic_ok items b t" using bus_okD(6) [OF assms(1)] by blast
  then obtain v where v: "subcribers t = Some v" by (auto simp: topic_ok_def)
  have "topics_Table b \<noteq> None" using a by (cases "topics_Table b") simp_all
  then have "abus_topic_find_by_name b (Some k) = Inr (Some a)" using find_topic [OF assms(1,2)] a by simp
  moreover have "items v = ss" "topic_data_size (top_cfg t) = z" using assms(3) a t(1) v by (auto simp: abs_bus_def abs_topic_def)
  ultimately show ?thesis using that a t v by (simp add: get_topic_def)
qed

text \<open>A table made when it is needed changes nothing a client can see.\<close>

lemma topic_init_ok:
  assumes "bus_ok items b"
  obtains b' H where "abus_topic_init b = Inr b'" "bus_ok items b'" "topics_Table b' = Some H" "abs_bus items b' = abs_bus items b"
    "sems b' = sems b" "look (topics_Table b') = look (topics_Table b)"
proof (cases "topics_Table b")
  case None
  then have i: "\<not> topics_is_init b" using bus_okD(3) [OF assms] by simp
  let ?b = "b\<lparr>topics_is_init := True\<rparr>"
  obtain H where H: "new_table 16 ?b = Inr (H, ?b\<lparr>lim := lim ?b + 2\<rparr>)" "table_ok (Some H)" "look (Some H) = (\<lambda>_. None)"
    by (rule new_table_ok [of ?b 16]) (use bus_okD(5) [OF assms] in \<open>simp, simp, blast\<close>)
  let ?b' = "b\<lparr>topics_is_init := True, lim := lim b + 2, topics_Table := Some H\<rparr>"
  have "abus_topic_init b = Inr ?b'" using H(1) i by (simp add: abus_topic_init_def)
  moreover have "bus_ok items ?b'"
    using assms H(2,3) None unfolding bus_ok_def by (simp add: topic_ok_def sub_ok_def)
  moreover have "abs_bus items ?b' = abs_bus items b" using None H(3) by (simp add: abs_bus_def cong: option.case_cong)
  ultimately show ?thesis using that [of ?b' H] None H(3) by auto
next
  case (Some H)
  then have "abus_topic_init b = Inr b" using bus_okD(3) [OF assms] by (simp add: abus_topic_init_def)
  then show ?thesis using that [of b H] assms Some by simp
qed

lemma acc_init_ok:
  assumes "bus_ok items b"
  obtains b' H where "abus_acc_init b = Inr b'" "bus_ok items b'" "accounters_Table b' = Some H" "abs_bus items b' = abs_bus items b"
    "sems b' = sems b" "look (accounters_Table b') = look (accounters_Table b)"
proof (cases "accounters_Table b")
  case None
  then have i: "\<not> acc_is_init b" using bus_okD(4) [OF assms] by simp
  let ?b = "b\<lparr>acc_is_init := True\<rparr>"
  obtain H where H: "new_table 32 ?b = Inr (H, ?b\<lparr>lim := lim ?b + 2\<rparr>)" "table_ok (Some H)" "look (Some H) = (\<lambda>_. None)"
    by (rule new_table_ok [of ?b 32]) (use bus_okD(5) [OF assms] in \<open>simp, simp, blast\<close>)
  let ?b' = "b\<lparr>acc_is_init := True, lim := lim b + 2, accounters_Table := Some H\<rparr>"
  have "abus_acc_init b = Inr ?b'" using H(1) i by (simp add: abus_acc_init_def)
  moreover have "bus_ok items ?b'"
    using assms H(2,3) None unfolding bus_ok_def by (simp add: topic_ok_def sub_ok_def)
  moreover have "abs_bus items ?b' = abs_bus items b" using None H(3) by (simp add: abs_bus_def cong: option.case_cong)
  ultimately show ?thesis using that [of ?b' H] None H(3) by auto
next
  case (Some H)
  then have "abus_acc_init b = Inr b" using bus_okD(4) [OF assms] by (simp add: abus_acc_init_def)
  then show ?thesis using that [of b H] assms Some by simp
qed

text \<open>A topic in order stays so when the bus keeps the accounts it has.\<close>

lemma topic_ok_mono: "topic_ok items b t \<Longrightarrow> (\<And>a c. acc_mem b a = Some c \<Longrightarrow> acc_mem b' a = Some c) \<Longrightarrow> topic_ok items b' t"
  unfolding topic_ok_def sub_ok_def by blast

text \<open>Replacing the topic with a name by one with the same name.\<close>

lemma put_topic_ok:
  assumes "bus_ok items b" "look (topics_Table b) (top_name t) = Some a" "topic_ok items b t"
  shows "bus_ok items (put_topic a t b)"
    "abs_bus items (put_topic a t b) = (abs_bus items b)\<lparr>topics := (topics (abs_bus items b))(top_name t \<mapsto> abs_topic items t)\<rparr>"
proof -
  have other: "k = top_name t" if "look (topics_Table b) k = Some a" for k
    using bus_okD(6) [OF assms(1) that] bus_okD(6) [OF assms(1,2)] by auto
  have a: "a < lim b" using bus_okD(6) [OF assms(1,2)] bus_okD(8) [OF assms(1), of a] by fastforce
  have ok: "topic_ok items (put_topic a t b) t' = topic_ok items b t'" for t'
    by (simp add: topic_ok_def sub_ok_def put_topic_def)
  have mem: "topic_mem (put_topic a t b) c = (if c = a then Some t else topic_mem b c)" for c by (simp add: put_topic_def)
  have same: "topics_Table (put_topic a t b) = topics_Table b" "accounters_Table (put_topic a t b) = accounters_Table b" "serves (put_topic a t b) = serves b"
    "topics_is_init (put_topic a t b) = topics_is_init b" "acc_is_init (put_topic a t b) = acc_is_init b" "acc_mem (put_topic a t b) = acc_mem b"
    "lim (put_topic a t b) = lim b" "world (put_topic a t b) = world b" by (simp_all add: put_topic_def)
  show "bus_ok items (put_topic a t b)"
  proof (rule bus_okI, unfold same mem ok)
    fix k c assume c: "look (topics_Table b) k = Some c"
    show "\<exists>t'. (if c = a then Some t else topic_mem b c) = Some t' \<and> top_name t' = k \<and> topic_ok items b t'"
      using bus_okD(6) [OF assms(1) c] c other [of k] assms(3) by (cases "c = a") simp_all
  next
    show "lim b \<le> c \<Longrightarrow> (if c = a then Some t else topic_mem b c) = None \<and> acc_mem b c = None" for c
      using a bus_okD(8,9) [OF assms(1), of c] by simp
  qed (rule bus_okD(1-5) [OF assms(1)] | erule bus_okD(7) [OF assms(1)])+
  show "abs_bus items (put_topic a t b) = (abs_bus items b)\<lparr>topics := (topics (abs_bus items b))(top_name t \<mapsto> abs_topic items t)\<rparr>"
  proof -
    have "(case look (topics_Table b) k of None \<Rightarrow> None | Some c \<Rightarrow> map_option (abs_topic items) (if c = a then Some t else topic_mem b c)) =
      ((\<lambda>k. case look (topics_Table b) k of None \<Rightarrow> None | Some c \<Rightarrow> map_option (abs_topic items) (topic_mem b c))(top_name t \<mapsto> abs_topic items t)) k" for k
    proof (cases "k = top_name t")
      case False
      then have "look (topics_Table b) k \<noteq> Some a" using other by blast
      then show ?thesis using False by (auto split: option.splits)
    qed (simp add: assms(2))
    then show ?thesis unfolding abs_bus_def same mem by (simp add: fun_eq_iff)
  qed
qed

lemma add_topic:
  assumes "bus_ok items b" "topics_Table b \<noteq> None" "table_ok (Some H)" "look (Some H) = (look (topics_Table b))(top_name t \<mapsto> a)"
    "lim b \<le> a" "a < l" "topic_ok items b t"
    and b': "b' = b\<lparr>lim := l, topic_mem := (topic_mem b)(a \<mapsto> t), topics_Table := Some H\<rparr>"
  shows "bus_ok items b'"
    "abs_bus items b' = (abs_bus items b)\<lparr>topics := (topics (abs_bus items b))(top_name t \<mapsto> abs_topic items t)\<rparr>"
proof -
  have ok: "topic_ok items b' t' = topic_ok items b t'" for t'
    by (simp add: topic_ok_def sub_ok_def b')
  have fresh: "c \<noteq> a" if "look (topics_Table b) k = Some c" for k c
    using bus_okD(6) [OF assms(1) that] bus_okD(8) [OF assms(1,5)] by auto
  have same: "topics_Table b' = Some H" "accounters_Table b' = accounters_Table b" "serves b' = serves b"
    "topics_is_init b' = topics_is_init b" "acc_is_init b' = acc_is_init b" "acc_mem b' = acc_mem b"
    "lim b' = l" "world b' = world b" "topic_mem b' = (topic_mem b)(a \<mapsto> t)" by (simp_all add: b')
  show "bus_ok items b'"
  proof (rule bus_okI, unfold same ok assms(4))
    fix k c assume c: "((look (topics_Table b))(top_name t \<mapsto> a)) k = Some c"
    show "\<exists>t'. ((topic_mem b)(a \<mapsto> t)) c = Some t' \<and> top_name t' = k \<and> topic_ok items b t'"
    proof (cases "k = top_name t")
      case False
      then have "look (topics_Table b) k = Some c" using c by simp
      then show ?thesis using bus_okD(6) [OF assms(1)] fresh by fastforce
    qed (use c assms(7) in simp)
  next
    show "l \<le> c \<Longrightarrow> ((topic_mem b)(a \<mapsto> t)) c = None \<and> acc_mem b c = None" for c
      using assms(5,6) bus_okD(8,9) [OF assms(1), of c] by simp
    show "topics_is_init b = (Some H \<noteq> None)" using bus_okD(3) [OF assms(1)] assms(2) by simp
  qed (rule assms(3) bus_okD(2,4,5) [OF assms(1)] | erule bus_okD(7) [OF assms(1)])+
  have "(case look (topics_Table b) k of None \<Rightarrow> None | Some c \<Rightarrow> map_option (abs_topic items) (((topic_mem b)(a \<mapsto> t)) c)) =
      (case look (topics_Table b) k of None \<Rightarrow> None | Some c \<Rightarrow> map_option (abs_topic items) (topic_mem b c))" for k
    using fresh [of k] by (auto split: option.splits)
  then show "abs_bus items b' = (abs_bus items b)\<lparr>topics := (topics (abs_bus items b))(top_name t \<mapsto> abs_topic items t)\<rparr>"
    unfolding abs_bus_def same assms(4) by (simp add: fun_eq_iff)
qed

lemma abs_None: "bus_ok items b \<Longrightarrow> topics (abs_bus items b) k = None \<longleftrightarrow> look (topics_Table b) k = None"
  using bus_okD(6) [of items b k] by (auto simp: abs_bus_def split: option.splits)

context sub_vector
begin

lemma create_ok:
  assumes "bus_ok items b" "enabled (abs_bus items b) (Create t cfg d)"
  obtains a b' where "abus_topic_create E b t cfg d = Inr (Some a, b')" "bus_ok items b'" "sems b' = sems b"
    "abs_bus items b' = spec_step E x (Create t cfg d) (abs_bus items b)"
proof -
  have t: "is_cstr t" "look (topics_Table b) t = None" using assms(2) abs_None [OF assms(1)] by simp_all
  obtain b1 H where b1: "abus_topic_init b = Inr b1" "bus_ok items b1" "topics_Table b1 = Some H" "abs_bus items b1 = abs_bus items b"
    "sems b1 = sems b" "look (topics_Table b1) = look (topics_Table b)" by (rule topic_init_ok [OF assms(1)])
  let ?a = "lim b1" and ?b2 = "b1\<lparr>lim := lim b1 + 1\<rparr>"
  have m: "ABUS_MALLOC b1 = (Some ?a, ?b2)" using bus_okD(5) [OF b1(2)] by (simp add: ABUS_MALLOC_def)
  obtain K l where K: "(if hash_table_size cfg \<noteq> 0
     then cbind (new_table (uint (hash_table_size cfg)) ?b2) (\<lambda>(K, b). Inr (Some K, b)) else Inr (None, ?b2)) = Inr (K, b1\<lparr>lim := l\<rparr>)"
    "table_ok K" "?a < l"
  proof (cases "hash_table_size cfg = 0")
    case False
    obtain T where T: "new_table (uint (hash_table_size cfg)) ?b2 = Inr (T, ?b2\<lparr>lim := lim ?b2 + 2\<rparr>)" "table_ok (Some T)"
      by (rule new_table_ok [of ?b2 "uint (hash_table_size cfg)"])
        (use bus_okD(5) [OF b1(2)] uint_bounded [of "hash_table_size cfg"] in \<open>simp, simp, blast\<close>)
    then show ?thesis using False that [of "Some T" "lim b1 + 3"] by simp
  qed (use that [of None "lim b1 + 1"] in simp)
  obtain v where v: "sub_create E = Some v" "items v = []" by (rule create)
  define T where "T = \<lparr>top_name = t, subcribers = Some v, sub_hash_table = K, top_cfg = cfg, desc = d, show_fun = None\<rparr>"
  have sv: "serves (put_topic ?a T (b1\<lparr>lim := l\<rparr>)) = (\<lambda>_. True)" using bus_okD(5) [OF b1(2)] by (simp add: put_topic_def)
  obtain H' where H': "insert_new H t (Some ?a) (put_topic ?a T (b1\<lparr>lim := l\<rparr>)) =
      Inr (H', (put_topic ?a T (b1\<lparr>lim := l\<rparr>))\<lparr>lim := lim (put_topic ?a T (b1\<lparr>lim := l\<rparr>)) + 1\<rparr>)" "table_ok (Some H')"
    "\<And>k'. k' \<noteq> t \<Longrightarrow> look (Some H') k' = look (Some H) k'" "look (Some H) t = None \<Longrightarrow> look (Some H') t = Some ?a"
    by (rule insert_new_ok [OF sv _ t(1), where d = ?a and H = H]) (use bus_okD(1) [OF b1(2)] b1(3) in auto)
  let ?b' = "b1\<lparr>lim := l + 1, topic_mem := (topic_mem b1)(?a \<mapsto> T), topics_Table := Some H'\<rparr>"
  have "look (Some H) = look (topics_Table b)" using b1(3,6) by simp
  then have L: "look (Some H') = (look (topics_Table b1))(top_name T \<mapsto> ?a)"
    using H'(3,4) t(2) b1(6) by (auto simp: fun_eq_iff T_def)
  have T: "topic_ok items b1 T" using K(2) v(2) by (simp add: topic_ok_def T_def)
  have tn: "topics_Table b1 \<noteq> None" using b1(3) by simp
  have l: "?a < l + 1" using K(3) by simp
  have c: "abus_topic_create E b t cfg d = Inr (Some ?a, ?b')"
    unfolding abus_topic_create_def b1(1) cbind.simps m prod.case option.case K(1) v(1)
    using H'(1) b1(3) by (simp add: T_def [symmetric], simp add: put_topic_def)
  show ?thesis
    by (rule that [OF c add_topic(1) [OF b1(2) tn H'(2) L order_refl l T refl]])
      (use add_topic(2) [OF b1(2) tn H'(2) L order_refl l T refl] b1(4,5) v(2) in \<open>simp_all add: T_def abs_topic_def\<close>)
qed

end

lemma bus_ok_simps [simp]:
  "bus_ok items (b\<lparr>world := w\<rparr>) = bus_ok items b" "bus_ok items (b\<lparr>sems := q\<rparr>) = bus_ok items b"
  "abs_bus items (b\<lparr>world := w\<rparr>) = (abs_bus items b)\<lparr>outside := w\<rparr>" "abs_bus items (b\<lparr>sems := q\<rparr>) = abs_bus items b"
  by (simp_all add: bus_ok_def abs_bus_def topic_ok_def sub_ok_def cong: option.case_cong)

lemma bus_ok_lim: "bus_ok items b \<Longrightarrow> lim b \<le> l \<Longrightarrow> bus_ok items (b\<lparr>lim := l\<rparr>)"
  by (auto simp: bus_ok_def topic_ok_def sub_ok_def)

lemma abs_bus_lim [simp]: "abs_bus items (b\<lparr>lim := l\<rparr>) = abs_bus items b"
  by (simp add: abs_bus_def cong: option.case_cong)

lemma outside_abs [simp]: "outside (abs_bus items b) = world b"
  by (simp add: abs_bus_def)

lemma put_topic_simps [simp]: "sems (put_topic a t b) = sems b" "topics_Table (put_topic a t b) = topics_Table b" "world (put_topic a t b) = world b"
  by (simp_all add: put_topic_def)

lemma add_acc:
  assumes "bus_ok items b" "accounters_Table b \<noteq> None" "table_ok (Some H)" "look (Some H) = (look (accounters_Table b))(acc_name c \<mapsto> a)"
    "lim b \<le> a" "a < l" and b': "b' = b\<lparr>lim := l, acc_mem := (acc_mem b)(a \<mapsto> c), accounters_Table := Some H\<rparr>"
  shows "bus_ok items b'" "abs_bus items b' = (abs_bus items b)\<lparr>accounts := (accounts (abs_bus items b))(acc_name c \<mapsto> a)\<rparr>"
proof -
  have ok: "topic_ok items b t \<Longrightarrow> topic_ok items b' t" for t
    by (erule topic_ok_mono) (use bus_okD(9) [OF assms(1,5)] in \<open>auto simp: b'\<close>)
  have fresh: "k' \<noteq> a" if "look (accounters_Table b) k = Some k'" for k k'
    using bus_okD(7) [OF assms(1) that] bus_okD(9) [OF assms(1,5)] by auto
  have same: "topics_Table b' = topics_Table b" "accounters_Table b' = Some H" "serves b' = serves b"
    "topics_is_init b' = topics_is_init b" "acc_is_init b' = acc_is_init b" "acc_mem b' = (acc_mem b)(a \<mapsto> c)"
    "lim b' = l" "world b' = world b" "topic_mem b' = topic_mem b" by (simp_all add: b')
  show "bus_ok items b'"
  proof (rule bus_okI, unfold same assms(4))
    fix k t assume "look (topics_Table b) k = Some t"
    from bus_okD(6) [OF assms(1) this] ok show "\<exists>u. topic_mem b t = Some u \<and> top_name u = k \<and> topic_ok items b' u" by blast
  next
    fix k x assume x: "((look (accounters_Table b))(acc_name c \<mapsto> a)) k = Some x"
    show "\<exists>y. ((acc_mem b)(a \<mapsto> c)) x = Some y \<and> acc_name y = k"
    proof (cases "k = acc_name c")
      case False
      then have "look (accounters_Table b) k = Some x" using x by simp
      then show ?thesis using bus_okD(7) [OF assms(1)] fresh by fastforce
    qed (use x in simp)
  next
    show "l \<le> x \<Longrightarrow> topic_mem b x = None \<and> ((acc_mem b)(a \<mapsto> c)) x = None" for x
      using assms(5,6) bus_okD(8,9) [OF assms(1), of x] by simp
    show "acc_is_init b = (Some H \<noteq> None)" using bus_okD(4) [OF assms(1)] assms(2) by simp
  qed (rule assms(3) bus_okD(1,3,5) [OF assms(1)])+
  show "abs_bus items b' = (abs_bus items b)\<lparr>accounts := (accounts (abs_bus items b))(acc_name c \<mapsto> a)\<rparr>"
    unfolding abs_bus_def same assms(4) by simp
qed

lemma account_ok:
  assumes "bus_ok items b" "enabled (abs_bus items b) (Account n f)"
  obtains a b' where "abus_accounter_create b (Some n) f = Inr (Some a, b')" "bus_ok items b'" "sems b' = sems b"
    "abs_bus items b' = spec_step E a (Account n f) (abs_bus items b)"
proof -
  have n: "is_cstr n" "look (accounters_Table b) n = None" using assms(2) by (simp_all add: abs_bus_def)
  obtain b1 H where b1: "abus_acc_init b = Inr b1" "bus_ok items b1" "accounters_Table b1 = Some H" "abs_bus items b1 = abs_bus items b"
    "sems b1 = sems b" "look (accounters_Table b1) = look (accounters_Table b)" by (rule acc_init_ok [OF assms(1)])
  let ?a = "lim b1"
  define c where "c = \<lparr>acc_name = n, acc_filter = f\<rparr>"
  let ?b2 = "b1\<lparr>lim := lim b1 + 1, acc_mem := (acc_mem b1)(?a \<mapsto> c)\<rparr>"
  have sv: "serves ?b2 = (\<lambda>_. True)" using bus_okD(5) [OF b1(2)] by simp
  obtain H' where H': "insert_new H n (Some ?a) ?b2 = Inr (H', ?b2\<lparr>lim := lim ?b2 + 1\<rparr>)" "table_ok (Some H')"
    "\<And>k'. k' \<noteq> n \<Longrightarrow> look (Some H') k' = look (Some H) k'" "look (Some H) n = None \<Longrightarrow> look (Some H') n = Some ?a"
    by (rule insert_new_ok [OF sv _ n(1), where d = ?a and H = H]) (use bus_okD(2) [OF b1(2)] b1(3) in auto)
  have "look (Some H) = look (accounters_Table b)" using b1(3,6) by simp
  then have L: "look (Some H') = (look (accounters_Table b1))(acc_name c \<mapsto> ?a)"
    using H'(3,4) n(2) b1(6) by (auto simp: fun_eq_iff c_def)
  have tn: "accounters_Table b1 \<noteq> None" using b1(3) by simp
  let ?b' = "b1\<lparr>lim := lim b1 + 2, acc_mem := (acc_mem b1)(?a \<mapsto> c), accounters_Table := Some H'\<rparr>"
  have "abus_accounter_create b (Some n) f = Inr (Some ?a, ?b')"
    using b1(1,3) H'(1) bus_okD(5) [OF b1(2)] by (simp add: abus_accounter_create_def ABUS_MALLOC_def Let_def c_def)
  then show ?thesis
    by (rule that [OF _ add_acc(1) [OF b1(2) tn H'(2) L order_refl _ refl]])
      (use add_acc(2) [OF b1(2) tn H'(2) L order_refl _ refl, of "lim b1 + 2"] b1(4,5) in \<open>simp_all add: c_def\<close>)
qed

context sub_vector
begin

lemma subscribe_ok:
  assumes "bus_ok items b" "enabled (abs_bus items b) (Subscribe t n cfg)"
  obtains b' where "abus_subcribe E b (Some t) (Some n) cfg = Inr (0, b')" "bus_ok items b'"
    "sems b' = sems (if cfg_is_async cfg = 1 then snd (abus_sem_init (cfg_sem cfg) 0 b) else b)"
    "abs_bus items b' = spec_step E x (Subscribe t n cfg) (abs_bus items b)" "topics_Table b' = topics_Table b"
    "\<And>a T. look (topics_Table b) t = Some a \<Longrightarrow> topic_mem b a = Some T \<Longrightarrow>
       \<exists>T'. topic_mem b' a = Some T' \<and> (if sub_hash_table T = None then sub_hash_table T' = None else look (sub_hash_table T') n \<noteq> None)"
proof -
  obtain ss z ac where e: "is_cstr t" "is_cstr n" "topics (abs_bus items b) t = Some (ss, z)" "look (accounters_Table b) n = Some ac"
    using assms(2) by (auto simp: abs_bus_def split: option.splits)
  obtain a T v where T: "abus_topic_find_by_name b (Some t) = Inr (Some a)" "look (topics_Table b) t = Some a" "topic_mem b a = Some T"
    "get_topic b (Some a) = Inr T" "top_name T = t" "topic_ok items b T" "subcribers T = Some v" "items v = ss" "topic_data_size (top_cfg T) = z"
    by (rule topic_found [OF assms(1) e(1,3)])
  obtain c where c: "acc_mem b ac = Some c" "acc_name c = n" using bus_okD(7) [OF assms(1) e(4)] by blast
  have "accounters_Table b \<noteq> None" using e(4) by (cases "accounters_Table b") simp_all
  then have fa: "abus_accounter_find_by_name b (Some n) = Inr (Some ac)" using find_acc [OF assms(1) e(2)] e(4) by simp
  define b1 where "b1 = (if cfg_is_async cfg = 1 then snd (abus_sem_init (cfg_sem cfg) 0 b) else b)"
  have b1': "\<exists>q. b1 = b\<lparr>sems := q\<rparr>" by (auto simp: b1_def abus_sem_init_def split: option.splits intro: exI [of _ "sems b"])
  have sb: "sems b1 = sems (if cfg_is_async cfg = 1 then snd (abus_sem_init (cfg_sem cfg) 0 b) else b)" by (simp add: b1_def)
  from b1' have b1: "bus_ok items b1" "abs_bus items b1 = abs_bus items b" "get_topic b1 (Some a) = Inr T" "topics_Table b1 = topics_Table b"
    "acc_mem b1 = acc_mem b" using assms(1) T(3) by (auto simp: get_topic_def)
  let ?s = "new_sub (Some ac) cfg"
  let ?v = "sub_pushback E v ?s"
  let ?T = "T\<lparr>subcribers := Some ?v\<rparr>"
  have s: "(if cfg_is_async cfg = 1 then cbind (get_acc b (Some ac)) (\<lambda>_. Inr (s\<lparr>cb := Some abus_cb_async_notify\<rparr>, snd (abus_sem_init (cfg_sem cfg) 0 b)))
      else Inr (s, b)) = Inr (if cfg_is_async cfg = 1 then s\<lparr>cb := Some abus_cb_async_notify\<rparr> else s, b1)" for s
    using c by (simp add: get_acc_def b1_def)
  have ok: "topic_ok items b1 (?T\<lparr>sub_hash_table := K\<rparr>)" if "table_ok K" for K
    using T(6,7) that c e(2) b1(5) by (auto simp: topic_ok_def sub_ok_def new_sub_def)
  have look: "look (topics_Table b1) (top_name ?T) = Some a" using T(2,5) b1(4) by simp
  let ?A = "spec_step E x (Subscribe t n cfg) (abs_bus items b)"
  have acc: "accounts (abs_bus items b) n = Some ac" using e(4) by (simp add: abs_bus_def)
  have abs: "(abs_bus items b)\<lparr>topics := (topics (abs_bus items b))(top_name ?T \<mapsto> abs_topic items (?T\<lparr>sub_hash_table := K\<rparr>))\<rparr> = ?A" for K
    using e(3) T(5,8,9) acc by (simp add: abs_topic_def)
  have T1: "bus_ok items (put_topic a ?T b1)" "abs_bus items (put_topic a ?T b1) = ?A"
    using put_topic_ok [OF b1(1) look] ok [of "sub_hash_table T"] abs [of "sub_hash_table T"] b1(2) T(6) by (auto simp: topic_ok_def)
  have pick: "(if cfg_filter cfg \<noteq> None then (if cfg_is_async cfg = 1 then s\<lparr>cb := Some abus_cb_async_notify\<rparr> else s)\<lparr>sub_filter := cfg_filter cfg\<rparr>
      else (if cfg_is_async cfg = 1 then s\<lparr>cb := Some abus_cb_async_notify\<rparr> else s)) = ?s"
    if "s = \<lparr>acc = Some ac, fifo = cfg_fifo cfg, sub_filter = None, cb = cfg_cb cfg, sem = None, rx_cnt = 0\<rparr>" for s
    using that by (auto simp: new_sub_def)
  have run: "abus_subcribe E b (Some t) (Some n) cfg =
      (case sub_hash_table T of None \<Rightarrow> Inr (0, put_topic a ?T b1)
       | Some K \<Rightarrow> cbind (insert_new K n (Some (sub_end E ?v)) (put_topic a ?T b1)) (\<lambda>(K, b). Inr (0, put_topic a (?T\<lparr>sub_hash_table := Some K\<rparr>) b)))"
    unfolding abus_subcribe_def T(1) fa cbind.simps s Let_def prod.case pick [OF refl] b1(3) using T(7)
    by (cases "sub_hash_table T") simp_all
  show ?thesis
  proof (cases "sub_hash_table T")
    case None
    have "abus_subcribe E b (Some t) (Some n) cfg = Inr (0, put_topic a ?T b1)" using run None by simp
    then show ?thesis
      by (rule that [OF _ T1(1) _ T1(2)]) (use T(2,3) None b1(4) sb in \<open>auto simp: put_topic_def\<close>)
  next
    case (Some K)
    have sv: "serves (put_topic a ?T b1) = (\<lambda>_. True)" using bus_okD(5) [OF T1(1)] .
    obtain K' where K': "insert_new K n (Some (sub_end E ?v)) (put_topic a ?T b1) = Inr (K', (put_topic a ?T b1)\<lparr>lim := lim (put_topic a ?T b1) + 1\<rparr>)"
      "table_ok (Some K')" "look (Some K') n \<noteq> None"
      by (rule insert_new_ok [OF sv _ e(2), where H = K and d = "sub_end E ?v"]) (use T(6) Some in \<open>auto simp: topic_ok_def\<close>)
    let ?b2 = "(put_topic a ?T b1)\<lparr>lim := lim (put_topic a ?T b1) + 1\<rparr>"
    have b2: "bus_ok items ?b2" by (rule bus_ok_lim [OF T1(1)]) simp
    have k2: "topic_ok items ?b2 (?T\<lparr>sub_hash_table := Some K'\<rparr>)" using ok [OF K'(2)] by (simp add: topic_ok_def sub_ok_def put_topic_def)
    have l2: "look (topics_Table ?b2) (top_name (?T\<lparr>sub_hash_table := Some K'\<rparr>)) = Some a" using look by (simp add: put_topic_def)
    have "abs_bus items (put_topic a (?T\<lparr>sub_hash_table := Some K'\<rparr>) ?b2) = ?A"
      using put_topic_ok(2) [OF b2 l2 k2] T1(2) abs [of "Some K'"] acc e(3) T(5,8,9) by (simp add: abs_topic_def)
    moreover have "abus_subcribe E b (Some t) (Some n) cfg = Inr (0, put_topic a (?T\<lparr>sub_hash_table := Some K'\<rparr>) ?b2)"
      using run Some K'(1) by simp
    ultimately show ?thesis
      by (intro that [OF _ put_topic_ok(1) [OF b2 l2 k2]])
        (use T(2,3) Some b1(4) sb K'(3) in \<open>auto simp: put_topic_def\<close>)
  qed
qed

end

context sub_vector
begin

text \<open>One round of the loop: the subscriber gets the data and is counted, the others are untouched.\<close>

lemma deliver_ok:
  assumes "bus_ok items b" "look (topics_Table b) k = Some a" "topics (abs_bus items b) k = Some (ss, z)" "i < length ss"
  obtains b' where "deliver E a msg i b = Inr b'" "bus_ok items b'" "sems b' = sems b" "topics_Table b' = topics_Table b"
    "abs_bus items b' = (abs_bus items b)\<lparr>topics := (topics (abs_bus items b))(k \<mapsto> (ss[i := counted (ss ! i)], z)),
       outside := receive E msg z (outside (abs_bus items b)) (ss ! i)\<rparr>"
proof -
  obtain t where t: "topic_mem b a = Some t" "top_name t = k" "topic_ok items b t" using bus_okD(6) [OF assms(1,2)] by blast
  then obtain v where v: "subcribers t = Some v" "\<forall>s \<in> set (items v). sub_ok b s" by (auto simp: topic_ok_def)
  have ss: "items v = ss" "topic_data_size (top_cfg t) = z" using assms(2,3) t(1) v(1) by (auto simp: abs_bus_def abs_topic_def)
  let ?s = "ss ! i" and ?w = "receive E msg z (world b) (ss ! i)"
  have s: "sub_at E v i = ?s" using assms(4) ss(1) by simp
  have "sub_ok b ?s" using v(2) ss(1) assms(4) by simp
  then have sok: "sem ?s = None" "sub_ok b (counted ?s)" by (simp_all add: sub_ok_def counted_def)
  obtain c where c: "get_acc b (acc ?s) = Inr c" using \<open>sub_ok b ?s\<close> by (auto simp: sub_ok_def get_acc_def)
  let ?b = "b\<lparr>world := ?w\<rparr>" and ?t = "t\<lparr>subcribers := Some (sub_put E v i (counted ?s))\<rparr>"
  have b1: "(case fifo ?s of None \<Rightarrow> b | Some f \<Rightarrow> b\<lparr>world := afifo_in E f msg z (world b)\<rparr>) =
      b\<lparr>world := (case fifo ?s of None \<Rightarrow> world b | Some f \<Rightarrow> afifo_in E f msg z (world b))\<rparr>"
    by (simp split: option.splits)
  have "deliver E a msg i b = Inr (put_topic a ?t ?b)"
    unfolding deliver_def get_topic_def option.case t(1) cbind.simps v(1) s Let_def ss(2) b1
    using sok(1) c by (auto simp: receive_def async_notify_def counted_def get_acc_def split: option.splits subcribe_cb.splits)
  moreover have "\<forall>q \<in> set (ss[i := counted ?s]). sub_ok b q"
    using v(2) ss(1) sok(2) by (auto dest!: in_set_update)
  then have "topic_ok items ?b ?t" using t(3) ss(1) assms(4) by (simp add: topic_ok_def sub_ok_def)
  then have "bus_ok items (put_topic a ?t ?b)" "abs_bus items (put_topic a ?t ?b) =
      (abs_bus items ?b)\<lparr>topics := (topics (abs_bus items ?b))(top_name ?t \<mapsto> abs_topic items ?t)\<rparr>"
    using put_topic_ok [of items ?b ?t a] assms(1,2) t(2) by simp_all
  ultimately show ?thesis
    using that [of "put_topic a ?t ?b"] t(2) ss assms(4) by (simp add: abs_topic_def)
qed

lemma deliver_all:
  assumes "bus_ok items b" "look (topics_Table b) k = Some a" "topics (abs_bus items b) k = Some (ss, z)" "i \<le> length ss"
  shows "\<exists>b'. deliver_each E a msg [i..<length ss] b = Inr b' \<and> bus_ok items b' \<and> sems b' = sems b \<and>
    abs_bus items b' = (abs_bus items b)\<lparr>topics := (topics (abs_bus items b))(k \<mapsto> (take i ss @ map counted (drop i ss), z)),
       outside := foldl (receive E msg z) (outside (abs_bus items b)) (drop i ss)\<rparr>"
  using assms
proof (induction "length ss - i" arbitrary: b i ss)
  case 0
  then show ?case by (intro exI [of _ b]) (simp add: fun_upd_idem)
next
  case (Suc n)
  then have i: "i < length ss" by simp
  obtain b1 where b1: "deliver E a msg i b = Inr b1" "bus_ok items b1" "sems b1 = sems b" "topics_Table b1 = topics_Table b"
    "abs_bus items b1 = (abs_bus items b)\<lparr>topics := (topics (abs_bus items b))(k \<mapsto> (ss[i := counted (ss ! i)], z)),
       outside := receive E msg z (outside (abs_bus items b)) (ss ! i)\<rparr>"
    by (rule deliver_ok [OF Suc.prems(1-3) i, where msg = msg])
  let ?ss = "ss[i := counted (ss ! i)]"
  have n: "n = length ?ss - Suc i" "Suc i \<le> length ?ss" using Suc.hyps(2) i by simp_all
  have "look (topics_Table b1) k = Some a" "topics (abs_bus items b1) k = Some (?ss, z)" using Suc.prems(2) b1(4,5) by simp_all
  from Suc.hyps(1) [OF n(1) b1(2) this n(2)] obtain b' where b': "deliver_each E a msg [Suc i..<length ss] b1 = Inr b'" "bus_ok items b'" "sems b' = sems b1"
    "abs_bus items b' = (abs_bus items b1)\<lparr>topics := (topics (abs_bus items b1))(k \<mapsto> (take (Suc i) ?ss @ map counted (drop (Suc i) ?ss), z)),
       outside := foldl (receive E msg z) (outside (abs_bus items b1)) (drop (Suc i) ?ss)\<rparr>" by auto
  have "[i..<length ss] = i # [Suc i..<length ss]" using i by (rule upt_conv_Cons)
  moreover have "drop i ss = ss ! i # drop (Suc i) ss" using i by (rule Cons_nth_drop_Suc [symmetric])
  moreover have "take (Suc i) ?ss = take i ss @ [counted (ss ! i)]" using i by (simp add: take_Suc_conv_app_nth)
  ultimately show ?case using b1 b' by (intro exI [of _ b']) simp
qed

lemma publish_ok:
  assumes "bus_ok items b" "enabled (abs_bus items b) (Publish t msg)"
  obtains b' where "abus_publish E b (Some t) msg = Inr (0, b')" "bus_ok items b'" "sems b' = sems b"
    "abs_bus items b' = spec_step E x (Publish t msg) (abs_bus items b)"
proof -
  obtain ss z where e: "is_cstr t" "topics (abs_bus items b) t = Some (ss, z)" using assms(2) by auto
  obtain a T v where T: "abus_topic_find_by_name b (Some t) = Inr (Some a)" "look (topics_Table b) t = Some a"
    "get_topic b (Some a) = Inr T" "subcribers T = Some v" "items v = ss" by (rule topic_found [OF assms(1) e])
  from deliver_all [OF assms(1) T(2) e(2), of 0 msg] obtain b' where b': "deliver_each E a msg [0..<length ss] b = Inr b'" "bus_ok items b'"
    "sems b' = sems b" "abs_bus items b' = (abs_bus items b)\<lparr>topics := (topics (abs_bus items b))(t \<mapsto> (map counted ss, z)),
       outside := foldl (receive E msg z) (outside (abs_bus items b)) ss\<rparr>" by auto
  show ?thesis by (rule that [of b']) (use T b' e in \<open>simp_all add: abus_publish_def\<close>)
qed

end

section \<open>Properties\<close>

text \<open>
  C11: the bus implements its abstract specification. On a bus in order with memory left, whatever the vector library
  that obeys its laws, each of the four operations succeeds when the client keeps to the rules, leaves the bus in order, and
  changes topics, accounts and the world of the application exactly as specified: creating adds an empty topic, subscribing
  appends to one topic, and publishing gives the data to every subscriber of the topic, once and in the order of
  their subscriptions.
\<close>
theorem bus_refines:
  assumes "sub_laws E items" "bus_ok items b" "enabled (abs_bus items b) op"
  shows "\<exists>a b'. bus_step E b op = Inr (True, b') \<and> bus_ok items b' \<and> abs_bus items b' = spec_step E a op (abs_bus items b)"
proof -
  note v = sub_vector.intro [OF assms(1)]
  show ?thesis
  proof (cases op)
    case (Create t cfg d)
    show ?thesis
      by (rule sub_vector.create_ok [OF v assms(2), of t cfg d 0]) (use assms(3) Create in auto)
  next
    case (Account n f)
    show ?thesis
      by (rule account_ok [OF assms(2), of n f E]) (use assms(3) Account in auto)
  next
    case (Subscribe t n cfg)
    show ?thesis
      by (rule sub_vector.subscribe_ok [OF v assms(2), of t n cfg 0]) (use assms(3) Subscribe in auto)
  next
    case (Publish t msg)
    show ?thesis
      by (rule sub_vector.publish_ok [OF v assms(2), of t msg 0]) (use assms(3) Publish in auto)
  qed
qed
section \<open>Sequences of operations\<close>

fun bus_steps :: "('v, 'd, 'w) bus_env \<Rightarrow> ('v, 'w) bus \<Rightarrow> 'd bus_op list \<Rightarrow> (bool \<times> ('v, 'w) bus) cres" where
  "bus_steps E b [] = Inr (True, b)"
| "bus_steps E b (op # ops) = cbind (bus_step E b op) (\<lambda>(r, b). if r then bus_steps E b ops else Inr (False, b))"

definition subscriptions :: "cstr \<Rightarrow> (cstr \<times> abus_subcribe_cfg) list \<Rightarrow> 'd bus_op list" where
  "subscriptions t subs = map (\<lambda>(n, cfg). Subscribe t n cfg) subs"

definition subs_of :: "'w bus_spec \<Rightarrow> (cstr \<times> abus_subcribe_cfg) list \<Rightarrow> abus_subcriber list" where
  "subs_of S subs = map (\<lambda>(n, cfg). new_sub (accounts S n) cfg) subs"

context sub_vector
begin

lemma step_ok:
  assumes "bus_ok items b" "enabled (abs_bus items b) op"
  obtains a b' where "bus_step E b op = Inr (True, b')" "bus_ok items b'" "abs_bus items b' = spec_step E a op (abs_bus items b)"
proof (cases op)
  case (Create t cfg d)
  show thesis by (rule create_ok [OF assms(1), of t cfg d 0]) (use assms(2) Create that in auto)
next
  case (Account n f)
  show thesis by (rule account_ok [OF assms(1), of n f E]) (use assms(2) Account that in auto)
next
  case (Subscribe t n cfg)
  show thesis by (rule subscribe_ok [OF assms(1), of t n cfg 0]) (use assms(2) Subscribe that in auto)
next
  case (Publish t msg)
  show thesis by (rule publish_ok [OF assms(1), of t msg 0]) (use assms(2) Publish that in auto)
qed

lemma subscriptions_publish:
  assumes "bus_ok items b" "is_cstr t" "topics (abs_bus items b) t = Some (ss, z)"
    "\<forall>(n, cfg) \<in> set subs. is_cstr n \<and> accounts (abs_bus items b) n \<noteq> None"
  shows "\<exists>b'. bus_steps E b (subscriptions t subs @ [Publish t msg]) = Inr (True, b') \<and> bus_ok items b' \<and>
    abs_bus items b' = (abs_bus items b)\<lparr>topics := (topics (abs_bus items b))(t \<mapsto> (map counted (ss @ subs_of (abs_bus items b) subs), z)),
      outside := foldl (receive E msg z) (world b) (ss @ subs_of (abs_bus items b) subs)\<rparr>"
  using assms
proof (induction subs arbitrary: b ss)
  case Nil
  obtain a b' where "bus_step E b (Publish t msg) = Inr (True, b')" "bus_ok items b'"
    "abs_bus items b' = spec_step E a (Publish t msg) (abs_bus items b)"
    by (rule step_ok [OF Nil.prems(1), where op = "Publish t msg"]) (use Nil.prems(2,3) in \<open>simp, blast\<close>)
  then show ?case using Nil.prems(3) by (intro exI [of _ b']) (simp add: subscriptions_def subs_of_def fun_upd_def del: bus_step.simps)
next
  case (Cons sub subs)
  obtain n cfg where sub: "sub = (n, cfg)" by (cases sub)
  obtain a b1 where b1: "bus_step E b (Subscribe t n cfg) = Inr (True, b1)" "bus_ok items b1"
    "abs_bus items b1 = spec_step E a (Subscribe t n cfg) (abs_bus items b)"
    by (rule step_ok [OF Cons.prems(1), where op = "Subscribe t n cfg"]) (use Cons.prems(2-4) sub in \<open>simp, blast\<close>)
  have A: "abs_bus items b1 = (abs_bus items b)\<lparr>topics := (topics (abs_bus items b))(t \<mapsto> (ss @ [new_sub (accounts (abs_bus items b) n) cfg], z))\<rparr>"
    using b1(3) Cons.prems(3) by simp
  then have "topics (abs_bus items b1) t = Some (ss @ [new_sub (accounts (abs_bus items b) n) cfg], z)"
    "\<forall>(n, cfg) \<in> set subs. is_cstr n \<and> accounts (abs_bus items b1) n \<noteq> None" using Cons.prems(4) by auto
  from Cons.IH [OF b1(2) Cons.prems(2) this] obtain b' where b': "bus_steps E b1 (subscriptions t subs @ [Publish t msg]) = Inr (True, b')" "bus_ok items b'"
    "abs_bus items b' = (abs_bus items b1)\<lparr>topics := (topics (abs_bus items b1))(t \<mapsto>
        (map counted ((ss @ [new_sub (accounts (abs_bus items b) n) cfg]) @ subs_of (abs_bus items b1) subs), z)),
      outside := foldl (receive E msg z) (world b1) ((ss @ [new_sub (accounts (abs_bus items b) n) cfg]) @ subs_of (abs_bus items b1) subs)\<rparr>" by blast
  have "world b1 = world b" using outside_abs [of items b1] unfolding A by simp
  moreover have "subs_of (abs_bus items b1) subs = subs_of (abs_bus items b) subs" unfolding A by (simp add: subs_of_def)
  moreover have "subs_of (abs_bus items b) (sub # subs) = new_sub (accounts (abs_bus items b) n) cfg # subs_of (abs_bus items b) subs"
    by (simp add: subs_of_def sub)
  moreover have "(S\<lparr>topics := f\<rparr>)\<lparr>topics := g, outside := w\<rparr> = S\<lparr>topics := g, outside := w\<rparr>" for S :: "'c bus_spec" and f g w by simp
  ultimately have "abs_bus items b' = (abs_bus items b)\<lparr>topics := (topics (abs_bus items b))(t \<mapsto> (map counted (ss @ subs_of (abs_bus items b) (sub # subs)), z)),
      outside := foldl (receive E msg z) (world b) (ss @ subs_of (abs_bus items b) (sub # subs))\<rparr>"
    unfolding b'(3) A by simp
  moreover have "bus_steps E b (subscriptions t (sub # subs) @ [Publish t msg]) = Inr (True, b')"
    using b1(1) b'(1) by (simp add: sub subscriptions_def del: bus_step.simps)
  ultimately show ?case using b'(2) by blast
qed

end

text \<open>
  C14: on a bus in order, creating a topic with a new name, subscribing any sequence of known accounts to it and publishing
  once gives the data to exactly these subscribers, in the order in which they subscribed, each through its ring
  buffer and its callback, and to nobody else.
\<close>
theorem bus_delivers:
  assumes "sub_laws E items" "bus_ok items b" "is_cstr t" "topics (abs_bus items b) t = None"
    "\<forall>(n, cfg) \<in> set subs. is_cstr n \<and> accounts (abs_bus items b) n \<noteq> None"
  shows "\<exists>b'. bus_steps E b (Create t cfg d # subscriptions t subs @ [Publish t msg]) = Inr (True, b') \<and>
    world b' = foldl (receive E msg (topic_data_size cfg)) (world b) (subs_of (abs_bus items b) subs)"
proof -
  note v = sub_vector.intro [OF assms(1)]
  obtain a b1 where b1: "bus_step E b (Create t cfg d) = Inr (True, b1)" "bus_ok items b1"
    "abs_bus items b1 = spec_step E a (Create t cfg d) (abs_bus items b)"
    by (rule sub_vector.step_ok [OF v assms(2), of "Create t cfg d"]) (use assms(3,4) in \<open>simp, blast\<close>)
  have w: "world b1 = world b" "subs_of (abs_bus items b1) subs = subs_of (abs_bus items b) subs"
    using outside_abs [of items b1] unfolding b1(3) by (simp_all add: subs_of_def)
  have "topics (abs_bus items b1) t = Some ([], topic_data_size cfg)"
    "\<forall>(n, cfg) \<in> set subs. is_cstr n \<and> accounts (abs_bus items b1) n \<noteq> None" using b1(3) assms(5) by simp_all
  from sub_vector.subscriptions_publish [OF v b1(2) assms(3) this, of msg]
  obtain b' where b': "bus_steps E b1 (subscriptions t subs @ [Publish t msg]) = Inr (True, b')"
    "abs_bus items b' = (abs_bus items b1)\<lparr>topics := (topics (abs_bus items b1))(t \<mapsto> (map counted (subs_of (abs_bus items b1) subs), topic_data_size cfg)),
      outside := foldl (receive E msg (topic_data_size cfg)) (world b1) (subs_of (abs_bus items b1) subs)\<rparr>" by auto
  show ?thesis using b1(1) b'(1) outside_abs [of items b', unfolded b'(2)] w by (intro exI [of _ b']) (simp del: bus_step.simps)
qed

section \<open>Lookups and waits\<close>

lemma find_sub_found:
  assumes "\<forall>s \<in> set ss. sub_ok b s" "is_cstr n" "s \<in> set ss" "acc s = Some a" "acc_mem b a = Some c" "acc_name c = n"
  shows "\<exists>s' c'. find_sub b n ss = Inr (Some s') \<and> get_acc b (acc s') = Inr c' \<and> acc_name c' = n"
  using assms(1,3)
proof (induction ss)
  case (Cons x xs)
  obtain a' c' where x: "acc x = Some a'" "acc_mem b a' = Some c'" "is_cstr (acc_name c')" using Cons.prems(1) by (auto simp: sub_ok_def)
  show ?case
  proof (cases "acc_name c' = n")
    case True
    then show ?thesis using x assms(2) by (auto simp: get_acc_def)
  next
    case False
    then have "s \<in> set xs" using Cons.prems(2) x assms(4-6) by auto
    then show ?thesis using Cons.IH Cons.prems(1) x False assms(2) by (auto simp: get_acc_def)
  qed
qed simp

text \<open>
  A subscriber can be found by its name only in a topic without a table of its own. After a successful subscription
  to a topic with a table the table has the name, so the lookup returns NULL, reading by name returns 0 and waiting by name
  returns -2; without a table the lookup returns a subscriber with the name.
\<close>
theorem lookup_by_name:
  assumes "sub_laws E items" "bus_ok items b" "enabled (abs_bus items b) (Subscribe t n cfg)"
    "look (topics_Table b) t = Some a" "topic_mem b a = Some T"
  shows "\<exists>b'. abus_subcribe E b (Some t) (Some n) cfg = Inr (0, b') \<and>
    (if sub_hash_table T = None
     then \<exists>s c. abus_subcribe_find_by_name E b' (Some a) n = Inr (Some s) \<and> get_acc b' (acc s) = Inr c \<and> acc_name c = n
     else abus_subcribe_find_by_name E b' (Some a) n = Inr None \<and> abus_get_data_by_name E b' (Some t) n = Inr 0 \<and>
       abus_get_received_by_name E b' (Some t) n = Inr 0 \<and> abus_subcriber_wait_by_name E b' (Some t) n m = Inr (Some (- 2, b')))"
proof -
  note v = sub_vector.intro [OF assms(1)]
  have n: "is_cstr n" "is_cstr t" using assms(3) by simp_all
  obtain b' where b': "abus_subcribe E b (Some t) (Some n) cfg = Inr (0, b')" "bus_ok items b'"
    "abs_bus items b' = spec_step E 0 (Subscribe t n cfg) (abs_bus items b)" "topics_Table b' = topics_Table b"
    "\<exists>T'. topic_mem b' a = Some T' \<and> (if sub_hash_table T = None then sub_hash_table T' = None else look (sub_hash_table T') n \<noteq> None)"
    by (rule sub_vector.subscribe_ok [OF v assms(2,3), of 0]) (use assms(4,5) in blast)
  then obtain T' where T': "topic_mem b' a = Some T'" "if sub_hash_table T = None then sub_hash_table T' = None else look (sub_hash_table T') n \<noteq> None"
    by blast
  have la: "look (topics_Table b') t = Some a" using b'(4) assms(4) by simp
  have ok: "topic_ok items b' T'" using bus_okD(6) [OF b'(2) la] T'(1) by auto
  obtain ac where ac: "look (accounters_Table b) n = Some ac" using assms(3) by (auto simp: abs_bus_def)
  show ?thesis
  proof (cases "sub_hash_table T = None")
    case True
    obtain w where w: "subcribers T' = Some w" "\<forall>s \<in> set (items w). sub_ok b' s" using ok by (auto simp: topic_ok_def)
    obtain ss z where sz: "topics (abs_bus items b) t = Some (ss, z)" using assms(3) by auto
    then have "topics (abs_bus items b') t = Some (ss @ [new_sub (Some ac) cfg], z)" using b'(3) ac by (simp add: abs_bus_def)
    then have "items w = ss @ [new_sub (Some ac) cfg]" using la T'(1) w(1) by (simp add: abs_bus_def abs_topic_def)
    then have s: "new_sub (Some ac) cfg \<in> set (items w)" by simp
    have "accounts (abs_bus items b') n = Some ac" using b'(3) sz ac by (simp add: abs_bus_def)
    then obtain c where c: "acc_mem b' ac = Some c" "acc_name c = n" using bus_okD(7) [OF b'(2), of n ac] by (auto simp: abs_bus_def)
    from find_sub_found [OF w(2) n(1) s _ c] show ?thesis
      using b'(1) True T' w(1) sub_vector.ops(1) [OF v] sub_vector.elements [OF v, of w]
      by (auto simp: abus_subcribe_find_by_name_def get_topic_def new_sub_def)
  next
    case False
    then obtain K where K: "sub_hash_table T' = Some K" "look (Some K) n \<noteq> None" using T'(2) by (cases "sub_hash_table T'") auto
    have "HashTableSearch K n = Inr (look (Some K) n)" using ok K(1) n(1) by (simp add: topic_ok_def)
    then have f: "abus_subcribe_find_by_name E b' (Some a) n = Inr None"
      using K T'(1) by (auto simp: abus_subcribe_find_by_name_def get_topic_def)
    have "topics_Table b' \<noteq> None" using la by (cases "topics_Table b'") simp_all
    then have "abus_topic_find_by_name b' (Some t) = Inr (Some a)" using find_topic [OF b'(2) n(2)] la by simp
    then show ?thesis using b'(1) False f
      by (simp add: abus_get_data_by_name_def abus_get_received_by_name_def abus_subcriber_wait_by_name_def)
  qed
qed

text \<open>
  Asynchronous subscribers are never notified. A publication posts no semaphore, and a wait of any subscriber of any
  topic returns -1 at once, before and after it.
\<close>
theorem async_never_notified:
  assumes "sub_laws E items" "bus_ok items b" "enabled (abs_bus items b) (Publish t msg)"
  shows "\<exists>b'. abus_publish E b (Some t) msg = Inr (0, b') \<and> sems b' = sems b \<and>
    (\<forall>u ss z. \<forall>s \<in> set ss. topics (abs_bus items b') u = Some (ss, z) \<longrightarrow> abus_subcriber_wait b' s m = Inr (Some (- 1, b')))"
proof -
  obtain b' where b': "abus_publish E b (Some t) msg = Inr (0, b')" "bus_ok items b'" "sems b' = sems b"
    by (rule sub_vector.publish_ok [OF sub_vector.intro [OF assms(1)] assms(2,3)]) blast
  have "sem s = None" if h: "topics (abs_bus items b') u = Some (ss, z)" "s \<in> set ss" for u ss z s
  proof -
    obtain a where a: "look (topics_Table b') u = Some a" using h(1) by (cases "look (topics_Table b') u") (simp_all add: abs_bus_def)
    then obtain T where "topic_mem b' a = Some T" "topic_ok items b' T" using bus_okD(6) [OF b'(2)] by blast
    then show ?thesis using h a by (auto simp: abs_bus_def abs_topic_def topic_ok_def sub_ok_def)
  qed
  then show ?thesis using b' by (auto simp: abus_subcriber_wait_def)
qed

text \<open>
  What goes wrong. A missing name stops the caller in an assertion before the checks that would return a code;
  publishing to a topic that does not exist follows a null pointer, and so does unsubscribing from it, while subscribing to
  it returns -3 and changes nothing; destroying an account, or a topic without a table of its own, always faults.
\<close>
theorem bus_errors:
  assumes "bus_ok items b" "topics_Table b \<noteq> None" "accounters_Table b \<noteq> None" "is_cstr t" "is_cstr n" "topics (abs_bus items b) t = None"
  shows "abus_publish E b None msg = Inl Stuck \<and> abus_subcribe E b None (Some n) cfg = Inl Stuck \<and> abus_unsubcribe b None n = Inl Stuck \<and>
    abus_publish E b (Some t) msg = Inl NullDeref \<and> abus_unsubcribe b (Some t) n = Inl NullDeref \<and>
    abus_subcribe E b (Some t) (Some n) cfg = Inr (- 3, b) \<and>
    \<not> no_fault (abus_accounter_destroy b p) \<and>
    (\<forall>a T. topic_mem b a = Some T \<and> sub_hash_table T = None \<longrightarrow> \<not> no_fault (abus_topic_destroy b (Some a)))"
proof -
  have f: "abus_topic_find_by_name b (Some t) = Inr None" using find_topic [OF assms(1,4,2)] assms(6) abs_None [OF assms(1)] by simp
  have s: "abus_topic_find_by_name b None = Inl Stuck" by (simp add: abus_topic_find_by_name_def)
  have d: "\<not> no_fault (abus_accounter_destroy b p)"
    by (auto simp: abus_accounter_destroy_def no_fault_iff get_acc_def split: option.splits)
  have e: "\<not> no_fault (abus_topic_destroy b (Some a))" if "topic_mem b a = Some T" "sub_hash_table T = None" for a T
    using that by (auto simp: abus_topic_destroy_def no_fault_iff get_topic_def split: option.splits)
  have fa: "\<exists>r. abus_accounter_find_by_name b (Some n) = Inr r" using find_acc [OF assms(1,5,3)] by blast
  show ?thesis
    using f s d e fa by (auto simp: abus_publish_def abus_subcribe_def abus_unsubcribe_def abus_find_subcriber_def get_topic_def)
qed

section \<open>Instances\<close>

text \<open>Vectors as lists; the world records who was called with what.\<close>

definition list_env :: "(abus_subcriber list, 'd, (nat \<times> 'd) list) bus_env" where
  "list_env = \<lparr>sub_create = Some [], sub_length = length, sub_at = (!), sub_put = (\<lambda>v i s. v[i := s]), sub_pushback = (\<lambda>v s. v @ [s]),
     sub_end = (\<lambda>v. length v), afifo_in = (\<lambda>f m z w. w @ [(f, m)]), afifo_out = (\<lambda>f n w. (0, w)), afifo_get_used = (\<lambda>f w. 0),
     user_cb = (\<lambda>k s m w. w @ [(k, m)])\<rparr>"

lemma list_env_laws: "sub_laws list_env (\<lambda>v. v)"
  by (simp add: sub_laws_def list_env_def)

interpretation list_env: sub_vector list_env "\<lambda>v. v"
  by unfold_locales (rule list_env_laws)

text \<open>The bus before the first call; the address 0 is not given away.\<close>

definition bus_boot :: "'w \<Rightarrow> ('v, 'w) bus" where
  "bus_boot w = \<lparr>topics_Table = None, topics_is_init = False, accounters_Table = None, acc_is_init = False, topic_mem = (\<lambda>_. None),
     acc_mem = (\<lambda>_. None), sems = (\<lambda>_. None), world = w, serves = (\<lambda>_. True), lim = 1\<rparr>"

lemma boot_ok [simp]: "bus_ok items (bus_boot w)"
  by (simp add: bus_ok_def bus_boot_def)

lemma abs_boot [simp]: "abs_bus items (bus_boot w) = \<lparr>topics = (\<lambda>_. None), accounts = (\<lambda>_. None), outside = w\<rparr>"
  by (simp add: abs_bus_def bus_boot_def)

text \<open>A bus with one account and, where it is wanted, one topic.\<close>

lemma account_bus: obtains b :: "(abus_subcriber list, (nat \<times> nat) list) bus" and a where "bus_ok (\<lambda>v. v) b" "accounters_Table b \<noteq> None"
    "abs_bus (\<lambda>v. v) b = \<lparr>topics = (\<lambda>_. None), accounts = [[1] \<mapsto> a], outside = []\<rparr>"
proof (rule account_ok [of "\<lambda>v. v" "bus_boot [] :: (abus_subcriber list, (nat \<times> nat) list) bus" "[1]" None "list_env :: (abus_subcriber list, nat, (nat \<times> nat) list) bus_env"])
  fix a and b' :: "(abus_subcriber list, (nat \<times> nat) list) bus"
  assume b': "bus_ok (\<lambda>v. v) b'" "abs_bus (\<lambda>v. v) b' = spec_step (list_env :: (abus_subcriber list, nat, (nat \<times> nat) list) bus_env) a (Account [1] None) (abs_bus (\<lambda>v. v) (bus_boot []))"
  have "accounts (abs_bus (\<lambda>v. v) b') [1] = Some a" using b'(2) by simp
  then have "look (accounters_Table b') [1] = Some a" by (simp add: abs_bus_def)
  then have "accounters_Table b' \<noteq> None" by (cases "accounters_Table b'") auto
  then show thesis using that [OF b'(1)] b'(2) by simp
qed simp_all

definition demo_cfg :: abus_subcribe_cfg where
  "demo_cfg = \<lparr>cfg_fifo = None, cfg_filter = None, cfg_cb = Some (user_callback 7), cfg_is_async = 0, cfg_sem = None\<rparr>"

lemma topic_bus: obtains b :: "(abus_subcriber list, (nat \<times> nat) list) bus" and a where "bus_ok (\<lambda>v. v) b" "accounters_Table b \<noteq> None" "topics_Table b \<noteq> None"
    "abs_bus (\<lambda>v. v) b = \<lparr>topics = [[2] \<mapsto> ([], 8)], accounts = [[1] \<mapsto> a], outside = []\<rparr>"
proof -
  obtain b0 :: "(abus_subcriber list, (nat \<times> nat) list) bus" and a where b0: "bus_ok (\<lambda>v. v) b0" "accounters_Table b0 \<noteq> None"
    "abs_bus (\<lambda>v. v) b0 = \<lparr>topics = (\<lambda>_. None), accounts = [[1] \<mapsto> a], outside = []\<rparr>" by (rule account_bus)
  let ?op = "Create [2] \<lparr>hash_table_size = 4, topic_data_size = 8\<rparr> [] :: nat bus_op"
  obtain x b' where b': "bus_step list_env b0 ?op = Inr (True, b')" "bus_ok (\<lambda>v. v) b'" "abs_bus (\<lambda>v. v) b' = spec_step list_env x ?op (abs_bus (\<lambda>v. v) b0)"
    by (rule list_env.step_ok [OF b0(1), where op = ?op]) (use b0(3) in \<open>simp, blast\<close>)
  have A: "abs_bus (\<lambda>v. v) b' = \<lparr>topics = [[2] \<mapsto> ([], 8)], accounts = [[1] \<mapsto> a], outside = []\<rparr>" using b'(3) b0(3) by simp
  have "accounts (abs_bus (\<lambda>v. v) b') [1] = Some a" using A by simp
  then have "look (accounters_Table b') [1] = Some a" by (simp add: abs_bus_def)
  then have "accounters_Table b' \<noteq> None" by (cases "accounters_Table b'") auto
  moreover have "look (topics_Table b') [2] \<noteq> None" using abs_None [OF b'(2), of "[2]"] A by simp
  then have "topics_Table b' \<noteq> None" by (cases "topics_Table b'") auto
  ultimately show ?thesis using that b'(2) A by blast
qed

theorem bus_refines_witness:
  "\<exists>(b :: (abus_subcriber list, (nat \<times> nat) list) bus) a b'. bus_step list_env b (Publish [2] 5) = Inr (True, b') \<and>
     abs_bus (\<lambda>v. v) b' = spec_step list_env a (Publish [2] 5) (abs_bus (\<lambda>v. v) b)"
proof -
  obtain b :: "(abus_subcriber list, (nat \<times> nat) list) bus" and a where b: "bus_ok (\<lambda>v. v) b"
    "abs_bus (\<lambda>v. v) b = \<lparr>topics = [[2] \<mapsto> ([], 8)], accounts = [[1] \<mapsto> a], outside = []\<rparr>" by (rule topic_bus)
  have "enabled (abs_bus (\<lambda>v. v) b) (Publish [2] (5 :: nat))" using b(2) by simp
  from bus_refines [OF list_env_laws b(1) this] show ?thesis by blast
qed

theorem bus_delivers_witness:
  "\<exists>b b'. bus_steps list_env b (Create [2] \<lparr>hash_table_size = 4, topic_data_size = 8\<rparr> [] #
       subscriptions [2] [([1], demo_cfg), ([1], demo_cfg)] @ [Publish [2] (5 :: nat)]) = Inr (True, b') \<and> world b' = [(7, 5), (7, 5)]"
proof -
  obtain b :: "(abus_subcriber list, (nat \<times> nat) list) bus" and a where b: "bus_ok (\<lambda>v. v) b"
    "abs_bus (\<lambda>v. v) b = \<lparr>topics = (\<lambda>_. None), accounts = [[1] \<mapsto> a], outside = []\<rparr>" by (rule account_bus)
  have "world b = []" using outside_abs [of "\<lambda>v. v" b, unfolded b(2)] by simp
  moreover have "foldl (receive list_env 5 8) [] (subs_of (abs_bus (\<lambda>v. v) b) [([1], demo_cfg), ([1], demo_cfg)]) = [(7, 5 :: nat), (7, 5)]"
    by (simp add: subs_of_def receive_def new_sub_def demo_cfg_def list_env_def)
  moreover have k: "\<forall>(n, cfg) \<in> set [([1], demo_cfg), ([1], demo_cfg)]. is_cstr n \<and> accounts (abs_bus (\<lambda>v. v) b) n \<noteq> None" using b(2) by simp
  moreover have t: "is_cstr [2]" "topics (abs_bus (\<lambda>v. v) b) [2] = None" using b(2) by simp_all
  obtain b' where "bus_steps list_env b (Create [2] \<lparr>hash_table_size = 4, topic_data_size = 8\<rparr> [] #
       subscriptions [2] [([1], demo_cfg), ([1], demo_cfg)] @ [Publish [2] (5 :: nat)]) = Inr (True, b')"
    "world b' = foldl (receive list_env 5 (topic_data_size \<lparr>hash_table_size = 4, topic_data_size = 8\<rparr>)) (world b) (subs_of (abs_bus (\<lambda>v. v) b) [([1], demo_cfg), ([1], demo_cfg)])"
    using bus_delivers [OF list_env_laws b(1) t k, of "\<lparr>hash_table_size = 4, topic_data_size = 8\<rparr>" "[]" 5] by blast
  ultimately show ?thesis by (intro exI [of _ b] exI [of _ b']) (simp del: bus_steps.simps)
qed

theorem lookup_by_name_witness:
  "\<exists>(b :: (abus_subcriber list, (nat \<times> nat) list) bus) b'. abus_subcribe (list_env :: (abus_subcriber list, nat, (nat \<times> nat) list) bus_env) b (Some [2]) (Some [1]) demo_cfg = Inr (0, b')"
proof -
  obtain b :: "(abus_subcriber list, (nat \<times> nat) list) bus" and a where b: "bus_ok (\<lambda>v. v) b"
    "abs_bus (\<lambda>v. v) b = \<lparr>topics = [[2] \<mapsto> ([], 8)], accounts = [[1] \<mapsto> a], outside = []\<rparr>" by (rule topic_bus)
  obtain p T where "look (topics_Table b) [2] = Some p" "topic_mem b p = Some T"
    by (rule topic_found [OF b(1), of "[2]" "[]" 8]) (use b(2) in auto)
  moreover have "enabled (abs_bus (\<lambda>v. v) b) (Subscribe [2] [1] demo_cfg)" using b(2) by simp
  ultimately show ?thesis using lookup_by_name [OF list_env_laws b(1), of "[2]" "[1]" demo_cfg p T 0] by blast
qed

theorem async_never_notified_witness:
  "\<exists>(b :: (abus_subcriber list, (nat \<times> nat) list) bus) b'. abus_publish list_env b (Some [2]) 5 = Inr (0, b') \<and> sems b' = sems b"
proof -
  obtain b :: "(abus_subcriber list, (nat \<times> nat) list) bus" and a where b: "bus_ok (\<lambda>v. v) b"
    "abs_bus (\<lambda>v. v) b = \<lparr>topics = [[2] \<mapsto> ([], 8)], accounts = [[1] \<mapsto> a], outside = []\<rparr>" by (rule topic_bus)
  have "enabled (abs_bus (\<lambda>v. v) b) (Publish [2] (5 :: nat))" using b(2) by simp
  from async_never_notified [OF list_env_laws b(1) this, of 0] show ?thesis by blast
qed

theorem bus_errors_witness:
  "\<exists>b :: (abus_subcriber list, (nat \<times> nat) list) bus. abus_publish list_env b (Some [3]) 5 = Inl NullDeref"
proof -
  obtain b :: "(abus_subcriber list, (nat \<times> nat) list) bus" and a where b: "bus_ok (\<lambda>v. v) b" "accounters_Table b \<noteq> None" "topics_Table b \<noteq> None"
    "abs_bus (\<lambda>v. v) b = \<lparr>topics = [[2] \<mapsto> ([], 8)], accounts = [[1] \<mapsto> a], outside = []\<rparr>" by (rule topic_bus)
  show ?thesis using bus_errors [OF b(1,3,2), of "[3]" "[1]" list_env 5 demo_cfg] b(4) by auto
qed

end
