(* ===== verification/ChassisPort.thy ===== *)
theory ChassisPort
  imports TopicBus Chassis
begin

text \<open>
  The chassis on the topic bus, \<^verbatim>\<open>chassis_port.c\<close>: its initialisation creates two topics and subscribes the callback
  \<open>abus_subcribe_cb22\<close> to the commands; its thread commands the pose 0 and then publishes the state of the chassis. The
  world of the bus is the chassis object. Threads run one operation at a time, in any order.
\<close>

section \<open>Data\<close>

datatype chassis_msg = ctrl_msg chassis_ctrl | state_msg chassis_state

text \<open>The texts \<^verbatim>\<open>chassis_ctrl\<close>, \<^verbatim>\<open>chassis_state\<close> and \<^verbatim>\<open>accx\<close>, with the two descriptions of the topics.\<close>

definition ctrl_topic :: cstr where
  "ctrl_topic = [99, 104, 97, 115, 115, 105, 115, 95, 99, 116, 114, 108]"

definition state_topic :: cstr where
  "state_topic = [99, 104, 97, 115, 115, 105, 115, 95, 115, 116, 97, 116, 101]"

definition accx :: cstr where "accx = [97, 99, 99, 120]"

definition ctrl_desc :: cstr where
  "ctrl_desc = [99, 104, 97, 115, 115, 105, 115, 32, 99, 116, 114, 108]"

definition state_desc :: cstr where
  "state_desc = [99, 104, 97, 115, 115, 105, 115, 32, 115, 116, 97, 116, 101]"

text \<open>A command has 16 bytes, and the second topic is created with the configuration of the first.\<close>

definition port_cfg :: abus_topic_cfg where
  "port_cfg = \<lparr>hash_table_size = 4, topic_data_size = 16\<rparr>"

definition cfg_subx :: abus_subcribe_cfg where
  "cfg_subx = \<lparr>cfg_fifo = None, cfg_filter = None, cfg_cb = Some (user_callback 22), cfg_is_async = 0, cfg_sem = None\<rparr>"

text \<open>The application's callback with the number 22 is \<open>abus_subcribe_cb22\<close>.\<close>

definition calls_cb22 :: "('v, chassis_msg, chassis) bus_env \<Rightarrow> bool" where
  "calls_cb22 E \<longleftrightarrow> (\<forall>s m c. user_cb E 22 s (ctrl_msg m) c = snd (abus_subcribe_cb22 m c))"

section \<open>Operations\<close>

text \<open>What the creating functions return is not looked at.\<close>

definition chassis_port_init :: "('v, chassis_msg, chassis) bus_env \<Rightarrow> ('v, chassis) bus \<Rightarrow> (int \<times> ('v, chassis) bus) cres" where
  "chassis_port_init E b =
     (let b = b\<lparr>world := chassis_init (world b) ops_mai\<rparr> in
      cbind (abus_topic_create E b ctrl_topic port_cfg ctrl_desc) (\<lambda>(p, b).
      cbind (abus_topic_create E b state_topic port_cfg state_desc) (\<lambda>(p, b).
      cbind (abus_accounter_create b (Some accx) None) (\<lambda>(p, b).
      cbind (abus_subcribe E b (Some ctrl_topic) (Some accx) cfg_subx) (\<lambda>(r, b).
      Inr (0, b))))))"

datatype port_event = thread_start | command chassis_ctrl | report

definition port_event :: "('v, chassis_msg, chassis) bus_env \<Rightarrow> port_event \<Rightarrow> ('v, chassis) bus \<Rightarrow> ('v, chassis) bus cres" where
  "port_event E ev b =
     (case ev of
        thread_start \<Rightarrow> Inr (b\<lparr>world := port_start (world b)\<rparr>)
      | command m \<Rightarrow> cbind (abus_publish E b (Some ctrl_topic) (ctrl_msg m)) (\<lambda>(r, b). Inr b)
      | report \<Rightarrow> cbind (abus_publish E b (Some state_topic) (state_msg (port_state (world b)))) (\<lambda>(r, b). Inr b))"

fun port_run :: "('v, chassis_msg, chassis) bus_env \<Rightarrow> port_event list \<Rightarrow> ('v, chassis) bus \<Rightarrow> ('v, chassis) bus cres" where
  "port_run E [] b = Inr b"
| "port_run E (ev # evs) b = cbind (port_event E ev b) (port_run E evs)"

section \<open>The way of a command\<close>

text \<open>What an event means for the chassis.\<close>

fun chassis_event :: "chassis \<Rightarrow> port_event \<Rightarrow> chassis" where
  "chassis_event c thread_start = port_start c"
| "chassis_event c (command m) = snd (abus_subcribe_cb22 m c)"
| "chassis_event c report = c"

definition connected :: "('v \<Rightarrow> abus_subcriber list) \<Rightarrow> ('v, chassis) bus \<Rightarrow> bool" where
  "connected items b \<longleftrightarrow> bus_ok items b \<and>
     (\<exists>s z. topics (abs_bus items b) ctrl_topic = Some ([s], z) \<and> fifo s = None \<and> cb s = Some (user_callback 22)) \<and>
     (\<exists>z. topics (abs_bus items b) state_topic = Some ([], z))"

lemma topic_names [simp]: "is_cstr ctrl_topic" "is_cstr state_topic" "is_cstr accx" "ctrl_topic \<noteq> state_topic" "state_topic \<noteq> ctrl_topic"
  by (simp_all add: ctrl_topic_def state_topic_def accx_def)

lemma port_init_ok:
  assumes "sub_laws E items" "bus_ok items b" "topics (abs_bus items b) ctrl_topic = None" "topics (abs_bus items b) state_topic = None"
    "accounts (abs_bus items b) accx = None"
  obtains b' where "chassis_port_init E b = Inr (0, b')" "connected items b'" "world b' = chassis_init (world b) ops_mai"
proof -
  note v = sub_vector.intro [OF assms(1)]
  let ?b = "b\<lparr>world := chassis_init (world b) ops_mai\<rparr>" and ?S = "\<lambda>b. abs_bus items b"
  have b0: "bus_ok items ?b" using assms(2) by simp
  have e0: "enabled (?S ?b) (Create ctrl_topic port_cfg ctrl_desc)" using assms(3) by simp
  obtain p b1 where b1: "abus_topic_create E ?b ctrl_topic port_cfg ctrl_desc = Inr (Some p, b1)" "bus_ok items b1"
    "?S b1 = spec_step E 0 (Create ctrl_topic port_cfg ctrl_desc) (?S ?b)" by (rule sub_vector.create_ok [OF v b0 e0])
  have e1: "enabled (?S b1) (Create state_topic port_cfg state_desc)" using assms(4) b1(3) by simp
  obtain q b2 where b2: "abus_topic_create E b1 state_topic port_cfg state_desc = Inr (Some q, b2)" "bus_ok items b2"
    "?S b2 = spec_step E 0 (Create state_topic port_cfg state_desc) (?S b1)" by (rule sub_vector.create_ok [OF v b1(2) e1])
  have e2: "enabled (?S b2) (Account accx None)" using assms(5) b1(3) b2(3) by simp
  obtain a b3 where b3: "abus_accounter_create b2 (Some accx) None = Inr (Some a, b3)" "bus_ok items b3"
    "?S b3 = spec_step E a (Account accx None) (?S b2)" by (rule account_ok [OF b2(2) e2])
  have e3: "enabled (?S b3) (Subscribe ctrl_topic accx cfg_subx)" using b1(3) b2(3) b3(3) by simp
  obtain b4 where b4: "abus_subcribe E b3 (Some ctrl_topic) (Some accx) cfg_subx = Inr (0, b4)" "bus_ok items b4"
    "?S b4 = spec_step E 0 (Subscribe ctrl_topic accx cfg_subx) (?S b3)" by (rule sub_vector.subscribe_ok [OF v b3(2) e3, of 0]) blast
  have "world b4 = chassis_init (world b) ops_mai"
    using outside_abs [of items b4] unfolding b4(3) b3(3) b2(3) b1(3) by simp
  moreover have "topics (?S b4) ctrl_topic = Some ([new_sub (Some a) cfg_subx], 16)" "topics (?S b4) state_topic = Some ([], 16)"
    unfolding b4(3) b3(3) b2(3) b1(3) by (simp_all add: port_cfg_def)
  then have "connected items b4" using b4(2) by (simp add: connected_def new_sub_def cfg_subx_def)
  ultimately show ?thesis using that b1(1) b2(1) b3(1) b4(1) by (simp add: chassis_port_init_def Let_def)
qed

lemma port_event_ok:
  assumes "sub_laws E items" "calls_cb22 E" "connected items b"
  obtains b' where "port_event E ev b = Inr b'" "connected items b'" "world b' = chassis_event (world b) ev"
proof -
  note v = sub_vector.intro [OF assms(1)]
  obtain s z y where c: "bus_ok items b" "topics (abs_bus items b) ctrl_topic = Some ([s], z)" "fifo s = None" "cb s = Some (user_callback 22)"
    "topics (abs_bus items b) state_topic = Some ([], y)" using assms(3) by (auto simp: connected_def)
  show ?thesis
  proof (cases ev)
    case thread_start
    have "connected items (b\<lparr>world := port_start (world b)\<rparr>)" using assms(3) by (simp add: connected_def)
    then show ?thesis using that thread_start by (simp add: port_event_def)
  next
    case (command m)
    have e: "enabled (abs_bus items b) (Publish ctrl_topic (ctrl_msg m))" using c(2) by simp
    obtain b' where b': "abus_publish E b (Some ctrl_topic) (ctrl_msg m) = Inr (0, b')" "bus_ok items b'"
      "abs_bus items b' = spec_step E 0 (Publish ctrl_topic (ctrl_msg m)) (abs_bus items b)"
      by (rule sub_vector.publish_ok [OF v c(1) e, of 0]) blast
    have "world b' = snd (abus_subcribe_cb22 m (world b))"
      using outside_abs [of items b'] assms(2) c(2-4) unfolding b'(3) by (simp add: receive_def calls_cb22_def)
    moreover have "connected items b'" using b'(2) c unfolding connected_def b'(3) by (simp add: counted_def)
    ultimately show ?thesis using that command b'(1) by (simp add: port_event_def)
  next
    case report
    let ?m = "state_msg (port_state (world b))"
    have e: "enabled (abs_bus items b) (Publish state_topic ?m)" using c(5) by simp
    obtain b' where b': "abus_publish E b (Some state_topic) ?m = Inr (0, b')" "bus_ok items b'"
      "abs_bus items b' = spec_step E 0 (Publish state_topic ?m) (abs_bus items b)"
      by (rule sub_vector.publish_ok [OF v c(1) e, of 0]) blast
    have "world b' = world b" using outside_abs [of items b'] c(5) unfolding b'(3) by simp
    moreover have "connected items b'" using b'(2) c unfolding connected_def b'(3) by simp
    ultimately show ?thesis using that report b'(1) by (simp add: port_event_def)
  qed
qed

lemma port_run_ok:
  assumes "sub_laws E items" "calls_cb22 E" "connected items b"
  shows "\<exists>b'. port_run E evs b = Inr b' \<and> connected items b' \<and> world b' = foldl chassis_event (world b) evs"
  using assms(3)
proof (induction evs arbitrary: b)
  case (Cons ev evs)
  obtain b1 where b1: "port_event E ev b = Inr b1" "connected items b1" "world b1 = chassis_event (world b) ev"
    by (rule port_event_ok [OF assms(1,2) Cons.prems])
  then show ?case using Cons.IH [OF b1(2)] by auto
qed simp

text \<open>
  C24: commands reach the chassis. The initialisation succeeds on a bus in order that does not have its names yet, and from then on
  every sequence of the thread's start, published commands and published states runs without a fault and changes the chassis
  exactly by the commands, in their order: type 0 sets the speed, type 1 the pose, any other type nothing.
\<close>
theorem chassis_port_commands:
  assumes "sub_laws E items" "calls_cb22 E" "bus_ok items b" "topics (abs_bus items b) ctrl_topic = None"
    "topics (abs_bus items b) state_topic = None" "accounts (abs_bus items b) accx = None"
  shows "\<exists>b1 b2. chassis_port_init E b = Inr (0, b1) \<and> port_run E evs b1 = Inr b2 \<and>
    world b2 = foldl chassis_event (chassis_init (world b) ops_mai) evs"
  by (rule port_init_ok [OF assms(1,3-6)]) (use port_run_ok [OF assms(1,2)] in metis)

text \<open>The environment with vectors as lists and the callback of the chassis alone.\<close>

definition port_env :: "(abus_subcriber list, chassis_msg, chassis) bus_env" where
  "port_env = \<lparr>sub_create = Some [], sub_length = length, sub_at = (!), sub_put = (\<lambda>v i s. v[i := s]), sub_pushback = (\<lambda>v s. v @ [s]),
     sub_end = (\<lambda>v. length v), afifo_in = (\<lambda>f m z w. w), afifo_out = (\<lambda>f n w. (0, w)), afifo_get_used = (\<lambda>f w. 0),
     user_cb = (\<lambda>k s m c. case m of ctrl_msg x \<Rightarrow> snd (abus_subcribe_cb22 x c) | state_msg _ \<Rightarrow> c)\<rparr>"

lemma port_env_ok: "sub_laws port_env (\<lambda>v. v)" "calls_cb22 port_env"
  by (simp_all add: sub_laws_def calls_cb22_def port_env_def)

interpretation port_env: sub_vector port_env "\<lambda>v. v"
  by unfold_locales (rule port_env_ok)

theorem chassis_port_commands_witness:
  "\<forall>c. \<exists>b1 b2. chassis_port_init port_env (bus_boot c) = Inr (0, b1) \<and>
     port_run port_env [thread_start, report, command \<lparr>ctrl_type = 0, ctrl_x = Fin 1, ctrl_y = Fin 2, ctrl_w = Fin 3\<rparr>] b1 = Inr b2 \<and>
     speed (target (world b2)) = \<lparr>x_m_s = Fin 1, y_m_s = Fin 2, z_rad_s = Fin 3\<rparr> \<and> run_status (world b2) = CHASSIS_SPEED"
proof
  fix c
  show "\<exists>b1 b2. chassis_port_init port_env (bus_boot c) = Inr (0, b1) \<and>
     port_run port_env [thread_start, report, command \<lparr>ctrl_type = 0, ctrl_x = Fin 1, ctrl_y = Fin 2, ctrl_w = Fin 3\<rparr>] b1 = Inr b2 \<and>
     speed (target (world b2)) = \<lparr>x_m_s = Fin 1, y_m_s = Fin 2, z_rad_s = Fin 3\<rparr> \<and> run_status (world b2) = CHASSIS_SPEED"
    using chassis_port_commands [OF port_env_ok, of "bus_boot c" "[thread_start, report, command \<lparr>ctrl_type = 0, ctrl_x = Fin 1, ctrl_y = Fin 2, ctrl_w = Fin 3\<rparr>]"]
    by (fastforce simp: abus_subcribe_cb22_def chassis_set_speed_def simp del: port_run.simps)
qed

end
