(* ===== verification/SerialPort.thy ===== *)
theory SerialPort
  imports RingBuffer
begin

text \<open>
  The receiving side of a serial port, from the wire to the thread that reads it: the STM32 driver \<^verbatim>\<open>drv_usart_v2.c\<close> with its
  receive interrupt and its circular DMA, the FIFO of \<^verbatim>\<open>serial_v2.c\<close> over the ring buffer, the semaphore and the completion a reader
  sleeps on, and the loop all receiving threads of the application have: read one byte, or sleep on the semaphore which the
  receive callback releases. Interrupts come between any two steps of the thread.
\<close>

section \<open>Semaphores and completions\<close>

text \<open>One thread waits on each; the flag says that it is suspended there.\<close>

record rt_semaphore =
  sem_value :: nat
  sem_waits :: bool

record rt_completion =
  cpt_done :: bool
  cpt_waits :: bool

text \<open>A release resumes the waiting thread (the first component) or counts, up to \<^verbatim>\<open>RT_SEM_VALUE_MAX\<close>.\<close>

definition rt_sem_release :: "rt_semaphore \<Rightarrow> bool \<times> rt_semaphore" where
  "rt_sem_release s =
     (if sem_waits s then (True, s\<lparr>sem_waits := False\<rparr>)
      else if sem_value s < 65535 then (False, s\<lparr>sem_value := sem_value s + 1\<rparr>)
      else (False, s))"

text \<open>Without a limit of time: whether the semaphore was available; otherwise the thread is suspended.\<close>

definition rt_sem_take :: "rt_semaphore \<Rightarrow> bool \<times> rt_semaphore" where
  "rt_sem_take s =
     (if sem_value s > 0 then (True, s\<lparr>sem_value := sem_value s - 1\<rparr>) else (False, s\<lparr>sem_waits := True\<rparr>))"

definition rt_completion_init :: rt_completion where
  "rt_completion_init = \<lparr>cpt_done = False, cpt_waits = False\<rparr>"

definition rt_completion_done :: "rt_completion \<Rightarrow> bool \<times> rt_completion" where
  "rt_completion_done c =
     (if cpt_done c then (False, c) else (cpt_waits c, \<lparr>cpt_done = True, cpt_waits = False\<rparr>))"

text \<open>The wait up to the suspension of the thread, and what it does when it returns.\<close>

definition rt_completion_wait :: "rt_completion \<Rightarrow> bool \<times> rt_completion" where
  "rt_completion_wait c =
     (if cpt_done c then (True, rt_completion_init) else (False, c\<lparr>cpt_waits := True\<rparr>))"

section \<open>The port\<close>

record rt_serial_rx_fifo =
  rb :: rt_ringbuffer
  rx_cpt :: rt_completion
  rx_cpt_index :: u16

text \<open>
  Where the reading thread is: before it has set the receive callback, at the call of the read function, at the call of
  \<^verbatim>\<open>rt_sem_take\<close>, suspended on the semaphore; in a blocking read after it has found too few bytes, after it has stored the number
  of bytes it wants, suspended on the completion, resumed from it, and before it takes the bytes.
\<close>

datatype reader_pc = Setup | Read_byte | Take_sem | On_sem | Too_few | Index_set | On_completion | Resumed | Fetch

text \<open>
  The port: the FIFO, the mode, whether the callback is set and DMA is used, the size of the buffer, the counter register of the DMA channel
  (bytes until it wraps around), its value at the last interrupt, the application's semaphore, the thread, and the
  bytes it has handed to its protocol.
\<close>

record serial_port =
  serial_rx :: rt_serial_rx_fifo
  rx_blocking :: bool
  rx_indicate :: bool
  dma_rx :: bool
  rx_bufsz :: nat
  dma_counter :: nat
  remaining_cnt :: nat
  rx_sem :: rt_semaphore
  reader :: reader_pc
  received :: "u8 list"

section \<open>Interrupts\<close>

text \<open>The indices of the FIFO after DMA has written \<open>write_size\<close> bytes into its pool.\<close>

definition rt_serial_update_write_index :: "rt_ringbuffer \<Rightarrow> u16 \<Rightarrow> rt_ringbuffer" where
  "rt_serial_update_write_index b write_size =
     (let sz = (word_of_int (rt_ringbuffer_space_len b) :: u16); write_size = (if sz < write_size then sz else write_size) in
      if buffer_size b - write_index b > uint write_size then b\<lparr>write_index := idx31 (write_index b + uint write_size)\<rparr>
      else b\<lparr>write_mirror := \<not> write_mirror b, write_index := idx31 (uint write_size - (buffer_size b - write_index b))\<rparr>)"

text \<open>The event of the receive interrupt (\<open>rx_length\<close> 0) and of DMA. The callback of the application releases its semaphore.\<close>

definition rt_hw_serial_isr_rx :: "nat \<Rightarrow> serial_port \<Rightarrow> serial_port" where
  "rt_hw_serial_isr_rx rx_length s =
     (let s = (if rx_length \<noteq> 0
               then s\<lparr>serial_rx := (serial_rx s)\<lparr>rb := rt_serial_update_write_index (rb (serial_rx s)) (of_nat rx_length)\<rparr>\<rparr> else s);
          n = rt_ringbuffer_data_len (rb (serial_rx s)) in
      if n = 0 then s
      else
        let s = (if rx_blocking s \<and> rx_cpt_index (serial_rx s) \<noteq> 0 \<and> n \<ge> uint (rx_cpt_index (serial_rx s))
                 then let (resumed, c) = rt_completion_done (rx_cpt (serial_rx s)) in
                   s\<lparr>serial_rx := (serial_rx s)\<lparr>rx_cpt_index := 0, rx_cpt := c\<rparr>, reader := if resumed then Resumed else reader s\<rparr>
                 else s) in
        if rx_indicate s
        then let (resumed, m) = rt_sem_release (rx_sem s) in s\<lparr>rx_sem := m, reader := if resumed then Read_byte else reader s\<rparr>
        else s)"

text \<open>A byte without DMA: the branch of the receive interrupt in \<^verbatim>\<open>uart_isr\<close>. A full buffer does not take it.\<close>

definition uart_isr_rx :: "u8 \<Rightarrow> serial_port \<Rightarrow> serial_port cres" where
  "uart_isr_rx c s =
     cbind (rt_ringbuffer_putchar (rb (serial_rx s)) c) (\<lambda>(n, b). Inr (rt_hw_serial_isr_rx 0 (s\<lparr>serial_rx := (serial_rx s)\<lparr>rb := b\<rparr>\<rparr>)))"

text \<open>The DMA channel stores a byte in the pool, whatever the indices are, and counts down around the end.\<close>

definition dma_store :: "u8 \<Rightarrow> serial_port \<Rightarrow> serial_port cres" where
  "dma_store c s =
     cbind (wr (buffer_ptr (rb (serial_rx s))) (rx_bufsz s - dma_counter s) c) (\<lambda>p.
     Inr (s\<lparr>serial_rx := (serial_rx s)\<lparr>rb := (rb (serial_rx s))\<lparr>buffer_ptr := p\<rparr>\<rparr>,
            dma_counter := if dma_counter s \<le> 1 then rx_bufsz s else dma_counter s - 1\<rparr>))"

text \<open>How many bytes it has stored since the last interrupt, and the interrupt that announces them.\<close>

definition dma_recv_len :: "serial_port \<Rightarrow> nat" where
  "dma_recv_len s =
     (let counter = dma_counter s in
      if counter \<le> remaining_cnt s then remaining_cnt s - counter else rx_bufsz s + remaining_cnt s - counter)"

definition dma_recv_isr :: "serial_port \<Rightarrow> serial_port" where
  "dma_recv_isr s =
     (let counter = dma_counter s; recv_len = dma_recv_len s in
      if recv_len \<noteq> 0 then rt_hw_serial_isr_rx recv_len (s\<lparr>remaining_cnt := counter\<rparr>) else s)"

section \<open>The reading thread\<close>

text \<open>The end of \<^verbatim>\<open>_serial_fifo_rx\<close> for one byte, with the loop of the thread around it.\<close>

definition fetch_byte :: "serial_port \<Rightarrow> serial_port cres" where
  "fetch_byte s =
     cbind (rt_ringbuffer_get (rb (serial_rx s)) 1) (\<lambda>(d, b).
     let s = s\<lparr>serial_rx := (serial_rx s)\<lparr>rb := b\<rparr>\<rparr> in
     Inr (if d = [] then s\<lparr>reader := Take_sem\<rparr> else s\<lparr>received := received s @ d, reader := Read_byte\<rparr>))"

text \<open>The next step of the thread; a suspended thread makes none.\<close>

definition reader_step :: "serial_port \<Rightarrow> serial_port cres" where
  "reader_step s =
     (case reader s of
        Setup \<Rightarrow> Inr (s\<lparr>rx_indicate := True, reader := Read_byte\<rparr>)
      | Read_byte \<Rightarrow>
          (if rx_blocking s
           then Inr (s\<lparr>reader := if rt_ringbuffer_data_len (rb (serial_rx s)) < 1 then Too_few else Fetch\<rparr>)
           else fetch_byte s)
      | Take_sem \<Rightarrow>
          (let (taken, m) = rt_sem_take (rx_sem s) in Inr (s\<lparr>rx_sem := m, reader := if taken then Read_byte else On_sem\<rparr>))
      | On_sem \<Rightarrow> Inr s
      | Too_few \<Rightarrow> Inr (s\<lparr>serial_rx := (serial_rx s)\<lparr>rx_cpt_index := 1\<rparr>, reader := Index_set\<rparr>)
      | Index_set \<Rightarrow>
          (let (over, c) = rt_completion_wait (rx_cpt (serial_rx s)) in
           Inr (s\<lparr>serial_rx := (serial_rx s)\<lparr>rx_cpt := c\<rparr>, reader := if over then Fetch else On_completion\<rparr>))
      | On_completion \<Rightarrow> Inr s
      | Resumed \<Rightarrow> Inr (s\<lparr>serial_rx := (serial_rx s)\<lparr>rx_cpt := rt_completion_init\<rparr>, reader := Fetch\<rparr>)
      | Fetch \<Rightarrow> fetch_byte s)"

datatype line_event = Wire u8 | Dma_isr | Thread

definition line_step :: "line_event \<Rightarrow> serial_port \<Rightarrow> serial_port cres" where
  "line_step e s =
     (case e of
        Wire c \<Rightarrow> (if dma_rx s then dma_store c s else uart_isr_rx c s)
      | Dma_isr \<Rightarrow> (if dma_rx s then Inr (dma_recv_isr s) else Inr s)
      | Thread \<Rightarrow> reader_step s)"

fun line_run :: "line_event list \<Rightarrow> serial_port \<Rightarrow> serial_port cres" where
  "line_run [] s = Inr s"
| "line_run (e # es) s = cbind (line_step e s) (line_run es)"

section \<open>Opening\<close>

text \<open>
  \<^verbatim>\<open>rt_serial_rx_enable\<close>: without a buffer a blocking port is polled, by another read function, which is not modelled, and a
  non-blocking one is refused with \<^verbatim>\<open>-RT_EINVAL\<close>. A buffer has at least 64 bytes and is allocated (a failed allocation is a failed assertion).
\<close>

datatype rx_opened = Rx_opened serial_port | Rx_polled | Rx_refused

definition rt_serial_rx_enable :: "nat \<Rightarrow> u8 list option \<Rightarrow> bool \<Rightarrow> bool \<Rightarrow> rx_opened cres" where
  "rt_serial_rx_enable bufsz pool blocking dma =
     (if bufsz = 0 then Inr (if blocking then Rx_polled else Rx_refused)
      else let bufsz = (if bufsz < 64 then 64 else bufsz) in
      case pool of None \<Rightarrow> Inl Stuck
      | Some p \<Rightarrow> cbind (rt_ringbuffer_init p (int bufsz)) (\<lambda>b.
          Inr (Rx_opened \<lparr>serial_rx = \<lparr>rb = b, rx_cpt = rt_completion_init, rx_cpt_index = 0\<rparr>, rx_blocking = blocking, rx_indicate = False, dma_rx = dma,
               rx_bufsz = bufsz, dma_counter = bufsz, remaining_cnt = bufsz, rx_sem = \<lparr>sem_value = 0, sem_waits = False\<rparr>,
               reader = Setup, received = []\<rparr>)))"

section \<open>The bytes in a port\<close>

text \<open>
  The FIFO of the port holds \<open>q\<close>, and behind it in the pool are the bytes \<open>p\<close> that DMA has stored and no interrupt has announced yet.
\<close>

definition port_holds :: "serial_port \<Rightarrow> u8 list \<Rightarrow> u8 list \<Rightarrow> bool" where
  "port_holds s q p \<longleftrightarrow>
     ring_holds (rb (serial_rx s)) (rx_bufsz s) q \<and> rx_bufsz s < 65536 \<and> length q + length p \<le> rx_bufsz s \<and> length p < rx_bufsz s \<and>
     p = win (rx_bufsz s) (buffer_ptr (rb (serial_rx s))) (nat (write_index (rb (serial_rx s)))) (length p) \<and>
     (if dma_rx s
      then dma_counter s = rx_bufsz s - (nat (write_index (rb (serial_rx s))) + length p) mod rx_bufsz s \<and>
           remaining_cnt s = rx_bufsz s - nat (write_index (rb (serial_rx s)))
      else p = [])"

lemma port_holds_upd [simp]:
  "port_holds (s\<lparr>reader := r\<rparr>) q p = port_holds s q p" "port_holds (s\<lparr>received := d\<rparr>) q p = port_holds s q p"
  "port_holds (s\<lparr>rx_sem := m\<rparr>) q p = port_holds s q p" "port_holds (s\<lparr>rx_indicate := i\<rparr>) q p = port_holds s q p"
  by (cases "dma_rx s"; simp add: port_holds_def)+

lemma win_Cons: "win N p w (Suc n) = p ! (w mod N) # win N p (Suc w) n"
  by (rule nth_equalityI) (auto simp: nth_Cons split: nat.splits)

lemma win_append: "win N p w (m + n) = win N p w m @ win N p (w + m) n"
  by (rule nth_equalityI) (simp_all add: nth_append add.assoc)

lemma cw_same: "cw N p w (win N p w n) = p"
  by (induction n arbitrary: w) (simp_all add: win_Cons)

text \<open>
  Moving the write index makes bytes that are in the pool already part of the queue, as many as there is room for.
\<close>

lemma update_index:
  assumes "ring_holds b N q" "n < N" "N < 65536"
  defines "m \<equiv> min (N - length q) n"
  shows "ring_holds (rt_serial_update_write_index b (of_nat n)) N (q @ win N (buffer_ptr b) (nat (write_index b)) m)"
    "nat (write_index (rt_serial_update_write_index b (of_nat n))) = (nat (write_index b) + m) mod N"
    "buffer_ptr (rt_serial_update_write_index b (of_nat n)) = buffer_ptr b"
proof -
  obtain w where h: "w < N" "write_index b = int w" "buffer_size b = int N" "N < 2 ^ 31" "length q \<le> N"
    using assms(1) by (rule ring_indices)
  let ?d = "win N (buffer_ptr b) (nat (write_index b)) m"
  let ?b = "b\<lparr>write_mirror := (write_mirror b \<noteq> (N \<le> w + m)), write_index := int ((w + m) mod N)\<rparr>"
  have fits: "length q + length ?d \<le> N" "m < N" using h(5) assms(2) by (simp_all add: m_def)
  have "cw N (buffer_ptr b) w ?d = buffer_ptr b" using cw_same [of N "buffer_ptr b" w m] h(2) by simp
  moreover have "b\<lparr>buffer_ptr := buffer_ptr b\<rparr> = b" by simp
  ultimately have ok: "ring_holds ?b N (q @ ?d)" using ring_extend [OF assms(1) fits(1)] by (simp add: h(2))
  have u: "uint (of_nat n :: u16) = int n" using assms(2,3) by (simp add: unsigned_of_nat take_bit_nat_eq_self)
  have v: "uint (word_of_int (int (N - length q)) :: u16) = int (N - length q)" "uint (of_nat (N - length q) :: u16) = int (N - length q)"
    using assms(3) by (simp_all add: unsigned_of_nat take_bit_nat_eq_self)
  have s: "uint (if word_of_int (rt_ringbuffer_space_len b) < (of_nat n :: u16) then word_of_int (rt_ringbuffer_space_len b) else of_nat n :: u16) = int m"
    unfolding word_less_def ring_lens(2) [OF assms(1)] u v m_def by (simp add: u v)
  have "rt_serial_update_write_index b (of_nat n) = ?b"
  proof (cases "N \<le> w + m")
    case True
    then have "(w + m) mod N = w + m - N" using h(1) fits(2) by (simp add: mod_if)
    moreover from this have "idx31 (int m - (int N - int w)) = int (w + m - N)" using True h(1,4) fits(2) by simp
    ultimately show ?thesis using True by (simp only: rt_serial_update_write_index_def Let_def s h(2,3)) simp
  next
    case False
    then have "idx31 (int w + int m) = int (w + m)" using h(4) by simp
    then show ?thesis using False by (simp only: rt_serial_update_write_index_def Let_def s h(2,3)) simp
  qed
  then show "ring_holds (rt_serial_update_write_index b (of_nat n)) N (q @ ?d)"
    "nat (write_index (rt_serial_update_write_index b (of_nat n))) = (nat (write_index b) + m) mod N"
    "buffer_ptr (rt_serial_update_write_index b (of_nat n)) = buffer_ptr b"
    using ok by (simp_all add: h(2))
qed

lemma announce:
  assumes "ring_holds b N q" "length q + length p \<le> N" "length p < N" "p = win N (buffer_ptr b) (nat (write_index b)) (length p)" "N < 65536"
  shows "ring_holds (rt_serial_update_write_index b (of_nat (length p))) N (q @ p)"
    "nat (write_index (rt_serial_update_write_index b (of_nat (length p)))) = (nat (write_index b) + length p) mod N"
proof -
  have m: "min (N - length q) (length p) = length p" using assms(2) by simp
  show "ring_holds (rt_serial_update_write_index b (of_nat (length p))) N (q @ p)"
    "nat (write_index (rt_serial_update_write_index b (of_nat (length p)))) = (nat (write_index b) + length p) mod N"
    using update_index [OF assms(1,3,5)] assms(4) unfolding m by simp_all
qed

text \<open>A byte stored by DMA behind the pending ones.\<close>

lemma dma_store_ok:
  assumes "port_holds s q p" "dma_rx s" "length q + length p < rx_bufsz s" "length p + 1 < rx_bufsz s"
  obtains b' n where "dma_store c s = Inr (s\<lparr>serial_rx := (serial_rx s)\<lparr>rb := b'\<rparr>, dma_counter := n\<rparr>)"
    "port_holds (s\<lparr>serial_rx := (serial_rx s)\<lparr>rb := b'\<rparr>, dma_counter := n\<rparr>) q (p @ [c])"
proof -
  let ?b = "rb (serial_rx s)" and ?N = "rx_bufsz s"
  have ok: "ring_holds ?b ?N q" "?N < 65536" and p: "p = win ?N (buffer_ptr ?b) (nat (write_index ?b)) (length p)"
    and cnt: "dma_counter s = ?N - (nat (write_index ?b) + length p) mod ?N" "remaining_cnt s = ?N - nat (write_index ?b)"
    using assms(1,2) by (simp_all add: port_holds_def)
  obtain r where h: "0 < ?N" "?N < 2 ^ 31" "?N \<le> length (buffer_ptr ?b)" "buffer_size ?b = int ?N" "length q \<le> ?N" "r < ?N" "read_index ?b = int r"
    "write_index ?b = int ((r + length q) mod ?N)" "write_mirror ?b \<noteq> read_mirror ?b \<longleftrightarrow> ?N \<le> r + length q"
    "win ?N (buffer_ptr ?b) r (length q) = q"
    using ok(1) by (rule ring_holdsE)
  let ?w = "(r + length q) mod ?N" let ?at = "(?w + length p) mod ?N"
  have w: "nat (write_index ?b) = ?w" by (simp add: h(8))
  have at: "?at = (r + (length q + length p)) mod ?N" by (simp only: mod_add_left_eq add.assoc)
  have at_less: "?at < ?N" using h(1) by simp
  define pool where "pool = (buffer_ptr ?b)[?at := c]"
  have cwp: "pool = cw ?N (buffer_ptr ?b) (r + (length q + length p)) [c]" by (simp add: pool_def at)
  have old: "win ?N (buffer_ptr ?b) r (length q + length p) = q @ p"
    using p h(10) unfolding w by (simp add: win_append win_mod)
  have fits: "(length q + length p) + length [c] \<le> ?N" using assms(3) by simp
  have new: "win ?N pool r (length q + length (p @ [c])) = q @ p @ [c]"
    using win_cw [OF fits h(3), of r] unfolding cwp old by simp
  then have q': "win ?N pool r (length q) = q" and p': "win ?N pool (r + length q) (length (p @ [c])) = p @ [c]"
    unfolding win_append [of _ _ _ "length q"] by simp_all
  let ?n = "if dma_counter s \<le> 1 then ?N else dma_counter s - 1"
  let ?s = "s\<lparr>serial_rx := (serial_rx s)\<lparr>rb := ?b\<lparr>buffer_ptr := pool\<rparr>\<rparr>, dma_counter := ?n\<rparr>"
  have "?N - dma_counter s = ?at" using cnt(1) at_less unfolding w by simp
  then have run: "dma_store c s = Inr ?s" using at_less h(3) by (simp add: dma_store_def pool_def)
  have "ring_holds (?b\<lparr>buffer_ptr := pool\<rparr>) ?N q"
    unfolding ring_holds_def using h q' by (intro conjI exI [of _ r]) (simp_all add: pool_def)
  moreover have "?n = ?N - (?w + length (p @ [c])) mod ?N"
  proof -
    have "(?w + length (p @ [c])) mod ?N = (if Suc ?at = ?N then 0 else Suc ?at)" using mod_Suc [of "?w + length p" ?N] by simp
    then show ?thesis using cnt(1) at_less unfolding w by auto
  qed
  moreover have "p @ [c] = win ?N pool ?w (length (p @ [c]))" using p' by (simp add: win_mod)
  ultimately have "port_holds ?s q (p @ [c])"
    using ok(2) assms(2-4) cnt(2) w by (simp add: port_holds_def)
  then show ?thesis using that run by blast
qed

section \<open>The reader and what it waits for\<close>

text \<open>
  The semaphore and the completion fit where the thread is. Without blocking it only sleeps, or is about to with nothing to take, on an
  empty FIFO. A blocking read has bytes to take when its wait is over.
\<close>

definition waits_well :: "serial_port \<Rightarrow> u8 list \<Rightarrow> bool" where
  "waits_well s q \<longleftrightarrow> (rx_indicate s \<longleftrightarrow> reader s \<noteq> Setup) \<and> (sem_waits (rx_sem s) \<longleftrightarrow> reader s = On_sem) \<and>
     (if rx_blocking s
      then reader s \<notin> {Take_sem, On_sem} \<and> rx_cpt_index (serial_rx s) \<in> {0, 1} \<and>
           (cpt_waits (rx_cpt (serial_rx s)) \<longleftrightarrow> reader s = On_completion) \<and>
           (cpt_done (rx_cpt (serial_rx s)) \<longrightarrow> q \<noteq> [] \<and> rx_cpt_index (serial_rx s) = 0 \<and> reader s \<in> {Index_set, Resumed}) \<and>
           (reader s \<in> {Resumed, Fetch} \<longrightarrow> q \<noteq> []) \<and>
           (rx_cpt_index (serial_rx s) \<noteq> 0 \<longrightarrow> reader s \<in> {Index_set, On_completion}) \<and>
           (reader s = Index_set \<longrightarrow> cpt_done (rx_cpt (serial_rx s)) \<or> rx_cpt_index (serial_rx s) = 1) \<and>
           (reader s = On_completion \<longrightarrow> rx_cpt_index (serial_rx s) = 1)
      else reader s \<in> {Setup, Read_byte, Take_sem, On_sem} \<and> (reader s = On_sem \<longrightarrow> q = []) \<and>
           (reader s = Take_sem \<longrightarrow> q \<noteq> [] \<longrightarrow> sem_value (rx_sem s) > 0))"

text \<open>What an interrupt does to the thread when the FIFO is not empty.\<close>

definition called_back :: "serial_port \<Rightarrow> serial_port" where
  "called_back s =
     (let s = (if rx_blocking s \<and> rx_cpt_index (serial_rx s) \<noteq> 0 \<and>
                 rt_ringbuffer_data_len (rb (serial_rx s)) \<ge> uint (rx_cpt_index (serial_rx s))
               then let (resumed, c) = rt_completion_done (rx_cpt (serial_rx s)) in
                 s\<lparr>serial_rx := (serial_rx s)\<lparr>rx_cpt_index := 0, rx_cpt := c\<rparr>, reader := if resumed then Resumed else reader s\<rparr>
               else s) in
      if rx_indicate s
      then let (resumed, m) = rt_sem_release (rx_sem s) in s\<lparr>rx_sem := m, reader := if resumed then Read_byte else reader s\<rparr>
      else s)"

lemma called_back_fields [simp]:
  "rb (serial_rx (called_back s)) = rb (serial_rx s)" "rx_blocking (called_back s) = rx_blocking s" "dma_rx (called_back s) = dma_rx s"
  "rx_bufsz (called_back s) = rx_bufsz s" "dma_counter (called_back s) = dma_counter s" "remaining_cnt (called_back s) = remaining_cnt s"
  "received (called_back s) = received s" "rx_indicate (called_back s) = rx_indicate s"
  by (simp_all add: called_back_def Let_def split: prod.splits)

lemma called_back_holds [simp]: "port_holds (called_back s) q p \<longleftrightarrow> port_holds s q p"
  by (cases "dma_rx s") (simp_all add: port_holds_def)

lemma isr_rx:
  "rt_hw_serial_isr_rx n s =
     (let s = (if n \<noteq> 0 then s\<lparr>serial_rx := (serial_rx s)\<lparr>rb := rt_serial_update_write_index (rb (serial_rx s)) (of_nat n)\<rparr>\<rparr> else s) in
      if rt_ringbuffer_data_len (rb (serial_rx s)) = 0 then s else called_back s)"
  by (simp add: rt_hw_serial_isr_rx_def called_back_def Let_def)

lemma called_back_waits:
  assumes "waits_well s q" "rt_ringbuffer_data_len (rb (serial_rx s)) = int (length q')" "q' \<noteq> []"
  shows "waits_well (called_back s) q'" "reader (called_back s) \<notin> {On_sem, On_completion}"
proof -
  have n: "uint (rx_cpt_index (serial_rx s)) \<le> int (length q')" if "rx_cpt_index (serial_rx s) \<in> {0, 1}"
    using that assms(3) by (cases q') auto
  have "waits_well (called_back s) q' \<and> reader (called_back s) \<notin> {On_sem, On_completion}"
  proof (cases "rx_blocking s")
    case True
    then show ?thesis using assms n
      by (cases "rx_cpt_index (serial_rx s) = 0") (auto simp: waits_well_def called_back_def Let_def rt_sem_release_def rt_completion_done_def)
  next
    case False
    then show ?thesis using assms by (auto simp: waits_well_def called_back_def rt_sem_release_def)
  qed
  then show "waits_well (called_back s) q'" "reader (called_back s) \<notin> {On_sem, On_completion}" by blast+
qed

lemma waits_well_upd [simp]:
  "waits_well (s\<lparr>serial_rx := (serial_rx s)\<lparr>rb := b\<rparr>\<rparr>) q = waits_well s q" "waits_well (s\<lparr>dma_counter := n\<rparr>) q = waits_well s q"
  "waits_well (s\<lparr>remaining_cnt := n\<rparr>) q = waits_well s q" "waits_well (s\<lparr>received := d\<rparr>) q = waits_well s q"
  by (cases "rx_blocking s"; simp add: waits_well_def)+

text \<open>The state an interrupt ends in, given the FIFO it leaves.\<close>

lemma isr_rx_ok:
  assumes "ring_holds b N q'" "waits_well s q" "q \<noteq> [] \<longrightarrow> q' \<noteq> []"
    "(if n \<noteq> 0 then rt_serial_update_write_index (rb (serial_rx s)) (of_nat n) else rb (serial_rx s)) = b"
  obtains s' where "rt_hw_serial_isr_rx n s = s'" "rb (serial_rx s') = b" "waits_well s' q'" "rx_blocking s' = rx_blocking s" "dma_rx s' = dma_rx s"
    "rx_bufsz s' = rx_bufsz s" "dma_counter s' = dma_counter s" "remaining_cnt s' = remaining_cnt s" "received s' = received s"
    "q' \<noteq> [] \<Longrightarrow> reader s' \<notin> {On_sem, On_completion}"
proof -
  let ?s = "s\<lparr>serial_rx := (serial_rx s)\<lparr>rb := b\<rparr>\<rparr>"
  have len: "rt_ringbuffer_data_len b = int (length q')" using assms(1) by (rule ring_lens(1))
  have same: "s\<lparr>serial_rx := (serial_rx s)\<lparr>rb := rb (serial_rx s)\<rparr>\<rparr> = s" by simp
  then have run: "rt_hw_serial_isr_rx n s = (if q' = [] then ?s else called_back ?s)"
    using assms(4) len by (cases "n = 0") (auto simp: isr_rx Let_def)
  have w: "waits_well ?s q" using assms(2) by simp
  show ?thesis
  proof (cases "q' = []")
    case True
    then have "rt_hw_serial_isr_rx n s = ?s" "waits_well ?s q'" using run w assms(3) by simp_all
    then show ?thesis using True by (intro that [of ?s]) simp_all
  next
    case False
    have "rt_ringbuffer_data_len (rb (serial_rx ?s)) = int (length q')" using len by simp
    then have "waits_well (called_back ?s) q'" "reader (called_back ?s) \<notin> {On_sem, On_completion}"
      using called_back_waits [OF w _ False] by blast+
    then show ?thesis using run False by (intro that [of "called_back ?s"]) simp_all
  qed
qed

text \<open>A step of the thread, which may take the oldest byte.\<close>

definition same_port :: "serial_port \<Rightarrow> serial_port \<Rightarrow> bool" where
  "same_port s' s \<longleftrightarrow> rx_blocking s' = rx_blocking s \<and> dma_rx s' = dma_rx s \<and> rx_bufsz s' = rx_bufsz s \<and> dma_counter s' = dma_counter s \<and>
     remaining_cnt s' = remaining_cnt s \<and> write_index (rb (serial_rx s')) = write_index (rb (serial_rx s)) \<and>
     buffer_ptr (rb (serial_rx s')) = buffer_ptr (rb (serial_rx s))"

lemma fetch_ok:
  assumes "ring_holds (rb (serial_rx s)) N q" "waits_well s q" "reader s = (if rx_blocking s then Fetch else Read_byte)"
  obtains s' where "fetch_byte s = Inr s'" "ring_holds (rb (serial_rx s')) N (drop 1 q)" "waits_well s' (drop 1 q)" "same_port s' s"
    "received s' = received s @ take 1 q" "reader s' = (if q = [] then Take_sem else Read_byte)"
proof -
  let ?b = "rb (serial_rx s)"
  obtain b' where b': "rt_ringbuffer_get ?b 1 = Inr (take 1 q, b')" "ring_holds b' N (drop 1 q)"
    using ring_get [OF assms(1), of 1] by auto
  have same: "write_index b' = write_index ?b" "buffer_ptr b' = buffer_ptr ?b"
    using b'(1) by (auto simp: rt_ringbuffer_get_def Let_def split: if_splits)
  let ?s = "s\<lparr>serial_rx := (serial_rx s)\<lparr>rb := b'\<rparr>\<rparr>"
  show ?thesis
  proof (cases q)
    case Nil
    let ?t = "?s\<lparr>reader := Take_sem\<rparr>"
    have "fetch_byte s = Inr ?t" using b'(1) Nil by (simp add: fetch_byte_def)
    moreover have "waits_well ?t (drop 1 q)" using assms(2,3) Nil by (cases "rx_blocking s") (auto simp: waits_well_def)
    ultimately show ?thesis using that [of ?t] b'(2) same Nil by (simp add: same_port_def)
  next
    case (Cons c q')
    let ?t = "?s\<lparr>received := received s @ [c], reader := Read_byte\<rparr>"
    have "fetch_byte s = Inr ?t" using b'(1) Cons by (simp add: fetch_byte_def)
    moreover have "waits_well ?t (drop 1 q)" using assms(2,3) Cons by (cases "rx_blocking s") (auto simp: waits_well_def)
    ultimately show ?thesis using that [of ?t] b'(2) same Cons by (simp add: same_port_def)
  qed
qed

lemma reader_step_ok:
  assumes "ring_holds (rb (serial_rx s)) N q" "waits_well s q"
  obtains s' k where "reader_step s = Inr s'" "ring_holds (rb (serial_rx s')) N (drop k q)" "waits_well s' (drop k q)" "same_port s' s"
    "received s' = received s @ take k q"
    "\<not> rx_blocking s \<Longrightarrow> q \<noteq> [] \<Longrightarrow> reader s' = Read_byte \<and> k = (if reader s = Read_byte then 1 else 0)"
proof (cases "reader s = (if rx_blocking s then Fetch else Read_byte)")
  case True
  then have r: "reader_step s = fetch_byte s" by (simp add: reader_step_def split: if_splits)
  show ?thesis
    by (rule fetch_ok [OF assms True]) (rule that [of _ 1]; use r True in simp)
next
  case False
  have "\<exists>s'. reader_step s = Inr s' \<and> rb (serial_rx s') = rb (serial_rx s) \<and> waits_well s' q \<and> same_port s' s \<and> received s' = received s \<and>
    (\<not> rx_blocking s \<longrightarrow> q \<noteq> [] \<longrightarrow> reader s' = Read_byte)"
  proof (cases "rx_blocking s")
    case blocking: True
    have "rt_ringbuffer_data_len (rb (serial_rx s)) < 1 \<longleftrightarrow> q = []" using ring_lens(1) [OF assms(1)] by (cases q) simp_all
    then show ?thesis using assms(2) blocking False
      by (cases "reader s")
        (auto simp: reader_step_def waits_well_def same_port_def rt_completion_wait_def rt_completion_init_def)
  next
    case free: False
    then consider "reader s = Setup" | "reader s = Take_sem" | "reader s = On_sem" "q = []" using assms(2) False by (auto simp: waits_well_def)
    then show ?thesis
      by cases (use assms(2) free in \<open>auto simp: reader_step_def rt_sem_take_def waits_well_def same_port_def\<close>)
  qed
  then obtain s' where "reader_step s = Inr s'" "rb (serial_rx s') = rb (serial_rx s)" "waits_well s' q" "same_port s' s" "received s' = received s"
    "\<not> rx_blocking s \<longrightarrow> q \<noteq> [] \<longrightarrow> reader s' = Read_byte" by blast
  then show ?thesis using assms(1) False by (intro that [of s' 0]) simp_all
qed

section \<open>Steps of the line\<close>

text \<open>The interrupts, in whatever order they come and whether or not the FIFO has room.\<close>

definition port_ok :: "serial_port \<Rightarrow> bool" where
  "port_ok s \<longleftrightarrow> (\<exists>q. ring_holds (rb (serial_rx s)) (rx_bufsz s) q \<and> waits_well s q) \<and> rx_bufsz s < 65536 \<and>
     0 < dma_counter s \<and> dma_counter s \<le> rx_bufsz s \<and> 0 < remaining_cnt s \<and> remaining_cnt s \<le> rx_bufsz s"

lemma ring_holds_pool:
  assumes "ring_holds b N q" "length pool = length (buffer_ptr b)"
  obtains q' where "ring_holds (b\<lparr>buffer_ptr := pool\<rparr>) N q'" "length q' = length q"
proof -
  obtain r where h: "0 < N" "N < 2 ^ 31" "N \<le> length (buffer_ptr b)" "buffer_size b = int N" "length q \<le> N" "r < N" "read_index b = int r"
    "write_index b = int ((r + length q) mod N)" "write_mirror b \<noteq> read_mirror b \<longleftrightarrow> N \<le> r + length q"
    using assms(1) by (rule ring_holdsE)
  have "ring_holds (b\<lparr>buffer_ptr := pool\<rparr>) N (win N pool r (length q))"
    unfolding ring_holds_def using h assms(2) by (intro conjI exI [of _ r]) simp_all
  then show ?thesis using that by simp
qed

lemma waits_well_length: "waits_well s q \<Longrightarrow> length q' = length q \<Longrightarrow> waits_well s q'"
  by (cases "q' = []") (auto simp: waits_well_def)

lemma dma_store_any:
  assumes "port_ok s"
  shows "\<exists>s'. dma_store c s = Inr s' \<and> port_ok s'"
proof -
  obtain q where q: "ring_holds (rb (serial_rx s)) (rx_bufsz s) q" "waits_well s q" using assms by (auto simp: port_ok_def)
  let ?b = "rb (serial_rx s)" and ?N = "rx_bufsz s" let ?at = "?N - dma_counter s"
  have c: "rx_bufsz s < 65536" "0 < dma_counter s" "dma_counter s \<le> ?N" "0 < remaining_cnt s" "remaining_cnt s \<le> ?N"
    using assms by (simp_all add: port_ok_def)
  have at: "?at < ?N" using c(2,3) by arith
  have len: "?N \<le> length (buffer_ptr ?b)" using q(1) by (simp add: ring_holds_def)
  obtain q' where q': "ring_holds (?b\<lparr>buffer_ptr := (buffer_ptr ?b)[?at := c]\<rparr>) ?N q'" "length q' = length q"
    using q(1) by (rule ring_holds_pool [of _ _ _ "(buffer_ptr ?b)[?at := c]"]) simp
  define n where "n = (if dma_counter s \<le> 1 then ?N else dma_counter s - 1)"
  have n: "0 < n" "n \<le> ?N" using c(2,3) by (auto simp: n_def)
  let ?s = "s\<lparr>serial_rx := (serial_rx s)\<lparr>rb := ?b\<lparr>buffer_ptr := (buffer_ptr ?b)[?at := c]\<rparr>\<rparr>, dma_counter := n\<rparr>"
  have "dma_store c s = Inr ?s" using at len by (simp add: dma_store_def n_def)
  moreover have "waits_well ?s q'" using waits_well_length [OF q(2) q'(2)] by simp
  then have "\<exists>q. ring_holds (rb (serial_rx ?s)) (rx_bufsz ?s) q \<and> waits_well ?s q" using q'(1) by (intro exI [of _ q']) simp
  then have "port_ok ?s" using c n by (simp add: port_ok_def)
  ultimately show ?thesis by blast
qed

lemma recv_len_less: "port_ok s \<Longrightarrow> dma_recv_len s < rx_bufsz s"
  by (auto simp: port_ok_def dma_recv_len_def Let_def)

text \<open>Of the bytes stored since the last interrupt, as many become part of the queue as there is room for.\<close>

lemma dma_recv_any:
  assumes "port_ok s" "ring_holds (rb (serial_rx s)) (rx_bufsz s) q" "waits_well s q"
  defines "m \<equiv> min (rx_bufsz s - length q) (dma_recv_len s)"
  defines "d \<equiv> win (rx_bufsz s) (buffer_ptr (rb (serial_rx s))) (nat (write_index (rb (serial_rx s)))) m"
  obtains s' where "dma_recv_isr s = s'" "ring_holds (rb (serial_rx s')) (rx_bufsz s) (q @ d)" "waits_well s' (q @ d)"
    "nat (write_index (rb (serial_rx s'))) = (nat (write_index (rb (serial_rx s))) + m) mod rx_bufsz s"
    "buffer_ptr (rb (serial_rx s')) = buffer_ptr (rb (serial_rx s))" "remaining_cnt s' = dma_counter s" "dma_counter s' = dma_counter s"
    "rx_bufsz s' = rx_bufsz s" "dma_rx s' = dma_rx s" "rx_blocking s' = rx_blocking s" "received s' = received s"
    "0 < dma_recv_len s \<Longrightarrow> q @ d \<noteq> [] \<Longrightarrow> reader s' \<notin> {On_sem, On_completion}"
proof -
  let ?b = "rb (serial_rx s)" and ?n = "dma_recv_len s" and ?N = "rx_bufsz s"
  have N: "?N < 65536" "0 < ?N" using assms(1) by (auto simp: port_ok_def)
  note u = update_index [OF assms(2) recv_len_less [OF assms(1)] N(1), folded m_def, folded d_def]
  show ?thesis
  proof (cases "?n = 0")
    case True
    then have c: "dma_counter s = remaining_cnt s" using assms(1) by (auto simp: dma_recv_len_def port_ok_def Let_def split: if_splits)
    have "m = 0" "d = []" using True by (simp_all add: m_def d_def)
    moreover obtain w where "w < ?N" "write_index ?b = int w" using assms(2) by (rule ring_indices)
    ultimately show ?thesis by (intro that [of s]) (use assms(2,3) True c in \<open>simp_all add: dma_recv_isr_def Let_def\<close>)
  next
    case False
    let ?s = "s\<lparr>remaining_cnt := dma_counter s\<rparr>" and ?b' = "rt_serial_update_write_index ?b (of_nat ?n)"
    obtain s' where s': "rt_hw_serial_isr_rx ?n ?s = s'" "rb (serial_rx s') = ?b'" "waits_well s' (q @ d)" "rx_blocking s' = rx_blocking ?s"
      "dma_rx s' = dma_rx ?s" "rx_bufsz s' = rx_bufsz ?s" "dma_counter s' = dma_counter ?s" "remaining_cnt s' = remaining_cnt ?s"
      "received s' = received ?s" "q @ d \<noteq> [] \<Longrightarrow> reader s' \<notin> {On_sem, On_completion}"
      by (rule isr_rx_ok [OF u(1), of ?s q ?n]) (use assms(3) False in simp_all)
    then have "dma_recv_isr s = s'" using False by (simp add: dma_recv_isr_def Let_def)
    then show ?thesis using that [of s'] s' u by simp
  qed
qed

lemma uart_isr_any:
  fixes c :: u8
  assumes "ring_holds (rb (serial_rx s)) N q" "waits_well s q"
  defines "q' \<equiv> if length q < N then q @ [c] else q"
  obtains s' where "uart_isr_rx c s = Inr s'" "ring_holds (rb (serial_rx s')) N q'" "waits_well s' q'" "rx_blocking s' = rx_blocking s"
    "dma_rx s' = dma_rx s" "rx_bufsz s' = rx_bufsz s" "dma_counter s' = dma_counter s" "remaining_cnt s' = remaining_cnt s" "received s' = received s"
    "reader s' \<notin> {On_sem, On_completion}"
proof -
  obtain b where b: "rt_ringbuffer_putchar (rb (serial_rx s)) c = Inr (if length q < N then 1 else 0, b)" "ring_holds b N q'"
    using assms(1) unfolding q'_def by (rule ring_putchar)
  let ?s = "s\<lparr>serial_rx := (serial_rx s)\<lparr>rb := b\<rparr>\<rparr>"
  have ne: "q' \<noteq> []" using assms(1) by (auto simp: q'_def ring_holds_def)
  have w: "waits_well ?s q" using assms(2) by simp
  obtain s' where s': "rt_hw_serial_isr_rx 0 ?s = s'" "rb (serial_rx s') = b" "waits_well s' q'" "rx_blocking s' = rx_blocking ?s"
    "dma_rx s' = dma_rx ?s" "rx_bufsz s' = rx_bufsz ?s" "dma_counter s' = dma_counter ?s" "remaining_cnt s' = remaining_cnt ?s"
    "received s' = received ?s" "q' \<noteq> [] \<Longrightarrow> reader s' \<notin> {On_sem, On_completion}"
    by (rule isr_rx_ok [OF b(2) w, of 0]) (use ne in simp_all)
  have "uart_isr_rx c s = Inr s'" using b(1) s'(1) by (simp add: uart_isr_rx_def)
  then show ?thesis using that [of s'] s' b(2) ne by simp
qed

lemma port_okI:
  "ring_holds (rb (serial_rx s')) (rx_bufsz s') q \<Longrightarrow> waits_well s' q \<Longrightarrow> port_ok s \<Longrightarrow> rx_bufsz s' = rx_bufsz s \<Longrightarrow>
   dma_counter s' = dma_counter s \<Longrightarrow> remaining_cnt s' \<in> {remaining_cnt s, dma_counter s} \<Longrightarrow> port_ok s'"
  by (auto simp: port_ok_def)

lemma port_ok_step:
  assumes "port_ok s"
  shows "\<exists>s'. line_step e s = Inr s' \<and> port_ok s'"
proof -
  obtain q where q: "ring_holds (rb (serial_rx s)) (rx_bufsz s) q" "waits_well s q" using assms by (auto simp: port_ok_def)
  show ?thesis
  proof (cases e)
    case (Wire c)
    show ?thesis
    proof (cases "dma_rx s")
      case True
      then show ?thesis using dma_store_any [OF assms, of c] by (simp add: Wire line_step_def)
    next
      case False
      obtain s' where "uart_isr_rx c s = Inr s'"
        "ring_holds (rb (serial_rx s')) (rx_bufsz s) (if length q < rx_bufsz s then q @ [c] else q)"
        "waits_well s' (if length q < rx_bufsz s then q @ [c] else q)" "rx_bufsz s' = rx_bufsz s" "dma_counter s' = dma_counter s"
        "remaining_cnt s' = remaining_cnt s"
        by (rule uart_isr_any [OF q, of c]) blast
      then show ?thesis using port_okI [of s', OF _ _ assms] False by (auto simp: Wire line_step_def)
    qed
  next
    case Dma_isr
    show ?thesis
    proof (cases "dma_rx s")
      case True
      show ?thesis
        by (rule dma_recv_any [OF assms q]) (use True port_okI [OF _ _ assms] in \<open>auto simp: Dma_isr line_step_def\<close>)
    qed (use assms in \<open>simp add: Dma_isr line_step_def\<close>)
  next
    case Thread
    show ?thesis
      by (rule reader_step_ok [OF q]) (use port_okI [OF _ _ assms] in \<open>auto simp: Thread line_step_def same_port_def\<close>)
  qed
qed

lemma port_ok_run: "port_ok s \<Longrightarrow> \<exists>s'. line_run es s = Inr s' \<and> port_ok s'"
proof (induction es arbitrary: s)
  case (Cons e es)
  obtain s1 where "line_step e s = Inr s1" "port_ok s1" using port_ok_step [OF Cons.prems] by blast
  then show ?case using Cons.IH by simp
qed simp

lemma line_run_append: "line_run (es @ fs) s = cbind (line_run es s) (line_run fs)"
proof (induction es arbitrary: s)
  case (Cons e es)
  then show ?case by (cases "line_step e s") simp_all
qed simp

text \<open>The port as it is opened.\<close>

lemma opened_ok:
  assumes "rt_serial_rx_enable n (Some pool) blocking dma = Inr (Rx_opened s)" "8 dvd n" "n < 65536" "max 64 n \<le> length pool"
  shows "port_ok s" "port_holds s [] []" "waits_well s []" "received s = []" "rx_blocking s = blocking" "dma_rx s = dma" "rx_bufsz s = max 64 n"
proof -
  let ?n = "max 64 n"
  have "8 dvd ?n" using assms(2) by (simp add: max_def)
  then have m: "int ?n mod 8 = 0" by presburger
  have "8 \<le> int ?n" "int ?n < 2 ^ 31" "int ?n \<le> int (length pool)" using assms(3,4) by auto
  then obtain b where "rt_ringbuffer_init pool (int ?n) = Inr b" "ring_holds b (nat (int ?n - int ?n mod 8)) []"
    by (rule ring_init)
  then have b: "rt_ringbuffer_init pool (int ?n) = Inr b" "ring_holds b ?n []" unfolding m by simp_all
  have w: "write_index b = 0" using b(1) by (auto simp: rt_ringbuffer_init_def split: if_splits)
  have s: "s = \<lparr>serial_rx = \<lparr>rb = b, rx_cpt = rt_completion_init, rx_cpt_index = 0\<rparr>, rx_blocking = blocking, rx_indicate = False, dma_rx = dma,
               rx_bufsz = ?n, dma_counter = ?n, remaining_cnt = ?n, rx_sem = \<lparr>sem_value = 0, sem_waits = False\<rparr>,
               reader = Setup, received = []\<rparr>"
    using assms(1) b(1) by (simp add: rt_serial_rx_enable_def Let_def max_def split: if_splits)
  show w0: "waits_well s []" by (simp add: s waits_well_def rt_completion_init_def)
  have "\<exists>q. ring_holds b ?n q \<and> waits_well s q" using b(2) w0 by blast
  then show "port_ok s" using assms(3) by (simp add: port_ok_def s)
  show "port_holds s [] []" using b(2) w assms(3) by (cases dma) (simp_all add: port_holds_def s)
qed (use assms(1) in \<open>auto simp: rt_serial_rx_enable_def Let_def split: if_splits sum.splits\<close>)

section \<open>Runs with room\<close>

text \<open>The bytes on the wire, and the condition that every byte finds room, and DMA never goes round before its interrupt.\<close>

fun wire_bytes :: "line_event list \<Rightarrow> u8 list" where
  "wire_bytes [] = []"
| "wire_bytes (Wire c # es) = c # wire_bytes es"
| "wire_bytes (_ # es) = wire_bytes es"

definition pending :: "serial_port \<Rightarrow> nat" where
  "pending s = (if dma_rx s then dma_recv_len s else 0)"

definition has_room :: "serial_port \<Rightarrow> bool" where
  "has_room s \<longleftrightarrow> rt_ringbuffer_data_len (rb (serial_rx s)) + int (pending s) < int (rx_bufsz s) \<and> pending s + 1 < rx_bufsz s"

fun with_room :: "line_event list \<Rightarrow> serial_port \<Rightarrow> bool" where
  "with_room [] s \<longleftrightarrow> True"
| "with_room (e # es) s \<longleftrightarrow>
     (case e of Wire c \<Rightarrow> has_room s | _ \<Rightarrow> True) \<and> (case line_step e s of Inl _ \<Rightarrow> True | Inr s' \<Rightarrow> with_room es s')"

lemma wrap_distance:
  assumes "w < N" "l < (N :: nat)"
  shows "(if N - (w + l) mod N \<le> N - w then (N - w) - (N - (w + l) mod N) else N + (N - w) - (N - (w + l) mod N)) = l"
proof (cases "N \<le> w + l")
  case True
  then have "(w + l) mod N = w + l - N" using assms by (simp add: mod_if)
  moreover have "\<not> N - (w + l - N) \<le> N - w" "N + (N - w) - (N - (w + l - N)) = l" using True assms by arith+
  ultimately show ?thesis by simp
next
  case False
  then have "(w + l) mod N = w + l" "N - (w + l) \<le> N - w" "N - w - (N - (w + l)) = l" by simp_all
  then show ?thesis by simp
qed

lemma pending_len:
  assumes "port_holds s q p" "dma_rx s"
  shows "dma_recv_len s = length p"
proof -
  have w: "nat (write_index (rb (serial_rx s))) < rx_bufsz s" using assms(1) unfolding port_holds_def by (auto elim!: ring_indices)
  have h: "length p < rx_bufsz s" "dma_counter s = rx_bufsz s - (nat (write_index (rb (serial_rx s))) + length p) mod rx_bufsz s"
    "remaining_cnt s = rx_bufsz s - nat (write_index (rb (serial_rx s)))" using assms by (simp_all add: port_holds_def)
  show ?thesis unfolding dma_recv_len_def Let_def h(2,3) by (rule wrap_distance [OF w h(1)])
qed

lemma pending_holds: "port_holds s q p \<Longrightarrow> pending s = length p"
  by (auto simp: pending_def pending_len port_holds_def)

lemma has_room_holds: "port_holds s q p \<Longrightarrow> has_room s \<longleftrightarrow> length q + length p < rx_bufsz s \<and> length p + 1 < rx_bufsz s"
  unfolding has_room_def by (simp add: pending_holds) (auto simp: port_holds_def ring_lens(1))

lemma dma_recv_holds:
  assumes "port_ok s" "port_holds s q p" "waits_well s q" "dma_rx s"
  obtains s' where "dma_recv_isr s = s'" "port_holds s' (q @ p) []" "waits_well s' (q @ p)" "received s' = received s"
proof -
  let ?N = "rx_bufsz s" and ?b = "rb (serial_rx s)"
  have h: "ring_holds ?b ?N q" "length q + length p \<le> ?N" "?N < 65536" "p = win ?N (buffer_ptr ?b) (nat (write_index ?b)) (length p)"
    "dma_counter s = ?N - (nat (write_index ?b) + length p) mod ?N"
    using assms(2,4) by (simp_all add: port_holds_def)
  have n: "dma_recv_len s = length p" using pending_holds [OF assms(2)] assms(4) by (simp add: pending_def)
  have m: "min (?N - length q) (length p) = length p" using h(2) by simp
  have N: "0 < ?N" using h(1) by (simp add: ring_holds_def)
  obtain s' where s': "dma_recv_isr s = s'" "ring_holds (rb (serial_rx s')) ?N (q @ p)" "waits_well s' (q @ p)"
    "nat (write_index (rb (serial_rx s'))) = (nat (write_index ?b) + length p) mod ?N" "remaining_cnt s' = dma_counter s"
    "dma_counter s' = dma_counter s" "rx_bufsz s' = ?N" "dma_rx s' = dma_rx s" "received s' = received s"
    by (rule dma_recv_any [OF assms(1) h(1) assms(3)]) (unfold n m h(4) [symmetric], blast)
  then have "port_holds s' (q @ p) []" using h(2,3,5) N assms(4) by (simp add: port_holds_def)
  then show ?thesis using that s' by blast
qed

lemma line_step_ok:
  assumes "port_ok s" "port_holds s q p" "waits_well s q" "\<And>c. e = Wire c \<Longrightarrow> has_room s"
  obtains s' q' p' where "line_step e s = Inr s'" "port_holds s' q' p'" "waits_well s' q'"
    "received s' @ q' @ p' = received s @ q @ p @ wire_bytes [e]"
proof -
  have ring: "ring_holds (rb (serial_rx s)) (rx_bufsz s) q" "rx_bufsz s < 65536" using assms(2) by (simp_all add: port_holds_def)
  show ?thesis
  proof (cases e)
    case (Wire c)
    then have room: "length q + length p < rx_bufsz s" "length p + 1 < rx_bufsz s" using assms(4) has_room_holds [OF assms(2)] by simp_all
    show ?thesis
    proof (cases "dma_rx s")
      case True
      show ?thesis
      proof (rule dma_store_ok [OF assms(2) True room, of c])
        fix b' n
        let ?s = "s\<lparr>serial_rx := (serial_rx s)\<lparr>rb := b'\<rparr>, dma_counter := n\<rparr>"
        assume "dma_store c s = Inr ?s" "port_holds ?s q (p @ [c])"
        moreover have "waits_well ?s q" using assms(3) by simp
        ultimately show ?thesis using that [of ?s q "p @ [c]"] True by (simp add: Wire line_step_def)
      qed
    next
      case False
      then have p: "p = []" using assms(2) by (simp add: port_holds_def)
      have q': "(if length q < rx_bufsz s then q @ [c] else q) = q @ [c]" using room(1) by simp
      obtain s' where s': "uart_isr_rx c s = Inr s'" "ring_holds (rb (serial_rx s')) (rx_bufsz s) (q @ [c])" "waits_well s' (q @ [c])"
        "dma_rx s' = dma_rx s" "rx_bufsz s' = rx_bufsz s" "received s' = received s"
        by (rule uart_isr_any [OF ring(1) assms(3), of c, unfolded q']) blast
      then have "port_holds s' (q @ [c]) []" using False ring(2) room by (simp add: port_holds_def)
      then show ?thesis using that [of s' "q @ [c]" "[]"] s' False p by (simp add: Wire line_step_def)
    qed
  next
    case Dma_isr
    show ?thesis
    proof (cases "dma_rx s")
      case True
      show ?thesis
        by (rule dma_recv_holds [OF assms(1-3) True]) (use that [of _ "q @ p" "[]"] True in \<open>simp add: Dma_isr line_step_def\<close>)
    qed (use that assms in \<open>simp add: Dma_isr line_step_def\<close>)
  next
    case Thread
    obtain s' k where s': "reader_step s = Inr s'" "ring_holds (rb (serial_rx s')) (rx_bufsz s) (drop k q)" "waits_well s' (drop k q)"
      "same_port s' s" "received s' = received s @ take k q"
      by (rule reader_step_ok [OF ring(1) assms(3)]) blast
    then have "port_holds s' (drop k q) p" using assms(2) unfolding same_port_def port_holds_def by (cases "dma_rx s") auto
    then show ?thesis using that [of s' "drop k q" p] s' by (simp add: Thread line_step_def)
  qed
qed

lemma wire_bytes_Cons: "wire_bytes (e # es) = wire_bytes [e] @ wire_bytes es"
  by (cases e) simp_all

lemma line_run_ok:
  assumes "port_ok s" "port_holds s q p" "waits_well s q" "with_room es s"
  shows "\<exists>s' q' p'. line_run es s = Inr s' \<and> port_ok s' \<and> port_holds s' q' p' \<and> waits_well s' q' \<and>
    received s' @ q' @ p' = received s @ q @ p @ wire_bytes es"
  using assms
proof (induction es arbitrary: s q p)
  case (Cons e es)
  have "\<And>c. e = Wire c \<Longrightarrow> has_room s" using Cons.prems(4) by simp
  then obtain s1 q1 p1 where s1: "line_step e s = Inr s1" "port_holds s1 q1 p1" "waits_well s1 q1"
    "received s1 @ q1 @ p1 = received s @ q @ p @ wire_bytes [e]"
    using line_step_ok [OF Cons.prems(1-3)] by metis
  then have ok: "port_ok s1" using port_ok_step [OF Cons.prems(1), of e] by auto
  have room: "with_room es s1" using Cons.prems(4) s1(1) by simp
  obtain s' q' p' where "line_run es s1 = Inr s'" "port_ok s'" "port_holds s' q' p'" "waits_well s' q'"
    "received s' @ q' @ p' = received s1 @ q1 @ p1 @ wire_bytes es"
    using Cons.IH [OF ok s1(2,3) room] by blast
  moreover have "received s1 @ q1 @ p1 @ wire_bytes es = received s @ q @ p @ wire_bytes (e # es)"
    using s1(4) wire_bytes_Cons [of e es] by (metis append.assoc)
  ultimately show ?case using s1(1) by simp blast
next
  case Nil
  then show ?case by (auto intro: exI [of _ q] exI [of _ p])
qed

lemma config_step:
  assumes "line_step e s = Inr s'"
  shows "rx_bufsz s' = rx_bufsz s \<and> rx_blocking s' = rx_blocking s \<and> dma_rx s' = dma_rx s"
proof -
  have isr: "rx_bufsz (rt_hw_serial_isr_rx n t) = rx_bufsz t \<and> rx_blocking (rt_hw_serial_isr_rx n t) = rx_blocking t \<and>
    dma_rx (rt_hw_serial_isr_rx n t) = dma_rx t" for n t
    by (simp add: isr_rx Let_def)
  show ?thesis
  proof (cases e)
    case (Wire c)
    then show ?thesis using assms isr
      by (auto simp: line_step_def dma_store_def uart_isr_rx_def Let_def split: if_splits)
  next
    case Dma_isr
    then show ?thesis using assms isr by (auto simp: line_step_def dma_recv_isr_def Let_def split: if_splits)
  next
    case Thread
    have f: "fetch_byte t = Inr t' \<Longrightarrow> rx_bufsz t' = rx_bufsz t \<and> rx_blocking t' = rx_blocking t \<and> dma_rx t' = dma_rx t" for t t'
      by (auto simp: fetch_byte_def Let_def split: if_splits)
    show ?thesis using assms f
      by (auto simp: Thread line_step_def reader_step_def Let_def split: reader_pc.splits if_splits prod.splits)
  qed
qed

lemma config_run: "line_run es s = Inr s' \<Longrightarrow> rx_bufsz s' = rx_bufsz s \<and> rx_blocking s' = rx_blocking s \<and> dma_rx s' = dma_rx s"
proof (induction es arbitrary: s)
  case (Cons e es)
  then obtain s1 where "line_step e s = Inr s1" "line_run es s1 = Inr s'" by auto
  then show ?case using Cons.IH [of s1] config_step [of e s s1] by simp
qed simp

text \<open>Fewer bytes than the FIFO has room for always fit.\<close>

lemma received_grows: "line_step e s = Inr s' \<Longrightarrow> \<exists>d. received s' = received s @ d"
proof -
  assume a: "line_step e s = Inr s'"
  have isr: "received (rt_hw_serial_isr_rx n t) = received t" for n t by (simp add: isr_rx Let_def)
  show ?thesis
  proof (cases e)
    case (Wire c)
    then show ?thesis using a isr by (auto simp: line_step_def dma_store_def uart_isr_rx_def Let_def split: if_splits)
  next
    case Dma_isr
    then show ?thesis using a isr by (auto simp: line_step_def dma_recv_isr_def Let_def split: if_splits)
  next
    case Thread
    have f: "fetch_byte t = Inr t' \<Longrightarrow> \<exists>d. received t' = received t @ d" for t t'
      by (auto simp: fetch_byte_def Let_def split: if_splits)
    show ?thesis using a f by (auto simp: Thread line_step_def reader_step_def Let_def split: reader_pc.splits if_splits prod.splits)
  qed
qed

lemma few_bytes_fit:
  assumes "port_ok s" "port_holds s q p" "waits_well s q" "length q + length p + length (wire_bytes es) < rx_bufsz s"
  shows "with_room es s"
  using assms
proof (induction es arbitrary: s q p)
  case (Cons e es)
  have l: "length (wire_bytes (e # es)) = length (wire_bytes [e]) + length (wire_bytes es)" by (subst wire_bytes_Cons) simp
  have room: "has_room s" if "e = Wire c" for c using has_room_holds [OF Cons.prems(2)] Cons.prems(4) that by simp
  obtain s1 q1 p1 where s1: "line_step e s = Inr s1" "port_holds s1 q1 p1" "waits_well s1 q1"
    "received s1 @ q1 @ p1 = received s @ q @ p @ wire_bytes [e]"
    using line_step_ok [OF Cons.prems(1-3)] room by metis
  obtain d where d: "received s1 = received s @ d" using received_grows [OF s1(1)] by blast
  have "d @ q1 @ p1 = q @ p @ wire_bytes [e]" using s1(4) unfolding d by simp
  then have "length (d @ q1 @ p1) = length (q @ p @ wire_bytes [e])" by (rule arg_cong)
  then have "length q1 + length p1 + length (wire_bytes es) < rx_bufsz s1" using Cons.prems(4) config_step [OF s1(1)] l by simp
  then have "with_room es s1" using Cons.IH [OF _ s1(2,3)] port_ok_step [OF Cons.prems(1), of e] s1(1) by auto
  then show ?case using room s1(1) by (auto split: line_event.splits)
qed simp

lemma drain:
  assumes "port_ok s" "port_holds s q []" "waits_well s q" "\<not> rx_blocking s"
    "q \<noteq> [] \<longrightarrow> length q + (if reader s = Read_byte then 0 else 1) \<le> n"
  shows "\<exists>s'. line_run (replicate n Thread) s = Inr s' \<and> received s' = received s @ q"
  using assms
proof (induction n arbitrary: s q)
  case 0
  then show ?case by (cases "q = []") auto
next
  case (Suc n)
  have ring: "ring_holds (rb (serial_rx s)) (rx_bufsz s) q" using Suc.prems(2) by (simp add: port_holds_def)
  obtain s1 k where s1: "reader_step s = Inr s1" "ring_holds (rb (serial_rx s1)) (rx_bufsz s) (drop k q)" "waits_well s1 (drop k q)"
    "same_port s1 s" "received s1 = received s @ take k q"
    "\<not> rx_blocking s \<Longrightarrow> q \<noteq> [] \<Longrightarrow> reader s1 = Read_byte \<and> k = (if reader s = Read_byte then 1 else 0)"
    by (rule reader_step_ok [OF ring Suc.prems(3)]) blast
  have step: "line_step Thread s = Inr s1" using s1(1) by (simp add: line_step_def)
  have ok: "port_ok s1" using port_ok_step [OF Suc.prems(1), of Thread] step by auto
  have "port_holds s1 (drop k q) []" using Suc.prems(2) s1(2,4) unfolding same_port_def port_holds_def by (cases "dma_rx s") auto
  moreover have "\<not> rx_blocking s1" using s1(4) Suc.prems(4) by (simp add: same_port_def)
  moreover have "drop k q \<noteq> [] \<longrightarrow> length (drop k q) + (if reader s1 = Read_byte then 0 else 1) \<le> n"
    using s1(6) Suc.prems(4,5) by (cases "q = []") (auto split: if_splits)
  ultimately obtain s' where "line_run (replicate n Thread) s1 = Inr s'" "received s' = received s1 @ drop k q"
    using Suc.IH [OF ok _ s1(3)] by blast
  then show ?case using step s1(5) by simp
qed

section \<open>Properties\<close>

text \<open>
  C21: in whatever order bytes, interrupts and steps of the reading thread follow each other on an opened port, with or without DMA, blocking or not,
  and however many bytes overrun the FIFO, no access leaves the pool and the FIFO stays a well formed ring buffer of the size of the port. A blocking read
  is never without a byte when its wait is over, so its thread never goes to the semaphore.
\<close>
theorem serial_port_never_faults:
  assumes "rt_serial_rx_enable n (Some pool) blocking dma = Inr (Rx_opened s0)" "8 dvd n" "n < 65536" "max 64 n \<le> length pool"
  shows "\<exists>s q. line_run es s0 = Inr s \<and> ring_holds (rb (serial_rx s)) (max 64 n) q \<and>
    (blocking \<longrightarrow> reader s \<notin> {Take_sem, On_sem}) \<and> (reader s \<in> {Resumed, Fetch} \<longrightarrow> q \<noteq> [])"
proof -
  note o = opened_ok [OF assms]
  obtain s where s: "line_run es s0 = Inr s" "port_ok s" using port_ok_run [OF o(1)] by blast
  then obtain q where q: "ring_holds (rb (serial_rx s)) (rx_bufsz s) q" "waits_well s q" by (auto simp: port_ok_def)
  have c: "rx_bufsz s = max 64 n" "rx_blocking s = blocking" using config_run [OF s(1)] o(5,7) by simp_all
  show ?thesis
  proof (intro exI conjI)
    show "line_run es s0 = Inr s" by (rule s(1))
    show "ring_holds (rb (serial_rx s)) (max 64 n) q" using q(1) by (simp only: c)
    show "blocking \<longrightarrow> reader s \<notin> {Take_sem, On_sem}" "reader s \<in> {Resumed, Fetch} \<longrightarrow> q \<noteq> []"
      using q(2) unfolding waits_well_def c(2) by (cases blocking; auto)+
  qed
qed


lemma port_in_order:
  assumes "rt_serial_rx_enable n (Some pool) blocking dma = Inr (Rx_opened s0)" "8 dvd n" "n < 65536" "max 64 n \<le> length pool" "with_room es s0"
  shows "\<exists>s q p. line_run es s0 = Inr s \<and> port_holds s q p \<and> received s @ q @ p = wire_bytes es \<and> (reader s = On_sem \<longrightarrow> q = [])"
proof -
  note o = opened_ok [OF assms(1-4)]
  obtain s q p where s: "line_run es s0 = Inr s" "port_holds s q p" "waits_well s q" "received s @ q @ p = wire_bytes es"
    using line_run_ok [OF o(1-3) assms(5)] o(4) by auto
  moreover have "reader s = On_sem \<longrightarrow> q = []" using s(3) by (cases "rx_blocking s") (auto simp: waits_well_def)
  ultimately show ?thesis by blast
qed

text \<open>
  C5: as long as every byte finds room in the FIFO (and DMA does not go round the whole pool between two of its interrupts), the reading thread gets
  the bytes of the wire in their order, none lost and none twice: at any moment those it has handed on, then those in the FIFO, then those DMA has stored but
  not announced are exactly the bytes that have arrived. A thread that sleeps on the semaphore has left nothing in the FIFO.
\<close>
theorem serial_delivers_in_order:
  assumes "rt_serial_rx_enable n (Some pool) blocking dma = Inr (Rx_opened s0)" "8 dvd n" "n < 65536" "max 64 n \<le> length pool" "with_room es s0"
  shows "\<exists>s q p. line_run es s0 = Inr s \<and> port_holds s q p \<and> received s @ q @ p = wire_bytes es \<and> (reader s = On_sem \<longrightarrow> q = [])"
  using assms by (rule port_in_order)


lemma port_drains:
  assumes "rt_serial_rx_enable n (Some pool) False dma = Inr (Rx_opened s0)" "8 dvd n" "n < 65536" "max 64 n \<le> length pool" "with_room es s0"
    "length (wire_bytes es) < k"
  shows "\<exists>s. line_run (es @ Dma_isr # replicate k Thread) s0 = Inr s \<and> received s = wire_bytes es"
proof -
  note o = opened_ok [OF assms(1-4)]
  obtain s q p where s: "line_run es s0 = Inr s" "port_ok s" "port_holds s q p" "waits_well s q" "received s @ q @ p = wire_bytes es"
    using line_run_ok [OF o(1-3) assms(5)] o(4) by auto
  have nb: "\<not> rx_blocking s" using config_run [OF s(1)] o(5) by simp
  obtain s1 where s1: "line_step Dma_isr s = Inr s1" "port_holds s1 (q @ p) []" "waits_well s1 (q @ p)" "received s1 = received s"
  proof (cases "dma_rx s")
    case True
    show ?thesis by (rule dma_recv_holds [OF s(2-4) True]) (use that True in \<open>simp add: line_step_def\<close>)
  next
    case False
    then have "p = []" using s(3) by (simp add: port_holds_def)
    then show ?thesis using that [of s] s(3,4) False by (simp add: line_step_def)
  qed
  have ok: "port_ok s1" using port_ok_step [OF s(2), of Dma_isr] s1(1) by auto
  have "length (q @ p) \<le> length (wire_bytes es)" by (simp flip: s(5))
  then have "length (q @ p) + (if reader s1 = Read_byte then 0 else 1) \<le> k" using assms(6) by simp
  moreover have "\<not> rx_blocking s1" using nb config_step [OF s1(1)] by simp
  ultimately obtain s2 where "line_run (replicate k Thread) s1 = Inr s2" "received s2 = received s1 @ q @ p"
    using drain [OF ok s1(2,3), of k] by blast
  then show ?thesis using s(1,5) s1(1,4) by (simp add: line_run_append)
qed

text \<open>
  C7: nothing is left behind. When the bytes of the wire have found room, then after the next DMA interrupt the thread of a non-blocking
  port has got all of them after at most one step more than there are bytes, wherever it was and even if it was asleep.
\<close>
theorem serial_port_drains:
  assumes "rt_serial_rx_enable n (Some pool) False dma = Inr (Rx_opened s0)" "8 dvd n" "n < 65536" "max 64 n \<le> length pool" "with_room es s0"
    "length (wire_bytes es) < k"
  shows "\<exists>s. line_run (es @ Dma_isr # replicate k Thread) s0 = Inr s \<and> received s = wire_bytes es"
  using assms by (rule port_drains)

text \<open>An interrupt with data: the receive interrupt, or that of a DMA channel that has stored something.\<close>

definition announces :: "line_event \<Rightarrow> serial_port \<Rightarrow> bool" where
  "announces e s \<longleftrightarrow> (case e of Wire c \<Rightarrow> \<not> dma_rx s | Dma_isr \<Rightarrow> dma_rx s \<and> 0 < dma_recv_len s | Thread \<Rightarrow> False)"

lemma announces_ok:
  assumes "port_ok s" "announces e s"
  obtains s' q where "line_step e s = Inr s'" "ring_holds (rb (serial_rx s')) (rx_bufsz s') q" "waits_well s' q" "q \<noteq> []"
    "reader s' \<notin> {On_sem, On_completion}"
proof -
  obtain q where q: "ring_holds (rb (serial_rx s)) (rx_bufsz s) q" "waits_well s q" using assms by (auto simp: port_ok_def)
  show ?thesis
  proof (cases e)
    case (Wire c)
    have ne: "(if length q < rx_bufsz s then q @ [c] else q) \<noteq> []" using q(1) by (auto simp: ring_holds_def)
    show ?thesis
      by (rule uart_isr_any [OF q, of c]) (rule that; use Wire assms(2) ne in \<open>simp add: line_step_def announces_def\<close>)
  next
    case Dma_isr
    have n: "0 < dma_recv_len s" "dma_rx s" using assms(2) by (simp_all add: Dma_isr announces_def)
    define d where "d = win (rx_bufsz s) (buffer_ptr (rb (serial_rx s))) (nat (write_index (rb (serial_rx s)))) (min (rx_bufsz s - length q) (dma_recv_len s))"
    have "0 < length (q @ d)" using n(1) q(1) by (cases q) (auto simp: ring_holds_def d_def)
    then have ne: "q @ d \<noteq> []" by (rule length_greater_0_conv [THEN iffD1])
    show ?thesis
    proof (rule dma_recv_any [OF assms(1) q], fold d_def)
      fix t
      assume t: "dma_recv_isr s = t" "ring_holds (rb (serial_rx t)) (rx_bufsz s) (q @ d)" "waits_well t (q @ d)" "rx_bufsz t = rx_bufsz s"
        "0 < dma_recv_len s \<Longrightarrow> q @ d \<noteq> [] \<Longrightarrow> reader t \<notin> {On_sem, On_completion}"
      show thesis
      proof (rule that)
        show "line_step e s = Inr t" using n(2) t(1) by (simp add: Dma_isr line_step_def)
        show "ring_holds (rb (serial_rx t)) (rx_bufsz t) (q @ d)" using t(2,4) by simp
        show "reader t \<notin> {On_sem, On_completion}" by (rule t(5) [OF n(1) ne])
      qed (fact t(3) ne)+
    qed
  qed (use assms(2) in \<open>simp add: announces_def\<close>)
qed

text \<open>
  C39: an interrupt with data leaves no reader asleep. Whatever has happened on an opened port, after an interrupt that announces a byte the
  FIFO is not empty and the reading thread is suspended neither on the semaphore of its callback nor on the completion of a blocking read.
\<close>
theorem interrupt_wakes_reader:
  assumes "rt_serial_rx_enable n (Some pool) blocking dma = Inr (Rx_opened s0)" "8 dvd n" "n < 65536" "max 64 n \<le> length pool"
    "line_run es s0 = Inr s" "announces e s"
  shows "\<exists>s'. line_step e s = Inr s' \<and> 0 < rt_ringbuffer_data_len (rb (serial_rx s')) \<and> reader s' \<notin> {On_sem, On_completion}"
proof -
  have ok: "port_ok s" using port_ok_run [OF opened_ok(1) [OF assms(1-4)], of es] assms(5) by auto
  obtain s' q where "line_step e s = Inr s'" "ring_holds (rb (serial_rx s')) (rx_bufsz s') q" "q \<noteq> []" "reader s' \<notin> {On_sem, On_completion}"
    by (rule announces_ok [OF ok assms(6)]) blast
  moreover from this have "0 < rt_ringbuffer_data_len (rb (serial_rx s'))" by (simp add: ring_lens(1))
  ultimately show ?thesis by blast
qed

text \<open>
  How far the write index is behind the place where DMA has stored the bytes it has announced, and how many of its bytes the next interrupt
  drops because the FIFO is full.
\<close>

definition dma_lag :: "serial_port \<Rightarrow> int" where
  "dma_lag s = (int (rx_bufsz s) - int (remaining_cnt s) - write_index (rb (serial_rx s))) mod int (rx_bufsz s)"

definition dma_dropped :: "serial_port \<Rightarrow> int" where
  "dma_dropped s = max 0 (int (dma_recv_len s) - rt_ringbuffer_space_len (rb (serial_rx s)))"

lemma lag_step:
  assumes "port_ok s" "dma_rx s" "line_step e s = Inr s'"
  shows "dma_lag s' = (dma_lag s + (if e = Dma_isr then dma_dropped s else 0)) mod int (rx_bufsz s)"
proof -
  obtain q where q: "ring_holds (rb (serial_rx s)) (rx_bufsz s) q" "waits_well s q" using assms(1) by (auto simp: port_ok_def)
  let ?N = "rx_bufsz s"
  have N: "rx_bufsz s' = ?N" using config_step [OF assms(3)] by simp
  show ?thesis
  proof (cases e)
    case (Wire c)
    then have "write_index (rb (serial_rx s')) = write_index (rb (serial_rx s)) \<and> remaining_cnt s' = remaining_cnt s"
      using assms(2,3) by (auto simp: line_step_def dma_store_def)
    then show ?thesis using N by (simp add: dma_lag_def Wire)
  next
    case Thread
    obtain t where "reader_step s = Inr t" "same_port t s" by (rule reader_step_ok [OF q]) blast
    then have "same_port s' s" using assms(3) by (simp add: Thread line_step_def)
    then show ?thesis using N by (simp add: dma_lag_def Thread same_port_def)
  next
    case Dma_isr
    obtain w where w: "w < ?N" "write_index (rb (serial_rx s)) = int w" using q(1) by (rule ring_indices)
    let ?m = "min (?N - length q) (dma_recv_len s)"
    obtain t w' where t: "dma_recv_isr s = t" "w' < ?N" "write_index (rb (serial_rx t)) = int w'" "w' = (w + ?m) mod ?N" "remaining_cnt t = dma_counter s"
    proof (rule dma_recv_any [OF assms(1) q])
      fix t d
      assume "dma_recv_isr s = t" "ring_holds (rb (serial_rx t)) ?N (q @ d)"
        "nat (write_index (rb (serial_rx t))) = (nat (write_index (rb (serial_rx s))) + ?m) mod ?N" "remaining_cnt t = dma_counter s"
      moreover from this(2) obtain w' where "w' < ?N" "write_index (rb (serial_rx t)) = int w'" by (rule ring_indices)
      ultimately show thesis using that [of t w'] w(2) by simp
    qed
    have s': "s' = t" using assms(2,3) t(1) by (simp add: Dma_isr line_step_def)
    have len: "length q \<le> ?N" using q(1) by (simp add: ring_holds_def)
    have d: "dma_dropped s = int (dma_recv_len s) - int ?m" unfolding dma_dropped_def ring_lens(2) [OF q(1)] using len by (simp add: min_def)
    have n: "\<exists>k :: int. int (dma_recv_len s) = int (remaining_cnt s) - int (dma_counter s) + k * int ?N"
    proof (cases "dma_counter s \<le> remaining_cnt s")
      case True
      then show ?thesis by (intro exI [of _ 0]) (simp add: dma_recv_len_def)
    next
      case False
      then show ?thesis using assms(1) by (intro exI [of _ 1]) (simp add: dma_recv_len_def port_ok_def)
    qed
    obtain k :: int where k: "int (dma_recv_len s) = int (remaining_cnt s) - int (dma_counter s) + k * int ?N" using n by blast
    define j where "j = int ((w + ?m) div ?N)"
    have "w + ?m = (w + ?m) div ?N * ?N + w'" unfolding t(4) by simp
    then have "int (w + ?m) = int ((w + ?m) div ?N * ?N + w')" by (rule arg_cong)
    then have j: "int w' = int w + int ?m - j * int ?N" unfolding j_def of_nat_add of_nat_mult by linarith
    have e: "int ?N - int (dma_counter s) - int w' = (int ?N - int (remaining_cnt s) - int w + dma_dropped s) + (j - k) * int ?N"
      unfolding d k j by (simp add: algebra_simps)
    have "rx_bufsz t = ?N" using N s' by simp
    then have "dma_lag t = (int ?N - int (remaining_cnt s) - int w + dma_dropped s) mod int ?N"
      unfolding dma_lag_def t(3,5) by (simp only: e mod_mult_self1)
    then show ?thesis unfolding s' dma_lag_def w(2) by (simp add: Dma_isr mod_add_left_eq)
  qed
qed

text \<open>
  C38: an overflow of the FIFO under DMA is never repaired. When the port is opened, the write index is where DMA has stored its last announced byte; every
  byte an interrupt drops for want of room puts the index one further behind (around the pool), and no byte, interrupt or read ever brings it
  back. From then on the thread is given, for each byte that arrives, one that was stored that many places before it.
\<close>
theorem dma_overflow_lags:
  assumes "rt_serial_rx_enable n (Some pool) blocking True = Inr (Rx_opened s0)" "8 dvd n" "n < 65536" "max 64 n \<le> length pool" "line_run es s0 = Inr s"
  shows "dma_lag s0 = 0 \<and> (\<exists>s'. line_step e s = Inr s' \<and>
    dma_lag s' = (dma_lag s + (if e = Dma_isr then dma_dropped s else 0)) mod int (max 64 n))"
proof -
  note o = opened_ok [OF assms(1-4)]
  have ok: "port_ok s" using port_ok_run [OF o(1), of es] assms(5) by auto
  have "write_index (rb (serial_rx s0)) = int w \<Longrightarrow> w < rx_bufsz s0 \<Longrightarrow> dma_lag s0 = 0" for w
    using o(2,6) by (auto simp: port_holds_def dma_lag_def)
  moreover obtain w where "w < rx_bufsz s0" "write_index (rb (serial_rx s0)) = int w"
    using o(2) unfolding port_holds_def by (auto elim!: ring_indices)
  moreover obtain s' where s': "line_step e s = Inr s'" using port_ok_step [OF ok, of e] by blast
  ultimately show ?thesis using lag_step [OF ok _ s'] config_run [OF assms(5)] o(6,7) by auto
qed

text \<open>An interrupt while no one waits leaves the thread where it is.\<close>

lemma isr_nobody_waits:
  assumes "rx_cpt_index (serial_rx s) = 0" "\<not> sem_waits (rx_sem s)"
  shows "reader (rt_hw_serial_isr_rx n s) = reader s \<and> rx_cpt (serial_rx (rt_hw_serial_isr_rx n s)) = rx_cpt (serial_rx s) \<and>
    rx_cpt_index (serial_rx (rt_hw_serial_isr_rx n s)) = 0"
  using assms by (simp add: rt_hw_serial_isr_rx_def Let_def rt_sem_release_def)

lemma announced_unnoticed:
  assumes "announces e s" "line_step e s = Inr s'" "rx_cpt_index (serial_rx s) = 0" "\<not> sem_waits (rx_sem s)"
  shows "reader s' = reader s \<and> rx_cpt (serial_rx s') = rx_cpt (serial_rx s)"
proof (cases e)
  case (Wire c)
  then show ?thesis using assms isr_nobody_waits by (auto simp: announces_def line_step_def uart_isr_rx_def)
next
  case Dma_isr
  then show ?thesis using assms isr_nobody_waits by (auto simp: announces_def line_step_def dma_recv_isr_def Let_def)
qed (use assms(1) in \<open>simp add: announces_def\<close>)

lemma isr_reader: "\<not> sem_waits (rx_sem s) \<Longrightarrow> reader (rt_hw_serial_isr_rx n s) \<in> {Resumed, reader s}"
  by (simp add: rt_hw_serial_isr_rx_def Let_def rt_sem_release_def split: prod.splits)

lemma announced_reader:
  assumes "announces e s" "line_step e s = Inr s'" "\<not> sem_waits (rx_sem s)"
  shows "reader s' \<in> {Resumed, reader s}"
proof (cases e)
  case (Wire c)
  then obtain b where "s' = rt_hw_serial_isr_rx 0 (s\<lparr>serial_rx := (serial_rx s)\<lparr>rb := b\<rparr>\<rparr>)"
    using assms(1,2) by (auto simp: announces_def line_step_def uart_isr_rx_def)
  then show ?thesis using assms(3) isr_reader [of "s\<lparr>serial_rx := (serial_rx s)\<lparr>rb := b\<rparr>\<rparr>" 0] by simp
next
  case Dma_isr
  then have "s' = rt_hw_serial_isr_rx (dma_recv_len s) (s\<lparr>remaining_cnt := dma_counter s\<rparr>)"
    using assms(1,2) by (simp add: announces_def line_step_def dma_recv_isr_def Let_def)
  then show ?thesis using assms(3) isr_reader [of "s\<lparr>remaining_cnt := dma_counter s\<rparr>" "dma_recv_len s"] by simp
qed (use assms(1) in \<open>simp add: announces_def\<close>)

text \<open>
  C40: a blocking read can miss the byte it waits for. When an interrupt announces a byte after the read has found the FIFO empty and before it has
  written down how many bytes it wants, the thread then suspends itself although a byte is there, and stays suspended until the next
  interrupt with data, which wakes it.
\<close>
theorem blocking_read_misses_byte:
  assumes "rt_serial_rx_enable n (Some pool) True dma = Inr (Rx_opened s0)" "8 dvd n" "n < 65536" "max 64 n \<le> length pool"
    "line_run es s0 = Inr s" "reader s = Too_few" "announces e s"
  shows "\<exists>s'. line_run [e, Thread, Thread] s = Inr s' \<and> reader s' = On_completion \<and> 0 < rt_ringbuffer_data_len (rb (serial_rx s')) \<and>
    line_run (replicate k Thread) s' = Inr s' \<and>
    (\<forall>f. announces f s' \<longrightarrow> (\<exists>s''. line_step f s' = Inr s'' \<and> reader s'' = Resumed))"
proof -
  have ok: "port_ok s" using port_ok_run [OF opened_ok(1) [OF assms(1-4)], of es] assms(5) by auto
  have bl: "rx_blocking s" using config_run [OF assms(5)] opened_ok(5) [OF assms(1-4)] by simp
  obtain q where "waits_well s q" using ok by (auto simp: port_ok_def)
  then have w: "rx_cpt_index (serial_rx s) = 0" "\<not> sem_waits (rx_sem s)" "\<not> cpt_done (rx_cpt (serial_rx s))"
    using assms(6) bl by (auto simp: waits_well_def)
  obtain s1 q1 where s1: "line_step e s = Inr s1" "ring_holds (rb (serial_rx s1)) (rx_bufsz s1) q1" "waits_well s1 q1" "q1 \<noteq> []"
    by (rule announces_ok [OF ok assms(7)]) blast
  have r1: "reader s1 = Too_few" "\<not> cpt_done (rx_cpt (serial_rx s1))"
    using announced_unnoticed [OF assms(7) s1(1) w(1,2)] assms(6) w(3) by simp_all
  define s' where "s' = s1\<lparr>serial_rx := (serial_rx s1)\<lparr>rx_cpt_index := 1, rx_cpt := (rx_cpt (serial_rx s1))\<lparr>cpt_waits := True\<rparr>\<rparr>, reader := On_completion\<rparr>"
  have run: "line_run [Thread, Thread] s1 = Inr s'"
    using r1 by (simp add: line_step_def reader_step_def rt_completion_wait_def s'_def)
  have full: "0 < rt_ringbuffer_data_len (rb (serial_rx s'))" using s1(2,4) by (simp add: s'_def ring_lens(1))
  have "line_step Thread s' = Inr s'" by (simp add: line_step_def reader_step_def s'_def)
  then have stay: "line_run (replicate k Thread) s' = Inr s'" by (induction k) simp_all
  have all: "line_run [e, Thread, Thread] s = Inr s'" using s1(1) run by (simp del: cbind_eq_Inr)
  obtain x where "line_run [e, Thread, Thread] s = Inr x" "port_ok x" using port_ok_run [OF ok] by blast
  then have ok': "port_ok s'" using all by (simp del: cbind_eq_Inr)
  have bl': "rx_blocking s'" using config_run [OF all] bl by simp
  have "\<exists>s''. line_step f s' = Inr s'' \<and> reader s'' = Resumed" if f: "announces f s'" for f
  proof -
    obtain s2 q2 where s2: "line_step f s' = Inr s2" "ring_holds (rb (serial_rx s2)) (rx_bufsz s2) q2" "waits_well s2 q2" "q2 \<noteq> []"
      "reader s2 \<notin> {On_sem, On_completion}"
      by (rule announces_ok [OF ok' f]) blast
    have "\<not> sem_waits (rx_sem s')" using s1(3) r1(1) by (auto simp: waits_well_def s'_def)
    then have "reader s2 \<in> {Resumed, On_completion}"
      using announced_reader [OF f s2(1)] by (simp add: s'_def)
    then show ?thesis using s2(1,5) by auto
  qed
  then show ?thesis using all full stay by (intro exI [of _ s'] conjI) (simp_all add: s'_def del: cbind_eq_Inr)
qed

section \<open>Witnesses\<close>

text \<open>A port of 64 bytes as it is opened.\<close>

definition port0 :: "bool \<Rightarrow> bool \<Rightarrow> serial_port" where
  "port0 blocking dma =
     \<lparr>serial_rx = \<lparr>rb = \<lparr>buffer_ptr = replicate 64 0, read_mirror = False, read_index = 0, write_mirror = False, write_index = 0, buffer_size = 64\<rparr>,
        rx_cpt = rt_completion_init, rx_cpt_index = 0\<rparr>, rx_blocking = blocking, rx_indicate = False, dma_rx = dma,
      rx_bufsz = 64, dma_counter = 64, remaining_cnt = 64, rx_sem = \<lparr>sem_value = 0, sem_waits = False\<rparr>, reader = Setup, received = []\<rparr>"

lemma port0_opened: "rt_serial_rx_enable 64 (Some (replicate 64 0)) blocking dma = Inr (Rx_opened (port0 blocking dma))"
  by (simp add: rt_serial_rx_enable_def rt_ringbuffer_init_def port0_def)

theorem serial_port_never_faults_witness:
  "\<exists>s q. line_run (map Wire (replicate 100 7) @ [Dma_isr, Thread]) (port0 True True) = Inr s \<and> ring_holds (rb (serial_rx s)) 64 q \<and>
    reader s \<notin> {Take_sem, On_sem} \<and> (reader s \<in> {Resumed, Fetch} \<longrightarrow> q \<noteq> [])"
  using serial_port_never_faults [OF port0_opened [of True True], where es = "map Wire (replicate 100 7) @ [Dma_isr, Thread]"] by simp

lemma some_bytes_fit: "with_room [Thread, Thread, Thread, Wire 7, Wire 8, Dma_isr, Thread, Wire 9] (port0 False True)"
  by code_simp

theorem serial_delivers_in_order_witness:
  "\<exists>s q p. line_run [Thread, Thread, Thread, Wire 7, Wire 8, Dma_isr, Thread, Wire 9] (port0 False True) = Inr s \<and> port_holds s q p \<and>
    received s @ q @ p = [7, 8, 9] \<and> (reader s = On_sem \<longrightarrow> q = [])"
  using serial_delivers_in_order [OF port0_opened _ _ _ some_bytes_fit] by simp

theorem serial_port_drains_witness:
  "\<exists>s. line_run ([Thread, Thread, Thread, Wire 7, Wire 8, Dma_isr, Thread, Wire 9] @ Dma_isr # replicate 4 Thread) (port0 False True) = Inr s \<and>
    received s = [7, 8, 9]"
  using serial_port_drains [OF port0_opened _ _ _ some_bytes_fit, of 4] by simp

theorem interrupt_wakes_reader_witness:
  "\<exists>s s'. line_run [Thread, Thread, Thread, Wire 7] (port0 False True) = Inr s \<and> reader s = On_sem \<and>
    line_step Dma_isr s = Inr s' \<and> 0 < rt_ringbuffer_data_len (rb (serial_rx s')) \<and> reader s' \<notin> {On_sem, On_completion}"
proof -
  let ?es = "[Thread, Thread, Thread, Wire 7]"
  have r: "\<exists>s. line_run ?es (port0 False True) = Inr s \<and> reader s = On_sem \<and> announces Dma_isr s"
    by (simp add: port0_def line_step_def reader_step_def fetch_byte_def rt_ringbuffer_get_def rt_ringbuffer_data_len_def rt_ringbuffer_status_def
        rt_sem_take_def dma_store_def announces_def dma_recv_len_def)
  then obtain s where s: "line_run ?es (port0 False True) = Inr s" "reader s = On_sem" "announces Dma_isr s" by blast
  have "\<exists>s'. line_step Dma_isr s = Inr s' \<and> 0 < rt_ringbuffer_data_len (rb (serial_rx s')) \<and> reader s' \<notin> {On_sem, On_completion}"
    by (rule interrupt_wakes_reader [OF port0_opened _ _ _ s(1,3)]) simp_all
  then show ?thesis using s(1,2) by blast
qed

abbreviation "two_bursts \<equiv> map Wire (replicate 40 1) @ [Dma_isr] @ map Wire (replicate 40 2)"

lemma second_burst_overruns:
  "case line_run two_bursts (port0 False True) of Inl _ \<Rightarrow> False | Inr s \<Rightarrow> dma_lag s = 0 \<and> dma_dropped s = 16"
  by code_simp

theorem dma_overflow_lags_witness:
  "\<exists>s s'. line_run two_bursts (port0 False True) = Inr s \<and> line_step Dma_isr s = Inr s' \<and> dma_lag s = 0 \<and> dma_lag s' = 16"
proof -
  obtain s where s: "line_run two_bursts (port0 False True) = Inr s" "dma_lag s = 0" "dma_dropped s = 16"
    using second_burst_overruns by (auto split: sum.splits)
  have "\<exists>s'. line_step Dma_isr s = Inr s' \<and> dma_lag s' = (dma_lag s + (if Dma_isr = Dma_isr then dma_dropped s else 0)) mod int (max 64 64)"
    using dma_overflow_lags [OF port0_opened _ _ _ s(1), of Dma_isr] by simp
  then show ?thesis using s by auto
qed

lemma reads_too_few:
  "case line_run [Thread, Thread] (port0 True False) of Inl _ \<Rightarrow> False | Inr s \<Rightarrow> reader s = Too_few \<and> announces (Wire 7) s"
  by code_simp

theorem blocking_read_misses_byte_witness:
  "\<exists>s s'. line_run [Thread, Thread] (port0 True False) = Inr s \<and> line_run [Wire 7, Thread, Thread] s = Inr s' \<and> reader s' = On_completion \<and>
    0 < rt_ringbuffer_data_len (rb (serial_rx s')) \<and> line_run (replicate 5 Thread) s' = Inr s'"
proof -
  obtain s where s: "line_run [Thread, Thread] (port0 True False) = Inr s" "reader s = Too_few" "announces (Wire 7) s"
    using reads_too_few by (auto split: sum.splits simp del: line_run.simps)
  have "\<exists>s'. line_run [Wire 7, Thread, Thread] s = Inr s' \<and> reader s' = On_completion \<and> 0 < rt_ringbuffer_data_len (rb (serial_rx s')) \<and>
    line_run (replicate 5 Thread) s' = Inr s' \<and> (\<forall>f. announces f s' \<longrightarrow> (\<exists>s''. line_step f s' = Inr s'' \<and> reader s'' = Resumed))"
    by (rule blocking_read_misses_byte [OF port0_opened _ _ _ s]) simp_all
  then show ?thesis using s(1) by blast
qed

end
