(* ===== verification/SerialTx.thy ===== *)
theory SerialTx
  imports SerialPort
begin

text \<open>
  The sending side of a serial port as the build configures it: writes that block, over a ring buffer which the transmit
  interrupt empties. The writing thread of \<^verbatim>\<open>serial_v2.c\<close> and the interrupts of \<^verbatim>\<open>drv_usart_v2.c\<close> take turns in any order.
\<close>

section \<open>The port\<close>

record rt_serial_tx_fifo =
  tx_rb :: rt_ringbuffer
  put_size :: nat
  activated :: bool
  tx_cpt :: rt_completion

text \<open>
  Where the writing thread is: between two calls, before the copy into the FIFO, before the call of the driver, before the wait, suspended
  in it, and resumed from it; with the caller's data, the offset and the size that is left.
\<close>

datatype writer_pc =
    No_write
  | Copy "u8 list" nat nat
  | Transmit "u8 list" nat nat
  | Tx_wait "u8 list" nat nat
  | On_tx "u8 list" nat nat
  | Tx_resumed "u8 list" nat nat

text \<open>
  The port: the FIFO, the two transmit interrupt enables, the bytes given to the data register so far, the thread, the writes it still has to do, and
  what its writes have returned.
\<close>

record tx_port =
  serial_tx :: rt_serial_tx_fifo
  txe_int :: bool
  tc_int :: bool
  sent :: "u8 list"
  writer :: writer_pc
  writes :: "u8 list list"
  returned :: "nat list"

section \<open>Interrupts\<close>

text \<open>\<^verbatim>\<open>stm32_transmit\<close> without DMA only enables the interrupt; the buffer it is given is not looked at.\<close>

definition stm32_transmit :: "tx_port \<Rightarrow> tx_port" where
  "stm32_transmit s = s\<lparr>txe_int := True\<rparr>"

definition rt_hw_serial_isr_tx :: "tx_port \<Rightarrow> tx_port" where
  "rt_hw_serial_isr_tx s =
     (if rt_ringbuffer_data_len (tx_rb (serial_tx s)) = 0
      then let (resumed, c) = rt_completion_done (tx_cpt (serial_tx s)) in
        s\<lparr>serial_tx := (serial_tx s)\<lparr>tx_cpt := c\<rparr>,
          writer := if resumed then (case writer s of On_tx d off n \<Rightarrow> Tx_resumed d off n | w \<Rightarrow> w) else writer s\<rparr>
      else stm32_transmit s)"

text \<open>
  The interrupt while the data register is empty (and the receiver has nothing): the next byte, or, when there is none, the switch to
  the interrupt at the end of the transmission. That one is only looked at when the first is disabled.
\<close>

definition uart_isr_txe :: "tx_port \<Rightarrow> tx_port cres" where
  "uart_isr_txe s =
     (if txe_int s then
        cbind (rt_ringbuffer_getchar (tx_rb (serial_tx s))) (\<lambda>(c, b).
        let s = s\<lparr>serial_tx := (serial_tx s)\<lparr>tx_rb := b\<rparr>\<rparr> in
        Inr (case c of Some c \<Rightarrow> s\<lparr>sent := sent s @ [c]\<rparr> | None \<Rightarrow> s\<lparr>txe_int := False, tc_int := True\<rparr>))
      else Inr s)"

definition uart_isr_tc :: "tx_port \<Rightarrow> tx_port" where
  "uart_isr_tc s = (if \<not> txe_int s \<and> tc_int s then rt_hw_serial_isr_tx (s\<lparr>tc_int := False\<rparr>) else s)"

section \<open>The writing thread\<close>

text \<open>The next step of \<^verbatim>\<open>_serial_fifo_tx_blocking_buf\<close>, called once for each of the writes; a suspended thread makes none.\<close>

definition writer_step :: "tx_port \<Rightarrow> tx_port cres" where
  "writer_step s =
     (case writer s of
        No_write \<Rightarrow>
          (case writes s of [] \<Rightarrow> Inr s
           | d # ds \<Rightarrow>
             (if d = [] \<or> activated (serial_tx s) then Inr (s\<lparr>writes := ds, returned := returned s @ [0]\<rparr>)
              else Inr (s\<lparr>writes := ds, serial_tx := (serial_tx s)\<lparr>activated := True\<rparr>, writer := Copy d 0 (length d)\<rparr>)))
      | Copy d off n \<Rightarrow>
          (if n = 0
           then Inr (s\<lparr>serial_tx := (serial_tx s)\<lparr>activated := False\<rparr>, writer := No_write, returned := returned s @ [length d]\<rparr>)
           else cbind (rt_ringbuffer_put (tx_rb (serial_tx s)) (drop off d) (of_nat n)) (\<lambda>(m, b).
             Inr (s\<lparr>serial_tx := (serial_tx s)\<lparr>tx_rb := b, put_size := nat m\<rparr>, writer := Transmit d off n\<rparr>)))
      | Transmit d off n \<Rightarrow>
          (let s = stm32_transmit s; m = put_size (serial_tx s) in Inr (s\<lparr>writer := Tx_wait d (off + m) (n - m)\<rparr>))
      | Tx_wait d off n \<Rightarrow>
          (let (over, c) = rt_completion_wait (tx_cpt (serial_tx s)) in
           Inr (s\<lparr>serial_tx := (serial_tx s)\<lparr>tx_cpt := c\<rparr>, writer := if over then Copy d off n else On_tx d off n\<rparr>))
      | On_tx d off n \<Rightarrow> Inr s
      | Tx_resumed d off n \<Rightarrow> Inr (s\<lparr>serial_tx := (serial_tx s)\<lparr>tx_cpt := rt_completion_init\<rparr>, writer := Copy d off n\<rparr>))"

datatype tx_event = Txe | Tc | Writer

definition tx_step :: "tx_event \<Rightarrow> tx_port \<Rightarrow> tx_port cres" where
  "tx_step e s = (case e of Txe \<Rightarrow> uart_isr_txe s | Tc \<Rightarrow> Inr (uart_isr_tc s) | Writer \<Rightarrow> writer_step s)"

fun tx_run :: "tx_event list \<Rightarrow> tx_port \<Rightarrow> tx_port cres" where
  "tx_run [] s = Inr s"
| "tx_run (e # es) s = cbind (tx_step e s) (tx_run es)"

text \<open>
  \<^verbatim>\<open>rt_serial_tx_enable\<close> for blocking writes: without a buffer they are polled, by another write function, which is not modelled. A
  buffer has at least 64 bytes and is allocated; then the given writes are made.
\<close>

datatype tx_opened = Tx_opened tx_port | Tx_polled

definition rt_serial_tx_enable :: "nat \<Rightarrow> u8 list option \<Rightarrow> u8 list list \<Rightarrow> tx_opened cres" where
  "rt_serial_tx_enable bufsz pool ds =
     (if bufsz = 0 then Inr Tx_polled
      else let bufsz = (if bufsz < 64 then 64 else bufsz) in
      case pool of None \<Rightarrow> Inl Stuck
      | Some p \<Rightarrow> cbind (rt_ringbuffer_init p (int bufsz)) (\<lambda>b.
          Inr (Tx_opened \<lparr>serial_tx = \<lparr>tx_rb = b, put_size = 0, activated = False, tx_cpt = rt_completion_init\<rparr>, txe_int = False, tc_int = False,
               sent = [], writer = No_write, writes = ds, returned = []\<rparr>)))"

section \<open>Where the bytes are\<close>

text \<open>The bytes of the current write that are not in the FIFO yet, and the current write.\<close>

definition to_copy :: "tx_port \<Rightarrow> u8 list" where
  "to_copy s =
     (case writer s of No_write \<Rightarrow> [] | Copy d off n \<Rightarrow> drop off d | Transmit d off n \<Rightarrow> drop (off + put_size (serial_tx s)) d
      | Tx_wait d off n \<Rightarrow> drop off d | On_tx d off n \<Rightarrow> drop off d | Tx_resumed d off n \<Rightarrow> drop off d)"

definition writing :: "tx_port \<Rightarrow> u8 list list" where
  "writing s = (case writer s of No_write \<Rightarrow> [] | Copy d _ _ \<Rightarrow> [d] | Transmit d _ _ \<Rightarrow> [d] | Tx_wait d _ _ \<Rightarrow> [d] | On_tx d _ _ \<Rightarrow> [d] | Tx_resumed d _ _ \<Rightarrow> [d])"

definition quiet :: "tx_port \<Rightarrow> bool" where
  "quiet s \<longleftrightarrow> \<not> txe_int s \<and> \<not> tc_int s"

definition sending :: "tx_port \<Rightarrow> u8 list \<Rightarrow> bool" where
  "sending s q \<longleftrightarrow> \<not> cpt_done (tx_cpt (serial_tx s)) \<and> (if txe_int s then \<not> tc_int s else tc_int s \<and> q = [])"

text \<open>The FIFO of \<open>N\<close> bytes holds \<open>q\<close>, and the interrupts, the completion and the flag fit where the thread is.\<close>

definition tx_fits :: "tx_port \<Rightarrow> u8 list \<Rightarrow> bool" where
  "tx_fits s q \<longleftrightarrow>
     (case writer s of
        No_write \<Rightarrow> quiet s \<and> q = [] \<and> \<not> activated (serial_tx s) \<and> tx_cpt (serial_tx s) = rt_completion_init
      | Copy d off n \<Rightarrow> quiet s \<and> q = [] \<and> off + n = length d \<and> length d < 2 ^ 32 \<and> tx_cpt (serial_tx s) = rt_completion_init
      | Transmit d off n \<Rightarrow> quiet s \<and> q \<noteq> [] \<and> off + n = length d \<and> length d < 2 ^ 32 \<and> put_size (serial_tx s) = length q \<and> length q \<le> n \<and>
          tx_cpt (serial_tx s) = rt_completion_init
      | Tx_wait d off n \<Rightarrow> off + n = length d \<and> length d < 2 ^ 32 \<and> \<not> cpt_waits (tx_cpt (serial_tx s)) \<and>
          (sending s q \<or> cpt_done (tx_cpt (serial_tx s)) \<and> quiet s \<and> q = [])
      | On_tx d off n \<Rightarrow> off + n = length d \<and> length d < 2 ^ 32 \<and> cpt_waits (tx_cpt (serial_tx s)) \<and> sending s q
      | Tx_resumed d off n \<Rightarrow> off + n = length d \<and> length d < 2 ^ 32 \<and> quiet s \<and> q = [])"

definition tx_inv :: "nat \<Rightarrow> u8 list list \<Rightarrow> tx_port \<Rightarrow> u8 list \<Rightarrow> bool" where
  "tx_inv N ds s q \<longleftrightarrow> ring_holds (tx_rb (serial_tx s)) N q \<and> tx_fits s q \<and> (\<forall>d \<in> set (writes s). length d < 2 ^ 32) \<and>
     (\<exists>dd. ds = dd @ writing s @ writes s \<and> returned s = map length dd \<and> sent s @ q @ to_copy s = concat (dd @ writing s))"

text \<open>What is left to do, as a number that every step with an effect lowers.\<close>

definition tx_left :: "tx_port \<Rightarrow> u8 list \<Rightarrow> nat" where
  "tx_left s q = 2 * length (writes s) + 7 * length (concat (writes s)) + 7 * length (to_copy s) + length q +
     (case writer s of No_write \<Rightarrow> 0 | Copy d off n \<Rightarrow> 1 | Transmit d off n \<Rightarrow> 6 | Tx_wait d off n \<Rightarrow> 3 | On_tx d off n \<Rightarrow> 2 | Tx_resumed d off n \<Rightarrow> 2) +
     (if txe_int s then 2 else 0) + (if tc_int s then 1 else 0)"

lemma txe_ok:
  assumes "tx_inv N ds s q"
  obtains s' q' where "uart_isr_txe s = Inr s'" "tx_inv N ds s' q'" "if txe_int s then tx_left s' q' < tx_left s q else s' = s \<and> q' = q"
proof (cases "txe_int s")
  case False
  then show ?thesis using that [of s q] assms by (simp add: uart_isr_txe_def)
next
  case True
  have ring: "ring_holds (tx_rb (serial_tx s)) N q" using assms by (simp add: tx_inv_def)
  obtain b where b: "rt_ringbuffer_getchar (tx_rb (serial_tx s)) = Inr (if q = [] then None else Some (hd q), b)" "ring_holds b N (tl q)"
    using ring by (rule ring_getchar)
  let ?s = "s\<lparr>serial_tx := (serial_tx s)\<lparr>tx_rb := b\<rparr>\<rparr>"
  have w: "\<exists>d off n. writer s = Tx_wait d off n \<or> writer s = On_tx d off n"
    using assms True by (auto simp: tx_inv_def tx_fits_def quiet_def split: writer_pc.splits)
  show ?thesis
  proof (cases q)
    case Nil
    have "uart_isr_txe s = Inr (?s\<lparr>txe_int := False, tc_int := True\<rparr>)" using b(1) True Nil by (simp add: uart_isr_txe_def)
    moreover have "tx_inv N ds (?s\<lparr>txe_int := False, tc_int := True\<rparr>) []" using assms b(2) True Nil w
      by (auto simp: tx_inv_def tx_fits_def sending_def quiet_def to_copy_def writing_def)
    moreover have "tx_left (?s\<lparr>txe_int := False, tc_int := True\<rparr>) [] < tx_left s q" using w True Nil assms
      by (auto simp: tx_left_def to_copy_def tx_inv_def tx_fits_def sending_def quiet_def)
    ultimately show ?thesis using that True by simp
  next
    case (Cons c q')
    have "uart_isr_txe s = Inr (?s\<lparr>sent := sent s @ [c]\<rparr>)" using b(1) True Cons by (simp add: uart_isr_txe_def)
    moreover have "tx_inv N ds (?s\<lparr>sent := sent s @ [c]\<rparr>) q'" using assms b(2) True Cons w
      by (auto simp: tx_inv_def tx_fits_def sending_def quiet_def to_copy_def writing_def)
    moreover have "tx_left (?s\<lparr>sent := sent s @ [c]\<rparr>) q' < tx_left s q" using w Cons by (auto simp: tx_left_def to_copy_def)
    ultimately show ?thesis using that True by simp
  qed
qed

lemma tc_ok:
  assumes "tx_inv N ds s q"
  obtains "tx_inv N ds (uart_isr_tc s) q" "if \<not> txe_int s \<and> tc_int s then tx_left (uart_isr_tc s) q < tx_left s q else uart_isr_tc s = s"
proof (cases "\<not> txe_int s \<and> tc_int s")
  case False
  then have "uart_isr_tc s = s" by (auto simp: uart_isr_tc_def)
  then show ?thesis using that assms False by simp
next
  case True
  have w: "\<exists>d off n. writer s = Tx_wait d off n \<or> writer s = On_tx d off n"
    using assms True by (auto simp: tx_inv_def tx_fits_def quiet_def split: writer_pc.splits)
  then have q: "q = []" "\<not> cpt_done (tx_cpt (serial_tx s))" using assms True by (auto simp: tx_inv_def tx_fits_def sending_def quiet_def)
  have "rt_ringbuffer_data_len (tx_rb (serial_tx s)) = 0" using assms q(1) ring_lens(1) [of "tx_rb (serial_tx s)" N q] by (simp add: tx_inv_def)
  then have run: "uart_isr_tc s = s\<lparr>tc_int := False, serial_tx := (serial_tx s)\<lparr>tx_cpt := \<lparr>cpt_done = True, cpt_waits = False\<rparr>\<rparr>,
      writer := if cpt_waits (tx_cpt (serial_tx s)) then (case writer s of On_tx d off n \<Rightarrow> Tx_resumed d off n | w \<Rightarrow> w) else writer s\<rparr>"
    using True q by (simp add: uart_isr_tc_def rt_hw_serial_isr_tx_def rt_completion_done_def)
  have "tx_inv N ds (uart_isr_tc s) q" unfolding run using assms w True q
    by (auto simp: tx_inv_def tx_fits_def sending_def quiet_def to_copy_def writing_def)
  moreover have "tx_left (uart_isr_tc s) q < tx_left s q" unfolding run using w True q assms
    by (auto simp: tx_left_def to_copy_def tx_inv_def tx_fits_def)
  ultimately show ?thesis using that True by simp
qed

definition all_written :: "tx_port \<Rightarrow> bool" where
  "all_written s \<longleftrightarrow> writer s = No_write \<and> writes s = []"

lemma writer_ok:
  assumes "tx_inv N ds s q"
  obtains s' q' where "writer_step s = Inr s'" "tx_inv N ds s' q'"
    "if all_written s \<or> (\<exists>d off n. writer s = On_tx d off n) then s' = s \<and> q' = q else tx_left s' q' < tx_left s q"
proof -
  have ring: "ring_holds (tx_rb (serial_tx s)) N q" and fits: "tx_fits s q" and short: "\<forall>d \<in> set (writes s). length d < 2 ^ 32"
    using assms by (simp_all add: tx_inv_def)
  obtain dd where dd: "ds = dd @ writing s @ writes s" "returned s = map length dd" "sent s @ q @ to_copy s = concat (dd @ writing s)"
    using assms by (auto simp: tx_inv_def)
  show ?thesis
  proof (cases "writer s")
    case No_write
    have h: "quiet s" "q = []" "\<not> activated (serial_tx s)" "tx_cpt (serial_tx s) = rt_completion_init"
      using fits No_write by (simp_all add: tx_fits_def)
    show ?thesis
    proof (cases "writes s")
      case Nil
      then show ?thesis using that [of s q] assms No_write by (simp add: writer_step_def all_written_def)
    next
      case (Cons d ds')
      show ?thesis
      proof (cases "d = []")
        case True
        let ?s = "s\<lparr>writes := ds', returned := returned s @ [0]\<rparr>"
        have "writer_step s = Inr ?s" using No_write Cons True by (simp add: writer_step_def)
        moreover have "tx_inv N ds ?s q" unfolding tx_inv_def
          using ring h short dd Cons No_write True
          by (auto simp: tx_fits_def quiet_def to_copy_def writing_def intro!: exI [of _ "dd @ [[]]"])
        moreover have "tx_left ?s q < tx_left s q" using No_write Cons by (simp add: tx_left_def to_copy_def)
        ultimately show ?thesis using that No_write Cons by (simp add: all_written_def)
      next
        case False
        let ?s = "s\<lparr>writes := ds', serial_tx := (serial_tx s)\<lparr>activated := True\<rparr>, writer := Copy d 0 (length d)\<rparr>"
        have "writer_step s = Inr ?s" using No_write Cons False h(3) by (simp add: writer_step_def)
        moreover have "tx_inv N ds ?s q" unfolding tx_inv_def
          using ring h short dd Cons No_write by (auto simp: tx_fits_def quiet_def to_copy_def writing_def intro!: exI [of _ dd])
        moreover have "tx_left ?s q < tx_left s q" using No_write Cons by (simp add: tx_left_def to_copy_def)
        ultimately show ?thesis using that No_write Cons by (simp add: all_written_def)
      qed
    qed
  next
    case (Copy d off n)
    have h: "quiet s" "q = []" "off + n = length d" "length d < 2 ^ 32" "tx_cpt (serial_tx s) = rt_completion_init"
      using fits Copy by (simp_all add: tx_fits_def)
    show ?thesis
    proof (cases "n = 0")
      case True
      let ?s = "s\<lparr>serial_tx := (serial_tx s)\<lparr>activated := False\<rparr>, writer := No_write, returned := returned s @ [length d]\<rparr>"
      have "writer_step s = Inr ?s" using Copy True by (simp add: writer_step_def)
      moreover have "tx_inv N ds ?s q" unfolding tx_inv_def
        using ring h short dd Copy True by (auto simp: tx_fits_def quiet_def to_copy_def writing_def intro!: exI [of _ "dd @ [d]"])
      moreover have "tx_left ?s q < tx_left s q" using Copy by (simp add: tx_left_def to_copy_def)
      ultimately show ?thesis using that Copy by (simp add: all_written_def)
    next
      case False
      let ?m = "min N n"
      have u: "unat (of_nat n :: u32) = n" using h(3,4) by simp
      have le: "unat (of_nat n :: u32) \<le> length (drop off d)" unfolding u using h(3) by simp
      obtain b where b: "rt_ringbuffer_put (tx_rb (serial_tx s)) (drop off d) (of_nat n) = Inr (int ?m, b)" "ring_holds b N (take ?m (drop off d))"
        using ring_put [OF ring le] unfolding u h(2) by auto
      have m: "0 < ?m" "?m \<le> n" using False ring by (auto simp: ring_holds_def)
      let ?s = "s\<lparr>serial_tx := (serial_tx s)\<lparr>tx_rb := b, put_size := ?m\<rparr>, writer := Transmit d off n\<rparr>" and ?q = "take ?m (drop off d)"
      have len: "length ?q = ?m" using m h(3) by simp
      have "writer_step s = Inr ?s" using Copy False b(1) by (simp add: writer_step_def)
      moreover have "?q \<noteq> []" using m h(3) False by auto
      then have "tx_fits ?s ?q" using h m len by (simp add: tx_fits_def quiet_def)
      moreover have "?q @ drop (off + ?m) d = drop off d" using append_take_drop_id [of ?m "drop off d"] by (simp add: add.commute)
      then have "tx_inv N ds ?s ?q" unfolding tx_inv_def using b(2) calculation(2) short dd Copy h(2)
        by (auto simp: to_copy_def writing_def intro!: exI [of _ dd])
      moreover have "length (drop off d) = n" "length (drop (off + ?m) d) = n - ?m" using h(3) by auto
      then have "tx_left ?s ?q + 7 * ?m = tx_left s q + ?m + 5" using Copy h(2) m(2) len by (simp add: tx_left_def to_copy_def)
      then have "tx_left ?s ?q < tx_left s q" using m(1) by linarith
      ultimately show ?thesis using that Copy by (simp add: all_written_def)
    qed
  next
    case (Transmit d off n)
    let ?m = "put_size (serial_tx s)"
    let ?s = "s\<lparr>txe_int := True, writer := Tx_wait d (off + ?m) (n - ?m)\<rparr>"
    have h: "quiet s" "q \<noteq> []" "off + n = length d" "length d < 2 ^ 32" "?m = length q" "length q \<le> n" "tx_cpt (serial_tx s) = rt_completion_init"
      using fits Transmit by (simp_all add: tx_fits_def)
    have "writer_step s = Inr ?s" using Transmit by (simp add: writer_step_def stm32_transmit_def Let_def)
    moreover have "tx_inv N ds ?s q" unfolding tx_inv_def
      using ring h short dd Transmit by (auto simp: tx_fits_def quiet_def sending_def to_copy_def writing_def rt_completion_init_def intro!: exI [of _ dd])
    moreover have "tx_left ?s q < tx_left s q" using Transmit h(1) by (simp add: tx_left_def to_copy_def quiet_def)
    ultimately show ?thesis using that Transmit by (simp add: all_written_def)
  next
    case (Tx_wait d off n)
    have h: "off + n = length d" "length d < 2 ^ 32" "\<not> cpt_waits (tx_cpt (serial_tx s))"
      "sending s q \<or> cpt_done (tx_cpt (serial_tx s)) \<and> quiet s \<and> q = []" using fits Tx_wait by (simp_all add: tx_fits_def)
    show ?thesis
    proof (cases "cpt_done (tx_cpt (serial_tx s))")
      case True
      let ?s = "s\<lparr>serial_tx := (serial_tx s)\<lparr>tx_cpt := rt_completion_init\<rparr>, writer := Copy d off n\<rparr>"
      have "writer_step s = Inr ?s" using Tx_wait True by (simp add: writer_step_def rt_completion_wait_def)
      moreover have "tx_inv N ds ?s q" unfolding tx_inv_def
        using ring h short dd Tx_wait True by (auto simp: tx_fits_def quiet_def sending_def to_copy_def writing_def intro!: exI [of _ dd])
      moreover have "tx_left ?s q < tx_left s q" using Tx_wait by (simp add: tx_left_def to_copy_def)
      ultimately show ?thesis using that Tx_wait by (simp add: all_written_def)
    next
      case False
      let ?s = "s\<lparr>serial_tx := (serial_tx s)\<lparr>tx_cpt := (tx_cpt (serial_tx s))\<lparr>cpt_waits := True\<rparr>\<rparr>, writer := On_tx d off n\<rparr>"
      have "writer_step s = Inr ?s" using Tx_wait False by (simp add: writer_step_def rt_completion_wait_def)
      moreover have "tx_inv N ds ?s q" unfolding tx_inv_def
        using ring h short dd Tx_wait False by (auto simp: tx_fits_def sending_def to_copy_def writing_def intro!: exI [of _ dd])
      moreover have "tx_left ?s q < tx_left s q" using Tx_wait by (simp add: tx_left_def to_copy_def)
      ultimately show ?thesis using that Tx_wait by (simp add: all_written_def)
    qed
  next
    case (On_tx d off n)
    then show ?thesis using that [of s q] assms by (simp add: writer_step_def)
  next
    case (Tx_resumed d off n)
    let ?s = "s\<lparr>serial_tx := (serial_tx s)\<lparr>tx_cpt := rt_completion_init\<rparr>, writer := Copy d off n\<rparr>"
    have "writer_step s = Inr ?s" using Tx_resumed by (simp add: writer_step_def)
    moreover have "tx_inv N ds ?s q" unfolding tx_inv_def
      using ring fits short dd Tx_resumed by (auto simp: tx_fits_def quiet_def to_copy_def writing_def intro!: exI [of _ dd])
    moreover have "tx_left ?s q < tx_left s q" using Tx_resumed by (simp add: tx_left_def to_copy_def)
    ultimately show ?thesis using that Tx_resumed by (simp add: all_written_def)
  qed
qed

lemma tx_step_ok:
  assumes "tx_inv N ds s q"
  obtains s' q' where "tx_step e s = Inr s'" "tx_inv N ds s' q'" "s' = s \<and> q' = q \<or> tx_left s' q' < tx_left s q"
proof (cases e)
  case Txe
  obtain s' q' where "uart_isr_txe s = Inr s'" "tx_inv N ds s' q'" "if txe_int s then tx_left s' q' < tx_left s q else s' = s \<and> q' = q"
    using assms by (rule txe_ok)
  then show ?thesis by (intro that [of s' q']) (auto simp: Txe tx_step_def split: if_splits)
next
  case Tc
  have "tx_inv N ds (uart_isr_tc s) q \<and> (uart_isr_tc s = s \<or> tx_left (uart_isr_tc s) q < tx_left s q)"
    by (rule tc_ok [OF assms]) (auto split: if_splits)
  then show ?thesis by (intro that [of "uart_isr_tc s" q]) (auto simp: Tc tx_step_def)
next
  case Writer
  obtain s' q' where "writer_step s = Inr s'" "tx_inv N ds s' q'"
    "if all_written s \<or> (\<exists>d off n. writer s = On_tx d off n) then s' = s \<and> q' = q else tx_left s' q' < tx_left s q"
    using assms by (rule writer_ok)
  then show ?thesis by (intro that [of s' q']) (auto simp: Writer tx_step_def split: if_splits)
qed

lemma tx_run_ok:
  assumes "tx_inv N ds s q"
  obtains s' q' where "tx_run es s = Inr s'" "tx_inv N ds s' q'" "tx_left s' q' \<le> tx_left s q"
proof -
  have "\<exists>s' q'. tx_run es s = Inr s' \<and> tx_inv N ds s' q' \<and> tx_left s' q' \<le> tx_left s q" using assms
  proof (induction es arbitrary: s q)
    case (Cons e es)
    obtain s1 q1 where s1: "tx_step e s = Inr s1" "tx_inv N ds s1 q1" "s1 = s \<and> q1 = q \<or> tx_left s1 q1 < tx_left s q"
      using Cons.prems by (rule tx_step_ok)
    obtain s' q' where "tx_run es s1 = Inr s'" "tx_inv N ds s' q'" "tx_left s' q' \<le> tx_left s1 q1" using Cons.IH [OF s1(2)] by blast
    then show ?case using s1(1,3) by (intro exI [of _ s'] exI [of _ q']) auto
  qed auto
  then show ?thesis using that by blast
qed

lemma tx_run_append: "tx_run (es @ fs) s = cbind (tx_run es s) (tx_run fs)"
proof (induction es arbitrary: s)
  case (Cons e es)
  then show ?case by (cases "tx_step e s") simp_all
qed simp

text \<open>A round in which the thread and both interrupts get their turn makes progress.\<close>

lemma tx_round:
  assumes "tx_inv N ds s q" "\<not> all_written s"
  obtains s' q' where "tx_run [Writer, Txe, Tc] s = Inr s'" "tx_inv N ds s' q'" "tx_left s' q' < tx_left s q"
proof -
  obtain s1 q1 where s1: "writer_step s = Inr s1" "tx_inv N ds s1 q1"
    "if all_written s \<or> (\<exists>d off n. writer s = On_tx d off n) then s1 = s \<and> q1 = q else tx_left s1 q1 < tx_left s q"
    using assms(1) by (rule writer_ok)
  obtain s2 q2 where s2: "uart_isr_txe s1 = Inr s2" "tx_inv N ds s2 q2" "if txe_int s1 then tx_left s2 q2 < tx_left s1 q1 else s2 = s1 \<and> q2 = q1"
    using s1(2) by (rule txe_ok)
  obtain s3 where s3: "uart_isr_tc s2 = s3" "tx_inv N ds s3 q2"
    "if \<not> txe_int s2 \<and> tc_int s2 then tx_left s3 q2 < tx_left s2 q2 else s3 = s2"
    by (rule tc_ok [OF s2(2)]) blast
  have run: "tx_run [Writer, Txe, Tc] s = Inr s3" using s1(1) s2(1) s3(1) by (simp add: tx_step_def)
  have "tx_left s3 q2 < tx_left s q"
  proof (cases "\<exists>d off n. writer s = On_tx d off n")
    case False
    then have "tx_left s1 q1 < tx_left s q" using s1(3) assms(2) by simp
    moreover have "tx_left s2 q2 \<le> tx_left s1 q1" using s2(3) by (auto split: if_splits)
    moreover have "tx_left s3 q2 \<le> tx_left s2 q2" using s3(3) by (auto split: if_splits)
    ultimately show ?thesis by simp
  next
    case True
    then have same: "s1 = s" "q1 = q" using s1(3) by simp_all
    have "txe_int s \<or> \<not> txe_int s \<and> tc_int s" using True assms(1) by (auto simp: tx_inv_def tx_fits_def sending_def split: if_splits)
    then show ?thesis using s2(3) s3(3) unfolding same by (auto split: if_splits)
  qed
  then show ?thesis using that run s3(2) by blast
qed

lemma tx_rounds:
  assumes "tx_inv N ds s q" "tx_left s q \<le> k"
  shows "\<exists>s' q'. tx_run (concat (replicate k [Writer, Txe, Tc])) s = Inr s' \<and> tx_inv N ds s' q' \<and> all_written s'"
  using assms
proof (induction k arbitrary: s q)
  case 0
  have "all_written s"
  proof (rule ccontr)
    assume "\<not> all_written s"
    with "0.prems"(1) obtain s' q' where "tx_run [Writer, Txe, Tc] s = Inr s'" "tx_inv N ds s' q'" "tx_left s' q' < tx_left s q" by (rule tx_round)
    then show False using "0.prems"(2) by simp
  qed
  then show ?case using "0.prems"(1) by auto
next
  case (Suc k)
  have "\<exists>s1 q1. tx_run [Writer, Txe, Tc] s = Inr s1 \<and> tx_inv N ds s1 q1 \<and> tx_left s1 q1 \<le> k"
  proof (cases "all_written s")
    case True
    obtain s1 q1 where s1: "tx_run [Writer, Txe, Tc] s = Inr s1" "tx_inv N ds s1 q1" using Suc.prems(1) by (rule tx_run_ok)
    have idle: "writer s = No_write" "writes s = []" using True by (simp_all add: all_written_def)
    then have h: "\<not> txe_int s" "\<not> tc_int s" "q = []" using Suc.prems(1) by (auto simp: tx_inv_def tx_fits_def quiet_def)
    then have "tx_left s q = 0" using idle by (simp add: tx_left_def to_copy_def)
    moreover have "tx_run [Writer, Txe, Tc] s = Inr s" using h idle by (simp add: tx_step_def writer_step_def uart_isr_txe_def uart_isr_tc_def)
    ultimately show ?thesis using Suc.prems(1) by (intro exI [of _ s] exI [of _ q]) (simp del: tx_run.simps)
  next
    case False
    with Suc.prems(1) obtain s1 q1 where "tx_run [Writer, Txe, Tc] s = Inr s1" "tx_inv N ds s1 q1" "tx_left s1 q1 < tx_left s q"
      by (rule tx_round)
    then show ?thesis using Suc.prems(2) by (intro exI [of _ s1] exI [of _ q1]) simp
  qed
  then obtain s1 q1 where s1: "tx_run [Writer, Txe, Tc] s = Inr s1" "tx_inv N ds s1 q1" "tx_left s1 q1 \<le> k" by blast
  obtain s' q' where "tx_run (concat (replicate k [Writer, Txe, Tc])) s1 = Inr s'" "tx_inv N ds s' q'" "all_written s'"
    using Suc.IH [OF s1(2,3)] by blast
  moreover have "concat (replicate (Suc k) [Writer, Txe, Tc]) = [Writer, Txe, Tc] @ concat (replicate k [Writer, Txe, Tc])" by simp
  ultimately show ?case using s1(1) by (auto simp only: tx_run_append cbind.simps)
qed

lemma tx_opened:
  assumes "rt_serial_tx_enable n (Some pool) ds = Inr (Tx_opened s)" "n < 2 ^ 31" "max 64 n \<le> length pool" "\<forall>d \<in> set ds. length d < 2 ^ 32"
  shows "\<exists>N. tx_inv N ds s []" "tx_left s [] = 7 * length (concat ds) + 2 * length ds"
proof -
  let ?n = "max 64 n"
  have "8 \<le> int ?n" "int ?n < 2 ^ 31" "int ?n \<le> int (length pool)" using assms(2,3) by auto
  then obtain b where b: "rt_ringbuffer_init pool (int ?n) = Inr b" "ring_holds b (nat (int ?n - int ?n mod 8)) []"
    by (rule ring_init)
  have s: "s = \<lparr>serial_tx = \<lparr>tx_rb = b, put_size = 0, activated = False, tx_cpt = rt_completion_init\<rparr>, txe_int = False, tc_int = False,
               sent = [], writer = No_write, writes = ds, returned = []\<rparr>"
    using assms(1) b(1) by (simp add: rt_serial_tx_enable_def Let_def max_def split: if_splits)
  have "tx_inv (nat (int ?n - int ?n mod 8)) ds s []"
    using b(2) assms(4) by (simp add: s tx_inv_def tx_fits_def quiet_def to_copy_def writing_def)
  then show "\<exists>N. tx_inv N ds s []" by blast
  show "tx_left s [] = 7 * length (concat ds) + 2 * length ds" by (simp add: s tx_left_def to_copy_def)
qed

section \<open>Properties\<close>

text \<open>
  C13: whatever the order of the transmit interrupts and the steps of the thread, blocking writes send their bytes in order, each once,
  and never fault; and a write returns, with the number of its bytes, only after all of them have been given to the transmitter. At any moment the bytes
  sent, those in the FIFO and those the current write has not copied yet are the bytes of the writes begun so far.
\<close>
theorem serial_writes_in_order:
  assumes "rt_serial_tx_enable n (Some pool) ds = Inr (Tx_opened s0)" "n < 2 ^ 31" "max 64 n \<le> length pool" "\<forall>d \<in> set ds. length d < 2 ^ 32"
  shows "\<exists>s N q dd. tx_run es s0 = Inr s \<and> ring_holds (tx_rb (serial_tx s)) N q \<and> ds = dd @ writing s @ writes s \<and>
    returned s = map length dd \<and> sent s @ q @ to_copy s = concat (dd @ writing s) \<and> (writer s = No_write \<longrightarrow> sent s = concat dd)"
proof -
  obtain N where N: "tx_inv N ds s0 []" using tx_opened(1) [OF assms] by blast
  obtain s q where s: "tx_run es s0 = Inr s" "tx_inv N ds s q" using N by (rule tx_run_ok)
  obtain dd where dd: "ds = dd @ writing s @ writes s" "returned s = map length dd" "sent s @ q @ to_copy s = concat (dd @ writing s)"
    using s(2) by (auto simp: tx_inv_def)
  have "writer s = No_write \<longrightarrow> sent s = concat dd" using dd(3) s(2) by (auto simp: tx_inv_def tx_fits_def to_copy_def writing_def)
  then show ?thesis using s dd by (auto simp: tx_inv_def)
qed


lemma writes_end:
  assumes "rt_serial_tx_enable n (Some pool) ds = Inr (Tx_opened s0)" "n < 2 ^ 31" "max 64 n \<le> length pool" "\<forall>d \<in> set ds. length d < 2 ^ 32"
    "7 * length (concat ds) + 2 * length ds \<le> k"
  shows "\<exists>s. tx_run (es @ concat (replicate k [Writer, Txe, Tc])) s0 = Inr s \<and> sent s = concat ds \<and> returned s = map length ds \<and>
    writer s = No_write \<and> writes s = []"
proof -
  obtain N where N: "tx_inv N ds s0 []" using tx_opened(1) [OF assms(1-4)] by blast
  obtain s q where s: "tx_run es s0 = Inr s" "tx_inv N ds s q" "tx_left s q \<le> tx_left s0 []" using N by (rule tx_run_ok)
  then have "tx_left s q \<le> k" using assms(5) tx_opened(2) [OF assms(1-4)] by simp
  then obtain s' q' where s': "tx_run (concat (replicate k [Writer, Txe, Tc])) s = Inr s'" "tx_inv N ds s' q'" "all_written s'"
    using tx_rounds [OF s(2)] by blast
  then show ?thesis using s(1) by (auto simp: tx_run_append all_written_def tx_inv_def tx_fits_def to_copy_def writing_def)
qed

text \<open>
  C22: blocking writes end. After any beginning, as many rounds in which the thread and both transmit interrupts get their turn as there are 7 times the
  bytes and twice the writes bring every write to its end, with all bytes sent in order and its size returned: no wait for the completion is for ever.
\<close>
theorem serial_writes_end:
  assumes "rt_serial_tx_enable n (Some pool) ds = Inr (Tx_opened s0)" "n < 2 ^ 31" "max 64 n \<le> length pool" "\<forall>d \<in> set ds. length d < 2 ^ 32"
    "7 * length (concat ds) + 2 * length ds \<le> k"
  shows "\<exists>s. tx_run (es @ concat (replicate k [Writer, Txe, Tc])) s0 = Inr s \<and> sent s = concat ds \<and> returned s = map length ds \<and>
    writer s = No_write \<and> writes s = []"
  using assms by (rule writes_end)

lemma tx_pool_opened:
  "rt_serial_tx_enable 64 (Some (replicate 64 0)) [[1, 2], [], [3]] = Inr (Tx_opened
    \<lparr>serial_tx = \<lparr>tx_rb = \<lparr>buffer_ptr = replicate 64 0, read_mirror = False, read_index = 0, write_mirror = False, write_index = 0, buffer_size = 64\<rparr>,
      put_size = 0, activated = False, tx_cpt = rt_completion_init\<rparr>, txe_int = False, tc_int = False,
      sent = [], writer = No_write, writes = [[1, 2], [], [3]], returned = []\<rparr>)"
  by (simp add: rt_serial_tx_enable_def rt_ringbuffer_init_def)

theorem serial_writes_in_order_witness:
  "\<exists>s0 s N q dd. rt_serial_tx_enable 64 (Some (replicate 64 0)) [[1, 2], [], [3]] = Inr (Tx_opened s0) \<and>
    tx_run [Writer, Writer, Writer, Txe, Writer] s0 = Inr s \<and> ring_holds (tx_rb (serial_tx s)) N q \<and>
    [[1, 2], [], [3]] = dd @ writing s @ writes s \<and> sent s @ q @ to_copy s = concat (dd @ writing s)"
proof -
  have "\<forall>d \<in> set [[1, 2], [], [3 :: u8]]. length d < 2 ^ 32" by simp
  note w = serial_writes_in_order [OF tx_pool_opened _ _ this, of "[Writer, Writer, Writer, Txe, Writer]"]
  show ?thesis unfolding tx_pool_opened using w by (auto simp del: tx_run.simps)
qed

theorem serial_writes_end_witness:
  "\<exists>s0 s. rt_serial_tx_enable 64 (Some (replicate 64 0)) [[1, 2], [], [3]] = Inr (Tx_opened s0) \<and>
    tx_run ([Writer, Tc, Writer, Txe] @ concat (replicate 27 [Writer, Txe, Tc])) s0 = Inr s \<and> sent s = [1, 2, 3] \<and> returned s = [2, 0, 1]"
proof -
  have "\<forall>d \<in> set [[1, 2], [], [3 :: u8]]. length d < 2 ^ 32" by simp
  note w = serial_writes_end [OF tx_pool_opened _ _ this, of 27 "[Writer, Tc, Writer, Txe]"]
  show ?thesis unfolding tx_pool_opened using w by (auto simp del: tx_run.simps)
qed

end
