(* ===== verification/Receivers.thy ===== *)
theory Receivers
  imports Framing
begin

text \<open>
  Two small receivers: the remote control's \<open>ibus_in\<close> (\<^verbatim>\<open>bsp_sbus.c\<close>), which checks a 16 bit sum over
  32 byte packets of 14 channels, and the odometry module's \<open>Data_Analyse\<close> (\<^verbatim>\<open>drv_action.c\<close>), which
  takes 24 byte packets of six floats between fixed start and end bytes. For both: no fault, what a
  reported packet was on the wire, and that an encoded packet is received.
\<close>

section \<open>Remote control\<close>

record rc =
  new_pkg :: u8
  rc_buf :: "u8 list"
  chs :: "u16 list"
  flag :: u8

text \<open>The channels of a packet and the checksum over everything but its last two bytes.\<close>

definition ibus_channel :: "u8 list \<Rightarrow> nat \<Rightarrow> u16" where
  "ibus_channel buf i = mk16 (buf ! (i * 2 + 3)) (buf ! (i * 2 + 2))"

definition ibus_checksum :: "u8 list \<Rightarrow> u16" where
  "ibus_checksum buf =
     foldl (\<lambda>s i. s - ucast (buf ! (i * 2 + 3)) - ucast (buf ! (i * 2 + 2)))
       (0xffff - ucast (buf ! 0) - ucast (buf ! 1)) [0..<14]"

definition ibus_in :: "rc \<Rightarrow> u8 \<Rightarrow> rc cres" where
  "ibus_in rc data =
     (if flag rc = 0 \<and> data = 0x20 then
        cbind (wr (rc_buf rc) 0 data) (\<lambda>b. Inr (rc\<lparr>rc_buf := b, flag := 1\<rparr>))
      else if flag rc = 1 then
        (if data = 0x40 then cbind (wr (rc_buf rc) 1 data) (\<lambda>b. Inr (rc\<lparr>rc_buf := b, flag := 2\<rparr>))
         else Inr (rc\<lparr>flag := 0\<rparr>))
      else if 2 \<le> flag rc then
        cbind (wr (rc_buf rc) (unat (flag rc)) data) (\<lambda>b.
        let rc = rc\<lparr>rc_buf := b, flag := flag rc + 1\<rparr> in
        if 32 \<le> flag rc then
          cbind (rd_n b 32) (\<lambda>b.
          let checksum_cal = ibus_checksum b; checksum_ibus = mk16 (b ! 31) (b ! 30);
            rc = (if checksum_cal = checksum_ibus then rc\<lparr>chs := map (ibus_channel b) [0..<14]\<rparr> else rc)
          in Inr (rc\<lparr>new_pkg := 1, flag := 0\<rparr>))
        else Inr rc)
      else Inr rc)"

text \<open>For the interface of a receiver: a byte reports when it completes a packet.\<close>

definition ibus_step :: "rc \<Rightarrow> u8 \<Rightarrow> (rc \<times> bool) cres" where
  "ibus_step rc data = cbind (ibus_in rc data) (\<lambda>rc'. Inr (rc', flag rc = 31))"

definition ibus_T :: "rc \<Rightarrow> u8 list \<Rightarrow> bool" where
  "ibus_T rc m = (length (rc_buf rc) = 32 \<and> unat (flag rc) = length m \<and> length m < 32 \<and>
     take (length m) (rc_buf rc) = m \<and> (1 \<le> length m \<longrightarrow> m ! 0 = 0x20) \<and> (2 \<le> length m \<longrightarrow> m ! 1 = 0x40))"

definition ibus_valid :: "u8 list \<Rightarrow> bool" where
  "ibus_valid fr = (ibus_checksum fr = mk16 (fr ! 31) (fr ! 30))"

definition ibus_good :: "u8 list \<Rightarrow> rc \<Rightarrow> bool" where
  "ibus_good fr rc = (length fr = 32 \<and> fr ! 0 = 0x20 \<and> fr ! 1 = 0x40 \<and>
     (ibus_valid fr \<longrightarrow> chs rc = map (ibus_channel fr) [0..<14]) \<and> new_pkg rc = 1)"

lemma flag_cases:
  fixes f :: u8 assumes "unat f = n"
  shows "f = 0 \<longleftrightarrow> n = 0" "f = 1 \<longleftrightarrow> n = 1" "2 \<le> f \<longleftrightarrow> 2 \<le> n" "f = 31 \<longleftrightarrow> n = 31"
  using assms by (simp_all add: word_le_nat_alt word_unat_eq_iff)

lemma flag_inc:
  fixes f :: u8 assumes "unat f < 255"
  shows "unat (f + 1) = unat f + 1"
proof -
  have "unat (of_nat (unat f + 1) :: u8) = unat f + 1" using assms by (intro unat_u8_of_nat) simp
  then show ?thesis by (simp add: add.commute)
qed

lemma ibus_step_eq:
  assumes "ibus_T rc m"
  shows "m = [] \<Longrightarrow> ibus_step rc b =
      Inr (if b = 0x20 then rc\<lparr>rc_buf := (rc_buf rc)[0 := b], flag := 1\<rparr> else rc, False)"
    and "length m = 1 \<Longrightarrow> ibus_step rc b =
      Inr (if b = 0x40 then rc\<lparr>rc_buf := (rc_buf rc)[1 := b], flag := 2\<rparr> else rc\<lparr>flag := 0\<rparr>, False)"
    and "2 \<le> length m \<Longrightarrow> length m < 31 \<Longrightarrow> ibus_step rc b =
      Inr (rc\<lparr>rc_buf := (rc_buf rc)[length m := b], flag := flag rc + 1\<rparr>, False)"
    and "length m = 31 \<Longrightarrow> ibus_step rc b =
      Inr (rc\<lparr>rc_buf := m @ [b], chs := (if ibus_valid (m @ [b]) then map (ibus_channel (m @ [b])) [0..<14]
        else chs rc), new_pkg := 1, flag := 0\<rparr>, True)"
proof -
  have f: "unat (flag rc) = length m" "length (rc_buf rc) = 32" "take (length m) (rc_buf rc) = m" "length m < 32"
    using assms by (simp_all add: ibus_T_def)
  note c = flag_cases [OF f(1)]
  show "m = [] \<Longrightarrow> ibus_step rc b =
      Inr (if b = 0x20 then rc\<lparr>rc_buf := (rc_buf rc)[0 := b], flag := 1\<rparr> else rc, False)"
    using c f by (simp add: ibus_step_def ibus_in_def)
  show "length m = 1 \<Longrightarrow> ibus_step rc b =
      Inr (if b = 0x40 then rc\<lparr>rc_buf := (rc_buf rc)[1 := b], flag := 2\<rparr> else rc\<lparr>flag := 0\<rparr>, False)"
    using c f by (simp add: ibus_step_def ibus_in_def)
  have u: "unat (flag rc + 1) = length m + 1" using f flag_inc by simp
  then have g: "32 \<le> flag rc + 1 \<longleftrightarrow> length m = 31" using f(4) by (auto simp: word_le_nat_alt)
  show "2 \<le> length m \<Longrightarrow> length m < 31 \<Longrightarrow> ibus_step rc b =
      Inr (rc\<lparr>rc_buf := (rc_buf rc)[length m := b], flag := flag rc + 1\<rparr>, False)"
    using c f g by (simp add: ibus_step_def ibus_in_def Let_def)
  assume m: "length m = 31"
  have "(rc_buf rc)[31 := b] = m @ [b]" using f m full_update [of "rc_buf rc" 31 b] by simp
  then show "ibus_step rc b =
      Inr (rc\<lparr>rc_buf := m @ [b], chs := (if ibus_valid (m @ [b]) then map (ibus_channel (m @ [b])) [0..<14]
        else chs rc), new_pkg := 1, flag := 0\<rparr>, True)"
    using c f g m by (simp add: ibus_step_def ibus_in_def Let_def ibus_valid_def)
qed

lemma ex_not_reported: "\<exists>r. \<not> r \<and> (r \<longrightarrow> P)"
  by blast

interpretation ibus: tracker ibus_step ibus_T "\<lambda>r. r" ibus_good
proof (rule trackerI)
  fix s m b assume T: "ibus_T s m"
  then have f: "unat (flag s) = length m" "length (rc_buf s) = 32" "take (length m) (rc_buf s) = m" "length m < 32"
    "1 \<le> length m \<longrightarrow> m ! 0 = 0x20" "2 \<le> length m \<longrightarrow> m ! 1 = 0x40"
    by (simp_all add: ibus_T_def)
  have t: "take (Suc (length m)) ((rc_buf s)[length m := b]) = m @ [b]" using f by simp
  have u: "unat (flag s + 1) = length m + 1" using f flag_inc by simp
  consider "m = []" | "length m = 1" | "2 \<le> length m" "length m < 31" | "length m = 31"
    using f(4) by (cases m) (auto simp: Suc_le_eq, linarith)
  then show "\<exists>s' r. ibus_step s b = Inr (s', r) \<and> (ibus_T s' (m @ [b]) \<or> ibus_T s' []) \<and>
      (r \<longrightarrow> ibus_good (m @ [b]) s')"
  proof cases
    case 1
    then show ?thesis using ibus_step_eq(1) [OF T 1, of b] t f T
      by (cases "b = 0x20") (simp_all add: ibus_T_def ex_not_reported)
  next
    case 2
    then show ?thesis using ibus_step_eq(2) [OF T 2, of b] t f
      by (cases "b = 0x40") (simp_all add: ibus_T_def nth_append ex_not_reported)
  next
    case 3
    then have "m \<noteq> []" by auto
    with 3 show ?thesis using ibus_step_eq(3) [OF T 3, of b] t u f
      by (simp add: ibus_T_def nth_append ex_not_reported)
  next
    case 4
    then show ?thesis using ibus_step_eq(4) [OF T 4, of b] f
      by (auto simp: ibus_T_def ibus_good_def nth_append)
  qed
qed

lemma ibus_body:
  assumes "ibus_T rc m" "2 \<le> length m" "length m + length bs < 32"
  shows "\<exists>rc'. feed ibus_step rc bs = Inr (rc', replicate (length bs) False) \<and> ibus_T rc' (m @ bs) \<and>
    chs rc' = chs rc"
  using assms
proof (induction bs arbitrary: rc m)
  case (Cons b bs)
  then have l: "length m < 31" by simp
  let ?rc = "rc\<lparr>rc_buf := (rc_buf rc)[length m := b], flag := flag rc + 1\<rparr>"
  have s: "ibus_step rc b = Inr (?rc, False)" by (rule ibus_step_eq(3) [OF Cons.prems(1,2) l])
  have "unat (flag rc + 1) = length m + 1" using Cons.prems(1) flag_inc by (simp add: ibus_T_def)
  moreover have "m \<noteq> []" using Cons.prems(2) by auto
  ultimately have "ibus_T ?rc (m @ [b])" using Cons.prems by (simp add: ibus_T_def nth_append)
  from Cons.IH [OF this] Cons.prems s show ?case by auto
qed simp

lemma feed_around:
  "f s a = Inr (s1, r1) \<Longrightarrow> f s1 b = Inr (s2, r2) \<Longrightarrow> feed f s2 xs = Inr (s3, rs) \<Longrightarrow>
    f s3 c = Inr (s4, r4) \<Longrightarrow> feed f s ([a, b] @ xs @ [c]) = Inr (s4, [r1, r2] @ rs @ [r4])"
  by (simp add: feed_append)

lemma ibus_frame:
  assumes "ibus_T rc []" "length fr = 32" "fr ! 0 = 0x20" "fr ! 1 = 0x40"
  shows "\<exists>rc'. feed ibus_step rc fr = Inr (rc', replicate 31 False @ [True]) \<and>
    chs rc' = (if ibus_valid fr then map (ibus_channel fr) [0..<14] else chs rc) \<and> new_pkg rc' = 1 \<and> ibus_T rc' []"
proof -
  have "fr = take 2 fr @ take 29 (drop 2 fr) @ drop 29 (drop 2 fr)" by (simp only: append_take_drop_id)
  moreover have "take 2 fr = [0x20, 0x40]"
    using assms(2-4) by (simp add: take_Suc_conv_app_nth numeral_2_eq_2)
  moreover have "drop 29 (drop 2 fr) = [fr ! 31]"
    using assms(2) Cons_nth_drop_Suc [of 31 fr] by simp
  ultimately have fr: "fr = [0x20, 0x40] @ take 29 (drop 2 fr) @ [fr ! 31]" by simp
  let ?r1 = "rc\<lparr>rc_buf := (rc_buf rc)[0 := 0x20], flag := 1\<rparr>"
  let ?r2 = "?r1\<lparr>rc_buf := (rc_buf ?r1)[1 := 0x40], flag := 2\<rparr>"
  have b: "length (rc_buf rc) = 32" using assms(1) by (simp add: ibus_T_def)
  have s1: "ibus_step rc 0x20 = Inr (?r1, False)" using ibus_step_eq(1) [OF assms(1), of "0x20"] by simp
  have T1: "ibus_T ?r1 [0x20]" using b by (simp add: ibus_T_def take_Suc_conv_app_nth)
  have s2: "ibus_step ?r1 0x40 = Inr (?r2, False)" using ibus_step_eq(2) [OF T1, of "0x40"] by simp
  have "take 2 (xs[0 := x, Suc 0 := y]) = [x, y]" if "length xs = 32" for xs :: "u8 list" and x y
    using that by (cases xs; cases "tl xs") auto
  then have "ibus_T ?r2 [0x20, 0x40]" using b by (simp add: ibus_T_def)
  from ibus_body [OF this, of "take 29 (drop 2 fr)"] obtain rc2 where
    r2: "feed ibus_step ?r2 (take 29 (drop 2 fr)) = Inr (rc2, replicate 29 False)"
    "ibus_T rc2 ([0x20, 0x40] @ take 29 (drop 2 fr))" "chs rc2 = chs rc"
    using assms(2) by auto
  let ?m = "[0x20, 0x40] @ take 29 (drop 2 fr)"
  have "length ?m = 31" using assms(2) by simp
  from ibus_step_eq(4) [OF r2(2) this, of "fr ! 31"] fr
  have s3: "ibus_step rc2 (fr ! 31) = Inr (rc2\<lparr>rc_buf := fr, chs := (if ibus_valid fr
      then map (ibus_channel fr) [0..<14] else chs rc2), new_pkg := 1, flag := 0\<rparr>, True)" by simp
  have "feed ibus_step rc fr = Inr (rc2\<lparr>rc_buf := fr, chs := (if ibus_valid fr
      then map (ibus_channel fr) [0..<14] else chs rc2), new_pkg := 1, flag := 0\<rparr>,
      [False, False] @ replicate 29 False @ [True])"
    by (subst fr) (rule feed_around [where f = ibus_step, OF s1 s2 r2(1) s3])
  moreover have "[False, False] @ replicate 29 False @ [True] = replicate 31 False @ [True]"
    by (simp add: numeral_eq_Suc)
  ultimately show ?thesis using r2(3) assms(2) by (simp add: ibus_T_def)
qed

text \<open>A packet that carries given channels.\<close>

definition ibus_encode :: "u16 list \<Rightarrow> u8 list" where
  "ibus_encode cs =
     (let b = [0x20, 0x40] @ concat (map (\<lambda>c. [lo8 c, hi8 c]) cs); k = ibus_checksum b in b @ [lo8 k, hi8 k])"

lemma nth_pairs:
  "i < length cs \<Longrightarrow> concat (map (\<lambda>c. [f c, g c]) cs) ! (2 * i) = f (cs ! i) \<and>
     concat (map (\<lambda>c. [f c, g c]) cs) ! (2 * i + 1) = g (cs ! i)"
  by (induction cs arbitrary: i) (auto simp: nth_Cons split: nat.splits)

lemma length_pairs [simp]: "length (concat (map (\<lambda>c. [f c, g c]) cs)) = 2 * length cs"
  by (induction cs) auto

lemma ibus_checksum_append:
  assumes "30 \<le> length b"
  shows "ibus_checksum (b @ x) = ibus_checksum b"
proof -
  have "foldl (\<lambda>s i. s - ucast ((b @ x) ! (i * 2 + 3)) - ucast ((b @ x) ! (i * 2 + 2))) a [0..<14] =
      foldl (\<lambda>s i. s - ucast (b ! (i * 2 + 3)) - ucast (b ! (i * 2 + 2))) a [0..<14]" for a :: u16
    using assms by (intro foldl_cong) (auto simp: nth_append)
  note step = this
  have "(b @ x) ! 0 = b ! 0" "(b @ x) ! 1 = b ! 1" using assms by (auto simp: nth_append)
  then show ?thesis unfolding ibus_checksum_def step by simp
qed

text \<open>
  Whatever the 32 bytes of a packet of the remote control are, from the idle receiver it is
  complete at its last byte and never before; the channels are those of the packet when the checksum
  fits and the old ones when it does not. \<open>new_pkg\<close> is set in both cases.
\<close>

theorem ibus_packet:
  assumes "length (rc_buf rc) = 32" "flag rc = 0" "length fr = 32" "fr ! 0 = 0x20" "fr ! 1 = 0x40"
  shows "\<exists>rc'. feed ibus_step rc fr = Inr (rc', replicate 31 False @ [True]) \<and>
    chs rc' = (if ibus_valid fr then map (ibus_channel fr) [0..<14] else chs rc) \<and> new_pkg rc' = 1 \<and> flag rc' = 0"
proof -
  have "ibus_T rc []" using assms by (simp add: ibus_T_def)
  from ibus_frame [OF this assms(3-5)] show ?thesis by (auto simp: ibus_T_def unat_eq_0)
qed

theorem ibus_packet_witness:
  "\<exists>rc'. feed ibus_step \<lparr>new_pkg = 0, rc_buf = replicate 32 0, chs = [7], flag = 0\<rparr> (0x20 # 0x40 # replicate 30 5) =
     Inr (rc', replicate 31 False @ [True]) \<and> chs rc' = [7]"
  using ibus_packet [of "\<lparr>new_pkg = 0, rc_buf = replicate 32 0, chs = [7], flag = 0\<rparr>" "0x20 # 0x40 # replicate 30 5"]
  by (simp add: ibus_valid_def ibus_checksum_def upt_rec [of _ 14] mk16_def) auto

text \<open>
  Fourteen channels sent by the remote control (low byte first, then the checksum) are the
  channels of the receiver after the last byte.
\<close>

theorem ibus_roundtrip:
  assumes "length (rc_buf rc) = 32" "flag rc = 0" "length cs = 14"
  shows "\<exists>rc'. feed ibus_step rc (ibus_encode cs) = Inr (rc', replicate 31 False @ [True]) \<and> chs rc' = cs"
proof -
  let ?b = "[0x20, 0x40] @ concat (map (\<lambda>c. [lo8 c, hi8 c]) cs)"
  let ?fr = "ibus_encode cs"
  have b: "length ?b = 30" using assms(3) by simp
  have fr: "?fr = ?b @ [lo8 (ibus_checksum ?b), hi8 (ibus_checksum ?b)]" by (simp add: ibus_encode_def Let_def)
  have l: "length ?fr = 32" using b unfolding fr by simp
  have "?fr ! 30 = lo8 (ibus_checksum ?b)" "?fr ! 31 = hi8 (ibus_checksum ?b)"
    using b unfolding fr by (simp_all only: nth_append) simp_all
  then have v: "ibus_valid ?fr"
    using ibus_checksum_append [of ?b] b unfolding ibus_valid_def by (simp add: fr)
  have "ibus_channel ?fr i = cs ! i" if i: "i < 14" for i
  proof -
    have "?fr ! (i * 2 + 2) = lo8 (cs ! i)" "?fr ! (i * 2 + 3) = hi8 (cs ! i)"
      using nth_pairs [of i cs lo8 hi8] i assms(3) unfolding fr by (simp_all add: nth_append mult.commute)
    then show ?thesis by (simp add: ibus_channel_def)
  qed
  then have "map (ibus_channel ?fr) [0..<14] = cs"
    using assms(3) by (intro nth_equalityI) simp_all
  moreover have T: "ibus_T rc []" using assms by (simp add: ibus_T_def)
  moreover have "?fr ! 0 = 0x20" "?fr ! 1 = 0x40" by (simp_all add: fr)
  ultimately show ?thesis using ibus_frame [OF T l] v by auto
qed

theorem ibus_roundtrip_witness:
  "\<exists>rc'. feed ibus_step \<lparr>new_pkg = 0, rc_buf = replicate 32 0, chs = [], flag = 0\<rparr> (ibus_encode (replicate 14 1500)) =
     Inr (rc', replicate 31 False @ [True]) \<and> chs rc' = replicate 14 1500"
  by (rule ibus_roundtrip) simp_all

section \<open>Odometry module\<close>

text \<open>
  The static variables of \<open>Data_Analyse\<close> and the six globals it sets. A float is its bit pattern;
  the union of bytes and floats is little endian.
\<close>

record action =
  act_count :: u8
  act_i :: u8
  date :: "u8 list"
  pos_x :: u32
  pos_y :: u32
  zangle :: u32
  xangle :: u32
  yangle :: u32
  w_z :: u32

definition ActVal :: "u8 list \<Rightarrow> nat \<Rightarrow> u32" where
  "ActVal d k = mk32 (d ! (4 * k + 3)) (d ! (4 * k + 2)) (d ! (4 * k + 1)) (d ! (4 * k))"

text \<open>The result says whether the byte completed a packet (the C function is \<open>void\<close>).\<close>

definition Data_Analyse :: "action \<Rightarrow> u8 \<Rightarrow> (action \<times> bool) cres" where
  "Data_Analyse a ch =
     (if act_count a = 0 then Inr (a\<lparr>act_count := (if ch = 0x0d then 1 else 0)\<rparr>, False)
      else if act_count a = 1 then
        Inr (if ch = 0x0a then a\<lparr>act_i := 0, act_count := 2\<rparr>
             else if ch = 0x0d then a else a\<lparr>act_count := 0\<rparr>, False)
      else if act_count a = 2 then
        cbind (wr (date a) (unat (act_i a)) ch) (\<lambda>d.
        let a = a\<lparr>date := d, act_i := act_i a + 1\<rparr> in
        Inr (if 24 \<le> act_i a then a\<lparr>act_i := 0, act_count := 3\<rparr> else a, False))
      else if act_count a = 3 then Inr (a\<lparr>act_count := (if ch = 0x0a then 4 else 0)\<rparr>, False)
      else if act_count a = 4 then
        (if ch = 0x0d then
           cbind (rd_n (date a) 24) (\<lambda>d.
           Inr (a\<lparr>zangle := ActVal d 0, xangle := ActVal d 1, yangle := ActVal d 2, pos_x := ActVal d 3,
             pos_y := ActVal d 4, w_z := ActVal d 5, act_count := 0\<rparr>, True))
         else Inr (a\<lparr>act_count := 0\<rparr>, False))
      else Inr (a\<lparr>act_count := 0\<rparr>, False))"

definition act_init :: action where
  "act_init = \<lparr>act_count = 0, act_i = 0, date = replicate 24 0, pos_x = 0, pos_y = 0, zangle = 0,
     xangle = 0, yangle = 0, w_z = 0\<rparr>"

definition act_T :: "action \<Rightarrow> u8 list \<Rightarrow> bool" where
  "act_T a m = (length (date a) = 24 \<and>
     (act_count a = 0 \<and> m = [] \<or> act_count a = 1 \<and> m = [0x0d] \<or>
      act_count a = 2 \<and> (\<exists>d. m = [0x0d, 0x0a] @ d \<and> unat (act_i a) = length d \<and> length d < 24 \<and>
        take (length d) (date a) = d) \<or>
      act_count a = 3 \<and> m = [0x0d, 0x0a] @ date a \<or>
      act_count a = 4 \<and> m = [0x0d, 0x0a] @ date a @ [0x0a]))"

definition act_good :: "u8 list \<Rightarrow> action \<Rightarrow> bool" where
  "act_good fr a = (\<exists>d. length d = 24 \<and> fr = [0x0d, 0x0a] @ d @ [0x0a, 0x0d] \<and>
     zangle a = ActVal d 0 \<and> xangle a = ActVal d 1 \<and> yangle a = ActVal d 2 \<and> pos_x a = ActVal d 3 \<and>
     pos_y a = ActVal d 4 \<and> w_z a = ActVal d 5)"

definition act_track :: "action \<Rightarrow> u8 list \<Rightarrow> u8 \<Rightarrow> bool" where
  "act_track a m b = (\<exists>a' r pre m'. Data_Analyse a b = Inr (a', r) \<and> m @ [b] = pre @ m' \<and> act_T a' m' \<and>
     (r \<longrightarrow> act_good (m @ [b]) a'))"

lemma act_trackI:
  assumes "Data_Analyse a b = Inr (a', r)" "act_T a' m'" "m @ [b] = pre @ m'" "r \<longrightarrow> act_good (m @ [b]) a'"
  shows "act_track a m b"
  unfolding act_track_def using assms by blast

lemma act_payload_step:
  assumes "act_count a = 2" "unat (act_i a) < 24" "length (date a) = 24"
  shows "Data_Analyse a b =
    (let a = a\<lparr>date := (date a)[unat (act_i a) := b], act_i := act_i a + 1\<rparr> in
     Inr (if unat (act_i a) = 24 then a\<lparr>act_i := 0, act_count := 3\<rparr> else a, False)) \<and>
    unat (act_i a + 1) = unat (act_i a) + 1"
proof -
  have u: "unat (act_i a + 1) = unat (act_i a) + 1" using assms(2) by (intro flag_inc) simp
  then have "24 \<le> act_i a + 1 \<longleftrightarrow> unat (act_i a + 1) = 24" using assms(2) by (auto simp: word_le_nat_alt)
  then show ?thesis using assms u by (simp add: Data_Analyse_def Let_def)
qed

lemma act_track: "act_T a m \<Longrightarrow> act_track a m b"
proof -
  assume T: "act_T a m"
  then have l: "length (date a) = 24" by (simp add: act_T_def)
  from T consider (0) "act_count a = 0" "m = []" | (1) "act_count a = 1" "m = [0x0d]"
    | (2) d where "act_count a = 2" "m = [0x0d, 0x0a] @ d" "unat (act_i a) = length d" "length d < 24"
        "take (length d) (date a) = d"
    | (3) "act_count a = 3" "m = [0x0d, 0x0a] @ date a" | (4) "act_count a = 4" "m = [0x0d, 0x0a] @ date a @ [0x0a]"
    unfolding act_T_def by blast
  then show ?thesis
  proof cases
    case 0
    then show ?thesis using l
      by (intro act_trackI [of a b "a\<lparr>act_count := (if b = 0x0d then 1 else 0)\<rparr>" False
        "if b = 0x0d then [b] else []" m "if b = 0x0d then [] else [b]"]) (simp_all add: Data_Analyse_def act_T_def)
  next
    case 1
    let ?a = "if b = 0x0a then a\<lparr>act_i := 0, act_count := 2\<rparr> else if b = 0x0d then a else a\<lparr>act_count := 0\<rparr>"
    have "Data_Analyse a b = Inr (?a, False)" using 1 by (simp add: Data_Analyse_def)
    then show ?thesis using 1 l
      by (intro act_trackI [of a b ?a False
        "if b = 0x0a then [0x0d, 0x0a] else if b = 0x0d then [0x0d] else []" m
        "if b = 0x0a then [] else if b = 0x0d then [0x0d] else [0x0d, b]"]) (simp_all add: act_T_def)
  next
    case 2
    let ?a = "a\<lparr>date := (date a)[unat (act_i a) := b], act_i := act_i a + 1\<rparr>"
    let ?a' = "if unat (act_i ?a) = 24 then ?a\<lparr>act_i := 0, act_count := 3\<rparr> else ?a"
    have s: "Data_Analyse a b = Inr (?a', False)" "unat (act_i ?a) = length d + 1"
      using act_payload_step [of a b] 2 l by (simp_all add: Let_def)
    have "act_T ?a' (m @ [b])"
    proof (cases "length d = 23")
      case True
      then have "(date a)[23 := b] = d @ [b]" using full_update [of "date a" 23 b] 2(5) l by simp
      then show ?thesis using True 2 s(2) by (simp add: act_T_def)
    next
      case False
      then have "take (length (d @ [b])) (date ?a) = d @ [b]" using 2 l by simp
      then show ?thesis using False 2 s(2) l by (auto simp: act_T_def)
    qed
    then show ?thesis using s(1) by (intro act_trackI [of a b ?a' False "m @ [b]" m "[]"]) simp_all
  next
    case 3
    then show ?thesis using l
      by (intro act_trackI [of a b "a\<lparr>act_count := (if b = 0x0a then 4 else 0)\<rparr>" False
        "if b = 0x0a then m @ [b] else []" m "if b = 0x0a then [] else m @ [b]"]) (simp_all add: Data_Analyse_def act_T_def)
  next
    case 4
    let ?a = "if b = 0x0d then a\<lparr>zangle := ActVal (date a) 0, xangle := ActVal (date a) 1, yangle := ActVal (date a) 2,
      pos_x := ActVal (date a) 3, pos_y := ActVal (date a) 4, w_z := ActVal (date a) 5, act_count := 0\<rparr>
      else a\<lparr>act_count := 0\<rparr>"
    have "Data_Analyse a b = Inr (?a, b = 0x0d)" using 4 l by (simp add: Data_Analyse_def)
    moreover have "act_T ?a []" using l by (simp add: act_T_def)
    moreover have "b = 0x0d \<longrightarrow> act_good (m @ [b]) ?a"
      using 4 l by (auto simp: act_good_def intro!: exI [of _ "date a"])
    ultimately show ?thesis by (intro act_trackI [of a b ?a "b = 0x0d" "[]" m "m @ [b]"]) simp_all
  qed
qed

interpretation act: tracker Data_Analyse act_T "\<lambda>r. r" act_good
  by unfold_locales (use act_track in \<open>simp add: act_track_def\<close>)

lemma act_body:
  assumes "act_count a = 2" "length (date a) = 24" "unat (act_i a) + length d = 24" "d \<noteq> []"
  shows "\<exists>a'. feed Data_Analyse a d = Inr (a', replicate (length d) False) \<and> act_count a' = 3 \<and>
    date a' = take (unat (act_i a)) (date a) @ d"
  using assms
proof (induction d arbitrary: a)
  case (Cons b d)
  let ?a = "a\<lparr>date := (date a)[unat (act_i a) := b], act_i := act_i a + 1\<rparr>"
  have i: "unat (act_i a) < 24" using Cons.prems(3) by simp
  note s = act_payload_step [OF Cons.prems(1) i Cons.prems(2), of b, unfolded Let_def]
  show ?case
  proof (cases "d = []")
    case True
    then have "(date a)[unat (act_i a) := b] = take (unat (act_i a)) (date a) @ [b]"
      using Cons.prems by (intro full_update) simp
    then show ?thesis using s True Cons.prems(3) by simp
  next
    case False
    then have "unat (act_i ?a) \<noteq> 24" using s Cons.prems(3) by (cases d) simp_all
    moreover have "take (Suc (unat (act_i a))) ((date a)[unat (act_i a) := b]) = take (unat (act_i a)) (date a) @ [b]"
      using i Cons.prems(2) by simp
    ultimately show ?thesis
      using s Cons.IH [of ?a] Cons.prems False by auto
  qed
qed simp

text \<open>The six floats on the wire.\<close>

definition act_encode :: "u32 list \<Rightarrow> u8 list" where
  "act_encode vs = [0x0d, 0x0a] @
     concat (map (\<lambda>v. [byte32 0 v, byte32 1 v, byte32 2 v, byte32 3 v]) vs) @ [0x0a, 0x0d]"

text \<open>
  C35: no byte stream makes the odometry receiver write outside its 24 bytes, and when it takes over
  new values the last 28 bytes are a packet and the six globals are its six floats.
\<close>

theorem action_sound:
  assumes "act_T a []"
  shows "(\<exists>a' rs. feed Data_Analyse a bs = Inr (a', rs) \<and> length rs = length bs) \<and>
    (\<forall>xs b a' rs. feed Data_Analyse a (xs @ [b]) = Inr (a', rs) \<longrightarrow> last rs \<longrightarrow>
       (\<exists>pre fr. xs @ [b] = pre @ fr \<and> act_good fr a'))"
  using act.never_faults [OF assms] act.reported_frame [OF assms] by blast

theorem action_sound_witness:
  "\<exists>a' rs. feed Data_Analyse act_init [0x0d, 0x0d, 0x0a, 5] = Inr (a', rs) \<and> length rs = length [0x0d, 0x0d, 0x0a, 5 :: u8]"
  by (rule action_sound [THEN conjunct1]) (simp add: act_init_def act_T_def)

text \<open>
  Six floats sent by the odometry module are the angles, the position and the angular velocity
  after the last byte, in the module's order.
\<close>

theorem action_roundtrip:
  assumes "act_count a = 0" "length (date a) = 24"
  shows "\<exists>a'. feed Data_Analyse a (act_encode [v0, v1, v2, v3, v4, v5]) = Inr (a', replicate 27 False @ [True]) \<and>
    [zangle a', xangle a', yangle a', pos_x a', pos_y a', w_z a'] = [v0, v1, v2, v3, v4, v5]"
proof -
  define d where "d = concat (map (\<lambda>v. [byte32 0 v, byte32 1 v, byte32 2 v, byte32 3 v]) [v0, v1, v2, v3, v4, v5])"
  have l: "length d = 24" by (simp add: d_def)
  let ?a = "a\<lparr>act_i := 0, act_count := 2\<rparr>"
  obtain a3 where a3: "feed Data_Analyse ?a d = Inr (a3, replicate (length d) False)" "act_count a3 = 3"
    "date a3 = d"
    using act_body [of ?a d] assms l by fastforce
  let ?a5 = "a3\<lparr>zangle := ActVal d 0, xangle := ActVal d 1, yangle := ActVal d 2, pos_x := ActVal d 3,
    pos_y := ActVal d 4, w_z := ActVal d 5, act_count := 0\<rparr>"
  have "feed Data_Analyse a [0x0d, 0x0a] = Inr (?a, [False, False])"
    using assms by (simp add: Data_Analyse_def)
  moreover have "feed Data_Analyse a3 [0x0a, 0x0d] = Inr (?a5, [False, True])"
    using a3(2,3) l by (simp add: Data_Analyse_def)
  ultimately have "feed Data_Analyse a ([0x0d, 0x0a] @ d @ [0x0a, 0x0d]) =
      Inr (?a5, [False, False] @ replicate (length d) False @ [False, True])"
    by (simp only: feed_append a3(1) cbind.simps prod.case)
  moreover have "[False, False] @ replicate (length d) False @ [False, True] = replicate 27 False @ [True]"
    by (simp add: l numeral_eq_Suc)
  ultimately have fd: "feed Data_Analyse a (act_encode [v0, v1, v2, v3, v4, v5]) =
      Inr (?a5, replicate 27 False @ [True])"
    unfolding act_encode_def d_def [symmetric] by (simp only:)
  have "ActVal d 0 = v0" "ActVal d 1 = v1" "ActVal d 2 = v2" "ActVal d 3 = v3"
    "ActVal d 4 = v4" "ActVal d 5 = v5"
    by (simp_all add: ActVal_def d_def)
  then show ?thesis by (intro exI [of _ ?a5] conjI [OF fd]) simp
qed

theorem action_roundtrip_witness:
  "\<exists>a'. feed Data_Analyse act_init (act_encode [1, 2, 3, 4, 5, 6]) = Inr (a', replicate 27 False @ [True]) \<and>
    [zangle a', xangle a', yangle a', pos_x a', pos_y a', w_z a'] = [1, 2, 3, 4, 5, 6]"
  by (rule action_roundtrip) (simp_all add: act_init_def)

end
