(* ===== verification/FDILink.thy ===== *)
theory FDILink
  imports CrcTable Framing
begin

text \<open>
  The link to the inertial sensor, \<^verbatim>\<open>FDILink.c\<close>: the receiver \<open>FDILink_RunningData\<close> (one byte at a
  time, header checksum, payload checksum, end byte), the dispatch of a complete packet, the
  packing of a frame and the send function, which sends nothing. The lemmas give the invariant of the receiver's variables, what a
  reported packet was on the wire, and that frames and sequences of frames are received.
\<close>

section \<open>State\<close>

record FDILink_Status =
  BootStatus :: int
  RxStatus :: int
  RxType :: int
  RxDataLeft :: int
  RxNumber :: int
  TxNumber :: int
  CRC8_Verify :: int
  CRC16_Verify :: int
  BufferIndex :: u32
  Frame_Buffer :: "u8 list"
  Buffer :: "u8 list"

section \<open>The receiver\<close>

definition FDILink_Error :: "FDILink_Status \<Rightarrow> FDILink_Status" where
  "FDILink_Error l = l\<lparr>RxStatus := 0\<rparr>"

definition FDILink_Insert :: "FDILink_Status \<Rightarrow> u8 \<Rightarrow> FDILink_Status cres" where
  "FDILink_Insert l value =
     (if RxDataLeft l \<le> 0 then Inr (FDILink_Error l)
      else if RxStatus l \<noteq> 7 then Inr (FDILink_Error l)
      else cbind (wr (Buffer l) (unat (BufferIndex l)) value) (\<lambda>buf.
        let l = l\<lparr>Buffer := buf, BufferIndex := BufferIndex l + 1\<rparr> in
        if 256 \<le> BufferIndex l then Inr (FDILink_Error l)
        else Inr (l\<lparr>RxDataLeft := RxDataLeft l - 1\<rparr>)))"

definition FDILink_Reset :: "FDILink_Status \<Rightarrow> FDILink_Status" where
  "FDILink_Reset l = l\<lparr>RxStatus := 0, RxDataLeft := 0, RxType := 0, BufferIndex := 0, TxNumber := 0\<rparr>"

text \<open>The case of the end byte, which the case of the data bytes can fall into.\<close>

definition frame_end :: "FDILink_Status \<Rightarrow> u8 \<Rightarrow> (FDILink_Status \<times> int) cres" where
  "frame_end l value =
     (if value \<noteq> 0xFD then Inr (FDILink_Error l, -1)
      else cbind (CRC16_Table (Buffer l) (ucast (BufferIndex l))) (\<lambda>CRC16.
        if uint CRC16 \<noteq> CRC16_Verify l then Inr (FDILink_Error l, -1)
        else Inr (l\<lparr>RxStatus := 0\<rparr>, 1)))"

definition FDILink_RunningData :: "FDILink_Status \<Rightarrow> u8 \<Rightarrow> (FDILink_Status \<times> int) cres" where
  "FDILink_RunningData l value =
     (if RxStatus l < 0 \<or> RxStatus l > 8 then Inr (FDILink_Error l, -3)
      else cbind (wr (Frame_Buffer l) (nat (RxStatus l)) value) (\<lambda>fb.
        let l = l\<lparr>Frame_Buffer := fb\<rparr> in
        if RxStatus l = 0 then
          (let l = FDILink_Reset l in
           if value = 0xFD then Inr (l, 0)
           else if value \<noteq> 0xFC then Inr (FDILink_Error l, -1)
           else Inr (l\<lparr>RxStatus := 1\<rparr>, 0))
        else if RxStatus l = 1 then Inr (l\<lparr>RxType := uint value, RxStatus := 2\<rparr>, 0)
        else if RxStatus l = 2 then Inr (l\<lparr>RxDataLeft := uint value, RxStatus := 3\<rparr>, 0)
        else if RxStatus l = 3 then Inr (l\<lparr>RxNumber := uint value, RxStatus := 4\<rparr>, 0)
        else if RxStatus l = 4 then
          (let l = l\<lparr>CRC8_Verify := uint value\<rparr> in
           cbind (CRC8_Table (Frame_Buffer l) 4) (\<lambda>crc8.
             if uint crc8 \<noteq> CRC8_Verify l then Inr (FDILink_Error l, -1)
             else if RxDataLeft l = 0 then Inr (l\<lparr>RxStatus := 0\<rparr>, 1)
             else Inr (l\<lparr>RxStatus := 5\<rparr>, 0)))
        else if RxStatus l = 5 then Inr (l\<lparr>CRC16_Verify := uint value, RxStatus := 6\<rparr>, 0)
        else if RxStatus l = 6 then
          Inr (l\<lparr>CRC16_Verify := push_bit 8 (CRC16_Verify l) OR uint value, RxStatus := 7\<rparr>, 0)
        else if RxStatus l = 7 then
          (if RxDataLeft l \<noteq> 0 then
             cbind (FDILink_Insert l value) (\<lambda>l.
               Inr (if RxDataLeft l = 0 then l\<lparr>RxStatus := 8\<rparr> else l, 0))
           else frame_end (l\<lparr>RxStatus := 8\<rparr>) value)
        else frame_end l value))"

definition FDILink_CheckData :: "FDILink_Status \<Rightarrow> u8 \<Rightarrow> FDILink_Status \<times> int" where
  "FDILink_CheckData l len =
     (if BufferIndex l \<noteq> ucast len then (FDILink_Error l, -1) else (l, 0))"

section \<open>Dispatch\<close>

text \<open>
  The packets are copied by the size of their structure; all but the attitude packet go to a local
  variable that is not used. The global \<open>AHRSData\<close> is the second component of the state.
\<close>

definition FDILink_Decode :: "int \<Rightarrow> u8 list \<Rightarrow> u8 list \<Rightarrow> u8 list cres" where
  "FDILink_Decode type buf AHRSData =
     (if type = 0x40 then cbind (rd_n buf 56) (\<lambda>_. Inr AHRSData)
      else if type = 0x41 then rd_n buf 48
      else if type = 0x42 then cbind (rd_n buf 88) (\<lambda>_. Inr AHRSData)
      else if type = 0x50 then cbind (rd_n buf 4) (\<lambda>_. Inr AHRSData)
      else if type = 0x59 then cbind (rd_n buf 80) (\<lambda>_. Inr AHRSData)
      else Inr AHRSData)"

definition FDILink_Effect :: "FDILink_Status \<Rightarrow> u8 list \<Rightarrow> u8 list cres" where
  "FDILink_Effect l AHRSData = FDILink_Decode (RxType l) (Buffer l) AHRSData"

text \<open>The result goes through an 8 bit variable: -1 is returned as 255.\<close>

definition FDILink_Receive ::
  "FDILink_Status \<times> u8 list \<Rightarrow> u8 \<Rightarrow> ((FDILink_Status \<times> u8 list) \<times> int) cres" where
  "FDILink_Receive s value =
     cbind (FDILink_RunningData (fst s) value) (\<lambda>(l, r).
     let result = (of_int r :: u8) in
     if result = 1 then cbind (FDILink_Effect l (snd s)) (\<lambda>a. Inr ((l, a), uint result))
     else Inr ((l, snd s), uint result))"

definition FDILink_Init :: "FDILink_Status \<Rightarrow> FDILink_Status" where
  "FDILink_Init l = l\<lparr>BufferIndex := 0, BootStatus := 2, RxStatus := 0, Buffer := replicate 256 0\<rparr>"

definition FDILink_Recv ::
  "FDILink_Status \<times> u8 list \<Rightarrow> u8 list \<Rightarrow> nat \<Rightarrow> (FDILink_Status \<times> u8 list) cres" where
  "FDILink_Recv s buf len =
     cbind (rd_n buf len) (\<lambda>bs. cbind (feed FDILink_Receive s bs) (\<lambda>(s', rs). Inr s'))"

section \<open>Senders\<close>

text \<open>
  Both fill a buffer with a frame: \<open>FDILink_Pack\<close> that of its caller, \<open>FDILink_Send\<close> a local one, whose initial content is a
  parameter. In this repository nothing leaves \<open>FDILink_Send\<close>: \<^verbatim>\<open>FDILink.h\<close> defines \<^verbatim>\<open>Serial_Send(...)\<close> as 0, so it drops the
  buffer and returns 0. The packet number is an \<^verbatim>\<open>int\<close>, whose increment can overflow.
\<close>

definition put_header :: "u8 list \<Rightarrow> FDILink_Status \<Rightarrow> u8 \<Rightarrow> nat \<Rightarrow> (u8 list \<times> FDILink_Status) cres" where
  "put_header buffer l type len =
     cbind (wr buffer 0 0xFC) (\<lambda>b.
     cbind (wr b 1 type) (\<lambda>b.
     cbind (wr b 2 (of_nat len)) (\<lambda>b.
     cbind (wr b 3 (of_int (TxNumber l))) (\<lambda>b.
     cbind (chk32 (TxNumber l + 1)) (\<lambda>t.
     let l = l\<lparr>TxNumber := t\<rparr> in
     cbind (CRC8_Table b 4) (\<lambda>crc8.
     cbind (wr b 4 crc8) (\<lambda>b. Inr (b, l))))))))"

definition put_data :: "u8 list \<Rightarrow> u8 list \<Rightarrow> nat \<Rightarrow> u8 list cres" where
  "put_data b buf len =
     cbind (rd_n buf len) (\<lambda>d.
     cbind (cpy b 7 d) (\<lambda>b.
     cbind (CRC16_Table (drop 7 b) (of_nat len)) (\<lambda>crc16.
     cbind (wr b 5 (hi8 crc16)) (\<lambda>b.
     cbind (wr b 6 (lo8 crc16)) (\<lambda>b.
     wr b (8 + len - 1) 0xFD)))))"

definition Serial_Send :: int where "Serial_Send = 0"

definition FDILink_Send ::
  "u8 list \<Rightarrow> FDILink_Status \<Rightarrow> u8 \<Rightarrow> u8 list \<Rightarrow> nat \<Rightarrow> (FDILink_Status \<times> int) cres" where
  "FDILink_Send buffer l type buf len =
     cbind (put_header buffer l type len) (\<lambda>(b, l).
     if len = 0 then Inr (l, Serial_Send)
     else cbind (put_data b buf len) (\<lambda>b. Inr (l, Serial_Send)))"

definition FDILink_Pack ::
  "u8 list \<Rightarrow> FDILink_Status \<Rightarrow> u8 \<Rightarrow> u8 list \<Rightarrow> nat \<Rightarrow> (u8 list \<times> FDILink_Status \<times> int) cres" where
  "FDILink_Pack buffer l type buf len =
     cbind (put_header buffer l type len) (\<lambda>(b, l).
     cbind (put_data b buf len) (\<lambda>b. Inr (b, l, 8 + int len)))"

section \<open>Invariant and tracking\<close>

text \<open>The frames: header with checksum, then nothing, or the payload with its checksum and an end byte.\<close>

definition fdi_header :: "u8 \<Rightarrow> nat \<Rightarrow> u8 \<Rightarrow> u8 list" where
  "fdi_header ty n sn = (let h = [0xFC, ty, of_nat n, sn] in h @ [foldl crc8_upd 0 h])"

definition fdi_frame :: "u8 \<Rightarrow> u8 \<Rightarrow> u8 list \<Rightarrow> u8 list" where
  "fdi_frame ty sn d = fdi_header ty (length d) sn @
     (if d = [] then []
      else [hi8 (foldl crc16_upd 0 d), lo8 (foldl crc16_upd 0 d)] @ d @ [0xFD])"

definition fdi_wf :: "FDILink_Status \<Rightarrow> bool" where
  "fdi_wf l = (length (Frame_Buffer l) = 12 \<and> length (Buffer l) = 256 \<and> 0 \<le> RxStatus l \<and> RxStatus l \<le> 8 \<and>
     0 \<le> RxDataLeft l \<and>
     (1 \<le> RxStatus l \<longrightarrow> unat (BufferIndex l) + nat (RxDataLeft l) \<le> 255) \<and>
     (1 \<le> RxStatus l \<and> RxStatus l \<le> 6 \<longrightarrow> BufferIndex l = 0) \<and>
     (RxStatus l = 1 \<or> RxStatus l = 2 \<or> RxStatus l = 8 \<longrightarrow> RxDataLeft l = 0) \<and>
     (5 \<le> RxStatus l \<and> RxStatus l \<le> 7 \<longrightarrow> 0 < RxDataLeft l))"

text \<open>How the variables of a well formed receiver relate to the \<open>m\<close> bytes of the frame it is in.\<close>

definition fdi_T :: "FDILink_Status \<Rightarrow> u8 list \<Rightarrow> bool" where
  "fdi_T l m = (fdi_wf l \<and>
     (RxStatus l < 5 \<and> nat (RxStatus l) = length m \<and> take (length m) (Frame_Buffer l) = m \<and>
        (1 \<le> RxStatus l \<longrightarrow> m ! 0 = 0xFC) \<and> (2 \<le> RxStatus l \<longrightarrow> RxType l = uint (m ! 1)) \<and>
        (3 \<le> RxStatus l \<longrightarrow> RxDataLeft l = uint (m ! 2)) \<or>
      (\<exists>ty sn n. RxType l = uint ty \<and> n < 256 \<and>
        (RxStatus l = 5 \<and> RxDataLeft l = int n \<and> m = fdi_header ty n sn \<or>
         (\<exists>hi. RxStatus l = 6 \<and> RxDataLeft l = int n \<and> m = fdi_header ty n sn @ [hi] \<and>
            CRC16_Verify l = uint hi) \<or>
         (\<exists>hi lo d. RxStatus l = 7 \<and> RxDataLeft l = int n - int (length d) \<and>
            m = fdi_header ty n sn @ [hi, lo] @ d \<and> CRC16_Verify l = uint (mk16 hi lo) \<and>
            unat (BufferIndex l) = length d \<and> take (length d) (Buffer l) = d) \<or>
         (\<exists>hi lo d. RxStatus l = 8 \<and> length d = n \<and> 0 < n \<and>
            m = fdi_header ty n sn @ [hi, lo] @ d \<and> CRC16_Verify l = uint (mk16 hi lo) \<and>
            unat (BufferIndex l) = length d \<and> take (length d) (Buffer l) = d)))))"

lemma fdi_T_idle: "fdi_wf l \<Longrightarrow> RxStatus l = 0 \<Longrightarrow> fdi_T l []"
  by (simp add: fdi_T_def)

lemma fdi_T5I:
  "fdi_wf l \<Longrightarrow> RxStatus l = 5 \<Longrightarrow> RxType l = uint ty \<Longrightarrow> n < 256 \<Longrightarrow> RxDataLeft l = int n \<Longrightarrow>
    fdi_T l (fdi_header ty n sn)"
  unfolding fdi_T_def by blast

lemma fdi_T6I:
  "fdi_wf l \<Longrightarrow> RxStatus l = 6 \<Longrightarrow> RxType l = uint ty \<Longrightarrow> n < 256 \<Longrightarrow> RxDataLeft l = int n \<Longrightarrow>
    CRC16_Verify l = uint hi \<Longrightarrow> fdi_T l (fdi_header ty n sn @ [hi])"
  unfolding fdi_T_def by blast

lemma fdi_T7I:
  "fdi_wf l \<Longrightarrow> RxStatus l = 7 \<Longrightarrow> RxType l = uint ty \<Longrightarrow> n < 256 \<Longrightarrow>
    RxDataLeft l = int n - int (length d) \<Longrightarrow> CRC16_Verify l = uint (mk16 hi lo) \<Longrightarrow>
    unat (BufferIndex l) = length d \<Longrightarrow> take (length d) (Buffer l) = d \<Longrightarrow>
    fdi_T l (fdi_header ty n sn @ [hi, lo] @ d)"
  unfolding fdi_T_def by blast

lemma fdi_T8I:
  "fdi_wf l \<Longrightarrow> RxStatus l = 8 \<Longrightarrow> RxType l = uint ty \<Longrightarrow> n < 256 \<Longrightarrow> length d = n \<Longrightarrow> 0 < n \<Longrightarrow>
    CRC16_Verify l = uint (mk16 hi lo) \<Longrightarrow>
    unat (BufferIndex l) = length d \<Longrightarrow> take (length d) (Buffer l) = d \<Longrightarrow>
    fdi_T l (fdi_header ty n sn @ [hi, lo] @ d)"
  unfolding fdi_T_def by blast

lemma fdi_wf_Error: "fdi_wf l \<Longrightarrow> fdi_wf (FDILink_Error l)"
  by (simp add: fdi_wf_def FDILink_Error_def)

lemma fdi_T_Error: "fdi_wf l \<Longrightarrow> fdi_T (FDILink_Error l) []"
  by (rule fdi_T_idle [OF fdi_wf_Error]) (simp_all add: FDILink_Error_def)

definition fdi_good :: "u8 list \<Rightarrow> FDILink_Status \<Rightarrow> bool" where
  "fdi_good fr l = (\<exists>ty sn d. fr = fdi_frame ty sn d \<and> length d < 256 \<and> RxType l = uint ty \<and>
     RxStatus l = 0 \<and> unat (BufferIndex l) = length d \<and> take (length d) (Buffer l) = d)"

definition fdi_ok :: "FDILink_Status \<Rightarrow> u8 list \<Rightarrow> u8 \<Rightarrow> bool" where
  "fdi_ok l m b = (\<exists>l' r. FDILink_RunningData l b = Inr (l', r) \<and> r \<in> {0, 1, -1} \<and>
     (fdi_T l' (m @ [b]) \<or> fdi_T l' []) \<and> (r = 1 \<longrightarrow> fdi_good (m @ [b]) l'))"

lemma fdi_wf_frame: "fdi_wf l \<Longrightarrow> fdi_wf (l\<lparr>Frame_Buffer := (Frame_Buffer l)[i := b]\<rparr>)"
  by (simp add: fdi_wf_def)

lemma mk16_shift: "push_bit 8 (uint hi) OR uint lo = uint (mk16 hi lo)"
proof -
  have "uint (ucast hi :: u16) = uint hi" "uint (ucast lo :: u16) = uint lo"
    by (rule uint_up_ucast, simp add: is_up)+
  moreover have "uint (push_bit 8 (ucast hi :: u16)) = push_bit 8 (uint hi)"
  proof -
    have "take_bit 8 (uint hi) = uint hi" by (rule take_bit_int_eq_self) (use uint_lt2p [of hi] in auto)
    then show ?thesis
      by (simp only: unsigned_push_bit_eq uint_up_ucast is_up) (simp add: unsigned_push_bit_eq take_bit_push_bit unsigned_ucast_eq)
  qed
  ultimately show ?thesis by (simp add: mk16_def unsigned_or_eq)
qed

text \<open>One step in each state, the frame buffer written first.\<close>

lemma fdi_okI1:
  "FDILink_RunningData l b = Inr (l', 1) \<Longrightarrow> fdi_T l' [] \<Longrightarrow> fdi_good (m @ [b]) l' \<Longrightarrow> fdi_ok l m b"
  by (auto simp: fdi_ok_def)

lemma running_data_steps:
  assumes "length (Frame_Buffer l) = 12"
  shows "RxStatus l = 0 \<Longrightarrow> FDILink_RunningData l b =
      (let l = FDILink_Reset (l\<lparr>Frame_Buffer := (Frame_Buffer l)[0 := b]\<rparr>) in
       Inr (if b = 0xFC then (l\<lparr>RxStatus := 1\<rparr>, 0) else if b = 0xFD then (l, 0) else (FDILink_Error l, -1)))"
    and "RxStatus l = 1 \<Longrightarrow> FDILink_RunningData l b =
      Inr (l\<lparr>Frame_Buffer := (Frame_Buffer l)[1 := b], RxType := uint b, RxStatus := 2\<rparr>, 0)"
    and "RxStatus l = 2 \<Longrightarrow> FDILink_RunningData l b =
      Inr (l\<lparr>Frame_Buffer := (Frame_Buffer l)[2 := b], RxDataLeft := uint b, RxStatus := 3\<rparr>, 0)"
    and "RxStatus l = 3 \<Longrightarrow> FDILink_RunningData l b =
      Inr (l\<lparr>Frame_Buffer := (Frame_Buffer l)[3 := b], RxNumber := uint b, RxStatus := 4\<rparr>, 0)"
    and "RxStatus l = 5 \<Longrightarrow> FDILink_RunningData l b =
      Inr (l\<lparr>Frame_Buffer := (Frame_Buffer l)[5 := b], CRC16_Verify := uint b, RxStatus := 6\<rparr>, 0)"
    and "RxStatus l = 6 \<Longrightarrow> FDILink_RunningData l b =
      Inr (l\<lparr>Frame_Buffer := (Frame_Buffer l)[6 := b],
        CRC16_Verify := push_bit 8 (CRC16_Verify l) OR uint b, RxStatus := 7\<rparr>, 0)"
    and "RxStatus l = 8 \<Longrightarrow> FDILink_RunningData l b =
      frame_end (l\<lparr>Frame_Buffer := (Frame_Buffer l)[8 := b]\<rparr>) b"
  using assms by (simp_all add: FDILink_RunningData_def FDILink_Reset_def Let_def)

lemma running_data_crc8:
  assumes "length (Frame_Buffer l) = 12" "RxStatus l = 4" "take 4 (Frame_Buffer l) = m"
  shows "FDILink_RunningData l b =
    (let l = l\<lparr>Frame_Buffer := (Frame_Buffer l)[4 := b], CRC8_Verify := uint b\<rparr> in
     if b \<noteq> foldl crc8_upd 0 m then Inr (FDILink_Error l, -1)
     else if RxDataLeft l = 0 then Inr (l\<lparr>RxStatus := 0\<rparr>, 1) else Inr (l\<lparr>RxStatus := 5\<rparr>, 0))"
proof -
  have "take 4 ((Frame_Buffer l)[4 := b]) = m" using assms(3) by simp
  then have "CRC8_Table ((Frame_Buffer l)[4 := b]) 4 = Inr (foldl crc8_upd 0 m)"
    using assms(1) by (simp add: CRC8_Table_def)
  moreover have "uint (foldl crc8_upd 0 m) \<noteq> uint b \<longleftrightarrow> b \<noteq> foldl crc8_upd 0 m"
    by (metis unsigned_word_eqI)
  ultimately show ?thesis
    using assms(1,2) by (simp add: FDILink_RunningData_def Let_def)
qed

lemma fdi_okI:
  "FDILink_RunningData l b = Inr (l', r) \<Longrightarrow> r \<in> {0, -1} \<Longrightarrow> fdi_T l' (m @ [b]) \<or> fdi_T l' [] \<Longrightarrow> fdi_ok l m b"
  by (auto simp: fdi_ok_def)

lemma fdi_ok_start:
  assumes "fdi_T l m" "RxStatus l = 0"
  shows "fdi_ok l m b"
proof -
  have w: "fdi_wf l" "m = []" using assms by (auto simp: fdi_T_def)
  let ?l = "FDILink_Reset (l\<lparr>Frame_Buffer := (Frame_Buffer l)[0 := b]\<rparr>)"
  have f: "length (Frame_Buffer l) = 12" using w(1) by (simp add: fdi_wf_def)
  have wf: "fdi_wf ?l" "RxStatus ?l = 0" using w(1) by (simp_all add: fdi_wf_def FDILink_Reset_def)
  note s = running_data_steps(1) [OF f assms(2), of b, unfolded Let_def]
  show ?thesis
  proof (cases "b = 0xFC")
    case True
    have "take (Suc 0) ((Frame_Buffer l)[0 := b]) = [b]" using f by (cases "Frame_Buffer l") simp_all
    then have "fdi_T (?l\<lparr>RxStatus := 1\<rparr>) (m @ [b])"
      using w f True by (simp add: fdi_T_def fdi_wf_def FDILink_Reset_def)
    then show ?thesis using s True by (intro fdi_okI) auto
  next
    case False
    then show ?thesis
      using s fdi_T_idle [OF wf] fdi_T_Error [OF wf(1)] by (cases "b = 0xFD") (auto intro!: fdi_okI)
  qed
qed

lemma fdi_ok_header:
  assumes "fdi_T l m" "RxStatus l = 1 \<or> RxStatus l = 2 \<or> RxStatus l = 3"
  shows "fdi_ok l m b"
proof -
  have w: "fdi_wf l" "nat (RxStatus l) = length m" "take (length m) (Frame_Buffer l) = m" "m ! 0 = 0xFC"
    "2 \<le> RxStatus l \<longrightarrow> RxType l = uint (m ! 1)" "3 \<le> RxStatus l \<longrightarrow> RxDataLeft l = uint (m ! 2)"
    using assms by (auto simp: fdi_T_def)
  have f: "length (Frame_Buffer l) = 12" using w(1) by (simp add: fdi_wf_def)
  have t: "length m < 12 \<Longrightarrow> take (Suc (length m)) ((Frame_Buffer l)[length m := b]) = m @ [b]"
    using w(3) f by simp
  have u: "uint x \<le> 255 \<and> unat x \<le> 255" for x :: u8
    using uint_lt2p [of x] less_Suc_eq_le [of "unat x" 255] by simp
  from assms(2) consider (1) "RxStatus l = 1" "length m = 1" | (2) "RxStatus l = 2" "length m = 2"
    | (3) "RxStatus l = 3" "length m = 3" using w(2) by fastforce
  then show ?thesis
  proof cases
    case 1
    then show ?thesis using running_data_steps(2) [OF f 1(1), of b] w(1,4) t
      by (elim fdi_okI) (simp_all add: fdi_T_def fdi_wf_def nth_append numeral_2_eq_2)
  next
    case 2
    then show ?thesis using running_data_steps(3) [OF f 2(1), of b] w(1,4,5) t u [of b]
      by (elim fdi_okI) (simp_all add: fdi_T_def fdi_wf_def nth_append)
  next
    case 3
    then show ?thesis using running_data_steps(4) [OF f 3(1), of b] w(1,4,5,6) t u [of "m ! 2"]
      by (elim fdi_okI) (simp_all add: fdi_T_def fdi_wf_def nth_append)
  qed
qed

lemma fdi_ok_crc8:
  assumes "fdi_T l m" "RxStatus l = 4"
  shows "fdi_ok l m b"
proof -
  have w: "fdi_wf l" "length m = 4" "take 4 (Frame_Buffer l) = m" "m ! 0 = 0xFC"
    "RxType l = uint (m ! 1)" "RxDataLeft l = uint (m ! 2)"
    using assms by (auto simp: fdi_T_def)
  let ?l = "l\<lparr>Frame_Buffer := (Frame_Buffer l)[4 := b], CRC8_Verify := uint b\<rparr>"
  have f: "length (Frame_Buffer l) = 12" using w(1) by (simp add: fdi_wf_def)
  have m: "m = [0xFC, m ! 1, m ! 2, m ! 3]"
    using w(2,4) by (intro nth_equalityI) (auto simp: less_Suc_eq numeral_eq_Suc)
  note r = running_data_crc8 [OF f assms(2) w(3), of b, unfolded Let_def]
  have wf: "fdi_wf ?l" using w(1) by (simp add: fdi_wf_def)
  have n: "of_nat (unat (m ! 2)) = m ! 2" "unat (m ! 2) < 256" "uint (m ! 2) = int (unat (m ! 2))"
    using unsigned_less [of "m ! 2"] by (simp_all add: unat_lt2p_u8)
  have h: "b = foldl crc8_upd 0 m \<Longrightarrow> m @ [b] = fdi_header (m ! 1) (unat (m ! 2)) (m ! 3)"
    using m n(1) by (simp add: fdi_header_def Let_def)
  show ?thesis
  proof (cases "b = foldl crc8_upd 0 m")
    case False
    then have "FDILink_RunningData l b = Inr (FDILink_Error ?l, -1)" using r by simp
    then show ?thesis by (rule fdi_okI) (use fdi_T_Error [OF wf] in simp_all)
  next
    case b: True
    show ?thesis
    proof (cases "m ! 2 = 0")
      case True
      then have "fdi_good (m @ [b]) (?l\<lparr>RxStatus := 0\<rparr>)"
        using h [OF b] w(1,5) assms(2) unfolding fdi_good_def
        by (intro exI [of _ "m ! 1"] exI [of _ "m ! 3"] exI [of _ "[]"]) (simp add: fdi_frame_def fdi_wf_def)
      moreover have "fdi_T (?l\<lparr>RxStatus := 0\<rparr>) []" using wf by (intro fdi_T_idle) (simp_all add: fdi_wf_def)
      moreover have "FDILink_RunningData l b = Inr (?l\<lparr>RxStatus := 0\<rparr>, 1)"
        using r b True w(6) by simp
      ultimately show ?thesis by (intro fdi_okI1)
    next
      case False
      then have "0 < RxDataLeft l" unfolding w(6) n(3) by (metis of_nat_0_less_iff unat_gt_0)
      then have "fdi_wf (?l\<lparr>RxStatus := 5\<rparr>)" using w(1) assms(2) by (simp add: fdi_wf_def)
      then have T: "fdi_T (?l\<lparr>RxStatus := 5\<rparr>) (m @ [b])"
        unfolding h [OF b] by (rule fdi_T5I) (use w(5,6) n(2) in simp_all)
      have "FDILink_RunningData l b = Inr (?l\<lparr>RxStatus := 5\<rparr>, 0)"
        using r b \<open>0 < RxDataLeft l\<close> by simp
      then show ?thesis by (rule fdi_okI) (simp_all add: T)
    qed
  qed
qed

lemma fdi_ok_crc16:
  assumes "fdi_T l m" "RxStatus l = 5 \<or> RxStatus l = 6"
  shows "fdi_ok l m b"
  using assms(2)
proof
  assume s: "RxStatus l = 5"
  then obtain ty sn n where w: "fdi_wf l" "RxType l = uint ty" "n < 256" "RxDataLeft l = int n"
    "m = fdi_header ty n sn"
    using assms(1) by (auto simp: fdi_T_def)
  then have f: "length (Frame_Buffer l) = 12" by (simp add: fdi_wf_def)
  have "fdi_T (l\<lparr>Frame_Buffer := (Frame_Buffer l)[5 := b], CRC16_Verify := uint b, RxStatus := 6\<rparr>) (m @ [b])"
    unfolding w(5) by (rule fdi_T6I) (use w s in \<open>simp_all add: fdi_wf_def\<close>)
  then show ?thesis using running_data_steps(5) [OF f s, of b] by (elim fdi_okI) simp_all
next
  assume s: "RxStatus l = 6"
  then obtain ty sn n hi where w: "fdi_wf l" "RxType l = uint ty" "n < 256" "RxDataLeft l = int n"
    "m = fdi_header ty n sn @ [hi]" "CRC16_Verify l = uint hi"
    using assms(1) by (auto simp: fdi_T_def)
  then have f: "length (Frame_Buffer l) = 12" by (simp add: fdi_wf_def)
  let ?l = "l\<lparr>Frame_Buffer := (Frame_Buffer l)[6 := b],
    CRC16_Verify := push_bit 8 (CRC16_Verify l) OR uint b, RxStatus := 7\<rparr>"
  have "m @ [b] = fdi_header ty n sn @ [hi, b] @ []" "CRC16_Verify ?l = uint (mk16 hi b)"
    "unat (BufferIndex ?l) = length ([] :: u8 list)"
    using w s by (simp_all add: mk16_shift fdi_wf_def)
  moreover have "fdi_wf ?l" using w s by (simp add: fdi_wf_def)
  ultimately have "fdi_T ?l (m @ [b])"
    using fdi_T7I [of ?l ty n "[]" hi b sn] w(2-4) by simp
  then show ?thesis using running_data_steps(6) [OF f s, of b] by (elim fdi_okI) simp_all
qed

text \<open>The data bytes: the guards of \<open>FDILink_Insert\<close> never fire in a well formed state.\<close>

lemma running_data_payload:
  assumes "fdi_wf l" "RxStatus l = 7"
  shows "FDILink_RunningData l b =
    (let l = l\<lparr>Frame_Buffer := (Frame_Buffer l)[7 := b], Buffer := (Buffer l)[unat (BufferIndex l) := b],
       BufferIndex := BufferIndex l + 1, RxDataLeft := RxDataLeft l - 1\<rparr> in
     Inr (if RxDataLeft l = 0 then l\<lparr>RxStatus := 8\<rparr> else l, 0)) \<and>
    unat (BufferIndex l + 1) = unat (BufferIndex l) + 1 \<and> unat (BufferIndex l) < 255"
proof -
  have w: "length (Frame_Buffer l) = 12" "length (Buffer l) = 256" "0 < RxDataLeft l"
    "unat (BufferIndex l) + nat (RxDataLeft l) \<le> 255"
    using assms by (simp_all add: fdi_wf_def)
  then have i: "unat (BufferIndex l) < 255" by linarith
  then have u: "unat (BufferIndex l + 1) = unat (BufferIndex l) + 1"
    by (intro unat_u32_inc) simp
  moreover have "\<not> 256 \<le> BufferIndex l + 1" using i u by (simp add: word_le_nat_alt)
  ultimately show ?thesis
    using assms(2) w i by (simp add: FDILink_RunningData_def FDILink_Insert_def Let_def)
qed

lemma fdi_ok_payload:
  assumes "fdi_T l m" "RxStatus l = 7"
  shows "fdi_ok l m b"
proof -
  obtain ty sn n hi lo d where w: "fdi_wf l" "RxType l = uint ty" "n < 256" "RxDataLeft l = int n - int (length d)"
    "m = fdi_header ty n sn @ [hi, lo] @ d" "CRC16_Verify l = uint (mk16 hi lo)"
    "unat (BufferIndex l) = length d" "take (length d) (Buffer l) = d"
    using assms by (auto simp: fdi_T_def)
  let ?l = "l\<lparr>Frame_Buffer := (Frame_Buffer l)[7 := b], Buffer := (Buffer l)[unat (BufferIndex l) := b],
       BufferIndex := BufferIndex l + 1, RxDataLeft := RxDataLeft l - 1\<rparr>"
  note r = running_data_payload [OF w(1) assms(2), of b]
  have pos: "0 < RxDataLeft l" "length (Buffer l) = 256" "length (Frame_Buffer l) = 12"
    "unat (BufferIndex l) + nat (RxDataLeft l) \<le> 255"
    using w(1) assms(2) by (simp_all add: fdi_wf_def)
  have b: "take (Suc (length d)) ((Buffer l)[length d := b]) = d @ [b]"
    using w(7,8) pos r by simp
  have m: "m @ [b] = fdi_header ty n sn @ [hi, lo] @ (d @ [b])" using w(5) by simp
  let ?l' = "if RxDataLeft ?l = 0 then ?l\<lparr>RxStatus := 8\<rparr> else ?l"
  have "fdi_wf ?l'" using w(1) assms(2) pos r by (auto simp: fdi_wf_def)
  then have "fdi_T ?l' (m @ [b])"
  proof (cases "RxDataLeft ?l = 0")
    case True
    then have "n = length (d @ [b])" using w(4) by simp
    then show ?thesis
      using True \<open>fdi_wf ?l'\<close> w(2,3,6,7) b r m fdi_T8I [of ?l' ty n "d @ [b]" hi lo sn] by simp
  next
    case False
    then show ?thesis
      using \<open>fdi_wf ?l'\<close> w(2,3,4,6,7) assms(2) b r m fdi_T7I [of ?l' ty n "d @ [b]" hi lo sn] by simp
  qed
  then show ?thesis using r by (intro fdi_okI [of _ _ ?l' 0]) (simp_all add: Let_def)
qed

lemma fdi_ok_end:
  assumes "fdi_T l m" "RxStatus l = 8"
  shows "fdi_ok l m b"
proof -
  obtain ty sn n hi lo d where w: "fdi_wf l" "RxType l = uint ty" "n < 256" "length d = n" "0 < n"
    "m = fdi_header ty n sn @ [hi, lo] @ d" "CRC16_Verify l = uint (mk16 hi lo)"
    "unat (BufferIndex l) = length d" "take (length d) (Buffer l) = d"
    using assms by (auto simp: fdi_T_def)
  have f: "length (Frame_Buffer l) = 12" "length (Buffer l) = 256" using w(1) by (simp_all add: fdi_wf_def)
  let ?l = "l\<lparr>Frame_Buffer := (Frame_Buffer l)[8 := b]\<rparr>"
  have wf: "fdi_wf ?l" using w(1) by (simp add: fdi_wf_def)
  have "unat (ucast (BufferIndex l) :: u8) = n"
    using w(3,4,8) by (simp add: take_bit_nat_eq_self unsigned_ucast_eq)
  then have c: "CRC16_Table (Buffer l) (ucast (BufferIndex l)) = Inr (foldl crc16_upd 0 d)"
    using w(3,4,9) f by (simp add: CRC16_Table_def)
  have "uint (foldl crc16_upd 0 d) = uint (mk16 hi lo) \<longleftrightarrow> foldl crc16_upd 0 d = mk16 hi lo"
    by (metis unsigned_word_eqI)
  then have r: "FDILink_RunningData l b =
    (if b = 0xFD \<and> foldl crc16_upd 0 d = mk16 hi lo then Inr (?l\<lparr>RxStatus := 0\<rparr>, 1)
     else Inr (FDILink_Error ?l, -1))"
    using running_data_steps(7) [OF f(1) assms(2), of b] c w(7) by (simp add: frame_end_def)
  show ?thesis
  proof (cases "b = 0xFD \<and> foldl crc16_upd 0 d = mk16 hi lo")
    case True
    then have "m @ [b] = fdi_frame ty sn d" using w(4-6) by (auto simp: fdi_frame_def)
    then have "fdi_good (m @ [b]) (?l\<lparr>RxStatus := 0\<rparr>)" using w by (auto simp: fdi_good_def)
    moreover have "fdi_T (?l\<lparr>RxStatus := 0\<rparr>) []" using wf by (intro fdi_T_idle) (simp_all add: fdi_wf_def)
    ultimately show ?thesis using r True by (auto simp: fdi_ok_def)
  next
    case False
    then show ?thesis using r fdi_T_Error [OF wf] by (intro fdi_okI) auto
  qed
qed

lemma fdi_ok: "fdi_T l m \<Longrightarrow> fdi_ok l m b"
proof -
  assume T: "fdi_T l m"
  then have "0 \<le> RxStatus l" "RxStatus l \<le> 8" by (simp_all add: fdi_T_def fdi_wf_def)
  then consider "RxStatus l = 0" | "RxStatus l = 1 \<or> RxStatus l = 2 \<or> RxStatus l = 3" | "RxStatus l = 4"
    | "RxStatus l = 5 \<or> RxStatus l = 6" | "RxStatus l = 7" | "RxStatus l = 8" by linarith
  then show ?thesis
    by cases (rule fdi_ok_start fdi_ok_header fdi_ok_crc8 fdi_ok_crc16 fdi_ok_payload fdi_ok_end, rule T, assumption)+
qed

section \<open>The receiver as an instance of the frame interface\<close>

lemma decode_ok:
  assumes "length buf = 256"
  shows "FDILink_Decode type buf a = Inr (if type = 0x41 then take 48 buf else a)"
  using assms by (simp add: FDILink_Decode_def)

lemma recv_simple:
  assumes "FDILink_RunningData l b = Inr (l', 0)"
  shows "FDILink_Receive (l, a) b = Inr ((l', a), 0)"
  using assms by (simp add: FDILink_Receive_def)

lemma recv_hit:
  assumes "FDILink_RunningData l b = Inr (l', 1)" "length (Buffer l') = 256"
  shows "FDILink_Receive (l, a) b = Inr ((l', if RxType l' = 0x41 then take 48 (Buffer l') else a), 1)"
  using assms by (simp add: FDILink_Receive_def FDILink_Effect_def decode_ok)

lemma recv_miss:
  assumes "FDILink_RunningData l b = Inr (l', -1)"
  shows "FDILink_Receive (l, a) b = Inr ((l', a), 255)"
  using assms by (simp add: FDILink_Receive_def unsigned_minus_1_eq_mask mask_eq_exp_minus_1)

definition recv_T :: "FDILink_Status \<times> u8 list \<Rightarrow> u8 list \<Rightarrow> bool" where
  "recv_T s m = fdi_T (fst s) m"

definition recv_good :: "u8 list \<Rightarrow> FDILink_Status \<times> u8 list \<Rightarrow> bool" where
  "recv_good fr s = (fdi_good fr (fst s) \<and> (RxType (fst s) = 0x41 \<longrightarrow> snd s = take 48 (Buffer (fst s))))"

lemma fdi_T_buffer: "fdi_T l m \<Longrightarrow> length (Buffer l) = 256"
  by (simp add: fdi_T_def fdi_wf_def)

interpretation fdi: tracker FDILink_Receive recv_T "\<lambda>r. r = 1" recv_good
proof (rule trackerI)
  fix s m b assume "recv_T s m"
  then have T: "fdi_T (fst s) m" by (simp add: recv_T_def)
  obtain l a where s: "s = (l, a)" by fastforce
  from fdi_ok [OF T, of b] obtain l' r where r: "FDILink_RunningData l b = Inr (l', r)" "r = 0 \<or> r = 1 \<or> r = -1"
    "fdi_T l' (m @ [b]) \<or> fdi_T l' []" "r = 1 \<longrightarrow> fdi_good (m @ [b]) l'"
    by (auto simp: fdi_ok_def s)
  have "length (Buffer l') = 256" using r(3) fdi_T_buffer by blast
  then show "\<exists>s' v. FDILink_Receive s b = Inr (s', v) \<and> (recv_T s' (m @ [b]) \<or> recv_T s' []) \<and>
      (v = 1 \<longrightarrow> recv_good (m @ [b]) s')"
    using r recv_simple [of l b l' a] recv_hit [of l b l' a] recv_miss [of l b l' a]
    unfolding s recv_T_def recv_good_def by (elim disjE) simp_all
qed

lemma fdi_T_init:
  assumes "length (Frame_Buffer l) = 12" "0 \<le> RxDataLeft l"
  shows "recv_T (FDILink_Init l, a) []"
  using assms by (simp add: recv_T_def fdi_T_def fdi_wf_def FDILink_Init_def)

section \<open>A frame is received\<close>

lemma take4_header:
  "length fb = 12 \<Longrightarrow> take 4 (fb[0 := a, 1 := b, 2 := c, 3 := d]) = [a, b, c, d]"
  by (intro nth_equalityI) (auto simp: nth_list_update less_Suc_eq numeral_eq_Suc)

lemma feed5:
  "f s b1 = Inr (s1, r1) \<Longrightarrow> f s1 b2 = Inr (s2, r2) \<Longrightarrow> f s2 b3 = Inr (s3, r3) \<Longrightarrow>
    f s3 b4 = Inr (s4, r4) \<Longrightarrow> f s4 b5 = Inr (s5, r5) \<Longrightarrow>
    feed f s [b1, b2, b3, b4, b5] = Inr (s5, [r1, r2, r3, r4, r5])"
  by simp

text \<open>The header alone: it is the whole frame of an empty packet.\<close>

lemma recv_header:
  assumes "fdi_wf l" "RxStatus l = 0" "n < 256"
  shows "\<exists>l'. fdi_wf l' \<and> RxType l' = uint ty \<and> RxDataLeft l' = int n \<and> BufferIndex l' = 0 \<and> Buffer l' = Buffer l \<and>
    (if n = 0 then RxStatus l' = 0 \<and> feed FDILink_Receive (l, a) (fdi_header ty n sn) =
        Inr ((l', if ty = 0x41 then take 48 (Buffer l) else a), [0, 0, 0, 0, 1])
     else RxStatus l' = 5 \<and> feed FDILink_Receive (l, a) (fdi_header ty n sn) = Inr ((l', a), [0, 0, 0, 0, 0]))"
proof -
  let ?fb = "(Frame_Buffer l)[0 := 0xFC]"
  let ?c = "foldl crc8_upd 0 [0xFC, ty, of_nat n, sn]"
  let ?l1 = "FDILink_Reset (l\<lparr>Frame_Buffer := ?fb\<rparr>)\<lparr>RxStatus := 1\<rparr>"
  let ?l2 = "?l1\<lparr>Frame_Buffer := ?fb[1 := ty], RxType := uint ty, RxStatus := 2\<rparr>"
  let ?l3 = "?l2\<lparr>Frame_Buffer := ?fb[1 := ty, 2 := of_nat n], RxDataLeft := int n, RxStatus := 3\<rparr>"
  let ?l4 = "?l3\<lparr>Frame_Buffer := ?fb[1 := ty, 2 := of_nat n, 3 := sn], RxNumber := uint sn, RxStatus := 4\<rparr>"
  let ?l5 = "?l4\<lparr>Frame_Buffer := ?fb[1 := ty, 2 := of_nat n, 3 := sn, 4 := ?c], CRC8_Verify := uint ?c,
    RxStatus := (if n = 0 then 0 else 5)\<rparr>"
  have f: "length (Frame_Buffer l) = 12" "length (Buffer l) = 256" using assms(1) by (simp_all add: fdi_wf_def)
  have n: "uint (of_nat n :: u8) = int n" using assms(3) by (simp add: unsigned_of_nat take_bit_nat_eq_self)
  have s1: "FDILink_RunningData l 0xFC = Inr (?l1, 0)"
    using running_data_steps(1) [OF f(1) assms(2), of "0xFC"] by (simp add: Let_def)
  have s2: "FDILink_RunningData ?l1 ty = Inr (?l2, 0)"
    using running_data_steps(2) [of ?l1 ty] f by (simp add: FDILink_Reset_def)
  have s3: "FDILink_RunningData ?l2 (of_nat n) = Inr (?l3, 0)"
    using running_data_steps(3) [of ?l2 "of_nat n"] f n by simp
  have s4: "FDILink_RunningData ?l3 sn = Inr (?l4, 0)"
    using running_data_steps(4) [of ?l3 sn] f by simp
  have "take 4 (Frame_Buffer ?l4) = [0xFC, ty, of_nat n, sn]" using take4_header [OF f(1)] by simp
  then have s5: "FDILink_RunningData ?l4 ?c = Inr (?l5, if n = 0 then 1 else 0)"
    using running_data_crc8 [of ?l4 "[0xFC, ty, of_nat n, sn]" ?c] f by (simp add: Let_def)
  have "uint ty = 0x41 \<longleftrightarrow> ty = 0x41"
    using unsigned_word_eqI [of ty "0x41"] by auto
  then have s5': "FDILink_Receive (?l4, a) ?c =
      Inr ((?l5, if n = 0 \<and> ty = 0x41 then take 48 (Buffer l) else a), if n = 0 then 1 else 0)"
  proof (cases "n = 0")
    case True
    have "FDILink_RunningData ?l4 ?c = Inr (?l5, 1)" using s5 unfolding if_P [OF True] .
    from recv_hit [OF this, of a] show ?thesis
      using True f(2) \<open>uint ty = 0x41 \<longleftrightarrow> ty = 0x41\<close> by (simp add: FDILink_Reset_def)
  next
    case False
    have "FDILink_RunningData ?l4 ?c = Inr (?l5, 0)" using s5 unfolding if_not_P [OF False] .
    from recv_simple [OF this, of a] show ?thesis using False by simp
  qed
  have h: "fdi_header ty n sn = [0xFC, ty, of_nat n, sn, ?c]" by (simp add: fdi_header_def Let_def)
  have "feed FDILink_Receive (l, a) (fdi_header ty n sn) =
      Inr ((?l5, if n = 0 \<and> ty = 0x41 then take 48 (Buffer l) else a), [0, 0, 0, 0, if n = 0 then 1 else 0])"
    unfolding h
    by (rule feed5 [where f = FDILink_Receive, OF recv_simple [OF s1, of a] recv_simple [OF s2, of a] recv_simple [OF s3, of a]
        recv_simple [OF s4, of a] s5'])
  moreover have "fdi_wf ?l5" "RxStatus ?l5 = (if n = 0 then 0 else 5)" "Buffer ?l5 = Buffer l"
    "RxDataLeft ?l5 = int n" "BufferIndex ?l5 = 0" "RxType ?l5 = uint ty"
    using assms(1,3) by (simp_all add: fdi_wf_def FDILink_Reset_def)
  ultimately show ?thesis
    by (intro exI [of _ ?l5]) (cases "n = 0", simp_all)
qed

text \<open>The payload, byte by byte.\<close>

lemma recv_payload:
  assumes "fdi_wf l" "RxStatus l = 7" "RxDataLeft l = int (length d)" "d \<noteq> []"
  shows "\<exists>l'. fdi_wf l' \<and> RxStatus l' = 8 \<and> RxType l' = RxType l \<and> CRC16_Verify l' = CRC16_Verify l \<and>
    unat (BufferIndex l') = unat (BufferIndex l) + length d \<and>
    take (unat (BufferIndex l) + length d) (Buffer l') = take (unat (BufferIndex l)) (Buffer l) @ d \<and>
    feed FDILink_Receive (l, a) d = Inr ((l', a), replicate (length d) 0)"
  using assms
proof (induction d arbitrary: l)
  case (Cons b d)
  let ?l = "l\<lparr>Frame_Buffer := (Frame_Buffer l)[7 := b], Buffer := (Buffer l)[unat (BufferIndex l) := b],
       BufferIndex := BufferIndex l + 1, RxDataLeft := RxDataLeft l - 1\<rparr>"
  note r = running_data_payload [OF Cons.prems(1,2), of b, unfolded Let_def]
  have u: "unat (BufferIndex ?l) = unat (BufferIndex l) + 1" using r by simp
  have b: "length (Buffer l) = 256" "unat (BufferIndex l) < 256" using Cons.prems(1) r by (simp_all add: fdi_wf_def)
  have "nat (RxDataLeft l) = length (b # d)" using Cons.prems(3) by (metis nat_int)
  then have i: "unat (BufferIndex l) + length (b # d) \<le> 255"
    using Cons.prems(1,2) by (simp add: fdi_wf_def)
  have t: "take (unat (BufferIndex l) + 1) (Buffer ?l) = take (unat (BufferIndex l)) (Buffer l) @ [b]"
    using b by simp
  show ?case
  proof (cases "d = []")
    case True
    then have "FDILink_RunningData l b = Inr (?l\<lparr>RxStatus := 8\<rparr>, 0)" using r Cons.prems(3) by simp
    moreover have "fdi_wf (?l\<lparr>RxStatus := 8\<rparr>)"
      using Cons.prems(1,3) True i u by (simp add: fdi_wf_def)
    ultimately show ?thesis
      using True u t recv_simple [of l b "?l\<lparr>RxStatus := 8\<rparr>" a]
      by (intro exI [of _ "?l\<lparr>RxStatus := 8\<rparr>"]) simp
  next
    case False
    then have n: "RxDataLeft ?l = int (length d)" "RxDataLeft ?l \<noteq> 0" using Cons.prems(3) by simp_all
    have s: "FDILink_RunningData l b = Inr (?l, 0)" using r n(2) by simp
    have "fdi_wf ?l" using Cons.prems(1-3) False i u by (simp add: fdi_wf_def)
    from Cons.IH [OF this _ n(1) False] Cons.prems(2) obtain l' where
      l': "fdi_wf l'" "RxStatus l' = 8" "RxType l' = RxType l" "CRC16_Verify l' = CRC16_Verify l"
      "unat (BufferIndex l') = unat (BufferIndex ?l) + length d"
      "take (unat (BufferIndex ?l) + length d) (Buffer l') = take (unat (BufferIndex ?l)) (Buffer ?l) @ d"
      "feed FDILink_Receive (?l, a) d = Inr ((l', a), replicate (length d) 0)" by auto
    then show ?thesis
      using u t recv_simple [OF s, of a] by (intro exI [of _ l']) simp
  qed
qed simp

lemma recv_frame:
  assumes "fdi_wf l" "RxStatus l = 0" "d \<noteq> []" "length d < 256"
  shows "\<exists>l'. fdi_wf l' \<and> RxStatus l' = 0 \<and> RxType l' = uint ty \<and>
    unat (BufferIndex l') = length d \<and> take (length d) (Buffer l') = d \<and>
    feed FDILink_Receive (l, a) (fdi_frame ty sn d) =
      Inr ((l', if ty = 0x41 then take 48 (Buffer l') else a), replicate (length d + 7) 0 @ [1])"
proof -
  let ?hi = "hi8 (foldl crc16_upd 0 d)"
  let ?lo = "lo8 (foldl crc16_upd 0 d)"
  obtain l1 where l1: "fdi_wf l1" "RxType l1 = uint ty" "RxDataLeft l1 = int (length d)" "BufferIndex l1 = 0"
    "RxStatus l1 = 5"
    "feed FDILink_Receive (l, a) (fdi_header ty (length d) sn) = Inr ((l1, a), [0, 0, 0, 0, 0])"
    using recv_header [OF assms(1,2,4), of ty a sn] assms(3) by auto
  let ?l2 = "l1\<lparr>Frame_Buffer := (Frame_Buffer l1)[5 := ?hi], CRC16_Verify := uint ?hi, RxStatus := 6\<rparr>"
  let ?l3 = "?l2\<lparr>Frame_Buffer := (Frame_Buffer ?l2)[6 := ?lo],
    CRC16_Verify := push_bit 8 (CRC16_Verify ?l2) OR uint ?lo, RxStatus := 7\<rparr>"
  have f: "length (Frame_Buffer l1) = 12" using l1(1) by (simp add: fdi_wf_def)
  have s2: "FDILink_RunningData l1 ?hi = Inr (?l2, 0)" by (rule running_data_steps(5) [OF f l1(5)])
  have s3: "FDILink_RunningData ?l2 ?lo = Inr (?l3, 0)" by (rule running_data_steps(6)) (use f in simp_all)
  have crc: "CRC16_Verify ?l3 = uint (foldl crc16_upd 0 d)" by (simp add: mk16_shift)
  have "fdi_wf ?l3" using l1(1,3,4,5) by (simp add: fdi_wf_def)
  from recv_payload [OF this _ _ assms(3), of a] l1(3,4) crc obtain l4 where
    l4: "fdi_wf l4" "RxStatus l4 = 8" "RxType l4 = uint ty" "CRC16_Verify l4 = uint (foldl crc16_upd 0 d)"
    "unat (BufferIndex l4) = length d" "take (length d) (Buffer l4) = d"
    "feed FDILink_Receive (?l3, a) d = Inr ((l4, a), replicate (length d) 0)"
    using l1(2) by auto
  have f4: "length (Frame_Buffer l4) = 12" "length (Buffer l4) = 256" using l4(1) by (simp_all add: fdi_wf_def)
  have "unat (ucast (BufferIndex l4) :: u8) = length d"
    using assms(4) l4(5) by (simp add: take_bit_nat_eq_self unsigned_ucast_eq)
  then have "CRC16_Table (Buffer l4) (ucast (BufferIndex l4)) = Inr (foldl crc16_upd 0 d)"
    using l4(6) f4 assms(4) by (simp add: CRC16_Table_def)
  then have s5: "FDILink_RunningData l4 0xFD = Inr (l4\<lparr>Frame_Buffer := (Frame_Buffer l4)[8 := 0xFD], RxStatus := 0\<rparr>, 1)"
    using running_data_steps(7) [OF f4(1) l4(2), of "0xFD"] l4(4) by (simp add: frame_end_def)
  let ?l5 = "l4\<lparr>Frame_Buffer := (Frame_Buffer l4)[8 := 0xFD], RxStatus := 0\<rparr>"
  have "uint ty = 0x41 \<longleftrightarrow> ty = 0x41" using unsigned_word_eqI [of ty "0x41"] by auto
  then have "FDILink_Receive (l4, a) 0xFD = Inr ((?l5, if ty = 0x41 then take 48 (Buffer l4) else a), 1)"
    using recv_hit [OF s5, of a] f4 l4(3) by simp
  then have rest: "feed FDILink_Receive (l1, a) ([?hi, ?lo] @ d @ [0xFD]) =
      Inr ((?l5, if ty = 0x41 then take 48 (Buffer ?l5) else a), [0, 0] @ replicate (length d) 0 @ [1])"
    using recv_simple [OF s2, of a] recv_simple [OF s3, of a] l4(7) by (simp add: feed_append)
  have rep: "[0, 0, 0, 0, 0] @ [0, 0] @ replicate (length d) 0 @ [1] = replicate (length d + 7) 0 @ [1 :: int]"
    by (simp add: numeral_eq_Suc)
  have "feed FDILink_Receive (l, a) (fdi_frame ty sn d) =
      Inr ((?l5, if ty = 0x41 then take 48 (Buffer ?l5) else a), replicate (length d + 7) 0 @ [1])"
    unfolding fdi_frame_def if_not_P [OF assms(3)] append_assoc
      feed_append [of _ _ "fdi_header ty (length d) sn"] l1(6)
    by (simp only: cbind.simps prod.case rest rep)
  moreover have "fdi_wf ?l5" using l4(1) by (simp add: fdi_wf_def)
  ultimately show ?thesis
    using l4(3,5,6) by (intro exI [of _ ?l5]) simp
qed

lemma split7:
  assumes "8 + n \<le> length (buffer :: 'a list)"
  shows "\<exists>x0 x1 x2 x3 x4 x5 x6 rest y ys. buffer = [x0, x1, x2, x3, x4, x5, x6] @ rest \<and> drop n rest = y # ys"
proof -
  have "take 7 buffer @ drop 7 buffer = buffer" by simp
  moreover have "\<exists>x0 x1 x2 x3 x4 x5 x6. zs = [x0, x1, x2, x3, x4, x5, x6]" if "length zs = 7" for zs :: "'a list"
    using that by (auto simp: length_Suc_conv numeral_eq_Suc)
  moreover have "length (take 7 buffer) = 7" using assms by simp
  moreover have "drop n (drop 7 buffer) \<noteq> []" using assms by simp
  ultimately show ?thesis unfolding neq_Nil_conv by metis
qed

lemma put_header_bytes:
  "TxNumber l \<in> {- (2 ^ 31)..<2 ^ 31 - 1} \<Longrightarrow> put_header ([x0, x1, x2, x3, x4, x5, x6] @ rest) l ty n =
    Inr (fdi_header ty n (of_int (TxNumber l)) @ [x5, x6] @ rest, l\<lparr>TxNumber := TxNumber l + 1\<rparr>)"
  "TxNumber l = 2 ^ 31 - 1 \<Longrightarrow> put_header ([x0, x1, x2, x3, x4, x5, x6] @ rest) l ty n = Inl Overflow"
  by (simp_all add: put_header_def CRC8_Table_def fdi_header_def Let_def chk32_def)

lemma put_data_bytes:
  assumes "length h = 5" "length d < 256" "drop (length d) rest = y # ys" "length d \<le> length buf" "d = take (length d) buf"
  shows "put_data (h @ [x5, x6] @ rest) buf (length d) =
    Inr (h @ [hi8 (foldl crc16_upd 0 d), lo8 (foldl crc16_upd 0 d)] @ d @ [0xFD] @ ys)"
proof -
  have "length (drop (length d) rest) = Suc (length ys)" using assms(3) by simp
  then have r: "length d \<le> length rest" by simp
  have "h @ [x5, x6] @ rest = (h @ [x5, x6]) @ rest" by simp
  have c: "cpy (h @ [x5, x6] @ rest) 7 d = Inr (h @ [x5, x6] @ d @ y # ys)"
    using assms(1,3) r by (simp add: cpy_def)
  have k: "CRC16_Table (drop 7 (h @ [x5, x6] @ d @ y # ys)) (of_nat (length d)) = Inr (foldl crc16_upd 0 d)"
    using assms(1,2) by (simp add: CRC16_Table_def)
  have "rd_n buf (length d) = Inr d" using assms(4,5) by simp
  then show ?thesis
    unfolding put_data_def by (simp only: cbind.simps c k) (use assms(1) in \<open>simp add: list_update_append\<close>)
qed

lemma send_bytes:
  assumes "8 + n \<le> length buffer" "n < 248" "n \<le> length buf"
  shows "TxNumber l \<in> {- (2 ^ 31)..<2 ^ 31 - 1} \<Longrightarrow> \<exists>buffer'. FDILink_Pack buffer l ty buf n =
      Inr (buffer', l\<lparr>TxNumber := TxNumber l + 1\<rparr>, 8 + int n) \<and>
      (0 < n \<longrightarrow> take (8 + n) buffer' = fdi_frame ty (of_int (TxNumber l)) (take n buf)) \<and>
      drop (8 + n) buffer' = drop (8 + n) buffer"
    and "TxNumber l \<in> {- (2 ^ 31)..<2 ^ 31 - 1} \<Longrightarrow> FDILink_Send buffer l ty buf n = Inr (l\<lparr>TxNumber := TxNumber l + 1\<rparr>, 0)"
    and "TxNumber l = 2 ^ 31 - 1 \<Longrightarrow> FDILink_Pack buffer l ty buf n = Inl Overflow \<and> FDILink_Send buffer l ty buf n = Inl Overflow"
proof -
  obtain x0 x1 x2 x3 x4 x5 x6 rest y ys where
    b: "buffer = [x0, x1, x2, x3, x4, x5, x6] @ rest" "drop n rest = y # ys"
    using split7 [OF assms(1)] by blast
  let ?h = "fdi_header ty n (of_int (TxNumber l))"
  let ?d = "take n buf"
  let ?out = "?h @ [hi8 (foldl crc16_upd 0 ?d), lo8 (foldl crc16_upd 0 ?d)] @ ?d @ [0xFD] @ ys"
  have h: "length ?h = 5" by (simp add: fdi_header_def Let_def)
  have n: "length ?d = n" using assms(3) by simp
  have p: "put_data (?h @ [x5, x6] @ rest) buf n = Inr ?out"
    using put_data_bytes [OF h, of ?d rest y ys buf x5 x6] assms b(2) n by simp
  have t: "0 < n \<Longrightarrow> take (8 + n) ?out = fdi_frame ty (of_int (TxNumber l)) ?d"
  proof -
    assume "0 < n"
    then have "?d \<noteq> []" using assms(3) by auto
    then have "?out = fdi_frame ty (of_int (TxNumber l)) ?d @ ys" "length (fdi_frame ty (of_int (TxNumber l)) ?d) = 8 + n"
      using h n by (simp_all add: fdi_frame_def)
    then show ?thesis by (metis append_eq_conv_conj)
  qed
  have "drop 7 buffer = rest" by (simp add: b(1))
  moreover have "drop (8 + n) buffer = drop 1 (drop n (drop 7 buffer))" by (simp add: add.commute)
  ultimately have ys: "drop (8 + n) buffer = ys" using b(2) by simp
  let ?pre = "?h @ [hi8 (foldl crc16_upd 0 ?d), lo8 (foldl crc16_upd 0 ?d)] @ ?d @ [0xFD]"
  have "?out = ?pre @ ys" "length ?pre = 8 + n" using h n by simp_all
  then have rest: "drop (8 + n) ?out = drop (8 + n) buffer" unfolding ys by (metis append_eq_conv_conj)
  show "TxNumber l \<in> {- (2 ^ 31)..<2 ^ 31 - 1} \<Longrightarrow> \<exists>buffer'. FDILink_Pack buffer l ty buf n =
      Inr (buffer', l\<lparr>TxNumber := TxNumber l + 1\<rparr>, 8 + int n) \<and>
      (0 < n \<longrightarrow> take (8 + n) buffer' = fdi_frame ty (of_int (TxNumber l)) (take n buf)) \<and>
      drop (8 + n) buffer' = drop (8 + n) buffer"
    unfolding FDILink_Pack_def b(1) using t rest [unfolded b(1)] by (simp only: put_header_bytes(1) cbind.simps prod.case p) blast
  show "TxNumber l \<in> {- (2 ^ 31)..<2 ^ 31 - 1} \<Longrightarrow> FDILink_Send buffer l ty buf n = Inr (l\<lparr>TxNumber := TxNumber l + 1\<rparr>, 0)"
    unfolding FDILink_Send_def b(1) by (simp only: put_header_bytes(1) cbind.simps prod.case p Serial_Send_def if_cancel)
  show "TxNumber l = 2 ^ 31 - 1 \<Longrightarrow> FDILink_Pack buffer l ty buf n = Inl Overflow \<and> FDILink_Send buffer l ty buf n = Inl Overflow"
    unfolding FDILink_Pack_def FDILink_Send_def b(1) by (simp only: put_header_bytes(2) cbind.simps)
qed

text \<open>A sequence of packets, each with type, packet number and payload.\<close>

type_synonym fdi_packet = "u8 \<times> u8 \<times> u8 list"

definition fdi_frames :: "fdi_packet list \<Rightarrow> u8 list" where
  "fdi_frames ps = concat (map (\<lambda>(ty, sn, d). fdi_frame ty sn d) ps)"

text \<open>What the receiver returns for them: 1 at the last byte of each.\<close>

definition fdi_reports :: "fdi_packet list \<Rightarrow> int list" where
  "fdi_reports ps = concat (map (\<lambda>(ty, sn, d). replicate (length d + 7) 0 @ [1]) ps)"

text \<open>The attitude data after them: the payload of the last attitude packet.\<close>

definition fdi_ahrs :: "u8 list \<Rightarrow> fdi_packet list \<Rightarrow> u8 list" where
  "fdi_ahrs = foldl (\<lambda>a (ty, sn, d). if ty = 0x41 then d else a)"

text \<open>Packets with a payload, those with the attitude of its size.\<close>

definition sensor_packet :: "fdi_packet \<Rightarrow> bool" where
  "sensor_packet p = (case p of (ty, sn, d) \<Rightarrow> d \<noteq> [] \<and> length d < 256 \<and> (ty = 0x41 \<longrightarrow> length d = 48))"

lemma recv_frames:
  assumes "fdi_wf l" "RxStatus l = 0" "\<forall>p \<in> set ps. sensor_packet p"
  shows "\<exists>l'. feed FDILink_Receive (l, a) (fdi_frames ps) = Inr ((l', fdi_ahrs a ps), fdi_reports ps) \<and> fdi_wf l' \<and> RxStatus l' = 0 \<and>
    (ps \<noteq> [] \<longrightarrow> RxType l' = uint (fst (last ps)) \<and> take (length (snd (snd (last ps)))) (Buffer l') = snd (snd (last ps)))"
  using assms
proof (induction ps arbitrary: l a)
  case (Cons p ps)
  obtain ty sn d where p: "p = (ty, sn, d)" by (cases p) auto
  have d: "d \<noteq> []" "length d < 256" "ty = 0x41 \<Longrightarrow> length d = 48" using Cons.prems(3) by (auto simp: p sensor_packet_def)
  obtain l1 where l1: "fdi_wf l1" "RxStatus l1 = 0" "RxType l1 = uint ty" "take (length d) (Buffer l1) = d"
    "feed FDILink_Receive (l, a) (fdi_frame ty sn d) = Inr ((l1, if ty = 0x41 then take 48 (Buffer l1) else a), replicate (length d + 7) 0 @ [1])"
    using recv_frame [OF Cons.prems(1,2) d(1,2)] by blast
  have a: "(if ty = 0x41 then take 48 (Buffer l1) else a) = (if ty = 0x41 then d else a)" using l1(4) d(3) by auto
  obtain l' where l': "feed FDILink_Receive (l1, if ty = 0x41 then d else a) (fdi_frames ps) =
      Inr ((l', fdi_ahrs (if ty = 0x41 then d else a) ps), fdi_reports ps)" "fdi_wf l'" "RxStatus l' = 0"
    "ps \<noteq> [] \<longrightarrow> RxType l' = uint (fst (last ps)) \<and> take (length (snd (snd (last ps)))) (Buffer l') = snd (snd (last ps))"
    using Cons.IH [OF l1(1,2)] Cons.prems(3) by auto
  have 1: "fdi_frames (p # ps) = fdi_frame ty sn d @ fdi_frames ps" "fdi_reports (p # ps) = (replicate (length d + 7) 0 @ [1]) @ fdi_reports ps"
    "fdi_ahrs a (p # ps) = fdi_ahrs (if ty = 0x41 then d else a) ps"
    by (simp_all add: p fdi_frames_def fdi_reports_def fdi_ahrs_def)
  have run: "feed FDILink_Receive (l, a) (fdi_frames (p # ps)) = Inr ((l', fdi_ahrs a (p # ps)), fdi_reports (p # ps))"
    unfolding 1 feed_append l1(5) a by (simp only: cbind.simps prod.case l'(1))
  show ?case
  proof (cases "ps = []")
    case True
    then have "l' = l1" using l'(1) by (simp add: fdi_frames_def)
    then show ?thesis using run l1 True p by auto
  next
    case False
    then show ?thesis using run l'(2-4) by auto
  qed
qed (simp add: fdi_frames_def fdi_reports_def fdi_ahrs_def)

section \<open>What the link promises\<close>

definition fdi_start :: FDILink_Status where
  "fdi_start = FDILink_Init \<lparr>BootStatus = 0, RxStatus = 0, RxType = 0, RxDataLeft = 0, RxNumber = 0, TxNumber = 0,
     CRC8_Verify = 0, CRC16_Verify = 0, BufferIndex = 0, Frame_Buffer = replicate 12 0, Buffer = replicate 256 0\<rparr>"

lemma fdi_start: "recv_T (fdi_start, a) []"
  unfolding fdi_start_def by (rule fdi_T_init) simp_all

lemma fdi_start_wf: "fdi_wf fdi_start" "RxStatus fdi_start = 0"
  using fdi_start [of "[]"] by (simp_all add: recv_T_def fdi_T_def fdi_start_def FDILink_Init_def)

text \<open>
  After initialisation no byte stream makes the receiver of the inertial sensor run into a
  fault: the index into the 12 byte header buffer and the one into the 256 byte payload buffer stay
  inside, and the dispatch never reads past the payload buffer.
\<close>

theorem fdi_receiver_never_faults:
  "\<exists>s rs. feed FDILink_Receive (fdi_start, ahrs) bs = Inr (s, rs) \<and> length rs = length bs"
  by (rule fdi.never_faults [OF fdi_start])

text \<open>
  C3: when the receiver reports a packet, the bytes received last are a complete frame: start byte,
  type, length, serial number and the CRC-8 of these four, and, unless the payload is empty, the
  CRC-16 of the payload, the payload and the end byte. The payload is at the beginning of the
  receiver's buffer and its length is the buffer index.
\<close>

theorem fdi_receiver_sound:
  assumes "feed FDILink_Receive (fdi_start, ahrs) (xs @ [b]) = Inr ((l, a), rs)" "last rs = 1"
  shows "\<exists>pre ty sn d. xs @ [b] = pre @ fdi_frame ty sn d \<and> RxType l = uint ty \<and>
    unat (BufferIndex l) = length d \<and> take (length d) (Buffer l) = d"
  using fdi.reported_frame [OF fdi_start assms] by (auto simp: recv_good_def fdi_good_def)

theorem fdi_receiver_sound_witness:
  "\<exists>pre ty sn d. [0xFC, 7, 0, 9, 0x85] = pre @ fdi_frame ty sn d"
proof -
  have "\<exists>l a. feed FDILink_Receive (fdi_start, []) ([0xFC, 7, 0, 9] @ [0x85]) = Inr ((l, a), [0, 0, 0, 0, 1])"
    using recv_header [OF fdi_start_wf, of 0 7 "[]" 9]
    by (auto simp: fdi_header_def Let_def crc8_upd_def CRC8Table_def)
  then obtain l a where "feed FDILink_Receive (fdi_start, []) ([0xFC, 7, 0, 9] @ [0x85]) = Inr ((l, a), [0, 0, 0, 0, 1])"
    by blast
  from fdi_receiver_sound [OF this] show ?thesis by auto
qed

text \<open>
  C18: \<open>FDILink_Pack\<close> makes packets its receiver takes. For a payload of 1 to 247 bytes it writes one frame of the payload's length
  plus 8, and nothing behind it, and counts the packet; a receiver between two frames returns 0 for every byte of this frame before the last
  and 1 for the last, and then holds the type and the payload. \<open>FDILink_Send\<close> only counts the packet and returns 0. When the packet
  number is the largest \<^verbatim>\<open>int\<close> both overflow.
\<close>

theorem fdi_pack_receive:
  assumes "8 + n \<le> length buffer" "0 < n" "n < 248" "n \<le> length buf" "fdi_wf l" "RxStatus l = 0" "- (2 ^ 31) \<le> TxNumber s" "TxNumber s < 2 ^ 31"
  shows "if TxNumber s = 2 ^ 31 - 1
    then FDILink_Pack buffer s ty buf n = Inl Overflow \<and> FDILink_Send buffer s ty buf n = Inl Overflow
    else FDILink_Send buffer s ty buf n = Inr (s\<lparr>TxNumber := TxNumber s + 1\<rparr>, 0) \<and>
      (\<exists>out l3 a. FDILink_Pack buffer s ty buf n = Inr (out, s\<lparr>TxNumber := TxNumber s + 1\<rparr>, 8 + int n) \<and>
        drop (8 + n) out = drop (8 + n) buffer \<and>
        feed FDILink_Receive (l, ahrs) (take (8 + n) out) = Inr ((l3, a), replicate (n + 7) 0 @ [1]) \<and>
        RxType l3 = uint ty \<and> take n (Buffer l3) = take n buf \<and> unat (BufferIndex l3) = n)"
proof (cases "TxNumber s = 2 ^ 31 - 1")
  case True
  then show ?thesis using send_bytes(3) [OF assms(1,3,4)] by simp
next
  case False
  then have tx: "TxNumber s \<in> {- (2 ^ 31)..<2 ^ 31 - 1}" using assms(7,8) by simp
  let ?d = "take n buf"
  have d: "?d \<noteq> []" "length ?d = n" "length ?d < 256" using assms by auto
  obtain out where out: "FDILink_Pack buffer s ty buf n = Inr (out, s\<lparr>TxNumber := TxNumber s + 1\<rparr>, 8 + int n)"
    "take (8 + n) out = fdi_frame ty (of_int (TxNumber s)) ?d" "drop (8 + n) out = drop (8 + n) buffer"
    using send_bytes(1) [OF assms(1,3,4) tx, of ty] assms(2) by blast
  obtain l3 a where "feed FDILink_Receive (l, ahrs) (take (8 + n) out) = Inr ((l3, a), replicate (n + 7) 0 @ [1])"
    "RxType l3 = uint ty \<and> take n (Buffer l3) = take n buf \<and> unat (BufferIndex l3) = n"
    using recv_frame [OF assms(5,6) d(1,3), of ty ahrs "of_int (TxNumber s)"] d(2) unfolding out(2) by auto
  then show ?thesis unfolding if_not_P [OF False] using send_bytes(2) [OF assms(1,3,4) tx, of ty] out(1,3) by blast
qed

theorem fdi_pack_receive_witness:
  "FDILink_Send (replicate 20 0) fdi_start 0x41 [1, 2, 3] 3 = Inr (fdi_start\<lparr>TxNumber := 1\<rparr>, 0) \<and>
   (\<exists>out l3 a. FDILink_Pack (replicate 20 0) fdi_start 0x41 [1, 2, 3] 3 = Inr (out, fdi_start\<lparr>TxNumber := 1\<rparr>, 11) \<and>
    feed FDILink_Receive (fdi_start, []) (take 11 out) = Inr ((l3, a), replicate 10 0 @ [1]) \<and>
    RxType l3 = 0x41 \<and> take 3 (Buffer l3) = [1, 2, 3]) \<and>
   FDILink_Pack (replicate 20 0) (fdi_start\<lparr>TxNumber := 2 ^ 31 - 1\<rparr>) 0x41 [1, 2, 3] 3 = Inl Overflow"
proof -
  have tx: "TxNumber fdi_start = 0" by (simp add: fdi_start_def FDILink_Init_def)
  have a: "8 + 3 \<le> length (replicate 20 (0 :: u8))" "0 < (3 :: nat)" "(3 :: nat) < 248" "3 \<le> length [1, 2, 3 :: u8]" by simp_all
  show ?thesis
    using fdi_pack_receive [OF a fdi_start_wf, of fdi_start "0x41" "[]"]
      fdi_pack_receive [OF a fdi_start_wf, of "fdi_start\<lparr>TxNumber := 2 ^ 31 - 1\<rparr>" "0x41" "[]"] by (auto simp: tx)
qed

end
