(* ===== verification/Links.thy ===== *)
theory Links
  imports SerialTx Receivers FDILink
begin

text \<open>
  Protocols over serial ports: what a receiver of the application makes of a byte stream, it makes of the bytes its thread reads from
  the port. The contract of the port is the locale \<open>byte_link\<close>; the receiving port of \<^theory_text>\<open>SerialPort\<close> fulfils it.
\<close>

locale byte_link =
  fixes ok :: "'s \<Rightarrow> 'e list \<Rightarrow> bool" and runs :: "'e list \<Rightarrow> 's \<Rightarrow> 's cres" and got :: "'s \<Rightarrow> 'b list"
    and wire :: "'e list \<Rightarrow> 'b list" and flush :: "nat \<Rightarrow> 'e list"
  assumes in_order: "ok s es \<Longrightarrow> \<exists>s' rest. runs es s = Inr s' \<and> got s' @ rest = wire es"
    and delivered: "ok s es \<Longrightarrow> length (wire es) < k \<Longrightarrow> \<exists>s'. runs (es @ flush k) s = Inr s' \<and> got s' = wire es"
begin

text \<open>At any moment the receiver has seen a beginning of the stream: it is where it would be on that stream, and has reported nothing else.\<close>

lemma fed_so_far:
  assumes "ok s es" "feed f r (wire es) = Inr (r', out)"
  shows "\<exists>s' rest r1 out1 out2. runs es s = Inr s' \<and> got s' @ rest = wire es \<and> feed f r (got s') = Inr (r1, out1) \<and>
    feed f r1 rest = Inr (r', out2) \<and> out = out1 @ out2"
proof -
  obtain s' rest where s': "runs es s = Inr s'" "got s' @ rest = wire es" using in_order [OF assms(1)] by blast
  have "feed f r (got s' @ rest) = Inr (r', out)" using assms(2) s'(2) by simp
  then obtain r1 out1 out2 where "feed f r (got s') = Inr (r1, out1)" "feed f r1 rest = Inr (r', out2)" "out = out1 @ out2"
    by (auto simp: feed_append split: prod.splits)
  then show ?thesis using s' by blast
qed

text \<open>In the end it has seen all of it.\<close>

lemma fed_all:
  assumes "ok s es" "feed f r (wire es) = Inr x" "length (wire es) < k"
  shows "\<exists>s'. runs (es @ flush k) s = Inr s' \<and> feed f r (got s') = Inr x"
  using delivered [OF assms(1,3)] assms(2) by metis

end

lemma feed_length: "feed f r bs = Inr (r', out) \<Longrightarrow> length out = length bs"
  by (induction bs arbitrary: r out) auto

text \<open>A non-blocking port as it is opened, with room for every byte of the run.\<close>

definition port_roomy :: "serial_port \<Rightarrow> line_event list \<Rightarrow> bool" where
  "port_roomy s es \<longleftrightarrow> (\<exists>n pool dma. rt_serial_rx_enable n (Some pool) False dma = Inr (Rx_opened s) \<and> 8 dvd n \<and> n < 65536 \<and> max 64 n \<le> length pool) \<and>
     with_room es s"

lemma port_link: "byte_link port_roomy line_run received wire_bytes (\<lambda>k. Dma_isr # replicate k Thread)"
proof
  fix s es assume ok: "port_roomy s es"
  then obtain n pool dma where o: "rt_serial_rx_enable n (Some pool) False dma = Inr (Rx_opened s)" "8 dvd n" "n < 65536" "max 64 n \<le> length pool"
    "with_room es s" by (auto simp: port_roomy_def)
  show "\<exists>s' rest. line_run es s = Inr s' \<and> received s' @ rest = wire_bytes es" using port_in_order [OF o] by blast
  show "\<exists>s'. line_run (es @ Dma_isr # replicate k Thread) s = Inr s' \<and> received s' = wire_bytes es" if "length (wire_bytes es) < k" for k
    using port_drains [OF o that] .
qed

interpretation port: byte_link port_roomy line_run received wire_bytes "\<lambda>k. Dma_isr # replicate k Thread"
  by (rule port_link)

section \<open>The remote control\<close>

lemma ibus_encode_frame:
  assumes "length cs = 14"
  shows "length (ibus_encode cs) = 32" "ibus_encode cs ! 0 = 0x20" "ibus_encode cs ! 1 = 0x40" 
  using assms by (simp_all add: ibus_encode_def Let_def nth_append)

lemma ibus_next:
  assumes "length (rc_buf rc) = 32" "flag rc = 0" "length cs = 14"
  obtains rc' where "feed ibus_step rc (ibus_encode cs) = Inr (rc', replicate 31 False @ [True])" "chs rc' = cs" "length (rc_buf rc') = 32" "flag rc' = 0"
proof -
  have "ibus_T rc []" using assms(1,2) by (simp add: ibus_T_def)
  from ibus_frame [OF this ibus_encode_frame [OF assms(3)]]
  obtain rc' where rc': "feed ibus_step rc (ibus_encode cs) = Inr (rc', replicate 31 False @ [True])" "ibus_T rc' []" by auto
  obtain rc2 where "feed ibus_step rc (ibus_encode cs) = Inr (rc2, replicate 31 False @ [True])" "chs rc2 = cs"
    using ibus_roundtrip [OF assms] by blast
  then show ?thesis using that rc' by (simp add: ibus_T_def unat_eq_0)
qed

lemma ibus_frames:
  assumes "length (rc_buf rc) = 32" "flag rc = 0" "\<forall>cs \<in> set css. length cs = 14"
  shows "\<exists>rc'. feed ibus_step rc (concat (map ibus_encode css)) = Inr (rc', concat (map (\<lambda>_. replicate 31 False @ [True]) css)) \<and>
    chs rc' = (if css = [] then chs rc else last css)"
  using assms
proof (induction css arbitrary: rc)
  case (Cons cs css)
  obtain rc1 where rc1: "feed ibus_step rc (ibus_encode cs) = Inr (rc1, replicate 31 False @ [True])" "chs rc1 = cs" "length (rc_buf rc1) = 32" "flag rc1 = 0"
    by (rule ibus_next [OF Cons.prems(1,2), of cs]) (use Cons.prems(3) in simp_all)
  then show ?case using Cons.IH [OF rc1(3,4)] Cons.prems(3) by (auto simp: feed_append)
qed simp

text \<open>
  C12: from the wire to the channels. Frames of the remote control arrive on its port, byte by byte, interrupts and steps of the reading
  thread in any order, with room in the FIFO: at any moment the receiver has reported packets at ends of frames only, and after
  one more interrupt and enough steps of the thread it has reported every frame, and its channels are those of the last one.
\<close>
theorem remote_control_path:
  assumes "port_roomy s es" "wire_bytes es = concat (map ibus_encode css)" "\<forall>cs \<in> set css. length cs = 14" "css \<noteq> []"
    "length (rc_buf rc) = 32" "flag rc = 0" "32 * length css < k"
  shows "(\<exists>s' rc' out rest. line_run es s = Inr s' \<and> feed ibus_step rc (received s') = Inr (rc', out) \<and>
      out @ rest = concat (replicate (length css) (replicate 31 False @ [True]))) \<and>
    (\<exists>s' rc'. line_run (es @ Dma_isr # replicate k Thread) s = Inr s' \<and> chs rc' = last css \<and>
      feed ibus_step rc (received s') = Inr (rc', concat (replicate (length css) (replicate 31 False @ [True]))))"
proof -
  have e: "concat (map (\<lambda>_. replicate 31 False @ [True]) css) = concat (replicate (length css) (replicate 31 False @ [True]))"
    by (simp add: map_replicate_const)
  obtain rc' where rc': "feed ibus_step rc (wire_bytes es) = Inr (rc', concat (replicate (length css) (replicate 31 False @ [True])))"
    "chs rc' = last css"
    using ibus_frames [OF assms(5,6,3)] assms(4) unfolding assms(2) e by auto
  have "length (concat (map ibus_encode css)) = 32 * length css"
    using assms(3) by (induction css) (simp_all add: ibus_encode_frame(1))
  then have k: "length (wire_bytes es) < k" using assms(2,7) by simp
  show ?thesis using port.fed_so_far [OF assms(1) rc'(1)] port.fed_all [OF assms(1) rc'(1) k] rc'(2) by metis
qed

section \<open>The inertial unit\<close>

text \<open>
  C20: from the inertial sensor to the attitude data. Packets of the sensor arrive on the port of the thread \<^verbatim>\<open>imu\<close>, byte by byte, interrupts
  and steps of the thread in any order, with room in the FIFO: at any moment the receiver has reported packets at ends of frames only, and
  after one more interrupt and enough steps of the thread it has reported every packet, the attitude data are the payload of the last attitude
  packet, and the receiver holds type and payload of the last packet.
\<close>
theorem imu_packet_path:
  assumes "port_roomy s es" "wire_bytes es = fdi_frames ps" "\<forall>p \<in> set ps. sensor_packet p" "ps \<noteq> []" "fdi_wf l" "RxStatus l = 0"
    "length (fdi_frames ps) < k"
  shows "(\<exists>s' r out rest. line_run es s = Inr s' \<and> feed FDILink_Receive (l, ahrs) (received s') = Inr (r, out) \<and> out @ rest = fdi_reports ps) \<and>
    (\<exists>s' l'. line_run (es @ Dma_isr # replicate k Thread) s = Inr s' \<and>
      feed FDILink_Receive (l, ahrs) (received s') = Inr ((l', fdi_ahrs ahrs ps), fdi_reports ps) \<and>
      RxType l' = uint (fst (last ps)) \<and> take (length (snd (snd (last ps)))) (Buffer l') = snd (snd (last ps)))"
proof -
  obtain l' where l': "feed FDILink_Receive (l, ahrs) (wire_bytes es) = Inr ((l', fdi_ahrs ahrs ps), fdi_reports ps)"
    "RxType l' = uint (fst (last ps)) \<and> take (length (snd (snd (last ps)))) (Buffer l') = snd (snd (last ps))"
    using recv_frames [OF assms(5,6,3)] assms(4) unfolding assms(2) by blast
  show ?thesis using port.fed_so_far [OF assms(1) l'(1)] port.fed_all [OF assms(1) l'(1), of k] l'(2) assms(2,7) by metis
qed

section \<open>Witnesses\<close>

lemma wire_bytes_map: "wire_bytes (Thread # map Wire bs @ [Dma_isr, Thread]) = bs"
proof -
  have "wire_bytes (map Wire bs @ [Dma_isr, Thread]) = bs" by (induction bs) simp_all
  then show ?thesis by simp
qed

lemma port0_roomy: "length (wire_bytes es) < 64 \<Longrightarrow> port_roomy (port0 False dma) es"
  using few_bytes_fit [OF opened_ok(1-3) [OF port0_opened], of es False dma] opened_ok(7) [OF port0_opened, of False dma]
  unfolding port_roomy_def by (intro conjI exI [of _ 64] exI [of _ "replicate 64 0"]) (auto intro: port0_opened)

theorem remote_control_path_witness:
  "\<exists>s' rc'. line_run ((Thread # map Wire (ibus_encode (replicate 14 1500)) @ [Dma_isr, Thread]) @ Dma_isr # replicate 33 Thread) (port0 False True) = Inr s' \<and>
    chs rc' = replicate 14 1500 \<and> feed ibus_step \<lparr>new_pkg = 0, rc_buf = replicate 32 0, chs = [], flag = 0\<rparr> (received s') =
      Inr (rc', replicate 31 False @ [True])"
proof -
  have w: "wire_bytes (Thread # map Wire (ibus_encode (replicate 14 1500)) @ [Dma_isr, Thread]) = concat (map ibus_encode [replicate 14 1500])"
    unfolding wire_bytes_map by simp
  have "length (wire_bytes (Thread # map Wire (ibus_encode (replicate 14 1500)) @ [Dma_isr, Thread])) < 64"
    unfolding wire_bytes_map by (simp add: ibus_encode_frame(1))
  note h = remote_control_path [OF port0_roomy [OF this] w, of "\<lparr>new_pkg = 0, rc_buf = replicate 32 0, chs = [], flag = 0\<rparr>" 33]
  have "\<exists>s' rc'. line_run ((Thread # map Wire (ibus_encode (replicate 14 1500)) @ [Dma_isr, Thread]) @ Dma_isr # replicate 33 Thread) (port0 False True) = Inr s' \<and>
    chs rc' = last [replicate 14 1500] \<and> feed ibus_step \<lparr>new_pkg = 0, rc_buf = replicate 32 0, chs = [], flag = 0\<rparr> (received s') =
      Inr (rc', concat (replicate (length [replicate 14 (1500 :: u16)]) (replicate 31 False @ [True])))"
    by (rule h [THEN conjunct2]) simp_all
  then show ?thesis by (simp del: line_run.simps)
qed

definition one_attitude :: "fdi_packet list" where
  "one_attitude = [(0x41, 3, replicate 48 5)]"

theorem imu_packet_path_witness:
  "\<exists>s' l'. line_run ((Thread # map Wire (fdi_frames one_attitude) @ [Dma_isr, Thread]) @ Dma_isr # replicate 60 Thread) (port0 False True) = Inr s' \<and>
    feed FDILink_Receive (fdi_start, []) (received s') = Inr ((l', replicate 48 5), replicate 55 0 @ [1]) \<and>
    RxType l' = 0x41 \<and> take 48 (Buffer l') = replicate 48 5"
proof -
  have len: "length (fdi_frames one_attitude) = 56" by (simp add: one_attitude_def fdi_frames_def fdi_frame_def fdi_header_def)
  have "length (wire_bytes (Thread # map Wire (fdi_frames one_attitude) @ [Dma_isr, Thread])) < 64"
    unfolding wire_bytes_map len by simp
  from imu_packet_path [OF port0_roomy [OF this, where dma = True] wire_bytes_map, where l = fdi_start and k = 60 and ahrs = "[]", THEN conjunct2] len
  have "\<exists>s' l'. line_run ((Thread # map Wire (fdi_frames one_attitude) @ [Dma_isr, Thread]) @ Dma_isr # replicate 60 Thread) (port0 False True) = Inr s' \<and>
    feed FDILink_Receive (fdi_start, []) (received s') = Inr ((l', fdi_ahrs [] one_attitude), fdi_reports one_attitude) \<and>
    RxType l' = uint (fst (last one_attitude)) \<and> take (length (snd (snd (last one_attitude)))) (Buffer l') = snd (snd (last one_attitude))"
    by (simp add: one_attitude_def sensor_packet_def fdi_start_wf del: line_run.simps)
  moreover have e: "fdi_ahrs [] one_attitude = replicate 48 5" "fdi_reports one_attitude = replicate 55 0 @ [1]"
    "uint (fst (last one_attitude)) = 0x41" "snd (snd (last one_attitude)) = replicate 48 5" "length (replicate 48 (5 :: u8)) = 48"
    by (simp_all add: fdi_ahrs_def fdi_reports_def one_attitude_def)
  ultimately show ?thesis unfolding e by blast
qed

end
