(* ===== verification/Spec2Isabelle.thy ===== *)
theory Spec2Isabelle
  imports FlowDecode StateMachine Servo EmmV5 MotorDJ Filters Echo Vision ChassisPort Links
begin

text \<open>
  \<^bold>\<open>What this development is.\<close> A model in HOL of the application code of a contest robot
  (\<^verbatim>\<open>src/project/applications\<close>, C on an STM32 under RT-Thread), with the theorems that say what its
  parts do. The robot reads sensors over serial lines (optical flow, inertial unit, odometry, remote
  control), drives motors over a CAN bus (M3508) and two serial buses (stepper motors, bus servos), and
  runs its task as a state machine; a topic bus connects threads. Each part below is a
  theory. A definition has the name of the C function it translates, so far as HOL allows, and is
  executable where the floating point model allows it.

  \<^bold>\<open>Parts and theories.\<close>
  \<^item> \<^theory_text>\<open>Prelude\<close>: machine words, the faults C leaves undefined as values (\<open>c_fault\<close>, \<open>cres\<close>, \<open>cbind\<close>), checked
    arrays, bytes of wider integers, runs of byte receivers (\<open>run\<close>, \<open>feed\<close>) and serial lines (\<open>rx_event\<close>).
  \<^item> \<^theory_text>\<open>CrcTable\<close> (\<^verbatim>\<open>CRC_Table.c\<close>): the three tables and loops; equal to bit-serial registers, for all messages.
  \<^item> \<^theory_text>\<open>FlowCheck\<close>, \<^theory_text>\<open>Framing\<close>, \<^theory_text>\<open>FlowDecode\<close> (\<^verbatim>\<open>flow/check.c\<close>, \<^verbatim>\<open>flow/flow_decode.c\<close>, \<^verbatim>\<open>flow/main_flow.c\<close>): the seven receivers of
    optical flow modules. \<^theory_text>\<open>Framing\<close> has the abstract receiver and its locales; every receiver of the code is
    shown to refine an abstract matcher, and the soundness and completeness of each follow from it.
  \<^item> \<^theory_text>\<open>FDILink\<close> (\<^verbatim>\<open>FDILink.c\<close>): packing, the receiver state machine with its three checksums, and \<open>FDILink_Send\<close>,
    which sends nothing because \<^verbatim>\<open>FDILink.h\<close> defines \<^verbatim>\<open>Serial_Send(...)\<close> as 0.
  \<^item> \<^theory_text>\<open>Receivers\<close> (\<^verbatim>\<open>bsp_sbus.c\<close>, \<^verbatim>\<open>drv_action.c\<close>): the remote control and odometry receivers.
  \<^item> \<^theory_text>\<open>StateMachine\<close> (\<^verbatim>\<open>statemachine/statemachine.c\<close>): states, transitions and the machine in an explicit memory of
    addresses; conditions and callbacks are parameters that act on the application's world.
  \<^item> \<^theory_text>\<open>AbusHash\<close> (\<^verbatim>\<open>abus_v3/src/abus_hash.c\<close>): the hash table of topics, rows as lists of nodes.
  \<^item> \<^theory_text>\<open>Floats\<close>: binary32 and binary64 over the reals, with rounding, overflow and casts, for the drivers below.
  \<^item> \<^theory_text>\<open>Servo\<close> (\<^verbatim>\<open>FasionStar/fashion_star_uart_servo.c\<close>): all commands of the bus servo on a model of the line.
  \<^item> \<^theory_text>\<open>EmmV5\<close> (\<^verbatim>\<open>motor_emm_v5_driver.c\<close>): the thirteen commands of the stepper motors and the wait for their answers.
  \<^item> \<^theory_text>\<open>Trajectory\<close> (\<^verbatim>\<open>Trajectory_planning.c\<close>): motion profiles.
  \<^item> \<^theory_text>\<open>Motor\<close> (\<^verbatim>\<open>motor.c\<close>, \<^verbatim>\<open>motor_planning.c\<close>): the motor list, the cascaded controllers, the periodic handler. The
    locale \<open>motor_backend\<close> is the contract between the handler and the drivers.
  \<^item> \<^theory_text>\<open>MotorDJ\<close> (\<^verbatim>\<open>motor_dj_rm_driver.c\<close>, the driver entry points of \<^verbatim>\<open>motor_emm_v5_driver.c\<close>): CAN frames in, torque frames
    out; it interprets \<open>motor_backend\<close> with the two drivers, so the handler's facts hold for the whole chain.
  \<^item> \<^theory_text>\<open>Rounding\<close>: distances between floats and exact numbers; the locale \<open>rounding\<close> bounds every operation of a float format
    once and is interpreted on \<^verbatim>\<open>float\<close> and \<^verbatim>\<open>double\<close>.
  \<^item> \<^theory_text>\<open>Chassis\<close> (\<^verbatim>\<open>chassis/\<close>): the chassis handler with its three sets of wheels on the motor abstraction of \<^theory_text>\<open>Motor\<close>.
  \<^item> \<^theory_text>\<open>TopicBus\<close> (\<^verbatim>\<open>abus_v3/src/abus_topic.c\<close>, \<^verbatim>\<open>abus_acc.c\<close>, \<^verbatim>\<open>abus_osal.c\<close>): topics, accounts, subscriptions and publications over the
    hash tables of \<^theory_text>\<open>AbusHash\<close>, shown to implement an abstract bus of named topics with ordered subscribers. The locale
    \<open>sub_vector\<close> is the contract of the vector library.
  \<^item> \<^theory_text>\<open>ChassisPort\<close> (\<^verbatim>\<open>chassis/chassis_port.c\<close>): the chassis as a client of the topic bus.
  \<^item> \<^theory_text>\<open>Echo\<close> (\<^verbatim>\<open>abus_v3/src/abus_echo.c\<close>): the printer of published structures, which reads the text of their C declaration.
  \<^item> \<^theory_text>\<open>Vision\<close> (\<^verbatim>\<open>drv_visual.c\<close>, \<^verbatim>\<open>aboard_power_switch.c\<close>): the receiver of the camera's frames; the power switches.
  \<^item> \<^theory_text>\<open>RingBuffer\<close> (RT-Thread's \<^verbatim>\<open>ipc/ringbuffer.c\<close>): the ring buffer with its mirror bits, shown to implement a bounded queue.
  \<^item> \<^theory_text>\<open>SerialPort\<close> (\<^verbatim>\<open>serial_v2.c\<close>, \<^verbatim>\<open>drv_usart_v2.c\<close>, \<^verbatim>\<open>completion.c\<close>, the semaphores of \<^verbatim>\<open>ipc.c\<close>): the receiving side of a serial port, from
    the wire through interrupt or circular DMA and the FIFO to the reading thread. Bytes, interrupts and steps of the thread
    (\<open>line_event\<close>, \<open>reader_pc\<close>) come in any order; the theorems quantify over all of them.
  \<^item> \<^theory_text>\<open>SerialTx\<close> (the same files): the sending side, blocking writes over a FIFO emptied by the transmit interrupt.
  \<^item> \<^theory_text>\<open>Links\<close>: receivers of the application over a port. The locale \<open>byte_link\<close> is the contract of a port to a protocol; it is interpreted on
    the model of \<^theory_text>\<open>SerialPort\<close>.
  \<^item> \<^theory_text>\<open>Guidance\<close> (\<^verbatim>\<open>carMove.c\<close>, \<^verbatim>\<open>follow_line.c\<close>): steering towards a ball, the line sensors.
  \<^item> \<^theory_text>\<open>Filters\<close> (\<^verbatim>\<open>filters/filter.c\<close>): sliding window, low pass, block mean and notch filter.

  \<^bold>\<open>How the parts interact.\<close> A CAN frame runs \<open>ind_dj_can_motor_callback\<close>, which looks up the motor, unwraps
  its angle, writes the feedback into the motor list and queues the motor's number in a ring buffer of \<^theory_text>\<open>RingBuffer\<close>; the receiving
  thread (\<open>can_rx_step\<close>) takes it and calls \<open>motor_handle\<close>, which advances a motion profile, runs the controllers
  and calls the driver, which sends a frame. \<open>dj_torque_loop\<close> is this whole path. The flow receivers and
  \<open>FDILink\<close> use the checksum theories. \<open>chassis_handle\<close> reads and commands the motors of \<^theory_text>\<open>Motor\<close> through the functions
  of its operation table, and \<open>SetCarmove\<close> commands the chassis. A command published on the bus
  runs the callback of the chassis with it (\<open>chassis_port_commands\<close>), and the thread of the chassis publishes its state. The balls of \<^theory_text>\<open>Vision\<close> are
  those \<^theory_text>\<open>Guidance\<close> steers to. The receivers of flow modules, inertial unit, odometry, remote control and camera get their bytes from the reading loop of
  \<^theory_text>\<open>SerialPort\<close>; for the remote control and the inertial unit the path from the wire to the channels and the attitude data is a theorem (\<open>remote_control_path\<close>, \<open>imu_packet_path\<close>). The other
  parts do not call each other.

  \<^bold>\<open>Correspondence.\<close> Static and global variables are fields of a record per part; an operation maps the record to
  the new one, with \<open>cres\<close> where it can fault. Structures are records with the fields of the C structure (fields nothing modelled uses
  are left out and named so), enumerations are datatypes, integers have their width as words where
  wrap-around can occur; signed arithmetic that could overflow is checked (\<open>chk32\<close>), the packet counter of
  \<open>FDILink\<close> included. A failed assertion that loops for ever is the
  fault \<open>Stuck\<close>. A local variable that is read before it is written has an undetermined value, drawn
  from a field of the state (\<open>stale\<close> in \<^theory_text>\<open>Servo\<close>). A thread that holds a mutex takes it
  again at once, as RT-Thread's mutexes allow, up to 255 times, and the next take fails; the theorems follow one thread through one call or one sequence of calls.

  \<^bold>\<open>Groups of theorems.\<close> Soundness of receivers (a reported packet was on the line, with its checksum right), completeness and
  round trips (what an encoder writes is received), freedom from faults for every byte stream, or the
  exact condition of a fault, equivalence of table loops and controllers with reference definitions,
  invariants (mutexes, motors that stay ready, a machine or a FIFO that stays well formed), order and delivery of the bytes of a port under every
  interleaving, with what an overflow and an ill-timed interrupt do to them, termination and divergence of waits,
  and rounding bounds of angles, poses and running means. Every theorem with a hypothesis has an instance proved beside it.

  \<^bold>\<open>Bounds and fuel.\<close> The search \<open>motor_get_by_canid\<close> has fuel 512; the interval shrinks in every step that does
  not leave the table, so a table of up to 127 entries needs at most 256 steps (\<open>canid_search\<close>), and the code has at most
  24. Loops that may not end (\<open>waitUntilServoIDLE\<close>) are partial functions with value \<open>None\<close> for divergence; waits on
  a line recurse on its list of events, after which the line is silent. The theorem on encoder turns allows
  positions up to \<open>2 ^ 29\<close>, within which no 32 bit product overflows. Blocking writes end within a number of rounds
  linear in their bytes (\<open>serial_writes_end\<close>).

  \<^bold>\<open>Assumptions.\<close> The build configuration of \<^verbatim>\<open>motor_cfg.h\<close> (\<open>built_cfg\<close>) in the theorem on the torque loop; other selections of
  motors are covered by the parameter of the driver. Floating point is evaluated in the
  declared type, without fused operations. The PID library, the vectors and ring buffers of the topic bus, \<^verbatim>\<open>malloc\<close>, \<^verbatim>\<open>strdup\<close>,
  \<^verbatim>\<open>sscanf\<close> and the exponential, sine and cosine functions are parameters. A freed address is not used again, and a callback of
  the application acts on the application's own state and does not call the bus. An interrupt runs to its end before the thread goes on, and each
  semaphore and completion of a port has one thread that waits, without a time limit; a port has one thread that reads and one that writes
  (which \<^verbatim>\<open>mutex_step\<close> and the mutex of the bus servo ensure for their ports). Pointers handed to an operation by its caller point to live objects.

  \<^bold>\<open>Not modelled.\<close> Input and output: device set-up, thread entry functions, delays, shell commands and log output.
  Sending without blocking or by DMA, the work of a port opened for polling (\<open>Rx_polled\<close>, \<open>Tx_polled\<close>), and the configuration of the ports.
  The other vendored code (RT-Thread beyond its ring buffer and serial ports, HAL, CMSIS, packages, Eigen, Ruckig, transforms3d), the contest
  sequence (\<^verbatim>\<open>robotmanager.c\<close>, nearly all of it commented out) and the start-up (\<^verbatim>\<open>main.c\<close>) are not part of the model.
\<close>

end
